(* ===== verification/Prelude.thy ===== *)
theory Prelude
  imports Main "HOL-Library.Word"
begin

text \<open>
  Shared vocabulary of the development: the machine integers of the C and C++ sources
  (\<open>unsigned char\<close>, \<open>uint32_t\<close>, \<open>uint64_t\<close>/\<open>uintptr_t\<close>), the reading of word
  operations as arithmetic on natural numbers, little-endian loads of eight bytes, and the
  generic lemmas on lists and alignment that several components use.
\<close>

unbundle bit_operations_syntax

type_synonym byte = "8 word"
type_synonym u32 = "32 word"
type_synonym u64 = "64 word"

named_theorems word_nat \<open>word operations read through \<open>unat\<close>\<close>

subsection \<open>Words as natural numbers\<close>

lemma unat_drop_bit_div [word_nat]: "unat (drop_bit n a) = unat a div 2 ^ n"
  by (metis drop_bit_eq_div unat_drop_bit_eq)

lemma unat_drop_bit_4 [word_nat]: "unat (drop_bit 4 a) = unat a div 16"
  by (simp add: unat_drop_bit_div)

lemma and_mask_take_bit: "(a :: 'a::len word) AND (2 ^ n - 1) = take_bit n a"
  by (simp add: take_bit_eq_mask mask_eq_exp_minus_1)

lemma unat_take_bit_mod [word_nat]: "unat (take_bit n (a :: 'a::len word)) = unat a mod 2 ^ n"
  by (metis take_bit_eq_mod unsigned_take_bit_eq)

lemma unat_and_low [word_nat]:
  fixes a :: u64
  shows "unat (a AND 15) = unat a mod 16"
    and "unat (a AND 31) = unat a mod 32"
    and "unat (a AND 127) = unat a mod 128"
  using unat_take_bit_mod [of 4 a] unat_take_bit_mod [of 5 a] unat_take_bit_mod [of 7 a]
    and_mask_take_bit [of a 4] and_mask_take_bit [of a 5] and_mask_take_bit [of a 7]
  by simp_all

lemma unat_byte_and_low [word_nat]:
  fixes v :: byte
  shows "unat (v AND 15) = unat v mod 16"
    and "unat (v AND 7) = unat v mod 8"
  using unat_take_bit_mod [of 4 v] unat_take_bit_mod [of 3 v]
    and_mask_take_bit [of v 4] and_mask_take_bit [of v 3]
  by simp_all

lemma and_not_as_minus: "(a :: 'a::len word) AND NOT b = a - (a AND b)"
proof -
  have "a - (a AND b) = a AND NOT (a AND b)"
    by (rule disjunctive_diff_eq_and_not) (simp add: bit_eq_iff bit_simps)
  also have "\<dots> = a AND NOT b"
    by (auto simp: bit_eq_iff bit_simps)
  finally show ?thesis ..
qed

lemma unat_and_not_15 [word_nat]: "unat ((a :: u64) AND NOT 15) = unat a - unat a mod 16"
proof -
  have "a AND 15 \<le> a"
    by (simp add: word_le_nat_alt unat_and_low)
  then show ?thesis
    by (simp only: and_not_as_minus unat_sub unat_and_low)
qed

lemma unat_and_minus_16 [word_nat]: "unat ((a :: u64) AND - 16) = unat a - unat a mod 16"
  using unat_and_not_15 [of a] by simp

lemma unat_and_not_mask: "unat ((a :: u64) AND NOT (2 ^ k - 1)) = unat a - unat a mod 2 ^ k"
proof -
  have "a AND (2 ^ k - 1) \<le> a"
    by (simp add: word_le_nat_alt and_mask_take_bit unat_take_bit_mod)
  then show ?thesis
    by (simp only: and_not_as_minus unat_sub and_mask_take_bit unat_take_bit_mod)
qed

lemma unat_add_no_wrap [word_nat]:
  "unat a + unat b < 2 ^ 64 \<Longrightarrow> unat (a + b :: u64) = unat a + unat b"
  by (simp add: unat_word_ariths)

lemma unat_of_nat_small [word_nat]: "n < 2 ^ 64 \<Longrightarrow> unat (word_of_nat n :: u64) = n"
  by (simp add: unat_of_nat)

lemma unat_pow2 [word_nat]: "k < 64 \<Longrightarrow> unat (2 ^ k :: u64) = 2 ^ k"
  using unat_of_nat_small [of "2 ^ k"] power_strict_increasing [of k 64 "2 :: nat"] by simp

lemma unat_byte_of_nat [word_nat]: "n < 256 \<Longrightarrow> unat (word_of_nat n :: byte) = n"
  by (simp add: unat_of_nat)

lemma unat_u64_less: "unat (a :: u64) < 2 ^ 64"
  using unsigned_less [of a] by simp

lemma unat_byte_less: "unat (v :: byte) < 256"
  using unsigned_less [of v] by simp

text \<open>Fields of a number put together with \<open>OR\<close>.\<close>

lemma or_low_add: "r < 2 ^ n \<Longrightarrow> (2 ^ n * q) OR r = 2 ^ n * q + (r :: nat)"
proof -
  assume "r < 2 ^ n"
  then have r: "take_bit n r = r" by (simp add: take_bit_nat_eq_self)
  have "push_bit n q AND take_bit n r = 0"
    by (rule bit_eqI) (auto simp: bit_simps)
  then have "push_bit n q + take_bit n r = push_bit n q OR take_bit n r"
    by (rule disjunctive_add_eq_or)
  then show ?thesis by (simp add: r push_bit_eq_mult mult.commute)
qed

text \<open>A word comparison as a comparison of natural numbers.\<close>

lemmas word_order_nat = word_le_nat_alt word_less_nat_alt

lemma div16_add: "((u :: nat) + i) div 16 = u div 16 + (u mod 16 + i) div 16"
proof -
  have "u + i = (u mod 16 + i) + u div 16 * 16" by simp
  then show ?thesis by (metis add.commute div_mult_self3 zero_neq_numeral)
qed

lemma mod16_add: "((u :: nat) + i) mod 16 = (u mod 16 + i) mod 16"
  by (simp add: mod_add_left_eq)

subsection \<open>Sign bits\<close>

lemma byte_bit7: "bit (v :: byte) 7 \<longleftrightarrow> 128 \<le> unat v"
proof -
  have "bit v 7 \<longleftrightarrow> bit (unat v) 7"
    by (simp add: bit_unsigned_iff)
  also have "\<dots> \<longleftrightarrow> odd (unat v div 128)"
    by (simp add: bit_iff_odd)
  also have "\<dots> \<longleftrightarrow> 128 \<le> unat v"
  proof -
    have "unat v div 128 < 2"
      using unat_byte_less [of v] by (simp add: less_mult_imp_div_less)
    then have "odd (unat v div 128) \<longleftrightarrow> unat v div 128 \<noteq> 0"
      by (auto simp: less_2_cases_iff)
    then show ?thesis by (auto simp: div_eq_0_iff)
  qed
  finally show ?thesis .
qed

subsection \<open>The scan of a string\<close>

text \<open>
  What the code emitted for a library call relies on: a scan with a positive bound gives the length of the
  string, or the bound. \<open>isLength p n\<close> says that the scan of the string of \<open>n\<close> characters at \<open>p\<close>
  is defined. The runtime's string guard provides it.
\<close>

locale string_scan =
  fixes scan :: "u64 \<Rightarrow> u64 \<Rightarrow> u64" and isLength :: "u64 \<Rightarrow> nat \<Rightarrow> bool"
  assumes scan_min: "isLength p n \<Longrightarrow> 0 < b \<Longrightarrow> unat (scan p b) = min (unat b) n"
    and length_small: "isLength p n \<Longrightarrow> n < 2 ^ 64"
begin

lemma scan_uint: "isLength p n \<Longrightarrow> 0 < b \<Longrightarrow> uint (scan p b) = min (uint b) (int n)"
  using scan_min [of p n b] by (metis of_nat_min uint_nat)

lemma length_unique:
  assumes "isLength p n" "isLength p k"
  shows "n = k"
proof -
  have "n \<le> unat (- 1 :: u64)" "k \<le> unat (- 1 :: u64)"
    using length_small assms by (auto simp: unsigned_minus_1_eq_mask mask_eq_exp_minus_1 dest: length_small)
  moreover have "0 < (- 1 :: u64)" by (simp add: word_less_nat_alt unsigned_minus_1_eq_mask mask_eq_exp_minus_1)
  ultimately show ?thesis using scan_min [OF assms(1), of "- 1"] scan_min [OF assms(2), of "- 1"] by simp
qed

end

end
