(* ===== verification/Shadow.thy ===== *)
theory Shadow
  imports Prelude
begin

text \<open>
  The shadow of \<open>runtime/weavec_rt.h\<close>: one byte per 16-byte granule of the window, its
  encoding (addressable in an object of a color, partially addressable, poison), the
  descriptor \<open>__weavec_rt_shadow\<close> with the address of a granule's byte, and the eight-byte
  chunk check \<open>weavecRtQuickOk\<close>. The writers are in \<open>Shadow_Write\<close>.

  A pointer into the shadow is its offset from the descriptor's \<open>base\<close>, so the shadow
  memory is a function of that offset; \<open>byte_ok\<close> and \<open>addressable\<close> are the
  byte-level meaning of the encoding that the guards are verified against.
\<close>

subsection \<open>The encoding\<close>

abbreviation WeavecRtShadowAddressable :: byte where "WeavecRtShadowAddressable \<equiv> 0x00"
abbreviation WeavecRtShadowPoisonFrom :: byte where "WeavecRtShadowPoisonFrom \<equiv> 0xF0"
abbreviation WeavecRtShadowStackLeft :: byte where "WeavecRtShadowStackLeft \<equiv> 0xF1"
abbreviation WeavecRtShadowStackMid :: byte where "WeavecRtShadowStackMid \<equiv> 0xF2"
abbreviation WeavecRtShadowStackRight :: byte where "WeavecRtShadowStackRight \<equiv> 0xF3"
abbreviation WeavecRtShadowStackDynamic :: byte where "WeavecRtShadowStackDynamic \<equiv> 0xF4"
abbreviation WeavecRtShadowReturned :: byte where "WeavecRtShadowReturned \<equiv> 0xF5"
abbreviation WeavecRtShadowUser :: byte where "WeavecRtShadowUser \<equiv> 0xF7"
abbreviation WeavecRtShadowStackScope :: byte where "WeavecRtShadowStackScope \<equiv> 0xF8"
abbreviation WeavecRtShadowGlobal :: byte where "WeavecRtShadowGlobal \<equiv> 0xF9"
abbreviation WeavecRtShadowHeapTail :: byte where "WeavecRtShadowHeapTail \<equiv> 0xFA"
abbreviation WeavecRtShadowHeapFreed :: byte where "WeavecRtShadowHeapFreed \<equiv> 0xFD"
abbreviation WeavecRtShadowNull :: byte where "WeavecRtShadowNull \<equiv> 0xFE"
abbreviation WeavecRtNullPage :: nat where "WeavecRtNullPage \<equiv> 65536"

definition weavecRtShadowFull :: "byte \<Rightarrow> bool" where
  "weavecRtShadowFull v \<longleftrightarrow> v < 0x80"

definition weavecRtShadowPoison :: "byte \<Rightarrow> bool" where
  "weavecRtShadowPoison v \<longleftrightarrow> v \<ge> WeavecRtShadowPoisonFrom"

definition weavecRtShadowBytes :: "byte \<Rightarrow> nat" where
  "weavecRtShadowBytes v = unat (v AND 15)"

definition weavecRtShadowPartialOf :: "byte \<Rightarrow> nat \<Rightarrow> byte" where
  "weavecRtShadowPartialOf color k = 0x80 OR push_bit 4 (color AND 7) OR word_of_nat k"

definition weavecRtShadowClass :: "byte \<Rightarrow> byte" where
  "weavecRtShadowClass v = (if v < 0x80 then v AND 7 else drop_bit 4 v AND 7)"

definition weavecRtColor :: "u64 \<Rightarrow> byte" where
  "weavecRtColor n =
     (let m = unat n mod 111 + 1 in word_of_nat (push_bit 3 (m div 7) OR (m mod 7)))"

subsection \<open>The descriptor and the shadow memory\<close>

text \<open>\<open>__weavec_rt_shadow\<close> and the bytes behind its \<open>base\<close>.\<close>

record shadow_t =
  shMask :: u64
  shBits :: nat
  shMem :: "u64 \<Rightarrow> byte"

definition weavecRtShadowReady :: "shadow_t \<Rightarrow> bool" where
  "weavecRtShadowReady s \<longleftrightarrow> shMask s \<noteq> 0"

definition weavecRtInWindow :: "shadow_t \<Rightarrow> u64 \<Rightarrow> bool" where
  "weavecRtInWindow s address \<longleftrightarrow> shBits s \<ge> 64 \<or> drop_bit (shBits s) address = 0"

definition weavecRtShadowOf :: "shadow_t \<Rightarrow> u64 \<Rightarrow> u64" where
  "weavecRtShadowOf s address = drop_bit 4 address AND shMask s"

abbreviation shadowByte :: "shadow_t \<Rightarrow> u64 \<Rightarrow> byte" where
  "shadowByte s address \<equiv> shMem s (weavecRtShadowOf s address)"

text \<open>A little-endian load of eight shadow bytes (the targets are x86-64 and AArch64).\<close>

definition load64 :: "(u64 \<Rightarrow> byte) \<Rightarrow> u64 \<Rightarrow> u64" where
  "load64 m i =
     ucast (m i) OR push_bit 8 (ucast (m (i + 1))) OR push_bit 16 (ucast (m (i + 2))) OR
     push_bit 24 (ucast (m (i + 3))) OR push_bit 32 (ucast (m (i + 4))) OR
     push_bit 40 (ucast (m (i + 5))) OR push_bit 48 (ucast (m (i + 6))) OR
     push_bit 56 (ucast (m (i + 7)))"

abbreviation signBits :: u64 where "signBits \<equiv> 0x8080808080808080"

definition weavecRtQuickOk :: "shadow_t \<Rightarrow> u64 \<Rightarrow> u64 \<Rightarrow> bool" where
  "weavecRtQuickOk s address n =
     (if n = 0 then True
      else if n > 113 \<or> \<not> weavecRtShadowReady s \<or> \<not> weavecRtInWindow s address then False
      else
        let last = (address AND 15) + n - 1;
            shift = unat (drop_bit 4 last) * 8;
            chunk = load64 (shMem s) (weavecRtShadowOf s address)
        in if shift \<noteq> 0 \<and> chunk AND (push_bit shift 1 - 1) AND signBits \<noteq> 0 then False
           else
             let value = ucast (drop_bit shift chunk) :: byte
             in weavecRtShadowFull value \<or>
                (\<not> weavecRtShadowPoison value \<and> unat (last AND 15) < weavecRtShadowBytes value))"

subsection \<open>What the encoding means\<close>

text \<open>
  \<open>byte_ok v o\<close>: byte \<open>o\<close> of a granule whose shadow byte is \<open>v\<close> belongs to a live
  object or to untracked memory.
\<close>

definition byte_ok :: "byte \<Rightarrow> nat \<Rightarrow> bool" where
  "byte_ok v o' \<longleftrightarrow>
     weavecRtShadowFull v \<or> (\<not> weavecRtShadowPoison v \<and> o' < weavecRtShadowBytes v)"

definition addressable :: "shadow_t \<Rightarrow> u64 \<Rightarrow> bool" where
  "addressable s a \<longleftrightarrow> byte_ok (shadowByte s a) (unat a mod 16)"

definition all_addressable :: "shadow_t \<Rightarrow> u64 \<Rightarrow> nat \<Rightarrow> bool" where
  "all_addressable s a n \<longleftrightarrow> (\<forall>i < n. addressable s (a + word_of_nat i))"

text \<open>The descriptor \<open>reserveShadow\<close> publishes, for the widths the code computes.\<close>

definition shadow_wf :: "shadow_t \<Rightarrow> bool" where
  "shadow_wf s \<longleftrightarrow> 4 < shBits s \<and> shBits s < 64 \<and> shMask s = 2 ^ (shBits s - 4) - 1"

subsection \<open>Lemmas: the encoding\<close>

lemma full_iff: "weavecRtShadowFull v \<longleftrightarrow> unat v < 128"
  by (simp add: weavecRtShadowFull_def word_less_nat_alt)

lemma poison_iff: "weavecRtShadowPoison v \<longleftrightarrow> 240 \<le> unat v"
  by (simp add: weavecRtShadowPoison_def word_le_nat_alt)

lemma full_bit7: "weavecRtShadowFull v \<longleftrightarrow> \<not> bit v 7"
  by (simp add: full_iff byte_bit7 not_le)

lemma shadow_bytes_less: "weavecRtShadowBytes v < 16"
  by (simp add: weavecRtShadowBytes_def word_nat)

lemma byte_ok_mono: "byte_ok v k \<Longrightarrow> j \<le> k \<Longrightarrow> byte_ok v j"
  by (auto simp: byte_ok_def)

lemma byte_ok_15: "byte_ok v 15 \<longleftrightarrow> weavecRtShadowFull v"
  using shadow_bytes_less [of v] by (auto simp: byte_ok_def)

lemma byte_ok_full: "weavecRtShadowFull v \<Longrightarrow> byte_ok v k"
  by (simp add: byte_ok_def)

lemma not_byte_ok_poison: "weavecRtShadowPoison v \<Longrightarrow> \<not> byte_ok v k"
  by (auto simp: byte_ok_def poison_iff full_iff)

text \<open>
  The bytes of a range, granule by granule: every granule but the last must be whole, and
  the last must hold the range's last byte. \<open>f k\<close> is the shadow byte of the \<open>k\<close>-th
  granule, \<open>o'\<close> the offset of the range in the first.
\<close>

lemma granules_range_iff:
  assumes n: "0 < n"
  shows "(\<forall>i < n. byte_ok (f ((o' + i) div 16)) ((o' + i) mod 16)) \<longleftrightarrow>
    (\<forall>k < (o' + n - 1) div 16. o' div 16 \<le> k \<longrightarrow> weavecRtShadowFull (f k)) \<and>
    byte_ok (f ((o' + n - 1) div 16)) ((o' + n - 1) mod 16)"
    (is "?L \<longleftrightarrow> ?R")
proof
  assume L: ?L
  have "byte_ok (f ((o' + n - 1) div 16)) ((o' + n - 1) mod 16)"
    using L [rule_format, of "n - 1"] n by (simp add: Nat.add_diff_assoc)
  moreover have "weavecRtShadowFull (f k)"
    if k: "k < (o' + n - 1) div 16" and low: "o' div 16 \<le> k" for k
  proof -
    define i where "i = 16 * k + 15 - o'"
    have "o' \<le> 16 * k + 15" using low by linarith
    then have o: "o' + i = 16 * k + 15" by (simp add: i_def)
    have "i < n" using k n o by linarith
    then have "byte_ok (f ((o' + i) div 16)) ((o' + i) mod 16)" using L by blast
    then show ?thesis by (simp add: o byte_ok_15)
  qed
  ultimately show ?R by blast
next
  assume R: ?R
  show ?L
  proof (intro allI impI)
    fix i assume i: "i < n"
    show "byte_ok (f ((o' + i) div 16)) ((o' + i) mod 16)"
    proof (cases "(o' + i) div 16 < (o' + n - 1) div 16")
      case True
      then show ?thesis using R by (auto intro!: byte_ok_full div_le_mono)
    next
      case False
      have le: "o' + i \<le> o' + n - 1" using i by simp
      then have "(o' + i) div 16 \<le> (o' + n - 1) div 16" by (rule div_le_mono)
      with False have eq: "(o' + i) div 16 = (o' + n - 1) div 16" by simp
      have "(o' + i) mod 16 \<le> (o' + n - 1) mod 16"
        using le eq by (metis add_le_cancel_left mult_div_mod_eq)
      then show ?thesis using R byte_ok_mono eq by metis
    qed
  qed
qed

subsection \<open>Lemmas: addresses and their shadow bytes\<close>

lemma shadow_wf_ready: "shadow_wf s \<Longrightarrow> weavecRtShadowReady s"
proof -
  assume wf: "shadow_wf s"
  then have "(1 :: nat) < 2 ^ (shBits s - 4)"
    by (intro one_less_power) (auto simp: shadow_wf_def)
  moreover have "(2 :: nat) ^ (shBits s - 4) < 2 ^ 64"
    using wf by (intro power_strict_increasing) (auto simp: shadow_wf_def)
  moreover have "unat (2 ^ (shBits s - 4) :: u64) = 2 ^ (shBits s - 4)"
    using wf by (intro unat_pow2) (auto simp: shadow_wf_def)
  ultimately show ?thesis
    using wf by (auto simp: weavecRtShadowReady_def shadow_wf_def dest: arg_cong [of _ _ unat])
qed

lemma in_window_iff:
  "shadow_wf s \<Longrightarrow> weavecRtInWindow s a \<longleftrightarrow> unat a < 2 ^ shBits s"
  by (simp add: weavecRtInWindow_def shadow_wf_def unat_drop_bit_div div_eq_0_iff
      unat_eq_0 [symmetric] del: unat_eq_zero)

lemma unat_shadowOf:
  assumes "shadow_wf s" and "unat a < 2 ^ shBits s"
  shows "unat (weavecRtShadowOf s a) = unat a div 16"
proof -
  have "(2 :: nat) ^ shBits s = 2 ^ (shBits s - 4) * 16"
    using assms(1) le_Suc_ex [of 4 "shBits s"] by (auto simp: shadow_wf_def power_add)
  then have "unat a div 16 < 2 ^ (shBits s - 4)"
    using assms(2) by (simp add: less_mult_imp_div_less)
  then show ?thesis
    using assms(1)
    by (simp add: weavecRtShadowOf_def shadow_wf_def and_mask_take_bit unat_take_bit_mod
        unat_drop_bit_4)
qed

lemma shadowOf_add:
  assumes wf: "shadow_wf s" and i: "unat a + i < 2 ^ shBits s"
  shows "weavecRtShadowOf s (a + word_of_nat i) =
         weavecRtShadowOf s a + word_of_nat ((unat a mod 16 + i) div 16)"
proof -
  have lt: "(2 :: nat) ^ shBits s \<le> 2 ^ 63"
    using wf by (intro power_increasing) (auto simp: shadow_wf_def)
  have a: "unat (a + word_of_nat i) = unat a + i"
    using i lt by (subst unat_add_no_wrap) (auto simp: unat_of_nat)
  have "unat (weavecRtShadowOf s (a + word_of_nat i)) = (unat a + i) div 16"
    using wf i a by (simp add: unat_shadowOf)
  also have "\<dots> = unat a div 16 + (unat a mod 16 + i) div 16"
    by (rule div16_add)
  also have "\<dots> = unat (weavecRtShadowOf s a + word_of_nat ((unat a mod 16 + i) div 16))"
    using wf i lt by (subst unat_add_no_wrap) (auto simp: unat_of_nat unat_shadowOf)
  finally show ?thesis by (simp add: word_unat_eq_iff)
qed


lemma addressable_add:
  assumes "shadow_wf s" and "unat a + i < 2 ^ shBits s"
  shows "addressable s (a + word_of_nat i) \<longleftrightarrow>
         byte_ok (shMem s (weavecRtShadowOf s a + word_of_nat ((unat a mod 16 + i) div 16)))
           ((unat a mod 16 + i) mod 16)"
proof -
  have "(2 :: nat) ^ shBits s \<le> 2 ^ 63"
    using assms(1) by (intro power_increasing) (auto simp: shadow_wf_def)
  then have "unat (a + word_of_nat i) = unat a + i"
    using assms(2) by (subst unat_add_no_wrap) (auto simp: unat_of_nat)
  then show ?thesis
    using assms by (simp add: addressable_def shadowOf_add mod16_add [of "unat a" i])
qed

text \<open>The reading every guard of this development is compared with.\<close>

lemma all_addressable_granules:
  assumes wf: "shadow_wf s" and n: "0 < n" and win: "unat a + n \<le> 2 ^ shBits s"
    and last: "l = unat a mod 16 + n - 1"
  shows "all_addressable s a n \<longleftrightarrow>
    (\<forall>k < l div 16. weavecRtShadowFull (shMem s (weavecRtShadowOf s a + word_of_nat k))) \<and>
    byte_ok (shMem s (weavecRtShadowOf s a + word_of_nat (l div 16))) (l mod 16)"
proof -
  have "all_addressable s a n \<longleftrightarrow>
    (\<forall>i < n. byte_ok (shMem s (weavecRtShadowOf s a + word_of_nat ((unat a mod 16 + i) div 16)))
           ((unat a mod 16 + i) mod 16))"
    using win by (auto simp: all_addressable_def addressable_add [OF wf])
  also have "\<dots> \<longleftrightarrow> (\<forall>k < l div 16. unat a mod 16 div 16 \<le> k \<longrightarrow>
      weavecRtShadowFull (shMem s (weavecRtShadowOf s a + word_of_nat k))) \<and>
    byte_ok (shMem s (weavecRtShadowOf s a + word_of_nat (l div 16))) (l mod 16)"
    unfolding last by (rule granules_range_iff [OF n])
  finally show ?thesis by simp
qed

subsection \<open>Lemmas: eight bytes at a time\<close>

lemma bit_ucast_byte: "bit (ucast (v :: byte) :: u64) n \<longleftrightarrow> bit v n"
  by (auto simp: bit_simps dest: bit_imp_le_length)

lemma bit_load64_aux:
  assumes "q < 8" and r: "r < 8"
  shows "bit (load64 m i) (8 * q + r) \<longleftrightarrow> bit (m (i + word_of_nat q)) r"
proof -
  have out: "\<not> bit (m j) k" if "8 \<le> k" for j k
    using that bit_imp_le_length [of "m j" k] by auto
  have eq: "bit (load64 m i) n \<longleftrightarrow>
    bit (m i) n \<or> (8 \<le> n \<and> bit (m (i + 1)) (n - 8)) \<or> (16 \<le> n \<and> bit (m (i + 2)) (n - 16)) \<or>
    (24 \<le> n \<and> bit (m (i + 3)) (n - 24)) \<or> (32 \<le> n \<and> bit (m (i + 4)) (n - 32)) \<or>
    (40 \<le> n \<and> bit (m (i + 5)) (n - 40)) \<or> (48 \<le> n \<and> bit (m (i + 6)) (n - 48)) \<or>
    (56 \<le> n \<and> bit (m (i + 7)) (n - 56))" if "n < 64" for n
    using that by (simp add: load64_def bit_or_iff bit_push_bit_iff bit_ucast_byte)
  from assms(1) consider "q = 0" | "q = 1" | "q = 2" | "q = 3" | "q = 4" | "q = 5" | "q = 6"
    | "q = 7" by linarith
  then show ?thesis
    using r by cases (simp_all add: eq out)
qed

lemma bit_load64:
  "n < 64 \<Longrightarrow> bit (load64 m i) n \<longleftrightarrow> bit (m (i + word_of_nat (n div 8))) (n mod 8)"
  using bit_load64_aux [of "n div 8" "n mod 8" m i] by simp

lemma bit_signBits: "n < 64 \<Longrightarrow> bit signBits n \<longleftrightarrow> n mod 8 = 7"
proof -
  assume n: "n < 64"
  have "signBits = load64 (\<lambda>_. 0x80) 0"
    by (simp add: load64_def)
  then have "bit signBits n \<longleftrightarrow> bit (load64 (\<lambda>_. 0x80) 0) n"
    by (simp only:)
  also have "\<dots> \<longleftrightarrow> bit (0x80 :: byte) (n mod 8)"
    by (rule bit_load64 [OF n])
  also have "\<dots> \<longleftrightarrow> n mod 8 = 7"
  proof -
    have "n mod 8 < 8" by simp
    then consider "n mod 8 = 0" | "n mod 8 = 1" | "n mod 8 = 2" | "n mod 8 = 3" | "n mod 8 = 4"
      | "n mod 8 = 5" | "n mod 8 = 6" | "n mod 8 = 7" by linarith
    then show ?thesis by cases simp_all
  qed
  finally show ?thesis .
qed

lemma push_bit_one_minus: "push_bit k (1 :: u64) - 1 = Bit_Operations.mask k"
  by (simp add: mask_eq_exp_minus_1 push_bit_eq_mult)

text \<open>
  The sign bits of the first \<open>g\<close> bytes of a chunk are clear exactly when those granules
  are whole; the byte above them is read by a shift.
\<close>

lemma chunk_signs_clear:
  assumes g: "g \<le> 8"
  shows "load64 m i AND (push_bit (8 * g) 1 - 1) AND signBits = 0 \<longleftrightarrow>
         (\<forall>k < g. weavecRtShadowFull (m (i + word_of_nat k)))"
proof
  assume z: "load64 m i AND (push_bit (8 * g) 1 - 1) AND signBits = 0"
  show "\<forall>k < g. weavecRtShadowFull (m (i + word_of_nat k))"
  proof (intro allI impI)
    fix k assume k: "k < g"
    have "\<not> bit (load64 m i AND (push_bit (8 * g) 1 - 1) AND signBits) (8 * k + 7)"
      unfolding z by simp
    moreover have "bit (push_bit (8 * g) 1 - 1 :: u64) (8 * k + 7)"
      using k g by (simp only: push_bit_one_minus bit_mask_iff) simp
    moreover have "bit signBits (8 * k + 7)"
      using k g by (subst bit_signBits) simp_all
    ultimately have "\<not> bit (load64 m i) (8 * k + 7)"
      by (simp only: bit_and_iff)  blast
    then show "weavecRtShadowFull (m (i + word_of_nat k))"
      using k g by (simp add: bit_load64_aux full_bit7)
  qed
next
  assume full: "\<forall>k < g. weavecRtShadowFull (m (i + word_of_nat k))"
  show "load64 m i AND (push_bit (8 * g) 1 - 1) AND signBits = 0"
  proof (rule bit_word_eqI)
    fix n assume "n < LENGTH(64)"
    then have n: "n < 64" by simp
    have "\<not> (bit (load64 m i) n \<and> n < 8 * g \<and> n mod 8 = 7)"
    proof
      assume b: "bit (load64 m i) n \<and> n < 8 * g \<and> n mod 8 = 7"
      then have "n div 8 < g" by (simp add: less_mult_imp_div_less mult.commute)
      with full b show False by (auto simp: bit_load64 [OF n] full_bit7)
    qed
    then show "bit (load64 m i AND (push_bit (8 * g) 1 - 1) AND signBits) n \<longleftrightarrow> bit (0 :: u64) n"
      by (simp only: bit_and_iff push_bit_one_minus bit_mask_iff bit_signBits [OF n] bit_0_eq bot_apply
          bot_bool_def) blast
  qed
qed

lemma chunk_byte:
  assumes g: "g < 8"
  shows "(ucast (drop_bit (8 * g) (load64 m i)) :: byte) = m (i + word_of_nat g)"
proof (rule bit_word_eqI)
  fix n assume "n < LENGTH(8)"
  then show "bit (ucast (drop_bit (8 * g) (load64 m i)) :: byte) n \<longleftrightarrow> bit (m (i + word_of_nat g)) n"
    using g by (simp add: bit_simps bit_load64_aux)
qed

text \<open>\<open>weavecRtQuickOk\<close> decides exactly, for what it decides at all.\<close>

lemma quickOk_exact:
  assumes wf: "shadow_wf s" and n: "0 < n" "n \<le> 113"
    and win: "unat a + unat n \<le> 2 ^ shBits s"
  shows "weavecRtQuickOk s a n \<longleftrightarrow> all_addressable s a (unat n)"
proof -
  define l where "l = unat a mod 16 + unat n - 1"
  have n': "0 < unat n" "unat n \<le> 113"
    using n by (simp_all add: word_less_nat_alt word_le_nat_alt)
  have m16: "unat a mod 16 < 16" by simp
  have l: "l < 128" using n' m16 by (simp add: l_def)
  have sum: "unat ((a AND 15) + n) = unat a mod 16 + unat n"
    using n' m16 by (subst unat_add_no_wrap) (auto simp: word_nat)
  then have "1 \<le> (a AND 15) + n"
    using n' by (simp add: word_le_nat_alt)
  then have last: "unat ((a AND 15) + n - 1) = l"
    by (simp add: unat_sub sum l_def)
  have g: "l div 16 < 8" using l by (simp add: less_mult_imp_div_less)
  have le: "\<not> n > 113" using n by simp
  have inw: "weavecRtInWindow s a"
    using win n' by (simp add: in_window_iff [OF wf])
  have shift: "unat (drop_bit 4 ((a AND 15) + n - 1)) * 8 = 8 * (l div 16)"
    by (simp add: unat_drop_bit_4 last)
  let ?m = "\<lambda>k. shMem s (weavecRtShadowOf s a + word_of_nat k)"
  have "weavecRtQuickOk s a n \<longleftrightarrow>
      (\<forall>k < l div 16. weavecRtShadowFull (?m k)) \<and> byte_ok (?m (l div 16)) (l mod 16)"
    using n le inw shadow_wf_ready [OF wf] chunk_signs_clear [of "l div 16"] g
    unfolding weavecRtQuickOk_def Let_def shift byte_ok_def
    by (auto simp: chunk_byte last unat_and_low)
  also have "\<dots> \<longleftrightarrow> all_addressable s a (unat n)"
    by (rule all_addressable_granules [OF wf n'(1) win l_def, symmetric])
  finally show ?thesis .
qed

subsection \<open>The interface of a range check\<close>

text \<open>
  What the guards ask of a check of \<open>n\<close> bytes at an address: inside the window and up to
  the check's limit it decides addressability exactly. \<open>weavecRtQuickOk\<close>,
  \<open>allAddressable\<close> and the inline check of the guard pass are the checks.
\<close>

locale range_check =
  fixes chk :: "shadow_t \<Rightarrow> u64 \<Rightarrow> u64 \<Rightarrow> bool" and lim :: u64
  assumes exact: "shadow_wf s \<Longrightarrow> 0 < n \<Longrightarrow> n \<le> lim \<Longrightarrow> unat a + unat n \<le> 2 ^ shBits s \<Longrightarrow>
    chk s a n \<longleftrightarrow> all_addressable s a (unat n)"
begin

lemma passed_byte:
  assumes "shadow_wf s" "0 < n" "n \<le> lim" "unat a + unat n \<le> 2 ^ shBits s" "chk s a n" "i < unat n"
  shows "addressable s (a + word_of_nat i)"
  using assms exact by (simp add: all_addressable_def)

text \<open>A check that passed covers every narrower check inside it.\<close>

lemma covers:
  assumes wf: "shadow_wf s" and n: "0 < n" "n \<le> lim" and win: "unat a + unat n \<le> 2 ^ shBits s"
    and ok: "chk s a n" and m: "0 < m" "i + unat m \<le> unat n"
  shows "chk s (a + word_of_nat i) m"
proof -
  have "(2 :: nat) ^ shBits s \<le> 2 ^ 63"
    using wf by (intro power_increasing) (auto simp: shadow_wf_def)
  then have a: "unat (a + word_of_nat i) = unat a + i"
    using win m by (subst unat_add_no_wrap) (auto simp: unat_of_nat)
  have "m \<le> n" using m(2) by (simp add: word_le_nat_alt)
  then have ml: "m \<le> lim" using n(2) by (rule order_trans)
  have "all_addressable s a (unat n)" using exact [OF wf n win] ok by blast
  then have "addressable s (a + word_of_nat (i + j))" if "j < unat m" for j
    using that m(2) unfolding all_addressable_def by (elim allE [of _ "i + j"]) simp
  then have "all_addressable s (a + word_of_nat i) (unat m)"
    by (simp add: all_addressable_def add.assoc)
  then show ?thesis using exact [OF wf m(1) ml] win m a by simp
qed

end

interpretation quick: range_check weavecRtQuickOk 113
  by unfold_locales (rule quickOk_exact)

subsection \<open>Properties\<close>

text \<open>
  C14: the chunk check \<open>weavecRtQuickOk\<close> decides exactly: for 1 to 113 bytes inside the
  window, one eight-byte load of the shadow says yes if and only if every byte of the range
  is addressable.
\<close>

theorem weavecRtQuickOk_exact:
  assumes "shadow_wf s" and "0 < n" and "n \<le> 113" and "unat a + unat n \<le> 2 ^ shBits s"
  shows "weavecRtQuickOk s a n \<longleftrightarrow> (\<forall>i < unat n. addressable s (a + word_of_nat i))"
  using quickOk_exact [OF assms] by (simp add: all_addressable_def)

theorem weavecRtQuickOk_exact_witness:
  "(let s = \<lparr>shMask = 15, shBits = 8, shMem = (\<lambda>i. if i < 3 then 9 else 0xFA)\<rparr>
    in weavecRtQuickOk s 8 40 = (\<forall>i < 40. addressable s (8 + word_of_nat i)))"
  using weavecRtQuickOk_exact [of "\<lparr>shMask = 15, shBits = 8,
      shMem = (\<lambda>i. if i < 3 then 9 else 0xFA)\<rparr>" 40 8]
  by (simp add: shadow_wf_def Let_def)

end
