(* ===== verification/Shadow_Write.thy ===== *)
theory Shadow_Write
  imports Shadow
begin

text \<open>
  The writers of the shadow in \<open>runtime/weavec_alloc.c\<close>: \<open>fill\<close>,
  \<open>weavecRtShadowSet\<close>, \<open>weavecRtShadowClear\<close>, \<open>weavecRtShadowObject\<close> and the
  reservation of the window. The lemmas show that the small stores of \<open>fill\<close> write what
  \<open>memset\<close> writes, and which bytes of the program are addressable after each writer.
\<close>

subsection \<open>Writing the shadow\<close>

text \<open>
  \<open>memset\<close> and the stores of \<open>fill\<close>: \<open>n\<close> bytes from an offset, and a
  little-endian store of \<open>k\<close> bytes of a word.
\<close>

definition memset :: "(u64 \<Rightarrow> byte) \<Rightarrow> u64 \<Rightarrow> byte \<Rightarrow> nat \<Rightarrow> (u64 \<Rightarrow> byte)" where
  "memset m at v n = (\<lambda>i. if unat (i - at) < n then v else m i)"

definition memcpyWord :: "(u64 \<Rightarrow> byte) \<Rightarrow> u64 \<Rightarrow> nat \<Rightarrow> u64 \<Rightarrow> (u64 \<Rightarrow> byte)" where
  "memcpyWord m at k w =
     (\<lambda>i. if unat (i - at) < k then ucast (drop_bit (8 * unat (i - at)) w) else m i)"

definition fill :: "(u64 \<Rightarrow> byte) \<Rightarrow> u64 \<Rightarrow> byte \<Rightarrow> nat \<Rightarrow> (u64 \<Rightarrow> byte)" where
  "fill m at value n =
     (if n > 16 then memset m at value n
      else if n \<ge> 8 then
        let pattern = 0x0101010101010101 * ucast value :: u64
        in memcpyWord (memcpyWord m at 8 pattern) (at + word_of_nat n - 8) 8 pattern
      else if n \<ge> 4 then
        let pattern = 0x01010101 * ucast value :: u64
        in memcpyWord (memcpyWord m at 4 pattern) (at + word_of_nat n - 4) 4 pattern
      else if n \<noteq> 0 then
        ((m(at := value))(at + word_of_nat n - 1 := value))(at + word_of_nat (n div 2) := value)
      else m)"

definition weavecRtShadowSet :: "shadow_t \<Rightarrow> u64 \<Rightarrow> u64 \<Rightarrow> byte \<Rightarrow> shadow_t" where
  "weavecRtShadowSet s base sz value =
     (if \<not> weavecRtShadowReady s \<or> sz = 0 \<or> \<not> weavecRtInWindow s base then s
      else s\<lparr>shMem := fill (shMem s) (weavecRtShadowOf s base) value (unat (drop_bit 4 (sz + 15)))\<rparr>)"

text \<open>
  \<open>weavecRtShadowClear\<close>: whole pages are mapped afresh, which reads as zero bytes; the
  bytes before and after them are written. When the mapping fails everything is written.
  \<open>base\<close> is the shadow's own address, which decides where its pages start, and
  \<open>mapped\<close> whether \<open>mmap\<close> succeeds.
\<close>

definition weavecRtShadowClear ::
  "u64 \<Rightarrow> u64 \<Rightarrow> bool \<Rightarrow> shadow_t \<Rightarrow> u64 \<Rightarrow> u64 \<Rightarrow> shadow_t" where
  "weavecRtShadowClear base pageBytes mapped s low high =
     (if \<not> weavecRtShadowReady s \<or> high \<le> low \<or> \<not> weavecRtInWindow s low \<or>
         \<not> weavecRtInWindow s (high - 1) then s
      else
        let start = weavecRtShadowOf s low;
            bytes = drop_bit 4 (high + 15) - drop_bit 4 low;
            first = (base + start + pageBytes - 1) AND NOT (pageBytes - 1);
            last = (base + start + bytes) AND NOT (pageBytes - 1)
        in if bytes < 4 * pageBytes \<or> last \<le> first \<or> \<not> mapped
           then s\<lparr>shMem := memset (shMem s) start WeavecRtShadowAddressable (unat bytes)\<rparr>
           else
             let fresh = memset (shMem s) (first - base) 0 (unat (last - first));
                 before = memset fresh start WeavecRtShadowAddressable
                            (unat (first - (base + start)));
                 after = memset before (last - base) WeavecRtShadowAddressable
                           (unat (base + start + bytes - last))
             in s\<lparr>shMem := after\<rparr>)"

definition weavecRtShadowObject ::
  "u64 \<Rightarrow> u64 \<Rightarrow> bool \<Rightarrow> shadow_t \<Rightarrow> u64 \<Rightarrow> u64 \<Rightarrow> byte \<Rightarrow> byte \<Rightarrow> shadow_t" where
  "weavecRtShadowObject sbase pageBytes mapped s base sz tail color =
     (let whole = drop_bit 4 sz; rest = unat (sz AND 15)
      in if \<not> weavecRtShadowReady s \<or> \<not> weavecRtInWindow s base then s
         else
           let huge = whole \<ge> 4 * pageBytes;
               color' = (if huge then 0 else color);
               s' = (if huge then weavecRtShadowClear sbase pageBytes mapped s base
                                    (base + push_bit 4 whole)
                     else if whole \<noteq> 0 then
                       s\<lparr>shMem := fill (shMem s) (weavecRtShadowOf s base) color (unat whole)\<rparr>
                     else s)
           in if rest \<noteq> 0 then
                s'\<lparr>shMem := (shMem s')(weavecRtShadowOf s' (base + push_bit 4 whole) :=
                                    weavecRtShadowPartialOf color' rest)\<rparr>
              else if sz = 0 then s'\<lparr>shMem := (shMem s')(weavecRtShadowOf s' base := tail)\<rparr>
              else s')"

text \<open>
  \<open>windowBits\<close> and \<open>reserveShadow\<close>: the window's width (42 bits on Darwin; on
  Linux as wide as the stack's address, at least 39 bits), and the descriptor once the
  reservation succeeded: zero bytes but for the null page, and the mask published last.
\<close>

fun bitLength :: "nat \<Rightarrow> nat" where
  "bitLength n = (if n = 0 then 0 else Suc (bitLength (n div 2)))"

definition windowBits :: "bool \<Rightarrow> u64 \<Rightarrow> nat" where
  "windowBits apple stack = (if apple then 42 else max 39 (bitLength (unat stack)))"

definition reserveShadow :: "nat \<Rightarrow> bool \<Rightarrow> shadow_t \<Rightarrow> shadow_t" where
  "reserveShadow width mapped s =
     (if \<not> mapped then s
      else s\<lparr>shBits := width,
             shMem := memset (\<lambda>_. 0) 0 WeavecRtShadowNull (WeavecRtNullPage div 16),
             shMask := push_bit (width - 4) 1 - 1\<rparr>)"

subsection \<open>Lemmas: small stores\<close>

lemma unat_minus_less:
  assumes "c + w \<le> 2 ^ 64" "0 < w"
  shows "unat (j - word_of_nat c :: u64) < w \<longleftrightarrow> c \<le> unat j \<and> unat j < c + w"
proof -
  have c: "unat (word_of_nat c :: u64) = c"
    using assms by (simp add: unat_of_nat)
  show ?thesis
    using assms unat_u64_less [of j] by (auto simp: unat_sub_if_size c word_size)
qed

text \<open>Byte \<open>k\<close> of \<open>x\<close> times a word of ones is \<open>x\<close>.\<close>

lemma pattern_byte_aux:
  assumes x: "x < (256 :: nat)" and lo: "lo * 255 < 256 ^ k"
    and c: "c = hi * 256 ^ (k + 1) + 256 ^ k + lo"
  shows "x * c div 256 ^ k mod 256 = x"
proof -
  have "x * lo \<le> lo * 255" using x by (simp add: mult.commute)
  then have "x * lo < 256 ^ k" using lo by (rule le_less_trans)
  moreover have "x * c = x * lo + (x * hi * 256 + x) * 256 ^ k"
    by (simp add: c algebra_simps)
  ultimately have "x * c div 256 ^ k = x * hi * 256 + x" by simp
  then show ?thesis using x by simp
qed

lemma pattern_byte8:
  assumes "k < 8"
  shows "(ucast (drop_bit (8 * k) (0x0101010101010101 * ucast (v :: byte) :: u64)) :: byte) = v"
proof -
  have v: "unat v < 256" by (rule unat_byte_less)
  have u: "unat (ucast v :: u64) = unat v"
    using v by (simp add: unsigned_ucast_eq take_bit_nat_eq_self)
  have prod: "unat (0x0101010101010101 * ucast v :: u64) = unat v * 0x0101010101010101"
    using v by (simp add: unat_word_ariths u)
  from assms consider "k = 0" | "k = 1" | "k = 2" | "k = 3" | "k = 4" | "k = 5" | "k = 6" | "k = 7"
    by linarith
  then have "unat v * 0x0101010101010101 div 256 ^ k mod 256 = unat v"
    by cases (intro pattern_byte_aux [where hi = "0x0101010101010101 div 256 ^ (k + 1)"
          and lo = "0x0101010101010101 mod 256 ^ k"] v; simp)+
  then have "unat (ucast (drop_bit (8 * k) (0x0101010101010101 * ucast v :: u64)) :: byte) = unat v"
    by (simp add: unsigned_ucast_eq take_bit_eq_mod unat_drop_bit_div prod power_mult)
  then show ?thesis by (simp add: word_unat_eq_iff)
qed

lemma pattern_byte4:
  assumes "k < 4"
  shows "(ucast (drop_bit (8 * k) (0x01010101 * ucast (v :: byte) :: u64)) :: byte) = v"
proof -
  have v: "unat v < 256" by (rule unat_byte_less)
  have u: "unat (ucast v :: u64) = unat v"
    using v by (simp add: unsigned_ucast_eq take_bit_nat_eq_self)
  have prod: "unat (0x01010101 * ucast v :: u64) = unat v * 0x01010101"
    using v by (simp add: unat_word_ariths u)
  from assms consider "k = 0" | "k = 1" | "k = 2" | "k = 3"
    by linarith
  then have "unat v * 0x01010101 div 256 ^ k mod 256 = unat v"
    by cases (intro pattern_byte_aux [where hi = "0x01010101 div 256 ^ (k + 1)"
          and lo = "0x01010101 mod 256 ^ k"] v; simp)+
  then have "unat (ucast (drop_bit (8 * k) (0x01010101 * ucast v :: u64)) :: byte) = unat v"
    by (simp add: unsigned_ucast_eq take_bit_eq_mod unat_drop_bit_div prod power_mult)
  then show ?thesis by (simp add: word_unat_eq_iff)
qed

lemma store_pattern8: "memcpyWord m at 8 (0x0101010101010101 * ucast v) = memset m at v 8"
  by (auto simp: memcpyWord_def memset_def pattern_byte8)

lemma store_pattern4: "memcpyWord m at 4 (0x01010101 * ucast v) = memset m at v 4"
  by (auto simp: memcpyWord_def memset_def pattern_byte4)

text \<open>Two overlapping stores of \<open>w\<close> bytes, from both ends, write all \<open>n\<close>.\<close>

lemma memset_both_ends:
  assumes "w \<le> n" "n \<le> 2 * w" "n < 2 ^ 63" "0 < w"
  shows "memset (memset m at v w) (at + word_of_nat n - word_of_nat w) v w = memset m at v n"
proof
  fix i
  have eq: "i - (at + word_of_nat n - word_of_nat w) = (i - at) - word_of_nat (n - w)"
    using assms(1) by (simp add: of_nat_diff)
  have "unat ((i - at) - word_of_nat (n - w)) < w \<longleftrightarrow>
      n - w \<le> unat (i - at) \<and> unat (i - at) < n"
    using assms by (subst unat_minus_less) auto
  then show "memset (memset m at v w) (at + word_of_nat n - word_of_nat w) v w i =
      memset m at v n i"
    unfolding memset_def eq using assms by auto
qed

lemma offset_eq_iff:
  "k < 2 ^ 64 \<Longrightarrow> (i :: u64) = at + word_of_nat k \<longleftrightarrow> unat (i - at) = k"
  using unat_of_nat_small [of k] by (auto simp: word_unat_eq_iff [of "i - at"] algebra_simps)

lemma three_stores:
  assumes "n \<noteq> 0" "n < 4"
  shows "((m(at := v))(at + word_of_nat n - 1 := v))(at + word_of_nat (n div 2) := v) =
    memset m at v n"
proof
  fix i
  have i: "i = at \<longleftrightarrow> unat (i - at) = 0" "i = at + 1 \<longleftrightarrow> unat (i - at) = 1"
    "i = 2 + at \<longleftrightarrow> unat (i - at) = 2"
    using offset_eq_iff [of 0 i at] offset_eq_iff [of 1 i at] offset_eq_iff [of 2 i at]
    by (simp_all add: add.commute)
  from assms consider "n = 1" | "n = 2" | "n = 3" by linarith
  then show "(((m(at := v))(at + word_of_nat n - 1 := v))(at + word_of_nat (n div 2) := v)) i =
      memset m at v n i"
    by cases (auto simp: memset_def i simp del: unat_eq_zero)
qed

lemma fill_memset: "n < 2 ^ 63 \<Longrightarrow> fill m at v n = memset m at v n"
  using memset_both_ends [of 8 n m at v] memset_both_ends [of 4 n m at v]
    three_stores [of n m at v]
  by (auto simp: fill_def Let_def store_pattern8 store_pattern4 memset_def)

subsection \<open>Lemmas: what the writers make addressable\<close>

lemma memset_shadowOf:
  assumes wf: "shadow_wf s" and at: "unat at < 2 ^ shBits s" and a: "unat a < 2 ^ shBits s"
    and n: "unat at div 16 + n \<le> 2 ^ 63"
  shows "memset (shMem s) (weavecRtShadowOf s at) v n (weavecRtShadowOf s a) =
    (if unat at div 16 \<le> unat a div 16 \<and> unat a div 16 < unat at div 16 + n then v
     else shadowByte s a)"
proof (cases "n = 0")
  case False
  have "weavecRtShadowOf s at = word_of_nat (unat at div 16)"
    by (simp add: unat_shadowOf [OF wf at, symmetric])
  then have "unat (weavecRtShadowOf s a - weavecRtShadowOf s at) < n \<longleftrightarrow>
      unat at div 16 \<le> unat a div 16 \<and> unat a div 16 < unat at div 16 + n"
    using n False by (simp add: unat_minus_less unat_shadowOf [OF wf a])
  then show ?thesis by (simp add: memset_def)
qed (auto simp: memset_def)

lemma shadow_window_bound: "shadow_wf s \<Longrightarrow> (2 :: nat) ^ shBits s \<le> 2 ^ 63"
  by (intro power_increasing) (auto simp: shadow_wf_def)

lemma shadowOf_mem_update [simp]:
  "weavecRtShadowOf (s\<lparr>shMem := m\<rparr>) a = weavecRtShadowOf s a"
  by (simp add: weavecRtShadowOf_def)

lemma shadow_wf_mem_update [simp]: "shadow_wf (s\<lparr>shMem := m\<rparr>) = shadow_wf s"
  by (simp add: shadow_wf_def)

lemma shadowSet_byte:
  assumes wf: "shadow_wf s" and base: "unat base + unat sz \<le> 2 ^ shBits s" and sz: "sz \<noteq> 0"
    and a: "unat a < 2 ^ shBits s"
  shows "shadowByte (weavecRtShadowSet s base sz v) a =
    (if unat base div 16 \<le> unat a div 16 \<and> unat a div 16 < unat base div 16 + (unat sz + 15) div 16
     then v else shadowByte s a)"
proof -
  have pos: "0 < unat sz" using sz by (simp add: unat_gt_0)
  have w: "unat base < 2 ^ shBits s" using base pos by linarith
  have b: "(2 :: nat) ^ shBits s \<le> 2 ^ 63" by (rule shadow_window_bound [OF wf])
  have cnt: "unat (drop_bit 4 (sz + 15)) = (unat sz + 15) div 16"
    using base b by (simp add: unat_drop_bit_4 unat_add_no_wrap)
  have bnd: "unat base div 16 + (unat sz + 15) div 16 \<le> 2 ^ 63" "(unat sz + 15) div 16 < 2 ^ 63"
    using base b by simp_all
  show ?thesis
    using sz w bnd
    by (simp add: weavecRtShadowSet_def shadow_wf_ready [OF wf] in_window_iff [OF wf] cnt
        fill_memset memset_shadowOf [OF wf w a] del: power_numeral)
qed

lemma partialOf_nat:
  assumes "k < 16"
  shows "unat (weavecRtShadowPartialOf color k) = 128 + 16 * (unat color mod 8) + k"
proof -
  have k: "unat (word_of_nat k :: byte) = k" using assms by (simp add: unat_of_nat)
  have hi: "unat (push_bit 4 (color AND 7)) = 16 * (unat color mod 8)"
    by (simp add: push_bit_eq_mult unat_word_ariths unat_byte_and_low)
  have "unat (weavecRtShadowPartialOf color k) = unat (0x80 :: byte) OR (16 * (unat color mod 8) OR k)"
    by (simp only: weavecRtShadowPartialOf_def unsigned_or_eq hi k or.assoc)
  also have "\<dots> = 2 ^ 7 * 1 OR (2 ^ 4 * (unat color mod 8) OR k)" by simp
  also have "\<dots> = 2 ^ 7 * 1 + (2 ^ 4 * (unat color mod 8) + k)"
    using assms by (subst or_low_add [of k], simp) (subst or_low_add, auto)
  finally show ?thesis by simp
qed

text \<open>The byte of a partial granule: bytes 0 to \<open>k - 1\<close> are the object's.\<close>

lemma byte_ok_partialOf:
  assumes "k < 16" and "unat color mod 8 < 7"
  shows "byte_ok (weavecRtShadowPartialOf color k) j \<longleftrightarrow> j < k"
proof -
  have "unat (weavecRtShadowPartialOf color k) = 128 + 16 * (unat color mod 8) + k"
    by (rule partialOf_nat [OF assms(1)])
  moreover have "(128 + 16 * c + k) mod 16 = k" for c
    using assms(1) by presburger
  ultimately show ?thesis
    using assms by (auto simp: byte_ok_def full_iff poison_iff weavecRtShadowBytes_def
        unat_byte_and_low)
qed

text \<open>
  \<open>weavecRtColor\<close> spreads a hash over 111 colors whose class is below 7, so that no
  partial byte it leads to looks like poison.
\<close>

lemma color_nat:
  "unat (weavecRtColor n) = 8 * ((unat n mod 111 + 1) div 7) + (unat n mod 111 + 1) mod 7"
proof -
  define m where "m = unat n mod 111 + 1"
  have "m \<le> 111" by (simp add: m_def)
  then have "m div 7 \<le> 15" by simp
  moreover have "m mod 7 < 7" by simp
  ultimately have "8 * (m div 7) + m mod 7 < 256" by linarith
  moreover have "push_bit 3 (m div 7) OR (m mod 7) = 8 * (m div 7) + m mod 7"
    using or_low_add [of "m mod 7" 3 "m div 7"] \<open>m mod 7 < 7\<close>
    by (simp add: push_bit_eq_mult mult.commute)
  ultimately show ?thesis
    by (simp only: weavecRtColor_def Let_def m_def [symmetric] unat_byte_of_nat)
qed

lemma color_class: "unat (weavecRtColor n) mod 8 < 7"
proof -
  have "(8 * q + r) mod 8 = r" if "r < 7" for q r :: nat
    using that by simp
  then show ?thesis by (simp add: color_nat)
qed

lemma color_range: "0 < unat (weavecRtColor n)" "unat (weavecRtColor n) < 128"
proof -
  define m where "m = unat n mod 111 + 1"
  have "0 < m" "m \<le> 111" by (simp_all add: m_def)
  moreover have "7 * (m div 7) + m mod 7 = m" "m mod 7 < 7" by simp_all
  ultimately show "0 < unat (weavecRtColor n)" "unat (weavecRtColor n) < 128"
    unfolding color_nat m_def [symmetric] by linarith+
qed

text \<open>Fresh pages in the middle and \<open>memset\<close> at both sides clear the whole range.\<close>

lemma memset_three:
  assumes "a \<le> b" "b \<le> n" "n < 2 ^ 63"
  shows "memset (memset (memset m (at + word_of_nat a) v (b - a)) at v a)
      (at + word_of_nat b) v (n - b) = memset m at v n"
proof
  fix i
  have part: "unat (i - (at + word_of_nat x)) < y - x \<longleftrightarrow> x \<le> unat (i - at) \<and> unat (i - at) < y"
    if "x \<le> y" "y < 2 ^ 63" for x y
    using that unat_minus_less [of x "y - x" "i - at"] by (cases "x = y") (auto simp: diff_diff_eq)
  show "memset (memset (memset m (at + word_of_nat a) v (b - a)) at v a)
      (at + word_of_nat b) v (n - b) i = memset m at v n i"
    using assms part [of a b] part [of b n] by (auto simp: memset_def)
qed

lemma page_split:
  assumes X: "X = sbase + st" and bs: "unat bs = n" "n < 2 ^ 63" and page: "pageBytes = 2 ^ p" "p < 40"
    and room: "unat X + n + 2 ^ p < 2 ^ 64"
    and first: "first = (X + pageBytes - 1) AND NOT (pageBytes - 1)"
    and lst: "lst = (X + bs) AND NOT (pageBytes - 1)" and fl: "first < lst"
  shows "memset (memset (memset m (first - sbase) v (unat (lst - first))) st v
      (unat (first - X))) (lst - sbase) v (unat (X + bs - lst)) = memset m st v n"
proof -
  have pg: "unat pageBytes = 2 ^ p" using page by (simp add: unat_pow2)
  have Xb: "unat (X + bs) = unat X + n"
    using room by (simp add: unat_add_no_wrap bs)
  have "unat (X + pageBytes) = unat X + 2 ^ p"
    using room by (simp add: unat_add_no_wrap pg)
  moreover have "1 \<le> unat X + 2 ^ p"
    using one_le_power [of "2 :: nat" p] by linarith
  ultimately have Xp: "unat (X + pageBytes - 1) = unat X + 2 ^ p - 1"
    by (metis unat_1 unat_sub word_le_nat_alt)
  have le: "unat lst \<le> unat X + n"
    by (simp add: lst page unat_and_not_mask Xb)
  have "unat X + 2 ^ p - 1 - (unat X + 2 ^ p - 1) mod 2 ^ p \<ge> unat X"
  proof -
    have "(unat X + 2 ^ p - 1) mod 2 ^ p < 2 ^ p" by simp
    then show ?thesis by linarith
  qed
  then have ge: "unat X \<le> unat first"
    by (simp add: first page unat_and_not_mask Xp [unfolded page])
  define a where "a = unat first - unat X"
  define c where "c = unat lst - unat X"
  have fl': "unat first < unat lst" using fl by (simp add: word_less_nat_alt)
  have "first = X + word_of_nat a" "lst = X + word_of_nat c"
    using ge fl' by (simp_all add: a_def c_def of_nat_diff)
  then have w: "first - sbase = st + word_of_nat a" "lst - sbase = st + word_of_nat c"
    by (simp_all add: X)
  have u: "unat (lst - first) = c - a" "unat (first - X) = a" "unat (X + bs - lst) = n - c"
    using ge fl' le by (simp_all add: unat_sub word_le_nat_alt a_def c_def Xb)
  have ac: "a \<le> c" "c \<le> n" using ge fl' le by (simp_all add: a_def c_def)
  show ?thesis
    unfolding u w by (rule memset_three [OF ac bs(2)])
qed

text \<open>
  The shadow's base leaves room for the largest window's shadow and a page after it, as
  every mapping below the top of the address space does.
\<close>

definition shadow_room :: "u64 \<Rightarrow> u64 \<Rightarrow> bool" where
  "shadow_room sbase pageBytes \<longleftrightarrow>
     (\<exists>p < 40. pageBytes = 2 ^ p \<and> unat sbase + 2 ^ 60 + 2 ^ p < 2 ^ 64)"

lemma shadowClear_memset:
  assumes wf: "shadow_wf s" and order: "unat low < unat high" and high: "unat high \<le> 2 ^ shBits s"
    and room: "shadow_room sbase pageBytes"
  shows "weavecRtShadowClear sbase pageBytes mapped s low high =
    s\<lparr>shMem := memset (shMem s) (weavecRtShadowOf s low) WeavecRtShadowAddressable
                 ((unat high + 15) div 16 - unat low div 16)\<rparr>"
proof -
  obtain p where p: "p < 40" "pageBytes = 2 ^ p" "unat sbase + 2 ^ 60 + 2 ^ p < 2 ^ 64"
    using room by (auto simp: shadow_room_def)
  define st where "st = weavecRtShadowOf s low"
  define n where "n = (unat high + 15) div 16 - unat low div 16"
  define bs where "bs = drop_bit 4 (high + 15) - drop_bit 4 low"
  have b: "(2 :: nat) ^ shBits s \<le> 2 ^ 63" by (rule shadow_window_bound [OF wf])
  have low: "unat low < 2 ^ shBits s" using order high by linarith
  have st: "unat st = unat low div 16" by (simp add: st_def unat_shadowOf [OF wf low])
  have hi1: "unat (high - 1) < 2 ^ shBits s"
    using order high by (simp add: unat_sub word_le_nat_alt)
  have le: "unat low div 16 \<le> (unat high + 15) div 16" using order by (intro div_le_mono) simp
  have bs: "unat bs = n"
    using high b le
    by (simp add: bs_def n_def unat_sub word_le_nat_alt unat_drop_bit_4 unat_add_no_wrap)
  have sum: "unat st + n \<le> 2 ^ 60" using high b le by (simp add: st n_def)
  have X: "unat (sbase + st) = unat sbase + unat st"
    using sum p(3) by (simp add: unat_add_no_wrap)
  have split: "memset (memset (memset m (first - sbase) v (unat (lst - first))) st v
      (unat (first - (sbase + st)))) (lst - sbase) v (unat (sbase + st + bs - lst)) = memset m st v n"
    if "first = (sbase + st + pageBytes - 1) AND NOT (pageBytes - 1)"
      "lst = (sbase + st + bs) AND NOT (pageBytes - 1)" "first < lst" for m v first lst
    by (rule page_split [OF refl bs _ p(2,1) _ that]) (use sum p(3) X in simp_all)
  have g: "\<not> (\<not> weavecRtShadowReady s \<or> high \<le> low \<or> \<not> weavecRtInWindow s low \<or>
         \<not> weavecRtInWindow s (high - 1))"
    using order low hi1 by (simp add: shadow_wf_ready [OF wf] in_window_iff [OF wf] word_le_nat_alt)
  show ?thesis
    unfolding weavecRtShadowClear_def Let_def if_not_P [OF g] st_def [symmetric] bs_def [symmetric]
      bs n_def [symmetric]
    using split [OF refl refl] by (simp add: not_le)
qed

text \<open>
  An object of \<open>sz\<close> bytes at an aligned base: the state's bytes from the base to the end
  of the object's last granule are addressable exactly below its size, and no other
  granule changes. \<open>objectGranules\<close> is what it occupies: one granule even when empty.
\<close>

definition objectGranules :: "nat \<Rightarrow> nat" where
  "objectGranules sz = max 1 ((sz + 15) div 16)"

lemma shadowOf_eq_iff:
  assumes "shadow_wf s" "unat a < 2 ^ shBits s" "unat b < 2 ^ shBits s"
  shows "weavecRtShadowOf s a = weavecRtShadowOf s b \<longleftrightarrow> unat a div 16 = unat b div 16"
  using assms by (simp add: word_unat_eq_iff unat_shadowOf)

lemma huge_object_pos:
  assumes "shadow_room sbase pageBytes" "drop_bit 4 sz \<ge> 4 * pageBytes"
  shows "0 < unat sz div 16"
proof -
  obtain p where "p < 40" "pageBytes = 2 ^ p" using assms(1) by (auto simp: shadow_room_def)
  then have "unat (4 * pageBytes) = 4 * 2 ^ p"
    using unat_pow2 [of "p + 2"] by (simp add: power_add mult.commute)
  then show ?thesis
    using assms(2) unat_drop_bit_4 [of sz] by (auto simp: word_le_nat_alt intro: gr0I)
qed

text \<open>The object's whole granules, whichever way they are written.\<close>

lemma shadowObject_whole:
  assumes wf: "shadow_wf s" and room: "shadow_room sbase pageBytes"
    and base: "unat base + 16 * (unat sz div 16) \<le> 2 ^ shBits s" and q: "unat base = 16 * q"
    and at: "unat (base + push_bit 4 (drop_bit 4 sz)) = unat base + 16 * (unat sz div 16)"
  shows "(if drop_bit 4 sz \<ge> 4 * pageBytes then
            weavecRtShadowClear sbase pageBytes mapped s base (base + push_bit 4 (drop_bit 4 sz))
          else if drop_bit 4 sz \<noteq> 0 then
            s\<lparr>shMem := fill (shMem s) (weavecRtShadowOf s base) color (unat (drop_bit 4 sz))\<rparr>
          else s) =
    s\<lparr>shMem := memset (shMem s) (weavecRtShadowOf s base)
                 (if drop_bit 4 sz \<ge> 4 * pageBytes then 0 else color) (unat sz div 16)\<rparr>"
proof (cases "drop_bit 4 sz \<ge> 4 * pageBytes")
  case True
  have "(16 * q + 16 * w + 15) div 16 - q = w" for w by simp
  then show ?thesis
    using True huge_object_pos [OF room True] base
    by (simp add: shadowClear_memset [OF wf _ _ room] at q)
next
  case False
  have z: "drop_bit 4 sz = 0 \<longleftrightarrow> unat sz div 16 = 0"
    using unat_drop_bit_4 [of sz] by (auto simp flip: unat_eq_zero)
  have "unat sz div 16 < 2 ^ 63" using unat_u64_less [of sz] by simp
  then show ?thesis using False z
    by (auto simp: fill_memset unat_drop_bit_4) (simp add: memset_def)
qed

lemma shadowObject_byte:
  assumes wf: "shadow_wf s" and base: "unat base + 16 * objectGranules (unat sz) \<le> 2 ^ shBits s"
    and al: "16 dvd unat base" and room: "shadow_room sbase pageBytes"
    and a: "unat a < 2 ^ shBits s"
  shows "shadowByte (weavecRtShadowObject sbase pageBytes mapped s base sz tail color) a =
    (let g = unat a div 16 - unat base div 16;
         c = (if drop_bit 4 sz \<ge> 4 * pageBytes then 0 else color)
     in if unat a div 16 < unat base div 16 then shadowByte s a
        else if g < unat sz div 16 then c
        else if g = unat sz div 16 \<and> unat sz mod 16 \<noteq> 0
          then weavecRtShadowPartialOf c (unat sz mod 16)
        else if g = 0 \<and> sz = 0 then tail
        else shadowByte s a)"
proof -
  define w where "w = unat sz div 16"
  define huge where "huge \<longleftrightarrow> drop_bit 4 sz \<ge> 4 * pageBytes"
  define c where "c = (if huge then 0 else color)"
  have b: "(2 :: nat) ^ shBits s \<le> 2 ^ 63" by (rule shadow_window_bound [OF wf])
  have og: "16 * w \<le> 16 * objectGranules (unat sz)" "unat sz \<le> 16 * objectGranules (unat sz)"
    "1 \<le> objectGranules (unat sz)"
    by (simp_all add: w_def objectGranules_def)
  have bw: "unat base < 2 ^ shBits s" using base og by linarith
  have whole: "unat (drop_bit 4 sz) = w" by (simp add: w_def unat_drop_bit_4)
  have p16: "unat (push_bit 4 (drop_bit 4 sz)) = 16 * w"
    using base og b by (simp add: push_bit_eq_mult unat_word_ariths whole)
  have at: "unat (base + push_bit 4 (drop_bit 4 sz)) = unat base + 16 * w"
    using base og b by (simp add: unat_add_no_wrap p16)
  obtain q where q: "unat base = 16 * q" using al by blast
  define s' where "s' = s\<lparr>shMem := memset (shMem s) (weavecRtShadowOf s base) c w\<rparr>"
  have mem: "shMem s' (weavecRtShadowOf s a) =
      (if q \<le> unat a div 16 \<and> unat a div 16 < q + w then c else shadowByte s a)"
    using memset_shadowOf [OF wf bw a, of w c] base og b by (simp add: s'_def q)
  have g: "\<not> (\<not> weavecRtShadowReady s \<or> \<not> weavecRtInWindow s base)"
    using bw by (simp add: shadow_wf_ready [OF wf] in_window_iff [OF wf])
  have fits: "unat base + 16 * (unat sz div 16) \<le> 2 ^ shBits s"
    using base og by (simp add: w_def)
  have obj: "weavecRtShadowObject sbase pageBytes mapped s base sz tail color =
      (if unat sz mod 16 \<noteq> 0 then
         s'\<lparr>shMem := (shMem s')(weavecRtShadowOf s (base + push_bit 4 (drop_bit 4 sz)) :=
                       weavecRtShadowPartialOf c (unat sz mod 16))\<rparr>
       else if sz = 0 then s'\<lparr>shMem := (shMem s')(weavecRtShadowOf s base := tail)\<rparr>
       else s')"
    unfolding weavecRtShadowObject_def Let_def if_not_P [OF g]
      shadowObject_whole [OF wf room fits q at [unfolded w_def]] unat_and_low
      s'_def c_def huge_def w_def shadowOf_mem_update by (rule refl)
  have aw: "weavecRtShadowOf s a = weavecRtShadowOf s (base + push_bit 4 (drop_bit 4 sz)) \<longleftrightarrow>
      unat a div 16 = q + w" if "unat sz mod 16 \<noteq> 0"
  proof -
    have "16 * w + unat sz mod 16 = unat sz" by (simp add: w_def)
    then have "unat base + 16 * w < 2 ^ shBits s" using that og(2) base by linarith
    then show ?thesis by (simp add: shadowOf_eq_iff [OF wf a] at q)
  qed
  define A where "A = unat a div 16"
  define r where "r = unat sz mod 16"
  have ab: "weavecRtShadowOf s a = weavecRtShadowOf s base \<longleftrightarrow> A = q"
    by (simp add: shadowOf_eq_iff [OF wf a bw] A_def q)
  have sO: "weavecRtShadowOf s' a = weavecRtShadowOf s a" by (simp add: s'_def)
  have byte: "shadowByte (weavecRtShadowObject sbase pageBytes mapped s base sz tail color) a =
      (if r \<noteq> 0 \<and> A = q + w then weavecRtShadowPartialOf c r
       else if r = 0 \<and> sz = 0 \<and> A = q then tail
       else if q \<le> A \<and> A < q + w then c else shadowByte s a)"
  proof (cases "r = 0")
    case True
    then show ?thesis by (simp add: obj r_def [symmetric] ab sO mem A_def [symmetric])
  next
    case False
    then show ?thesis by (simp add: obj r_def [symmetric] aw [folded r_def A_def] sO mem
          A_def [symmetric])
  qed
  have z: "w = 0" if "sz = 0" using that by (simp add: w_def)
  have qb: "unat base div 16 = q" by (simp add: q)
  show ?thesis
    unfolding byte Let_def huge_def [symmetric] c_def [symmetric] w_def [symmetric]
      A_def [symmetric] r_def [symmetric] qb
    by (cases "A < q"; cases "sz = 0") (use z in auto)
qed

lemma objectGranules_pos:
  assumes "0 < sz"
  shows "objectGranules sz = sz div 16 + (if sz mod 16 = 0 then 0 else 1)"
proof -
  define w r where "w = sz div 16" and "r = sz mod 16"
  have sz: "sz = 16 * w + r" "r < 16" by (simp_all add: w_def r_def)
  have "(16 * w + r + 15) div 16 = w + (if r = 0 then 0 else 1)"
  proof (cases "r = 0")
    case False
    then have "16 * w + r + 15 = 16 * (w + 1) + (r - 1)" by simp
    then show ?thesis using False sz(2) by (simp only: div_mult_self4) simp
  qed simp
  moreover have "1 \<le> w + (if r = 0 then 0 else 1)" using assms sz by auto
  ultimately show ?thesis
    unfolding objectGranules_def w_def [symmetric] r_def [symmetric] sz(1) using sz(2) by simp
qed

lemma shadowObject_wf [simp]:
  "shadow_wf (weavecRtShadowObject sbase pageBytes mapped s base sz tail color) = shadow_wf s"
  by (simp add: weavecRtShadowObject_def weavecRtShadowClear_def Let_def)

lemma shadowObject_bits [simp]:
  "shBits (weavecRtShadowObject sbase pageBytes mapped s base sz tail color) = shBits s"
  by (simp add: weavecRtShadowObject_def weavecRtShadowClear_def Let_def)

lemma shadowObject_addressable:
  assumes wf: "shadow_wf s" and base: "unat base + 16 * objectGranules (unat sz) \<le> 2 ^ shBits s"
    and al: "16 dvd unat base" and room: "shadow_room sbase pageBytes"
    and color: "unat color < 128" "unat color mod 8 < 7" and tail: "weavecRtShadowPoison tail"
    and i: "i < 16 * objectGranules (unat sz)"
  shows "addressable (weavecRtShadowObject sbase pageBytes mapped s base sz tail color)
           (base + word_of_nat i) \<longleftrightarrow> i < unat sz"
proof -
  have b: "(2 :: nat) ^ shBits s \<le> 2 ^ 63" by (rule shadow_window_bound [OF wf])
  have a: "unat (base + word_of_nat i) = unat base + i"
    using base b i by (subst unat_add_no_wrap) (auto simp: unat_of_nat_small)
  have g: "(unat base + i) div 16 - unat base div 16 = i div 16"
    "(unat base + i) mod 16 = i mod 16" "\<not> (unat base + i) div 16 < unat base div 16"
    using al by auto
  have r: "unat sz mod 16 < 16" "16 * (unat sz div 16) + unat sz mod 16 = unat sz"
    "16 * (i div 16) + i mod 16 = i" "i mod 16 < 16"
    by simp_all
  let ?c = "if drop_bit 4 sz \<ge> 4 * pageBytes then 0 else color"
  have c: "unat ?c < 128" "unat ?c mod 8 < 7" using color by auto
  have full: "byte_ok ?c k" for k using c by (intro byte_ok_full) (simp add: full_iff)
  have "addressable (weavecRtShadowObject sbase pageBytes mapped s base sz tail color)
      (base + word_of_nat i) \<longleftrightarrow>
    byte_ok (if i div 16 < unat sz div 16 then ?c
       else if i div 16 = unat sz div 16 \<and> unat sz mod 16 \<noteq> 0
         then weavecRtShadowPartialOf ?c (unat sz mod 16)
       else if i div 16 = 0 \<and> sz = 0 then tail
       else shadowByte s (base + word_of_nat i)) (i mod 16)"
    using base i
    by (subst addressable_def, subst shadowObject_byte [OF wf base al room])
      (simp_all add: a g Let_def)
  also have "\<dots> \<longleftrightarrow> i < unat sz"
  proof -
    have "i div 16 < objectGranules (unat sz)" using i by (simp add: less_mult_imp_div_less mult.commute)
    then consider "i div 16 < unat sz div 16" | "i div 16 = unat sz div 16" "unat sz mod 16 \<noteq> 0"
      | "i div 16 = 0" "sz = 0"
      using objectGranules_pos [of "unat sz"] unat_gt_0 [of sz]
      by (cases "sz = 0"; cases "unat sz mod 16 = 0") (auto simp: objectGranules_def less_Suc_eq)
    then show ?thesis
    proof cases
      case 1
      then show ?thesis using full r by simp
    next
      case 2
      have "i < unat sz \<longleftrightarrow> i mod 16 < unat sz mod 16" using 2(1) r(2,3) by linarith
      then show ?thesis using 2 byte_ok_partialOf [OF r(1) c(2)] by (simp del: mod_greater_zero_iff_not_dvd)
    next
      case 3
      then show ?thesis using not_byte_ok_poison [OF tail] by simp
    qed
  qed
  finally show ?thesis .
qed

subsection \<open>Properties\<close>



end
