(* ===== verification/Guard_Runtime.thy ===== *)
theory Guard_Runtime
  imports Shadow_Write
begin

text \<open>
  \<open>runtime/weavec_guard.c\<close>: the slow path of the guards. \<open>settle\<close> tells a frame that
  returned from a stale granule, \<open>firstUnaddressable\<close> finds the first byte of a range that
  is not addressable, \<open>kindOf\<close> and \<open>failAt\<close> name the failure, \<open>jumpKind\<close> decides a
  color mismatch, \<open>allAddressable\<close> and the range entry points decide without a report,
  and the frame and global entry points write the shadow.

  What the C code reads of the process is a record: the calling thread's stack, the frame
  address of the entry point, the target, and the heap lookup of \<open>weavec_alloc.c\<close>. A call
  of \<open>weavecRtFail\<close> or \<open>weavecRtFailJump\<close> is a value, the failure; the statistics
  counters are left out.
\<close>

subsection \<open>What the guards read\<close>

record heap_object =
  hoFound :: bool
  hoLive :: bool
  hoBase :: u64
  hoSize :: u64

record rt_env =
  stackTop :: u64
  stackBottom :: u64
  here :: u64
  aarch64 :: bool
  stackLostColors :: bool
  heapObjectAt :: "u64 \<Rightarrow> heap_object"

datatype fail_kind =
    UseAfterPoison | HeapBufferOverflow | HeapUseAfterFree | StackBufferOverflow
  | DynamicStackBufferOverflow | StackUseAfterReturn | StackUseAfterScope | GlobalBufferOverflow
  | NullDereference | InvalidAccess | UnterminatedString | OverlappingCopy

datatype failure =
    Fail fail_kind u64 u64
  | FailJump fail_kind u64 u64 u64

subsection \<open>Naming a failure\<close>

fun lookPast :: "shadow_t \<Rightarrow> u64 \<Rightarrow> nat \<Rightarrow> nat \<Rightarrow> byte \<Rightarrow> byte" where
  "lookPast s granule look 0 v = v"
| "lookPast s granule look (Suc left) v =
     (let next = granule + push_bit 4 (word_of_nat look)
      in if \<not> weavecRtInWindow s next then v
         else let v' = shadowByte s next
              in if weavecRtShadowPoison v' then v'
                 else lookPast s granule (Suc look) left v')"

definition kindOfPoison :: "byte \<Rightarrow> fail_kind" where
  "kindOfPoison v =
     (if v = WeavecRtShadowHeapTail then HeapBufferOverflow
      else if v = WeavecRtShadowHeapFreed then HeapUseAfterFree
      else if v = WeavecRtShadowStackLeft \<or> v = WeavecRtShadowStackMid \<or> v = WeavecRtShadowStackRight
        then StackBufferOverflow
      else if v = WeavecRtShadowStackDynamic then DynamicStackBufferOverflow
      else if v = WeavecRtShadowReturned then StackUseAfterReturn
      else if v = WeavecRtShadowStackScope then StackUseAfterScope
      else if v = WeavecRtShadowUser then UseAfterPoison
      else if v = WeavecRtShadowGlobal then GlobalBufferOverflow
      else if v = WeavecRtShadowNull then NullDereference
      else InvalidAccess)"

definition kindOf :: "shadow_t \<Rightarrow> byte \<Rightarrow> u64 \<Rightarrow> fail_kind" where
  "kindOf s v granule =
     (let v' = (if weavecRtShadowPoison v then v else lookPast s granule 1 63 v)
      in if \<not> weavecRtShadowPoison v' then UseAfterPoison else kindOfPoison v')"

subsection \<open>Deciding\<close>

definition settle :: "rt_env \<Rightarrow> shadow_t \<Rightarrow> u64 \<Rightarrow> byte \<Rightarrow> byte \<times> shadow_t" where
  "settle e s granule v =
     (if v \<noteq> WeavecRtShadowReturned then (v, s)
      else if granule + 16 \<le> here e \<and> granule \<ge> stackBottom e \<and> here e < stackTop e then (v, s)
      else (WeavecRtShadowAddressable,
            s\<lparr>shMem := (shMem s)(weavecRtShadowOf s granule := WeavecRtShadowAddressable)\<rparr>))"

text \<open>Eight granules at a time while they are all whole.\<close>

partial_function (option) skipEight :: "shadow_t \<Rightarrow> u64 \<Rightarrow> u64 \<Rightarrow> u64 option" where
  "skipEight s end' granule =
     (if granule + 128 \<le> end' \<and> granule AND 127 = 0 \<and>
         load64 (shMem s) (weavecRtShadowOf s granule) AND signBits = 0
      then skipEight s end' (granule + 128)
      else Some granule)"

text \<open>
  A granule that is not whole: \<open>None\<close> when the part of the range in it lies in its first
  bytes, else the range's first byte that does not.
\<close>

definition badIn :: "u64 \<Rightarrow> u64 \<Rightarrow> u64 \<Rightarrow> byte \<Rightarrow> u64 option" where
  "badIn address end' granule v =
     (let low = (if granule > address then granule else address);
          high = (if granule + 16 < end' then granule + 16 else end');
          k = word_of_nat (weavecRtShadowBytes v)
      in if \<not> weavecRtShadowPoison v then
           if high \<le> granule + k then None
           else Some (if low > granule + k then low else granule + k)
         else Some low)"

partial_function (option) scanGranules ::
  "rt_env \<Rightarrow> u64 \<Rightarrow> u64 \<Rightarrow> shadow_t \<Rightarrow> u64 \<Rightarrow> ((u64 \<times> byte) option \<times> shadow_t) option" where
  "scanGranules e address end' s granule =
     (if \<not> granule < end' then Some (None, s)
      else
        let r = settle e s granule (shadowByte s granule); v = fst r; s1 = snd r
        in if weavecRtShadowFull v then
             Option.bind (skipEight s1 end' granule) (\<lambda>g.
               if g \<ge> end' then Some (None, s1)
               else
                 let r2 = settle e s1 g (shadowByte s1 g); v2 = fst r2; s2 = snd r2
                 in if weavecRtShadowFull v2 then scanGranules e address end' s2 (g + 16)
                    else (case badIn address end' g v2 of
                            None \<Rightarrow> scanGranules e address end' s2 (g + 16)
                          | Some bad \<Rightarrow> Some (Some (bad, v2), s2)))
           else (case badIn address end' granule v of
                   None \<Rightarrow> scanGranules e address end' s1 (granule + 16)
                 | Some bad \<Rightarrow> Some (Some (bad, v), s1)))"

definition topByte :: u64 where "topByte = push_bit 56 0xFF"

definition untagged :: "rt_env \<Rightarrow> shadow_t \<Rightarrow> u64 \<Rightarrow> u64" where
  "untagged e s address =
     (if aarch64 e \<and> \<not> weavecRtInWindow s address \<and> weavecRtInWindow s (address AND NOT topByte)
      then address AND NOT topByte else address)"

definition rangeEnd :: "shadow_t \<Rightarrow> u64 \<Rightarrow> u64 \<Rightarrow> u64" where
  "rangeEnd s address n =
     (let end' = address + n
      in if unat address + unat n \<ge> 2 ^ 64 \<or> \<not> weavecRtInWindow s (end' - 1)
         then (if shBits s \<ge> 64 then NOT 0 else push_bit (shBits s) 1)
         else end')"

definition firstUnaddressable ::
  "rt_env \<Rightarrow> shadow_t \<Rightarrow> u64 \<Rightarrow> u64 \<Rightarrow> ((u64 \<times> byte) option \<times> shadow_t) option" where
  "firstUnaddressable e s address n =
     (let address = untagged e s address
      in if n = 0 \<or> \<not> weavecRtShadowReady s \<or> \<not> weavecRtInWindow s address then Some (None, s)
         else scanGranules e address (rangeEnd s address n) s (address AND NOT 15))"

definition failAt :: "rt_env \<Rightarrow> shadow_t \<Rightarrow> u64 \<Rightarrow> byte \<Rightarrow> u64 \<Rightarrow> u64 \<Rightarrow> failure" where
  "failAt e s bad v address width =
     (let v' = (if \<not> weavecRtShadowPoison v \<and> hoFound (heapObjectAt e bad)
                then WeavecRtShadowHeapTail else v)
      in Fail (kindOf s v' (bad AND NOT 15)) address width)"

definition guardSlow :: "rt_env \<Rightarrow> shadow_t \<Rightarrow> u64 \<Rightarrow> u64 \<Rightarrow> (failure list \<times> shadow_t) option" where
  "guardSlow e s address width =
     map_option (\<lambda>(r, s'). (case r of None \<Rightarrow> []
         | Some (bad, v) \<Rightarrow> [failAt e s' bad v address width], s'))
       (firstUnaddressable e s address width)"

subsection \<open>Colors\<close>

definition onStack :: "rt_env \<Rightarrow> u64 \<Rightarrow> bool" where
  "onStack e address \<longleftrightarrow> address \<ge> here e \<and> address < stackTop e"

definition jumpKind :: "rt_env \<Rightarrow> shadow_t \<Rightarrow> u64 \<Rightarrow> u64 \<Rightarrow> byte \<Rightarrow> fail_kind option" where
  "jumpKind e s address root rootShadow =
     (if \<not> weavecRtShadowReady s \<or> \<not> weavecRtInWindow s address then None
      else
        let v = shadowByte s address
        in if weavecRtShadowPoison v \<or> weavecRtShadowPoison rootShadow then None
           else if v = rootShadow \<or>
                   ((\<not> weavecRtShadowFull v \<or> \<not> weavecRtShadowFull rootShadow) \<and>
                    weavecRtShadowClass v = weavecRtShadowClass rootShadow) then None
           else if rootShadow = 0 then None
           else if v = 0 \<and> stackLostColors e \<and> onStack e address then None
           else
             let target = heapObjectAt e address; from' = heapObjectAt e root
             in if hoFound from' \<and> (hoBase target = hoBase from' \<or> hoBase from' \<noteq> root) then None
                else if hoFound target then Some HeapBufferOverflow
                else if onStack e address then Some StackBufferOverflow
                else Some GlobalBufferOverflow)"

definition jumpSlow :: "rt_env \<Rightarrow> shadow_t \<Rightarrow> u64 \<Rightarrow> u64 \<Rightarrow> u64 \<Rightarrow> byte \<Rightarrow> failure list" where
  "jumpSlow e s address width root rootShadow =
     (if width = 0 then []
      else case jumpKind e s address root rootShadow of
             None \<Rightarrow> [] | Some kind \<Rightarrow> [FailJump kind address width root])"

definition weavec_rt_color_ok :: "rt_env \<Rightarrow> shadow_t \<Rightarrow> u64 \<Rightarrow> u64 \<Rightarrow> bool" where
  "weavec_rt_color_ok e s root address =
     (if \<not> weavecRtShadowReady s \<or> \<not> weavecRtInWindow s root then True
      else jumpKind e s address root (shadowByte s root) = None)"

definition guardJumpSlow ::
  "rt_env \<Rightarrow> shadow_t \<Rightarrow> u64 \<Rightarrow> u64 \<Rightarrow> u64 \<Rightarrow> byte \<Rightarrow> (failure list \<times> shadow_t) option" where
  "guardJumpSlow e s address width root rootShadow =
     map_option (\<lambda>(fs, s'). (fs @ jumpSlow e s' address width root rootShadow, s'))
       (guardSlow e s address width)"

definition weavec_rt_overlap :: "u64 \<Rightarrow> u64 \<Rightarrow> u64 \<Rightarrow> failure list" where
  "weavec_rt_overlap destination source n = [Fail OverlappingCopy destination n]"

definition weavec_rt_null :: "u64 \<Rightarrow> failure list" where
  "weavec_rt_null address = [Fail NullDereference address 0]"

subsection \<open>Ranges\<close>

function eightsWhole :: "(u64 \<Rightarrow> byte) \<Rightarrow> u64 \<Rightarrow> nat \<Rightarrow> nat \<Rightarrow> nat option" where
  "eightsWhole m shadow granules i =
     (if i + 8 < granules then
        if load64 m (shadow + word_of_nat i) AND signBits \<noteq> 0 then None
        else eightsWhole m shadow granules (i + 8)
      else Some i)"
  by pat_completeness auto
termination by (relation "measure (\<lambda>(_, _, granules, i). granules - i)") auto

function onesWhole :: "(u64 \<Rightarrow> byte) \<Rightarrow> u64 \<Rightarrow> nat \<Rightarrow> nat \<Rightarrow> bool" where
  "onesWhole m shadow granules i =
     (if i + 1 < granules then
        weavecRtShadowFull (m (shadow + word_of_nat i)) \<and> onesWhole m shadow granules (i + 1)
      else True)"
  by pat_completeness auto
termination by (relation "measure (\<lambda>(_, _, granules, i). granules - i)") auto

declare eightsWhole.simps [simp del] onesWhole.simps [simp del]

definition allAddressable :: "shadow_t \<Rightarrow> u64 \<Rightarrow> u64 \<Rightarrow> bool" where
  "allAddressable s address n =
     (let last = address + n - 1
      in if n = 0 \<or> n > push_bit 30 1 \<or> last < address \<or> \<not> weavecRtShadowReady s \<or>
            \<not> weavecRtInWindow s address \<or> \<not> weavecRtInWindow s last then False
         else
           let shadow = weavecRtShadowOf s address;
               granules = unat (drop_bit 4 last - drop_bit 4 address + 1)
           in case eightsWhole (shMem s) shadow granules 0 of
                None \<Rightarrow> False
              | Some i \<Rightarrow>
                  onesWhole (shMem s) shadow granules i \<and>
                  (let value = shMem s (shadow + word_of_nat (granules - 1))
                   in weavecRtShadowFull value \<or>
                      (\<not> weavecRtShadowPoison value \<and> unat (last AND 15) < weavecRtShadowBytes value)))"

definition weavec_rt_range ::
  "rt_env \<Rightarrow> shadow_t \<Rightarrow> u64 \<Rightarrow> u64 \<Rightarrow> (failure list \<times> shadow_t) option" where
  "weavec_rt_range e s address n =
     (if weavecRtQuickOk s address n \<or> allAddressable s address n then Some ([], s)
      else map_option (\<lambda>(r, s'). (case r of None \<Rightarrow> []
             | Some (bad, v) \<Rightarrow> [failAt e s' bad v address n], s'))
           (firstUnaddressable e s address n))"

definition weavec_rt_range_ok ::
  "rt_env \<Rightarrow> shadow_t \<Rightarrow> u64 \<Rightarrow> u64 \<Rightarrow> (bool \<times> shadow_t) option" where
  "weavec_rt_range_ok e s address n =
     (if weavecRtQuickOk s address n \<or> allAddressable s address n then Some (True, s)
      else map_option (\<lambda>(r, s'). (r = None, s')) (firstUnaddressable e s address n))"

subsection \<open>Lemmas: the range check\<close>

lemma eight_signs_clear:
  "load64 m i AND signBits = 0 \<longleftrightarrow> (\<forall>k < 8. weavecRtShadowFull (m (i + word_of_nat k)))"
  using chunk_signs_clear [of 8 m i] by simp

lemma onesWhole_iff:
  "onesWhole m shadow g i \<longleftrightarrow> (\<forall>k. i \<le> k \<longrightarrow> k + 1 < g \<longrightarrow> weavecRtShadowFull (m (shadow + word_of_nat k)))"
proof (induction m shadow g i rule: onesWhole.induct)
  case (1 m shadow g i)
  show ?case
  proof (cases "i + 1 < g")
    case True
    have "(\<forall>k. i \<le> k \<longrightarrow> P k) \<longleftrightarrow> P i \<and> (\<forall>k. i + 1 \<le> k \<longrightarrow> P k)" for P
      by (metis Suc_eq_plus1 Suc_leD le_antisym not_less_eq_eq le_refl)
    with 1 True show ?thesis by (subst onesWhole.simps) simp
  qed (auto simp: onesWhole.simps)
qed

lemma eightsWhole_ones:
  "(case eightsWhole m shadow g i of None \<Rightarrow> False | Some j \<Rightarrow> onesWhole m shadow g j) \<longleftrightarrow>
   onesWhole m shadow g i"
proof (induction m shadow g i rule: eightsWhole.induct)
  case (1 m shadow g i)
  show ?case
  proof (cases "i + 8 < g")
    case True
    let ?f = "\<lambda>k. weavecRtShadowFull (m (shadow + word_of_nat k))"
    have "load64 m (shadow + word_of_nat i) AND signBits = 0 \<longleftrightarrow> (\<forall>k < 8. ?f (i + k))"
      by (simp add: eight_signs_clear add.assoc)
    moreover have "(\<forall>k < 8. ?f (i + k)) \<longleftrightarrow> (\<forall>k. i \<le> k \<longrightarrow> k < i + 8 \<longrightarrow> ?f k)"
      by (metis add_less_cancel_left le_add1 le_Suc_ex)
    ultimately have clear: "load64 m (shadow + word_of_nat i) AND signBits = 0 \<longleftrightarrow>
        (\<forall>k. i \<le> k \<longrightarrow> k < i + 8 \<longrightarrow> ?f k)" by blast
    show ?thesis
    proof (cases "load64 m (shadow + word_of_nat i) AND signBits = 0")
      case clr: True
      then have "onesWhole m shadow g i \<longleftrightarrow> onesWhole m shadow g (i + 8)"
        unfolding onesWhole_iff using clear by (meson le_add1 le_trans not_le)
      with 1 True clr show ?thesis by (subst eightsWhole.simps) simp
    next
      case False
      then obtain k where k: "i \<le> k" "k < i + 8" "\<not> ?f k" using clear by blast
      then have "\<not> onesWhole m shadow g i" unfolding onesWhole_iff using True by force
      with True False show ?thesis by (subst eightsWhole.simps) simp
    qed
  qed (simp add: eightsWhole.simps)
qed

lemma allAddressable_exact:
  assumes wf: "shadow_wf s" and n: "0 < n" "n \<le> 2 ^ 30"
    and win: "unat a + unat n \<le> 2 ^ shBits s"
  shows "allAddressable s a n \<longleftrightarrow> all_addressable s a (unat n)"
proof -
  define l where "l = unat a mod 16 + unat n - 1"
  have b: "(2 :: nat) ^ shBits s \<le> 2 ^ 63" by (rule shadow_window_bound [OF wf])
  have n': "0 < unat n" "unat n \<le> 2 ^ 30"
    using n by (simp_all add: word_less_nat_alt word_le_nat_alt)
  have "unat (a + n) = unat a + unat n" using win b by (intro unat_add_no_wrap) simp
  then have last: "unat (a + n - 1) = unat a + unat n - 1"
    using n' by (simp add: unat_sub word_le_nat_alt)
  have la: "unat a + unat n - 1 = 16 * (unat a div 16) + l"
    using n' by (simp add: l_def Nat.add_diff_assoc)
  have "unat (drop_bit 4 (a + n - 1)) = unat a div 16 + l div 16"
    unfolding unat_drop_bit_4 last la by simp
  then have gr0: "unat (drop_bit 4 (a + n - 1) - drop_bit 4 a) = l div 16"
    by (simp add: unat_sub word_le_nat_alt unat_drop_bit_4)
  have "l div 16 < 2 ^ 30" using n' by (simp add: l_def)
  then have gr: "unat (drop_bit 4 (a + n - 1) - drop_bit 4 a + 1) = l div 16 + 1"
    by (simp add: unat_add_no_wrap gr0)
  have low: "unat ((a + n - 1) AND 15) = l mod 16" unfolding unat_and_low last la by simp
  have g: "\<not> (n = 0 \<or> n > push_bit 30 1 \<or> a + n - 1 < a \<or> \<not> weavecRtShadowReady s \<or>
      \<not> weavecRtInWindow s a \<or> \<not> weavecRtInWindow s (a + n - 1))"
    using n n' last win
    by (auto simp: in_window_iff [OF wf] shadow_wf_ready [OF wf] word_less_nat_alt)
  let ?m = "\<lambda>k. shMem s (weavecRtShadowOf s a + word_of_nat k)"
  have "allAddressable s a n \<longleftrightarrow>
      onesWhole (shMem s) (weavecRtShadowOf s a) (l div 16 + 1) 0 \<and>
      byte_ok (?m (l div 16)) (l mod 16)"
    unfolding allAddressable_def Let_def if_not_P [OF g] gr low byte_ok_def
    using eightsWhole_ones [of "shMem s" "weavecRtShadowOf s a" "l div 16 + 1" 0]
    by (auto split: option.splits)
  also have "\<dots> \<longleftrightarrow> (\<forall>k < l div 16. weavecRtShadowFull (?m k)) \<and> byte_ok (?m (l div 16)) (l mod 16)"
    by (auto simp: onesWhole_iff)
  also have "\<dots> \<longleftrightarrow> all_addressable s a (unat n)"
    by (rule all_addressable_granules [OF wf n'(1) win l_def, symmetric])
  finally show ?thesis .
qed

interpretation whole: range_check allAddressable "2 ^ 30"
  by unfold_locales (rule allAddressable_exact)

subsection \<open>Lemmas: settling\<close>

text \<open>
  The shadow byte the slow path decides by: the granule's own, unless it is stale. Clearing
  a stale granule does not change it, so the order in which a scan settles does not matter.
\<close>

definition settledByte :: "rt_env \<Rightarrow> shadow_t \<Rightarrow> u64 \<Rightarrow> byte" where
  "settledByte e s a = fst (settle e s (a AND NOT 15) (shadowByte s a))"

definition accessible :: "rt_env \<Rightarrow> shadow_t \<Rightarrow> u64 \<Rightarrow> bool" where
  "accessible e s a \<longleftrightarrow> byte_ok (settledByte e s a) (unat a mod 16)"

definition same_settled :: "rt_env \<Rightarrow> shadow_t \<Rightarrow> shadow_t \<Rightarrow> bool" where
  "same_settled e s s' \<longleftrightarrow> shMask s' = shMask s \<and> shBits s' = shBits s \<and>
     (\<forall>a. unat a < 2 ^ shBits s \<longrightarrow> settledByte e s' a = settledByte e s a) \<and>
     (\<forall>i. shMem s i = WeavecRtShadowReturned \<or> shMem s' i = shMem s i)"

lemma same_settled_refl [simp]: "same_settled e s s"
  by (simp add: same_settled_def)

lemma same_settled_trans:
  "same_settled e s s' \<Longrightarrow> same_settled e s' s'' \<Longrightarrow> same_settled e s s''"
  by (simp add: same_settled_def) metis

lemma same_settled_byte:
  "same_settled e s s' \<Longrightarrow> shMem s i \<noteq> WeavecRtShadowReturned \<Longrightarrow> shMem s' i = shMem s i"
  by (auto simp: same_settled_def)

lemma same_settled_wf: "same_settled e s s' \<Longrightarrow> shadow_wf s' = shadow_wf s"
  by (simp add: same_settled_def shadow_wf_def)

lemma same_settled_accessible:
  "same_settled e s s' \<Longrightarrow> unat a < 2 ^ shBits s \<Longrightarrow> accessible e s' a = accessible e s a"
  by (simp add: same_settled_def accessible_def)

lemma granule_of:
  assumes "unat a div 16 = unat b div 16"
  shows "a AND NOT 15 = (b :: u64) AND NOT 15"
  using assms by (simp add: word_unat_eq_iff unat_and_minus_16 minus_mod_eq_mult_div)

lemma settle_same:
  assumes wf: "shadow_wf s" and g: "unat granule < 2 ^ shBits s" "granule AND NOT 15 = granule"
  shows "same_settled e s (snd (settle e s granule (shadowByte s granule)))"
proof -
  define s' where "s' = snd (settle e s granule (shadowByte s granule))"
  have "settledByte e s' a = settledByte e s a" if a: "unat a < 2 ^ shBits s" for a
  proof (cases "weavecRtShadowOf s a = weavecRtShadowOf s granule")
    case True
    then have "a AND NOT 15 = granule"
      using granule_of [of a granule] shadowOf_eq_iff [OF wf a g(1)] g(2) by simp
    then show ?thesis by (simp add: settledByte_def settle_def s'_def True)
  next
    case False
    then show ?thesis by (auto simp: settledByte_def settle_def s'_def)
  qed
  moreover have "shMask s' = shMask s" "shBits s' = shBits s" by (simp_all add: s'_def settle_def)
  moreover have "shMem s i = WeavecRtShadowReturned \<or> shMem s' i = shMem s i" for i
    by (simp add: s'_def settle_def)
  ultimately show ?thesis by (simp add: same_settled_def s'_def)
qed

text \<open>A byte that is not poison is its own settled byte.\<close>

lemma settledByte_full: "weavecRtShadowFull (shadowByte s a) \<Longrightarrow> settledByte e s a = shadowByte s a"
  by (auto simp: settledByte_def settle_def weavecRtShadowFull_def)

lemma badIn_nat:
  assumes "unat granule + 16 \<le> 2 ^ 63"
  shows "badIn address end' granule v =
    (if weavecRtShadowPoison v then Some (if unat granule > unat address then granule else address)
     else if min (unat granule + 16) (unat end') \<le> unat granule + weavecRtShadowBytes v then None
     else Some (if max (unat granule) (unat address) > unat granule + weavecRtShadowBytes v
                then (if unat granule > unat address then granule else address)
                else granule + word_of_nat (weavecRtShadowBytes v)))"
proof -
  have "unat (granule + word_of_nat (weavecRtShadowBytes v)) = unat granule + weavecRtShadowBytes v"
    using assms shadow_bytes_less [of v] by (subst unat_add_no_wrap) (auto simp: unat_of_nat_small)
  moreover have "unat (granule + 16) = unat granule + 16"
    using assms by (subst unat_add_no_wrap) auto
  ultimately show ?thesis
    by (auto simp: badIn_def Let_def word_less_nat_alt word_le_nat_alt min_def max_def)
qed

text \<open>
  What \<open>badIn\<close> says of a granule that is not whole, by offsets: nothing when the part of
  the range in it is addressable, else its first byte that is not.
\<close>

lemma badIn_None:
  assumes "badIn address end' granule v = None" "\<not> weavecRtShadowFull v"
    and "unat granule + 16 \<le> 2 ^ 63" "j < 16" "unat granule + j < unat end'"
  shows "byte_ok v j"
  using assms by (auto simp: badIn_nat byte_ok_def split: if_splits)

lemma badIn_Some:
  assumes bad: "badIn address end' granule v = Some bad" "\<not> weavecRtShadowFull v"
    and g: "unat granule + 16 \<le> 2 ^ 63" "16 dvd unat granule"
    and lt: "unat address < unat granule + 16" "unat granule < unat end'" "unat address < unat end'"
  obtains k where "unat bad = unat granule + k" "k < 16" "unat address \<le> unat bad"
    "unat bad < unat end'" "\<not> byte_ok v k"
    "\<And>j. unat address \<le> unat granule + j \<Longrightarrow> j < k \<Longrightarrow> byte_ok v j"
proof -
  define low where "low = max (unat granule) (unat address)"
  have u: "unat (granule + word_of_nat (weavecRtShadowBytes v)) = unat granule + weavecRtShadowBytes v"
    using g shadow_bytes_less [of v] by (subst unat_add_no_wrap) (auto simp: unat_of_nat_small)
  have bv: "weavecRtShadowBytes v < 16" by (rule shadow_bytes_less)
  show thesis
  proof (cases "weavecRtShadowPoison v")
    case True
    then have "unat bad = low" using bad g by (auto simp: badIn_nat low_def)
    then show thesis
      using that [of "low - unat granule"] not_byte_ok_poison [OF True] lt
      by (auto simp: low_def)
  next
    case False
    then have "unat bad = max low (unat granule + weavecRtShadowBytes v)"
      and "unat granule + weavecRtShadowBytes v < min (unat granule + 16) (unat end')"
      using bad g u by (auto simp: badIn_nat low_def split: if_splits)
    then show thesis
      using that [of "max low (unat granule + weavecRtShadowBytes v) - unat granule"] lt bv False
        bad(2)
      by (auto simp: low_def byte_ok_def max_def split: if_splits)
  qed
qed

lemma skipEight_whole:
  assumes wf: "shadow_wf s" and e: "unat end' \<le> 2 ^ shBits s" and al: "16 dvd unat granule"
    and le: "unat granule < unat end'"
  shows "\<exists>g. skipEight s end' granule = Some g \<and> 16 dvd unat g \<and> unat granule \<le> unat g \<and>
    unat g \<le> unat end' \<and>
    (\<forall>a. unat granule \<le> unat a \<longrightarrow> unat a < unat g \<longrightarrow> weavecRtShadowFull (shadowByte s a))"
  using al le
proof (induction "unat end' - unat granule" arbitrary: granule rule: less_induct)
  case less
  have b: "(2 :: nat) ^ shBits s \<le> 2 ^ 63" by (rule shadow_window_bound [OF wf])
  have u: "unat (granule + 128) = unat granule + 128"
    using less.prems e b by (subst unat_add_no_wrap) auto
  show ?case
  proof (cases "granule + 128 \<le> end' \<and> granule AND 127 = 0 \<and>
         load64 (shMem s) (weavecRtShadowOf s granule) AND signBits = 0")
    case False
    then show ?thesis using less.prems by (subst skipEight.simps) auto
  next
    case True
    have whole: "weavecRtShadowFull (shadowByte s a)"
      if "unat granule \<le> unat a" "unat a < unat granule + 128" for a
    proof -
      define i where "i = unat a - unat granule"
      have a: "a = granule + word_of_nat i" using that by (simp add: i_def of_nat_diff)
      have win: "unat granule + i < 2 ^ shBits s"
        using that True e u by (simp add: i_def word_le_nat_alt)
      have "i div 16 < 8" using that by (simp add: i_def less_mult_imp_div_less)
      moreover have "(unat granule mod 16 + i) div 16 = i div 16" using less.prems by simp
      ultimately show ?thesis
        using True by (simp add: a shadowOf_add [OF wf win] eight_signs_clear)
    qed
    show ?thesis
    proof (cases "unat (granule + 128) < unat end'")
      case lt: True
      have "16 dvd unat (granule + 128)" using less.prems(1) u by simp
      moreover have "unat end' - unat (granule + 128) < unat end' - unat granule"
        using less.prems(2) u by simp
      ultimately obtain g where g: "skipEight s end' (granule + 128) = Some g"
        "16 dvd unat g" "unat granule + 128 \<le> unat g" "unat g \<le> unat end'"
        "\<forall>a. unat granule + 128 \<le> unat a \<longrightarrow> unat a < unat g \<longrightarrow> weavecRtShadowFull (shadowByte s a)"
        using less.hyps [of "granule + 128"] lt u by auto
      have "skipEight s end' granule = Some g" using True g(1) by (subst skipEight.simps) simp
      then show ?thesis using g whole by (meson add_leD1 not_le order_trans)
    next
      case False
      then have "granule + 128 = end'" using True by (simp add: word_le_nat_alt word_unat_eq_iff)
      moreover have "\<not> end' + 128 \<le> end'"
        using e b by (simp add: word_le_nat_alt unat_add_no_wrap)
      ultimately have "skipEight s end' granule = Some end'"
        using True by (subst skipEight.simps) (simp add: skipEight.simps)
      moreover have "16 dvd unat (granule + 128)" using less.prems(1) u by simp
      ultimately show ?thesis
        using whole u \<open>granule + 128 = end'\<close> less.prems by auto
    qed
  qed
qed

subsection \<open>Lemmas: the scan\<close>

text \<open>What a scan of \<open>[address, end')\<close> must answer, by the settled bytes of its shadow.\<close>

definition scan_answer :: "rt_env \<Rightarrow> shadow_t \<Rightarrow> u64 \<Rightarrow> u64 \<Rightarrow> (u64 \<times> byte) option \<Rightarrow> bool" where
  "scan_answer e s address end' r \<longleftrightarrow>
     (case r of
        None \<Rightarrow> (\<forall>a. address \<le> a \<and> a < end' \<longrightarrow> accessible e s a)
      | Some (bad, v) \<Rightarrow> address \<le> bad \<and> bad < end' \<and> \<not> accessible e s bad \<and>
          (\<forall>a. address \<le> a \<and> a < bad \<longrightarrow> accessible e s a) \<and> v = settledByte e s bad)"

lemma granule_self: "16 dvd unat (g :: u64) \<Longrightarrow> g AND NOT 15 = g"
  by (simp add: word_unat_eq_iff unat_and_minus_16)

lemma settledByte_granule:
  assumes wf: "shadow_wf s" and g: "unat g < 2 ^ shBits s" "16 dvd unat g"
    and a: "unat g \<le> unat a" "unat a < unat g + 16" "unat a < 2 ^ shBits s"
  shows "settledByte e s a = fst (settle e s g (shadowByte s g))" "unat a mod 16 = unat a - unat g"
proof -
  obtain q where q: "unat g = 16 * q" using g(2) by blast
  then obtain r where r: "unat a = 16 * q + r" "r < 16"
    using a by (metis add_less_cancel_left le_Suc_ex)
  then show "unat a mod 16 = unat a - unat g" by (simp add: q)
  have d: "unat a div 16 = unat g div 16" using r q by simp
  then have "weavecRtShadowOf s a = weavecRtShadowOf s g"
    by (simp add: shadowOf_eq_iff [OF wf a(3) g(1)])
  moreover have "a AND NOT 15 = g" using granule_of [OF d] granule_self [OF g(2)] by simp
  ultimately show "settledByte e s a = fst (settle e s g (shadowByte s g))"
    by (simp add: settledByte_def)
qed

text \<open>One granule that is not whole ends the scan or is passed.\<close>

lemma scan_partial:
  assumes wf: "shadow_wf s" and e: "unat end' \<le> 2 ^ shBits s"
    and g: "16 dvd unat g" "unat g < unat end'" and adr: "unat address < unat g + 16" "address < end'"
    and v: "v = fst (settle e s g (shadowByte s g))" "\<not> weavecRtShadowFull v"
    and before: "\<And>a. address \<le> a \<Longrightarrow> unat a < unat g \<Longrightarrow> accessible e s a"
  shows "(\<forall>bad. badIn address end' g v = Some bad \<longrightarrow> scan_answer e s address end' (Some (bad, v))) \<and>
    (badIn address end' g v = None \<longrightarrow>
      (\<forall>a. address \<le> a \<longrightarrow> unat a < unat g + 16 \<longrightarrow> a < end' \<longrightarrow> accessible e s a))"
proof (intro conjI allI impI)
  have b: "(2 :: nat) ^ shBits s \<le> 2 ^ 63" by (rule shadow_window_bound [OF wf])
  have g63: "unat g + 16 \<le> 2 ^ 63"
  proof -
    obtain q where q: "unat g = 16 * q" using g(1) by blast
    have "(16 :: nat) * q < 16 * 2 ^ 59" using q g(2) e b by simp
    then show ?thesis using q by simp
  qed
  have gw: "unat g < 2 ^ shBits s" using g(2) e by simp
  have acc: "accessible e s a \<longleftrightarrow> byte_ok v (unat a - unat g)"
    if "unat g \<le> unat a" "unat a < unat g + 16" "unat a < unat end'" for a
    using settledByte_granule(1) [OF wf gw g(1) that(1,2), of e]
      settledByte_granule(2) [OF wf gw g(1) that(1,2)] that e
    by (simp add: accessible_def v(1) [symmetric])
  { fix bad assume bad: "badIn address end' g v = Some bad"
    obtain k where k: "unat bad = unat g + k" "k < 16" "unat address \<le> unat bad"
      "unat bad < unat end'" "\<not> byte_ok v k"
      "\<And>j. unat address \<le> unat g + j \<Longrightarrow> j < k \<Longrightarrow> byte_ok v j"
      using badIn_Some [OF bad v(2) g63 g(1)] adr g(2) by (metis word_less_nat_alt)
    have "settledByte e s bad = v"
      using settledByte_granule(1) [OF wf gw g(1), of bad e] k e by (simp add: v(1))
    moreover have "accessible e s a" if "address \<le> a" "a < bad" for a
    proof (cases "unat a < unat g")
      case False
      then show ?thesis
        using acc [of a] k(6) [of "unat a - unat g"] that k by (auto simp: word_order_nat)
    qed (use before that in blast)
    ultimately show "scan_answer e s address end' (Some (bad, v))"
      using k acc [of bad] by (auto simp: scan_answer_def word_order_nat) }
  { fix a assume "badIn address end' g v = None" and a: "address \<le> a" "unat a < unat g + 16" "a < end'"
    then show "accessible e s a"
      using badIn_None [OF _ v(2) g63, of address end' "unat a - unat g"] acc [of a] before [of a]
      by (cases "unat a < unat g") (auto simp: word_order_nat) }
qed

lemma scan_settled:
  assumes wf: "shadow_wf s" and e: "unat end' \<le> 2 ^ shBits s"
    and g: "16 dvd unat g" "unat g < unat end'" and adr: "unat address < unat g + 16" "address < end'"
    and v: "v = fst (settle e s g (shadowByte s g))"
    and before: "\<And>a. address \<le> a \<Longrightarrow> unat a < unat g \<Longrightarrow> accessible e s a"
  shows "\<not> weavecRtShadowFull v \<Longrightarrow> badIn address end' g v = Some bad \<Longrightarrow>
      scan_answer e s address end' (Some (bad, v))"
    and "weavecRtShadowFull v \<or> badIn address end' g v = None \<Longrightarrow>
      address \<le> a \<Longrightarrow> unat a < unat g + 16 \<Longrightarrow> a < end' \<Longrightarrow> accessible e s a"
proof -
  show "scan_answer e s address end' (Some (bad, v))"
    if "\<not> weavecRtShadowFull v" "badIn address end' g v = Some bad"
    using scan_partial [OF wf e g adr v that(1) before] that(2) by blast
  assume H: "weavecRtShadowFull v \<or> badIn address end' g v = None" and a: "address \<le> a"
    "unat a < unat g + 16" "a < end'"
  show "accessible e s a"
  proof (cases "weavecRtShadowFull v \<and> unat g \<le> unat a")
    case True
    have "settledByte e s a = v"
      using settledByte_granule(1) [OF wf _ g(1), of a e] True a g e v by (simp add: word_order_nat)
    then show ?thesis using True by (simp add: accessible_def byte_ok_full)
  next
    case False
    then show ?thesis
      using before [OF a(1)] H a scan_partial [OF wf e g adr v _ before]
      by (cases "unat g \<le> unat a") auto
  qed
qed

lemma scan_answer_same:
  assumes "same_settled e s t" "unat end' \<le> 2 ^ shBits s"
  shows "scan_answer e t address end' r = scan_answer e s address end' r"
proof -
  have "a < end' \<Longrightarrow> accessible e t a = accessible e s a"
    "a < end' \<Longrightarrow> settledByte e t a = settledByte e s a" for a
    using assms by (auto simp: same_settled_def accessible_def word_less_nat_alt)
  then show ?thesis
    unfolding scan_answer_def by (auto split: option.splits)
qed

text \<open>
  One iteration of the loop: it returns the answer, or goes on at the granule after \<open>g\<close>
  with a shadow that settles alike and everything before it accessible.
\<close>

definition iterates :: "rt_env \<Rightarrow> u64 \<Rightarrow> u64 \<Rightarrow> shadow_t \<Rightarrow> u64 \<Rightarrow> bool" where
  "iterates e address end' s granule \<longleftrightarrow>
     (\<exists>t. same_settled e s t \<and>
       ((\<exists>r. scanGranules e address end' s granule = Some (r, t) \<and> scan_answer e s address end' r) \<or>
        (\<exists>g. 16 dvd unat g \<and> unat granule \<le> unat g \<and> unat g < unat end' \<and>
          scanGranules e address end' s granule = scanGranules e address end' t (g + 16) \<and>
          (\<forall>a. address \<le> a \<longrightarrow> unat a < unat g + 16 \<longrightarrow> a < end' \<longrightarrow> accessible e s a))))"

lemma iterates_partial:
  assumes wf: "shadow_wf s" and e: "unat end' \<le> 2 ^ shBits s"
    and g: "16 dvd unat granule" "unat granule < unat end'"
    and adr: "unat address < unat granule + 16" "address < end'"
    and before: "\<And>a. address \<le> a \<Longrightarrow> unat a < unat granule \<Longrightarrow> accessible e s a"
    and part: "\<not> weavecRtShadowFull (fst (settle e s granule (shadowByte s granule)))"
  shows "iterates e address end' s granule"
proof -
  define s1 where "s1 = snd (settle e s granule (shadowByte s granule))"
  define v where "v = fst (settle e s granule (shadowByte s granule))"
  have same: "same_settled e s s1"
    unfolding s1_def using g e by (intro settle_same [OF wf _ granule_self]) simp_all
  have lt: "granule < end'" using g(2) by (simp add: word_less_nat_alt)
  have scan: "scanGranules e address end' s granule =
      (case badIn address end' granule v of
         None \<Rightarrow> scanGranules e address end' s1 (granule + 16)
       | Some bad \<Rightarrow> Some (Some (bad, v), s1))"
    using lt part [folded v_def]
    by (subst scanGranules.simps) (simp add: Let_def v_def [symmetric] s1_def [symmetric] cong: option.case_cong)
  show ?thesis
    using scan same g part [folded v_def] scan_settled [OF wf e g adr v_def before]
    unfolding iterates_def by (cases "badIn address end' granule v") auto
qed

lemma iterates_whole:
  assumes wf: "shadow_wf s" and e: "unat end' \<le> 2 ^ shBits s"
    and g: "16 dvd unat granule" "unat granule < unat end'"
    and adr: "unat address < unat granule + 16" "address < end'"
    and before: "\<And>a. address \<le> a \<Longrightarrow> unat a < unat granule \<Longrightarrow> accessible e s a"
    and full: "weavecRtShadowFull (fst (settle e s granule (shadowByte s granule)))"
  shows "iterates e address end' s granule"
proof -
  define s1 where "s1 = snd (settle e s granule (shadowByte s granule))"
  have same: "same_settled e s s1"
    unfolding s1_def using g e by (intro settle_same [OF wf _ granule_self]) simp_all
  have lt: "granule < end'" using g(2) by (simp add: word_less_nat_alt)
  have wf1: "shadow_wf s1" using wf same_settled_wf [OF same] by simp
  have e1: "unat end' \<le> 2 ^ shBits s1" using e same by (simp add: same_settled_def)
  have acc: "a < end' \<Longrightarrow> accessible e s1 a = accessible e s a" for a
    using same_settled_accessible [OF same] e by (simp add: word_less_nat_alt)
  obtain g' where g': "skipEight s1 end' granule = Some g'" "16 dvd unat g'"
    "unat granule \<le> unat g'" "unat g' \<le> unat end'" and
    whole: "\<And>a. unat granule \<le> unat a \<Longrightarrow> unat a < unat g' \<Longrightarrow> weavecRtShadowFull (shadowByte s1 a)"
    using skipEight_whole [OF wf1 e1 g] by blast
  have acc1: "accessible e s1 a" if a: "address \<le> a" "unat a < unat g'" for a
  proof (cases "unat granule \<le> unat a")
    case True
    then show ?thesis
      using whole a by (simp add: accessible_def settledByte_full byte_ok_full)
  next
    case False
    then show ?thesis using before [OF a(1)] acc [of a] a(2) g'(4) by (simp add: word_less_nat_alt)
  qed
  define s2 where "s2 = snd (settle e s1 g' (shadowByte s1 g'))"
  define v2 where "v2 = fst (settle e s1 g' (shadowByte s1 g'))"
  have scan: "scanGranules e address end' s granule =
      (if g' \<ge> end' then Some (None, s1)
       else if weavecRtShadowFull v2 then scanGranules e address end' s2 (g' + 16)
       else (case badIn address end' g' v2 of
               None \<Rightarrow> scanGranules e address end' s2 (g' + 16)
             | Some bad \<Rightarrow> Some (Some (bad, v2), s2)))"
    using lt full g'(1)
    by (subst scanGranules.simps)
      (simp add: Let_def s1_def [symmetric] s2_def [symmetric] v2_def [symmetric]
        cong: option.case_cong)
  show ?thesis
  proof (cases "g' \<ge> end'")
    case ge: True
    have "scan_answer e s1 address end' None"
      using acc1 ge by (auto simp: scan_answer_def word_order_nat)
    then show ?thesis
      using scan ge same scan_answer_same [OF same e] unfolding iterates_def by auto
  next
    case False
    then have lt': "unat g' < unat end'" by (simp add: word_le_nat_alt)
    have "same_settled e s1 s2"
      unfolding s2_def using lt' e1 by (intro settle_same [OF wf1 _ granule_self [OF g'(2)]]) simp
    then have same2: "same_settled e s s2" by (rule same_settled_trans [OF same])
    have adr1: "unat address < unat g' + 16" using adr(1) g'(3) by simp
    note there = scan_settled [OF wf1 e1 g'(2) lt' adr1 adr(2) v2_def acc1]
    show ?thesis
      using scan False same2 g' lt' there acc scan_answer_same [OF same e]
      unfolding iterates_def by (cases "badIn address end' g' v2"; cases "weavecRtShadowFull v2") auto
  qed
qed

lemma scanGranules_answer:
  assumes wf: "shadow_wf s" and e: "unat end' \<le> 2 ^ shBits s" and al: "16 dvd unat granule"
    and adr: "unat address < unat granule + 16" "address < end'"
    and before: "\<And>a. address \<le> a \<Longrightarrow> unat a < unat granule \<Longrightarrow> a < end' \<Longrightarrow> accessible e s a"
  shows "\<exists>r s'. scanGranules e address end' s granule = Some (r, s') \<and> same_settled e s s' \<and>
    scan_answer e s address end' r"
  using wf e al adr before
proof (induction "unat end' + 16 - unat granule" arbitrary: granule s rule: less_induct)
  case less
  note wf = less.prems(1) and e = less.prems(2) and al = less.prems(3) and before = less.prems(6)
  have b: "(2 :: nat) ^ shBits s \<le> 2 ^ 63" by (rule shadow_window_bound [OF wf])
  show ?case
  proof (cases "granule < end'")
    case False
    then have "scan_answer e s address end' None"
      using before by (auto simp: scan_answer_def word_order_nat)
    then show ?thesis using False by (subst scanGranules.simps) auto
  next
    case True
    then have gl: "unat granule < unat end'" by (simp add: word_less_nat_alt)
    have before': "address \<le> a \<Longrightarrow> unat a < unat granule \<Longrightarrow> accessible e s a" for a
      using before gl by (simp add: word_less_nat_alt)
    have "iterates e address end' s granule"
      using iterates_partial [OF wf e al gl less.prems(4,5) before']
        iterates_whole [OF wf e al gl less.prems(4,5) before'] by blast
    then obtain t where t: "same_settled e s t" and
      alt: "(\<exists>r. scanGranules e address end' s granule = Some (r, t) \<and> scan_answer e s address end' r) \<or>
        (\<exists>g. 16 dvd unat g \<and> unat granule \<le> unat g \<and> unat g < unat end' \<and>
          scanGranules e address end' s granule = scanGranules e address end' t (g + 16) \<and>
          (\<forall>a. address \<le> a \<longrightarrow> unat a < unat g + 16 \<longrightarrow> a < end' \<longrightarrow> accessible e s a))"
      unfolding iterates_def by blast
    from alt show ?thesis
    proof (elim disjE exE conjE)
      fix g assume g: "16 dvd unat g" "unat granule \<le> unat g" "unat g < unat end'"
        "scanGranules e address end' s granule = scanGranules e address end' t (g + 16)"
        and ok: "\<forall>a. address \<le> a \<longrightarrow> unat a < unat g + 16 \<longrightarrow> a < end' \<longrightarrow> accessible e s a"
      have u: "unat (g + 16) = unat g + 16" using g e b by (subst unat_add_no_wrap) auto
      have sb: "shBits t = shBits s" using t by (simp add: same_settled_def)
      have acc: "a < end' \<Longrightarrow> accessible e t a = accessible e s a" for a
        using same_settled_accessible [OF t] e by (simp add: word_less_nat_alt)
      have "\<exists>r s'. scanGranules e address end' t (g + 16) = Some (r, s') \<and> same_settled e t s' \<and>
        scan_answer e t address end' r"
        using g u sb less.prems(1-5) ok acc same_settled_wf [OF t]
        by (intro less.hyps) auto
      then show ?thesis
        using same_settled_trans [OF t] scan_answer_same [OF t e] g(4) by metis
    qed (use t in blast)
  qed
qed

lemma rangeEnd_window:
  assumes wf: "shadow_wf s" and n: "0 < n" and a: "unat a < 2 ^ shBits s"
  shows "unat (rangeEnd s a n) = min (unat a + unat n) (2 ^ shBits s)"
proof -
  have sb: "shBits s < 64" using wf by (simp add: shadow_wf_def)
  have b: "(2 :: nat) ^ shBits s \<le> 2 ^ 63" by (rule shadow_window_bound [OF wf])
  have p: "unat (push_bit (shBits s) 1 :: u64) = 2 ^ shBits s"
    using sb by (simp add: push_bit_eq_mult unat_pow2)
  have n': "0 < unat n" using n by (simp add: word_less_nat_alt)
  show ?thesis
  proof (cases "unat a + unat n \<ge> 2 ^ 64")
    case True
    then show ?thesis using sb p b by (simp add: rangeEnd_def)
  next
    case False
    then have u: "unat (a + n) = unat a + unat n" by (intro unat_add_no_wrap) simp
    then have "unat (a + n - 1) = unat a + unat n - 1"
      using n' by (simp add: unat_sub word_le_nat_alt)
    then have "weavecRtInWindow s (a + n - 1) \<longleftrightarrow> unat a + unat n \<le> 2 ^ shBits s"
      using n' by (auto simp: in_window_iff [OF wf])
    then show ?thesis using False sb p u by (simp add: rangeEnd_def Let_def)
  qed
qed

lemma untagged_in_window: "weavecRtInWindow s a \<Longrightarrow> untagged e s a = a"
  by (simp add: untagged_def)

lemma firstUnaddressable_answer:
  assumes wf: "shadow_wf s" and n: "0 < n" and a: "unat a < 2 ^ shBits s"
  shows "\<exists>r s'. firstUnaddressable e s a n = Some (r, s') \<and> same_settled e s s' \<and>
    scan_answer e s a (rangeEnd s a n) r"
proof -
  have n': "0 < unat n" using n by (simp add: word_less_nat_alt)
  have w: "weavecRtInWindow s a" using a by (simp add: in_window_iff [OF wf])
  have g: "\<not> (n = 0 \<or> \<not> weavecRtShadowReady s \<or> \<not> weavecRtInWindow s a)"
    using n w by (auto simp: shadow_wf_ready [OF wf])
  have "\<exists>r s'. scanGranules e a (rangeEnd s a n) s (a AND NOT 15) = Some (r, s') \<and>
      same_settled e s s' \<and> scan_answer e s a (rangeEnd s a n) r"
  proof (rule scanGranules_answer [OF wf])
    show "unat (rangeEnd s a n) \<le> 2 ^ shBits s" by (simp add: rangeEnd_window [OF wf n a])
    show "16 dvd unat (a AND NOT 15)" by (simp add: unat_and_minus_16 minus_mod_eq_mult_div)
    have "unat a mod 16 < 16" by simp
    then show "unat a < unat (a AND NOT 15) + 16" unfolding unat_and_not_15 by linarith
    show "a < rangeEnd s a n"
      using a n' by (simp add: word_less_nat_alt rangeEnd_window [OF wf n a])
    show "accessible e s b" if "a \<le> b" "unat b < unat (a AND NOT 15)" for b
      using that by (simp add: unat_and_minus_16 word_le_nat_alt)
  qed
  then show ?thesis
    unfolding firstUnaddressable_def Let_def untagged_in_window [OF w] if_not_P [OF g] .
qed

lemma addressable_accessible: "addressable s a \<Longrightarrow> accessible e s a"
  by (auto simp: addressable_def accessible_def settledByte_def settle_def byte_ok_def full_iff)

lemma in_range_add:
  fixes a :: u64
  assumes "shadow_wf s" "unat a + n \<le> 2 ^ shBits s"
  shows "(\<forall>b. a \<le> b \<and> unat b < unat a + n \<longrightarrow> P b) \<longleftrightarrow> (\<forall>i < n. P (a + word_of_nat i))"
proof (intro iffI allI impI)
  have b: "(2 :: nat) ^ shBits s \<le> 2 ^ 63" by (rule shadow_window_bound [OF assms(1)])
  fix i assume H: "\<forall>b. a \<le> b \<and> unat b < unat a + n \<longrightarrow> P b" and i: "i < n"
  have "unat (a + word_of_nat i) = unat a + i"
    using assms(2) b i by (subst unat_add_no_wrap) (auto simp: unat_of_nat_small)
  then show "P (a + word_of_nat i)" using H i by (simp add: word_le_nat_alt)
next
  fix b assume H: "\<forall>i < n. P (a + word_of_nat i)" and b: "a \<le> b \<and> unat b < unat a + n"
  then have "b = a + word_of_nat (unat b - unat a)" by (simp add: of_nat_diff word_le_nat_alt)
  moreover have "unat b - unat a < n" using b by (auto simp: word_le_nat_alt)
  ultimately show "P b" using H by metis
qed

subsection \<open>Properties\<close>

text \<open>
  C15: \<open>firstUnaddressable\<close> terminates for every range that starts in the window and finds
  exactly the first byte that must not be touched: it answers nothing when every byte of the
  range inside the window is accessible, and otherwise the least byte that is not, with the
  shadow byte that condemns it. The granules it clears on the way settle as before, so
  clearing never changes what a later guard decides.
\<close>

theorem firstUnaddressable_least:
  assumes "shadow_wf s" and "0 < n" and "unat a < 2 ^ shBits s"
  shows "\<exists>r s'. firstUnaddressable e s a n = Some (r, s') \<and>
    (\<forall>b. unat b < 2 ^ shBits s \<longrightarrow> accessible e s' b = accessible e s b) \<and>
    (case r of
       None \<Rightarrow> (\<forall>b. a \<le> b \<and> unat b < min (unat a + unat n) (2 ^ shBits s) \<longrightarrow> accessible e s b)
     | Some (bad, v) \<Rightarrow>
         a \<le> bad \<and> unat bad < min (unat a + unat n) (2 ^ shBits s) \<and> \<not> accessible e s bad \<and>
         (\<forall>b. a \<le> b \<and> b < bad \<longrightarrow> accessible e s b) \<and> v = settledByte e s bad)"
proof -
  obtain r s' where r: "firstUnaddressable e s a n = Some (r, s')" "same_settled e s s'"
    "scan_answer e s a (rangeEnd s a n) r"
    using firstUnaddressable_answer [OF assms] by blast
  then show ?thesis
    using same_settled_accessible [OF r(2)]
    by (intro exI [of _ r] exI [of _ s'])
      (auto simp: scan_answer_def word_less_nat_alt rangeEnd_window [OF assms] split: option.splits)
qed

theorem firstUnaddressable_least_witness:
  "\<exists>r s'. firstUnaddressable
      \<lparr>stackTop = 0, stackBottom = 0, here = 0, aarch64 = False, stackLostColors = False,
       heapObjectAt = (\<lambda>_. \<lparr>hoFound = False, hoLive = False, hoBase = 0, hoSize = 0\<rparr>)\<rparr>
      \<lparr>shMask = 15, shBits = 8, shMem = (\<lambda>i. if i < 3 then 9 else 0xFA)\<rparr> 8 50 = Some (r, s')"
proof -
  let ?e = "\<lparr>stackTop = 0, stackBottom = 0, here = 0, aarch64 = False, stackLostColors = False,
       heapObjectAt = (\<lambda>_. \<lparr>hoFound = False, hoLive = False, hoBase = 0, hoSize = 0\<rparr>)\<rparr>"
  have wf: "shadow_wf \<lparr>shMask = 15, shBits = 8, shMem = (\<lambda>i. if i < 3 then 9 else 0xFA)\<rparr>"
    by (simp add: shadow_wf_def)
  have "(0 :: u64) < 50" "unat (8 :: u64) < 2 ^ 8" by simp_all
  then show ?thesis using firstUnaddressable_least [OF wf, of 50 8 ?e] by auto
qed

text \<open>
  C25: the range decision \<open>__weavec_rt_range_ok\<close>, whose answer lets a loop run without its
  guards, is exact inside the window whichever of its three stages answers: it terminates,
  and says yes if and only if every byte of the range is accessible.
\<close>

theorem weavec_rt_range_ok_exact:
  assumes wf: "shadow_wf s" and n: "0 < n" and win: "unat a + unat n \<le> 2 ^ shBits s"
  shows "\<exists>s'. weavec_rt_range_ok e s a n =
    Some (\<forall>i < unat n. accessible e s (a + word_of_nat i), s')"
proof -
  have n': "0 < unat n" using n by (simp add: word_less_nat_alt)
  have a: "unat a < 2 ^ shBits s" using win n' by simp
  have fast: "\<forall>i < unat n. accessible e s (a + word_of_nat i)"
    if "weavecRtQuickOk s a n \<or> allAddressable s a n"
  proof -
    have "n \<le> 113 \<or> n \<le> 2 ^ 30"
      using that n by (auto simp: weavecRtQuickOk_def allAddressable_def Let_def not_less split: if_splits)
    then have "all_addressable s a (unat n)"
      using that n win quickOk_exact [OF wf n _ win] allAddressable_exact [OF wf n _ win]
      by (auto simp: weavecRtQuickOk_def allAddressable_def Let_def not_less split: if_splits)
    then show ?thesis by (simp add: all_addressable_def addressable_accessible)
  qed
  obtain r s' where r: "firstUnaddressable e s a n = Some (r, s')"
    "scan_answer e s a (rangeEnd s a n) r"
    using firstUnaddressable_answer [OF wf n a] by blast
  have "r = None \<longleftrightarrow> (\<forall>b. a \<le> b \<and> unat b < unat a + unat n \<longrightarrow> accessible e s b)"
    using r(2) win
    by (cases r) (auto simp: scan_answer_def word_less_nat_alt rangeEnd_window [OF wf n a] min_def)
  also have "\<dots> \<longleftrightarrow> (\<forall>i < unat n. accessible e s (a + word_of_nat i))"
    by (rule in_range_add [OF wf win])
  finally show ?thesis
    using fast r(1) by (auto simp: weavec_rt_range_ok_def)
qed

theorem weavec_rt_range_ok_exact_witness:
  "(let s = \<lparr>shMask = 15, shBits = 8, shMem = (\<lambda>i. if i < 3 then 9 else 0xFA)\<rparr>;
        e = \<lparr>stackTop = 0, stackBottom = 0, here = 0, aarch64 = False, stackLostColors = False,
             heapObjectAt = (\<lambda>_. \<lparr>hoFound = False, hoLive = False, hoBase = 0, hoSize = 0\<rparr>)\<rparr>
    in \<exists>s'. weavec_rt_range_ok e s 8 50 =
        Some (\<forall>i < 50. accessible e s (8 + word_of_nat i), s'))"
  using weavec_rt_range_ok_exact [of "\<lparr>shMask = 15, shBits = 8,
      shMem = (\<lambda>i. if i < 3 then 9 else 0xFA)\<rparr>" 50 8]
  by (simp add: shadow_wf_def Let_def)

end
