(* ===== verification/Inline_Guard.thy ===== *)
theory Inline_Guard
  imports Guard_Runtime
begin

text \<open>
  The checks \<open>FunctionContext\<close> of \<open>lib/Frontend/GuardPass.cpp\<close> emits, by what the emitted
  code does when it runs: which of the runtime's entry points it calls, in which order and
  with which arguments. A value the pass knows when it emits the code (the width, the
  alignment, the members of a merged guard, whether there is a root) and one only known when
  the code runs (the address, the shadow) are both arguments here. Loads come before the
  calls in every emitted block, so the calls are a function of the shadow at entry.

  \<open>runCalls\<close> composes the emitted calls with the runtime of \<open>Guard_Runtime\<close>.
\<close>

subsection \<open>What the emitted code calls\<close>

type_synonym site = nat

datatype slow_call =
    CallGuard u64 u64 site
  | CallNull u64 site
  | CallRange u64 u64 site
  | CallJump u64 u64 u64 u64 site
  | CallGuardJump u64 u64 u64 u64 site
  | CallStrlen u64 u64 site
  | CallOverlap u64 u64 u64 site

text \<open>\<open>FunctionContext::Member\<close> and \<open>RootCheck\<close>.\<close>

record member =
  mPointer :: u64
  mWidth :: u64
  mSite :: site

text \<open>
  \<open>rcIsNullBase\<close> says whether the root is the same value as the base tested for null;
  \<open>rcMonitor\<close> is the site a monitor's mismatch reports with.
\<close>

record root_check =
  rcRoot :: u64
  rcShadow :: u32
  rcMonitor :: "site option"
  rcIsNullBase :: bool

definition shadowAddress :: "shadow_t \<Rightarrow> u64 \<Rightarrow> u64" where
  "shadowAddress s address = drop_bit 4 address AND shMask s"

text \<open>A load of \<open>n\<close> bytes, at most eight, little-endian and zero-extended.\<close>

definition loadInt :: "(u64 \<Rightarrow> byte) \<Rightarrow> u64 \<Rightarrow> nat \<Rightarrow> u64" where
  "loadInt m i n = take_bit (8 * n) (load64 m i)"

definition isPowerOf2_64 :: "u64 \<Rightarrow> bool" where
  "isPowerOf2_64 w \<longleftrightarrow> w \<noteq> 0 \<and> w AND (w - 1) = 0"

definition slowGuard :: "u64 \<Rightarrow> u64 \<Rightarrow> site \<Rightarrow> member list \<Rightarrow> slow_call list" where
  "slowGuard address width site members =
     (if members = [] then [CallGuard address width site]
      else map (\<lambda>m. CallGuard (mPointer m) (mWidth m) (mSite m)) members)"

definition nullCall :: "bool \<Rightarrow> u64 \<Rightarrow> site \<Rightarrow> slow_call list" where
  "nullCall nullTest address site = (if nullTest then [CallNull address site] else [])"

text \<open>The site of a color mismatch.\<close>

definition jumpSite :: "root_check \<Rightarrow> site \<Rightarrow> site" where
  "jumpSite root site = (case rcMonitor root of Some m \<Rightarrow> m | None \<Rightarrow> site)"

definition rootByte :: "root_check \<Rightarrow> byte" where
  "rootByte root = ucast (rcShadow root)"

definition jumpCall :: "u64 \<Rightarrow> u64 \<Rightarrow> site \<Rightarrow> root_check \<Rightarrow> slow_call" where
  "jumpCall address width site root =
     CallJump address width (rcRoot root) (ucast (rootByte root)) (jumpSite root site)"

definition colorCheck :: "shadow_t \<Rightarrow> u64 \<Rightarrow> u64 \<Rightarrow> site \<Rightarrow> root_check \<Rightarrow> slow_call list" where
  "colorCheck s address width site root =
     (let value = shMem s (shadowAddress s address)
      in if (ucast value :: u32) \<noteq> rcShadow root \<and> value \<noteq> rootByte root
         then [jumpCall address width site root] else [])"

text \<open>The class and the wholeness the one-granule check computes inline.\<close>

definition classOf :: "byte \<Rightarrow> byte" where
  "classOf v = (if sint v < 0 then drop_bit 4 v AND 7 else v AND 7)"

definition wholeByte :: "byte \<Rightarrow> bool" where
  "wholeByte v \<longleftrightarrow> sint v \<ge> 0"

definition singleCheck ::
  "shadow_t \<Rightarrow> u64 \<Rightarrow> u64 \<Rightarrow> site \<Rightarrow> u64 option \<Rightarrow> member list \<Rightarrow> root_check option \<Rightarrow> slow_call list"
where
  "singleCheck s address width site nullBase members root =
     (let value = shMem s (shadowAddress s address);
          offset = address AND 15;
          isNull = (nullBase = Some 0);
          nullInCheck = (nullBase \<noteq> None \<and> (case root of Some r \<Rightarrow> rcIsNullBase r | None \<Rightarrow> False));
          nonzero = (case root of Some r \<Rightarrow> (ucast value :: u32) \<noteq> rcShadow r | None \<Rightarrow> sint value < 0)
      in if \<not> (nonzero \<or> (\<not> nullInCheck \<and> isNull)) then []
         else
           let last = ucast (offset + (width - 1)) :: byte;
               bad = (value \<ge> 0xF0 \<or> last \<ge> value AND 15)
           in nullCall isNull address site @
              (case root of
                 None \<Rightarrow> if bad then slowGuard address width site members else []
               | Some r \<Rightarrow>
                   let bad = (sint value < 0 \<and> bad); rb = rootByte r
                   in if rcMonitor r = None \<and> members = [] then
                        let differs = (wholeByte value \<and> wholeByte rb \<and> value \<noteq> rb) \<or>
                                      classOf value \<noteq> classOf rb
                        in if bad \<or> differs
                           then [CallGuardJump address width (rcRoot r) (ucast rb) site] else []
                      else (if bad then slowGuard address width site members else []) @
                           (if value \<noteq> rb then [jumpCall address width site r] else [])))"

definition pairCheck ::
  "bool \<Rightarrow> shadow_t \<Rightarrow> u64 \<Rightarrow> u64 \<Rightarrow> site \<Rightarrow> u64 option \<Rightarrow> member list \<Rightarrow> slow_call list" where
  "pairCheck little s address width site nullBase members =
     (let shadowAt = shadowAddress s address;
          lastAddress = address + (width - 1);
          isNull = (nullBase = Some 0);
          first = shMem s shadowAt;
          last = shMem s (shadowAddress s lastAddress);
          nonzero = (if little then loadInt (shMem s) shadowAt 2 AND 0x8080 \<noteq> 0
                     else sint (first OR last) < 0)
      in if \<not> (nonzero \<or> isNull) then []
         else
           let crosses = (drop_bit 4 (address XOR lastAddress) \<noteq> 0);
               lastByte = ucast (lastAddress AND 15) :: byte;
               bad = (crosses \<and> sint first < 0) \<or>
                     (sint last < 0 \<and> (last \<ge> 0xF0 \<or> lastByte \<ge> last AND 15))
           in nullCall isNull address site @
              (if bad then slowGuard address width site members else []))"

text \<open>
  The check of up to eight granules: \<open>chunkFast\<close> is the first branch, there for a constant
  width; \<open>chunkExact\<close> is the code after it. \<open>slow\<close> is what the slow path calls.
\<close>

definition chunkFast :: "shadow_t \<Rightarrow> u64 \<Rightarrow> u64 \<Rightarrow> bool" where
  "chunkFast s shadowAt width =
     (let reach = (15 + unat width + 15) div 16
      in if reach \<le> 2 then loadInt (shMem s) shadowAt reach AND take_bit (8 * reach) signBits \<noteq> 0
         else let m = (if reach \<ge> 8 then NOT 0 else push_bit (8 * reach) 1 - 1)
              in load64 (shMem s) shadowAt AND (m AND signBits) \<noteq> 0)"

definition chunkExact ::
  "shadow_t \<Rightarrow> u64 \<Rightarrow> u64 \<Rightarrow> u64 \<Rightarrow> site \<Rightarrow> bool \<Rightarrow> slow_call list \<Rightarrow> slow_call list" where
  "chunkExact s shadowAt address width site isNull slow =
     (let offset = address AND 15;
          lastOffset = offset + (width - 1);
          granules = drop_bit 4 lastOffset;
          chunk = load64 (shMem s) shadowAt;
          bits = unat (push_bit 3 granules);
          restMask = push_bit bits 1 - 1;
          rest = chunk AND restMask AND signBits;
          lastValue = ucast (drop_bit bits chunk) :: byte
      in if \<not> (rest \<noteq> 0 \<or> sint lastValue < 0 \<or> isNull) then []
         else
           let lastByte = ucast (lastOffset AND 15) :: byte;
               bad = rest \<noteq> 0 \<or>
                     (sint lastValue < 0 \<and> (lastValue \<ge> 0xF0 \<or> lastByte \<ge> lastValue AND 15))
           in nullCall isNull address site @ (if bad then slow else []))"

definition chunkCheck ::
  "shadow_t \<Rightarrow> bool \<Rightarrow> u64 \<Rightarrow> u64 \<Rightarrow> site \<Rightarrow> u64 option \<Rightarrow> slow_call list \<Rightarrow> slow_call list" where
  "chunkCheck s constant address width site nullBase slow =
     (let shadowAt = shadowAddress s address; isNull = (nullBase = Some 0)
      in if constant \<and> width \<noteq> 0 \<and> width \<le> 113 \<and> \<not> (chunkFast s shadowAt width \<or> isNull) then []
         else chunkExact s shadowAt address width site isNull slow)"

definition emitGuard ::
  "bool \<Rightarrow> shadow_t \<Rightarrow> u64 \<Rightarrow> u64 \<Rightarrow> u64 \<Rightarrow> site \<Rightarrow> u64 option \<Rightarrow> member list \<Rightarrow> root_check option \<Rightarrow>
   slow_call list" where
  "emitGuard little s address width alignment site nullBase members root =
     (if width = 0 then []
      else
        let oneGranule = (width \<le> 16 \<and> isPowerOf2_64 width \<and> alignment \<ge> width)
        in (case root of
              Some r \<Rightarrow> if \<not> oneGranule then colorCheck s address width site r else []
            | None \<Rightarrow> []) @
           (if width > 113 \<or> (\<not> little \<and> width > 16) then
              if members = [] then [CallRange address width site]
              else slowGuard address width site members
            else if oneGranule then singleCheck s address width site nullBase members root
            else if width \<le> 16 then pairCheck little s address width site nullBase members
            else chunkCheck s True address width site nullBase
                   (slowGuard address width site members)))"

definition chunkCheckString :: "shadow_t \<Rightarrow> u64 \<Rightarrow> u64 \<Rightarrow> site \<Rightarrow> slow_call list" where
  "chunkCheckString s address bound site =
     chunkCheck s True address bound site None [CallStrlen address bound site]"

definition emitRange :: "bool \<Rightarrow> shadow_t \<Rightarrow> u64 \<Rightarrow> u64 \<Rightarrow> site \<Rightarrow> slow_call list" where
  "emitRange little s address bytes site =
     (if \<not> little then [CallRange address bytes site]
      else if bytes - 1 < 113 then
        chunkCheck s False address bytes site None (slowGuard address bytes site [])
      else [CallRange address bytes site])"

text \<open>
  \<open>expandDisjoint\<close> of \<open>GuardExpand.cpp\<close>: \<open>never\<close> says that the operands are the same
  value or two distinct identified objects.
\<close>

definition expandDisjoint :: "bool \<Rightarrow> u64 \<Rightarrow> u64 \<Rightarrow> u64 \<Rightarrow> site \<Rightarrow> slow_call list" where
  "expandDisjoint never destination source len site =
     (if never then []
      else if destination < source + len \<and> source < destination + len \<and> destination \<noteq> source
      then [CallOverlap destination source len site] else [])"

subsection \<open>The calls, run\<close>

text \<open>\<open>strlen\<close> is the string guard, which reads the program's memory.\<close>

type_synonym strings = "shadow_t \<Rightarrow> u64 \<Rightarrow> u64 \<Rightarrow> (failure list \<times> shadow_t) option"

fun runCall :: "strings \<Rightarrow> rt_env \<Rightarrow> shadow_t \<Rightarrow> slow_call \<Rightarrow> (failure list \<times> shadow_t) option" where
  "runCall strlen e s (CallGuard a w _) = guardSlow e s a w"
| "runCall strlen e s (CallNull a _) = Some (weavec_rt_null a, s)"
| "runCall strlen e s (CallRange a n _) = weavec_rt_range e s a n"
| "runCall strlen e s (CallJump a w r v _) = Some (jumpSlow e s a w r (ucast v), s)"
| "runCall strlen e s (CallGuardJump a w r v _) = guardJumpSlow e s a w r (ucast v)"
| "runCall strlen e s (CallStrlen a n _) = strlen s a n"
| "runCall strlen e s (CallOverlap d r n _) = Some (weavec_rt_overlap d r n, s)"

fun runCalls :: "strings \<Rightarrow> rt_env \<Rightarrow> shadow_t \<Rightarrow> slow_call list \<Rightarrow> (failure list \<times> shadow_t) option"
where
  "runCalls strlen e s [] = Some ([], s)"
| "runCalls strlen e s (c # cs) =
     Option.bind (runCall strlen e s c) (\<lambda>(fs, s').
       map_option (\<lambda>(gs, s''). (fs @ gs, s'')) (runCalls strlen e s' cs))"

subsection \<open>Lemmas: the tests\<close>

lemma sint_negative: "sint (v :: byte) < 0 \<longleftrightarrow> \<not> weavecRtShadowFull v"
  using bit_last_iff [of v] by (simp add: full_bit7)

lemma bad_iff:
  "\<not> (sint v < 0 \<and> (v \<ge> 0xF0 \<or> (l :: byte) \<ge> v AND 15)) \<longleftrightarrow> byte_ok v (unat l)"
  by (auto simp: sint_negative byte_ok_def poison_iff word_le_nat_alt weavecRtShadowBytes_def not_le)

lemma shadowAddress_of [simp]: "shadowAddress s a = weavecRtShadowOf s a"
  by (simp add: shadowAddress_def weavecRtShadowOf_def)

lemma byte_of_low: "unat (ucast (a :: u64) :: byte) = unat a mod 256"
  by (simp add: unsigned_ucast_eq take_bit_eq_mod)

lemma small_power_of_2:
  assumes "isPowerOf2_64 w" "w \<le> 16"
  shows "unat w \<in> {1, 2, 4, 8, 16}"
proof -
  have "unat w < 17" using assms(2) by (simp add: word_le_nat_alt)
  then have "unat w \<in> set [0..<17]" by simp
  moreover have "w = word_of_nat (unat w)" by simp
  ultimately have "\<exists>n \<in> set [0..<17]. w = word_of_nat n \<and> unat w = n" by blast
  then show ?thesis using assms(1) by (auto simp: isPowerOf2_64_def upt_conv_Cons)
qed

text \<open>An aligned access of a power of two up to 16 bytes lies in one granule.\<close>

lemma aligned_one_granule:
  assumes w: "isPowerOf2_64 w" "w \<le> 16" and al: "w \<le> alignment" "unat alignment = 2 ^ k"
    and a: "unat alignment dvd unat a"
  shows "unat a mod 16 + unat w \<le> 16"
proof -
  obtain j where j: "unat w = 2 ^ j" "j \<le> 4"
  proof -
    have "\<exists>j \<le> 4. unat w = 2 ^ j" using small_power_of_2 [OF w]
      by (auto intro: exI [of _ 0] exI [of _ 1] exI [of _ 2] exI [of _ 3] exI [of _ 4])
    then show ?thesis using that by blast
  qed
  have "(2 :: nat) ^ j \<le> 2 ^ k" using al j by (simp add: word_le_nat_alt)
  then have "(2 :: nat) ^ j dvd 2 ^ k" by (simp add: le_imp_power_dvd)
  then have d: "2 ^ j dvd unat a" using a al(2) dvd_trans by metis
  have "(2 :: nat) ^ j dvd 16" using le_imp_power_dvd [of j 4 "2 :: nat"] j(2) by simp
  then have "2 ^ j dvd unat a mod 16" "2 ^ j dvd (16 :: nat)" using d by (auto simp: dvd_mod_iff)
  moreover have "unat a mod 16 < 16" by simp
  ultimately obtain p q where "unat a mod 16 = 2 ^ j * p" "16 = 2 ^ j * q" "p < q"
    by (metis dvdE nat_mult_less_cancel1 zero_less_numeral zero_less_power)
  then have "unat a mod 16 + 2 ^ j * 1 \<le> 2 ^ j * q"
    by (metis Suc_eq_plus1 Suc_leI add_mult_distrib2 mult_le_mono2)
  then show ?thesis using j(1) \<open>16 = 2 ^ j * q\<close> by simp
qed

lemma one_granule_addressable:
  assumes wf: "shadow_wf s" and w: "0 < w" and one: "unat a mod 16 + unat w \<le> 16"
    and win: "unat a + unat w \<le> 2 ^ shBits s"
  shows "all_addressable s a (unat w) \<longleftrightarrow>
    byte_ok (shMem s (weavecRtShadowOf s a)) (unat a mod 16 + unat w - 1)"
proof -
  have n: "0 < unat w" using w by (simp add: word_less_nat_alt)
  have l: "unat a mod 16 + unat w - 1 < 16" using one n by simp
  show ?thesis
    using all_addressable_granules [OF wf n win refl] l by simp
qed

lemma last_in_granule:
  assumes "0 < w" "unat (a :: u64) mod 16 + unat w \<le> 16"
  shows "unat (ucast ((a AND 15) + (w - 1)) :: byte) = unat a mod 16 + unat w - 1"
proof -
  have w: "unat (w - 1) = unat w - 1" "0 < unat w"
    using assms(1) by (auto simp: unat_sub word_le_nat_alt word_less_nat_alt)
  have "unat ((a AND 15) + (w - 1)) = unat a mod 16 + (unat w - 1)"
    using assms(2) w by (subst unat_add_no_wrap) (simp_all add: unat_and_low)
  then show ?thesis using w assms(2) by (simp add: byte_of_low Nat.add_diff_assoc)
qed

lemma singleCheck_plain:
  assumes wf: "shadow_wf s" and w: "0 < w" and one: "unat a mod 16 + unat w \<le> 16"
    and win: "unat a + unat w \<le> 2 ^ shBits s" and null: "nullBase \<noteq> Some 0"
  shows "singleCheck s a w site nullBase members None =
    (if all_addressable s a (unat w) then [] else slowGuard a w site members)"
proof -
  let ?v = "shMem s (weavecRtShadowOf s a)"
  let ?l = "ucast ((a AND 15) + (w - 1)) :: byte"
  have "all_addressable s a (unat w) \<longleftrightarrow> \<not> (sint ?v < 0 \<and> (?v \<ge> 0xF0 \<or> ?l \<ge> ?v AND 15))"
    by (simp only: one_granule_addressable [OF wf w one win] last_in_granule [OF w one, symmetric] bad_iff)
  then show ?thesis using null by (simp add: singleCheck_def nullCall_def Let_def)
qed

lemma loadInt_signs:
  assumes "n \<le> 8"
  shows "loadInt m i n AND take_bit (8 * n) signBits = 0 \<longleftrightarrow>
    (\<forall>k < n. weavecRtShadowFull (m (i + word_of_nat k)))"
proof -
  have "loadInt m i n AND take_bit (8 * n) signBits = load64 m i AND (push_bit (8 * n) 1 - 1) AND signBits"
    unfolding push_bit_one_minus by (rule bit_word_eqI) (auto simp: loadInt_def bit_simps)
  then show ?thesis using chunk_signs_clear [OF assms, of m i] by simp
qed

lemma load_pair_clear:
  "loadInt m i 2 AND 0x8080 = 0 \<longleftrightarrow> weavecRtShadowFull (m i) \<and> weavecRtShadowFull (m (i + 1))"
proof -
  have "take_bit (8 * 2) signBits = 0x8080" by (simp add: take_bit_eq_mask mask_numeral)
  then have "loadInt m i 2 AND 0x8080 = 0 \<longleftrightarrow>
      (\<forall>k < 2. weavecRtShadowFull (m (i + word_of_nat k)))"
    using loadInt_signs [of 2 m i] by simp
  also have "\<dots> \<longleftrightarrow> weavecRtShadowFull (m i) \<and> weavecRtShadowFull (m (i + 1))"
    by (auto simp: less_2_cases_iff)
  finally show ?thesis .
qed

lemma last_address:
  assumes wf: "shadow_wf s" and w: "0 < w" and win: "unat a + unat w \<le> 2 ^ shBits s"
    and l: "l = unat a mod 16 + unat w - 1"
  shows "unat (a + (w - 1)) = 16 * (unat a div 16) + l"
    and "weavecRtShadowOf s (a + (w - 1)) = weavecRtShadowOf s a + word_of_nat (l div 16)"
proof -
  have b: "(2 :: nat) ^ shBits s \<le> 2 ^ 63" by (rule shadow_window_bound [OF wf])
  have w': "unat (w - 1) = unat w - 1" "0 < unat w"
    using w by (auto simp: unat_sub word_le_nat_alt word_less_nat_alt)
  have "unat (a + (w - 1)) = unat a + (unat w - 1)"
    using b win w' by (subst unat_add_no_wrap) simp_all
  moreover have "l = unat a mod 16 + (unat w - 1)" using l w' by simp
  ultimately show "unat (a + (w - 1)) = 16 * (unat a div 16) + l" by simp
  have e: "w - 1 = word_of_nat (unat w - 1)" by (subst w'(1) [symmetric]) simp
  show "weavecRtShadowOf s (a + (w - 1)) = weavecRtShadowOf s a + word_of_nat (l div 16)"
    unfolding e using shadowOf_add [OF wf, of a "unat w - 1"] win w' l by simp
qed

lemma crosses_iff: "drop_bit 4 (a XOR b) \<noteq> 0 \<longleftrightarrow> unat (a :: u64) div 16 \<noteq> unat b div 16"
proof -
  have "drop_bit 4 (a XOR b) = 0 \<longleftrightarrow> drop_bit 4 a XOR drop_bit 4 b = 0" by (simp add: drop_bit_xor)
  also have "\<dots> \<longleftrightarrow> drop_bit 4 a = drop_bit 4 b"
    by (auto simp: bit_eq_iff [of "drop_bit 4 a XOR drop_bit 4 b"] bit_eq_iff [of "drop_bit 4 a"] bit_xor_iff)
  finally show ?thesis by (simp add: word_unat_eq_iff unat_drop_bit_4)
qed

lemma pairCheck_plain:
  assumes wf: "shadow_wf s" and w: "0 < w" "w \<le> 16"
    and win: "unat a + unat w \<le> 2 ^ shBits s" and null: "nullBase \<noteq> Some 0"
  shows "pairCheck little s a w site nullBase members =
    (if all_addressable s a (unat w) then [] else slowGuard a w site members)"
proof -
  define l where "l = unat a mod 16 + unat w - 1"
  have n: "0 < unat w" "unat w \<le> 16" using w by (simp_all add: word_less_nat_alt word_le_nat_alt)
  have l31: "l < 31" using n by (simp add: l_def)
  note last = last_address [OF wf w(1) win l_def]
  let ?first = "shMem s (weavecRtShadowOf s a)"
  let ?last = "shMem s (weavecRtShadowOf s (a + (w - 1)))"
  have lb: "unat (ucast ((a + (w - 1)) AND 15) :: byte) = l mod 16"
    unfolding byte_of_low unat_and_low last by simp
  have cr: "drop_bit 4 (a XOR (a + (w - 1))) \<noteq> 0 \<longleftrightarrow> l div 16 = 1"
    unfolding crosses_iff last using l31 by auto
  have "l div 16 < 2" using l31 by simp
  then have "(\<forall>k < l div 16. weavecRtShadowFull (shMem s (weavecRtShadowOf s a + word_of_nat k))) \<longleftrightarrow>
      \<not> (l div 16 = 1 \<and> sint ?first < 0)"
    by (auto simp: sint_negative less_2_cases_iff)
  then have ok: "all_addressable s a (unat w) \<longleftrightarrow> \<not> (l div 16 = 1 \<and> sint ?first < 0) \<and> byte_ok ?last (l mod 16)"
    using all_addressable_granules [OF wf n(1) win l_def] last(2) by simp
  have fast: "all_addressable s a (unat w)"
    if "\<not> (if little then loadInt (shMem s) (weavecRtShadowOf s a) 2 AND 0x8080 \<noteq> 0
           else sint (?first OR ?last) < 0)"
  proof (cases little)
    case True
    then have "weavecRtShadowFull ?first" "weavecRtShadowFull (shMem s (weavecRtShadowOf s a + 1))"
      using that by (simp_all add: load_pair_clear)
    moreover have "l div 16 = 0 \<or> l div 16 = 1" using l31 by auto
    ultimately have "weavecRtShadowFull ?last" unfolding last(2) by auto
    then show ?thesis using ok \<open>weavecRtShadowFull ?first\<close> by (simp add: sint_negative byte_ok_full)
  next
    case False
    then show ?thesis using ok that by (simp add: sint_negative full_bit7 bit_or_iff byte_ok_full)
  qed
  have bad: "\<not> ((l div 16 = 1 \<and> sint ?first < 0) \<or> (sint ?last < 0 \<and>
      (?last \<ge> 0xF0 \<or> (ucast ((a + (w - 1)) AND 15) :: byte) \<ge> ?last AND 15))) \<longleftrightarrow>
    all_addressable s a (unat w)"
    unfolding ok lb [symmetric] bad_iff [symmetric] by blast
  show ?thesis
    using null fast bad unfolding pairCheck_def Let_def shadowAddress_of cr nullCall_def by auto
qed

lemma chunkExact_plain:
  assumes wf: "shadow_wf s" and w: "0 < w" "w \<le> 113" and win: "unat a + unat w \<le> 2 ^ shBits s"
  shows "chunkExact s (weavecRtShadowOf s a) a w site False slow =
    (if all_addressable s a (unat w) then [] else slow)"
proof -
  define l where "l = unat a mod 16 + unat w - 1"
  have n: "0 < unat w" "unat w \<le> 113" using w by (simp_all add: word_less_nat_alt word_le_nat_alt)
  then have l128: "l < 128" by (simp add: l_def)
  have w': "unat (w - 1) = unat w - 1" using n by (simp add: unat_sub word_le_nat_alt)
  have lo: "unat ((a AND 15) + (w - 1)) = l"
    using n by (subst unat_add_no_wrap) (simp_all add: unat_and_low w' l_def)
  have bits: "unat (push_bit 3 (drop_bit 4 ((a AND 15) + (w - 1)))) = 8 * (l div 16)"
  proof -
    have "unat (drop_bit 4 ((a AND 15) + (w - 1))) = l div 16" by (simp only: unat_drop_bit_4 lo)
    then show ?thesis using l128 by (simp add: push_bit_eq_mult unat_word_ariths)
  qed
  have g: "l div 16 \<le> 8" "l div 16 < 8" using l128 by simp_all
  let ?lv = "ucast (drop_bit (8 * (l div 16)) (load64 (shMem s) (weavecRtShadowOf s a))) :: byte"
  let ?rest = "load64 (shMem s) (weavecRtShadowOf s a) AND (push_bit (8 * (l div 16)) 1 - 1) AND signBits"
  let ?lb = "ucast (((a AND 15) + (w - 1)) AND 15) :: byte"
  have lb: "unat ?lb = l mod 16" unfolding byte_of_low unat_and_low lo by simp
  have ok: "all_addressable s a (unat w) \<longleftrightarrow> ?rest = 0 \<and> byte_ok ?lv (l mod 16)"
    using all_addressable_granules [OF wf n(1) win l_def]
    by (simp only: chunk_signs_clear [OF g(1)] chunk_byte [OF g(2)])
  have bad: "\<not> (?rest \<noteq> 0 \<or> (sint ?lv < 0 \<and> (?lv \<ge> 0xF0 \<or> ?lb \<ge> ?lv AND 15))) \<longleftrightarrow>
      all_addressable s a (unat w)"
    unfolding ok lb [symmetric] bad_iff [symmetric] by blast
  show ?thesis
    using bad unfolding chunkExact_def Let_def bits nullCall_def by auto
qed

lemma chunkFast_addressable:
  assumes wf: "shadow_wf s" and w: "0 < w" "w \<le> 113" and win: "unat a + unat w \<le> 2 ^ shBits s"
    and fast: "\<not> chunkFast s (weavecRtShadowOf s a) w"
  shows "all_addressable s a (unat w)"
proof -
  define l where "l = unat a mod 16 + unat w - 1"
  define reach where "reach = (15 + unat w + 15) div 16"
  have n: "0 < unat w" "unat w \<le> 113" using w by (simp_all add: word_less_nat_alt word_le_nat_alt)
  have r8: "reach \<le> 8" and lr: "l div 16 < reach" using n by (auto simp: reach_def l_def)
  have e: "(if 8 \<le> reach then NOT 0 else push_bit (8 * reach) 1 - 1) = push_bit (8 * reach) (1 :: u64) - 1"
    using r8 by auto
  have "\<forall>k < reach. weavecRtShadowFull (shMem s (weavecRtShadowOf s a + word_of_nat k))"
    using fast loadInt_signs [OF r8, of "shMem s" "weavecRtShadowOf s a"]
      chunk_signs_clear [OF r8, of "shMem s" "weavecRtShadowOf s a"]
    unfolding chunkFast_def Let_def reach_def [symmetric] e by (auto simp: and.assoc split: if_splits)
  then show ?thesis
    using all_addressable_granules [OF wf n(1) win l_def] lr by (auto intro: byte_ok_full)
qed

lemma chunkCheck_plain:
  assumes "shadow_wf s" "0 < w" "w \<le> 113" "unat a + unat w \<le> 2 ^ shBits s" "nullBase \<noteq> Some 0"
  shows "chunkCheck s constant a w site nullBase slow =
    (if all_addressable s a (unat w) then [] else slow)"
  using chunkExact_plain [OF assms(1-4)] chunkFast_addressable [OF assms(1-4)] assms(5)
  by (auto simp: chunkCheck_def Let_def)

text \<open>Every form of the inline guard, without a root and with a base that is not null.\<close>

lemma emitGuard_plain:
  assumes wf: "shadow_wf s" and w: "0 < w" "w \<le> 113" "little \<or> w \<le> 16"
    and win: "unat a + unat w \<le> 2 ^ shBits s"
    and al: "unat alignment = 2 ^ k" "unat alignment dvd unat a" and null: "nullBase \<noteq> Some 0"
  shows "emitGuard little s a w alignment site nullBase members None =
    (if all_addressable s a (unat w) then [] else slowGuard a w site members)"
proof -
  have nz: "w \<noteq> 0" "\<not> (w > 113 \<or> \<not> little \<and> w > 16)" using w by auto
  show ?thesis
  proof (cases "w \<le> 16 \<and> isPowerOf2_64 w \<and> alignment \<ge> w")
    case True
    then have "unat a mod 16 + unat w \<le> 16" using aligned_one_granule al by blast
    then show ?thesis
      using nz True singleCheck_plain [OF wf w(1) _ win null] by (auto simp: emitGuard_def Let_def)
  next
    case False
    then show ?thesis
      using nz False pairCheck_plain [OF wf w(1) _ win null] chunkCheck_plain [OF wf w(1,2) win null]
      by (auto simp: emitGuard_def Let_def)
  qed
qed

subsection \<open>Lemmas: the calls, run\<close>

lemma range_accessible:
  assumes wf: "shadow_wf s" and w: "0 < w" and win: "unat a + unat w \<le> 2 ^ shBits s"
  obtains r s' where "firstUnaddressable e s a w = Some (r, s')" "same_settled e s s'"
    "r = None \<longleftrightarrow> (\<forall>i < unat w. accessible e s (a + word_of_nat i))"
proof -
  have n: "0 < unat w" using w by (simp add: word_less_nat_alt)
  then have a: "unat a < 2 ^ shBits s" using win by simp
  obtain r s' where r: "firstUnaddressable e s a w = Some (r, s')" "same_settled e s s'"
    "scan_answer e s a (rangeEnd s a w) r"
    using firstUnaddressable_answer [OF wf w a] by blast
  have "unat (rangeEnd s a w) = unat a + unat w"
    using rangeEnd_window [OF wf w a] win by simp
  then have "r = None \<longleftrightarrow> (\<forall>b. a \<le> b \<and> unat b < unat a + unat w \<longrightarrow> accessible e s b)"
    using r(3) by (auto simp: scan_answer_def word_less_nat_alt split: option.splits)
  then show ?thesis using that r(1,2) in_range_add [OF wf win, of "accessible e s"] by metis
qed

lemma guardSlow_passes:
  assumes "shadow_wf s" "0 < w" "unat a + unat w \<le> 2 ^ shBits s"
  obtains fs s' where "guardSlow e s a w = Some (fs, s')" "same_settled e s s'"
    "fs = [] \<longleftrightarrow> (\<forall>i < unat w. accessible e s (a + word_of_nat i))"
proof -
  obtain r s' where r: "firstUnaddressable e s a w = Some (r, s')" "same_settled e s s'"
    "r = None \<longleftrightarrow> (\<forall>i < unat w. accessible e s (a + word_of_nat i))"
    using range_accessible [OF assms] by blast
  show ?thesis
    by (rule that [OF _ r(2), of "case r of None \<Rightarrow> [] | Some (bad, v) \<Rightarrow> [failAt e s' bad v a w]"])
      (use r in \<open>auto simp: guardSlow_def split: option.splits\<close>)
qed

lemma weavec_rt_range_passes:
  assumes "shadow_wf s" "0 < w" "unat a + unat w \<le> 2 ^ shBits s"
  obtains fs s' where "weavec_rt_range e s a w = Some (fs, s')" "same_settled e s s'"
    "fs = [] \<longleftrightarrow> (\<forall>i < unat w. accessible e s (a + word_of_nat i))"
proof (cases "weavecRtQuickOk s a w \<or> allAddressable s a w")
  case True
  have "\<not> 113 < w" if "weavecRtQuickOk s a w"
    using that assms(2) by (auto simp: weavecRtQuickOk_def split: if_splits)
  moreover have "w \<le> 2 ^ 30" if "allAddressable s a w"
    using that by (auto simp: allAddressable_def Let_def not_less split: if_splits)
  ultimately have "all_addressable s a (unat w)"
    using True quick.exact [OF assms(1,2) _ assms(3)] whole.exact [OF assms(1,2) _ assms(3)]
    by (auto simp: not_less)
  then have "\<forall>i < unat w. accessible e s (a + word_of_nat i)"
    by (auto simp: all_addressable_def intro: addressable_accessible)
  then show ?thesis using that [of "[]" s] True by (simp add: weavec_rt_range_def)
next
  case False
  obtain r s' where r: "firstUnaddressable e s a w = Some (r, s')" "same_settled e s s'"
    "r = None \<longleftrightarrow> (\<forall>i < unat w. accessible e s (a + word_of_nat i))"
    using range_accessible [OF assms] by blast
  show ?thesis
    by (rule that [OF _ r(2), of "case r of None \<Rightarrow> [] | Some (bad, v) \<Rightarrow> [failAt e s' bad v a w]"])
      (use r False in \<open>auto simp: weavec_rt_range_def split: option.splits\<close>)
qed

text \<open>A guard left out where every byte is addressable reports what the guard would.\<close>

lemma guard_or_skip_passes:
  assumes wf: "shadow_wf s" and w: "0 < w" and win: "unat a + unat w \<le> 2 ^ shBits s"
    and cs: "cs = (if all_addressable s a (unat w) then [] else [CallGuard a w site]) \<or>
             cs = [CallRange a w site]"
  obtains fs s' where "runCalls strlen e s cs = Some (fs, s')" "same_settled e s s'"
    "fs = [] \<longleftrightarrow> (\<forall>i < unat w. accessible e s (a + word_of_nat i))"
proof -
  consider "cs = []" "all_addressable s a (unat w)" | "cs = [CallGuard a w site]" | "cs = [CallRange a w site]"
    using cs by (auto split: if_splits)
  then show ?thesis
  proof cases
    case 1
    then have "\<forall>i < unat w. accessible e s (a + word_of_nat i)"
      by (auto simp: all_addressable_def intro: addressable_accessible)
    with 1 show ?thesis using that [of "[]" s] by simp
  next
    case 2
    show ?thesis
      by (rule guardSlow_passes [OF wf w win, of e]) (rule that, auto simp: 2)
  next
    case 3
    show ?thesis
      by (rule weavec_rt_range_passes [OF wf w win, of e]) (rule that, auto simp: 3)
  qed
qed

lemma runCalls_append:
  "runCalls strlen e s (cs @ ds) =
   Option.bind (runCalls strlen e s cs) (\<lambda>(fs, s').
     map_option (\<lambda>(gs, s''). (fs @ gs, s'')) (runCalls strlen e s' ds))"
proof (induction cs arbitrary: s)
  case Nil
  then show ?case by (simp add: option.map_ident_strong split_beta)
next
  case (Cons c cs)
  then show ?case
    by (cases "runCall strlen e s c") (auto simp: Option.bind_map_option map_option_case split: option.splits)
qed

subsection \<open>Lemmas: roots\<close>

lemma zext_eq_sext: "(ucast (v :: byte) :: u32) = scast (b :: byte) \<longleftrightarrow> v = b \<and> weavecRtShadowFull b"
proof -
  have u: "unat (ucast x :: u32) = unat x" for x :: byte
    using unat_byte_less [of x] by (simp add: unsigned_ucast_eq take_bit_nat_eq_self)
  show ?thesis
  proof (cases "weavecRtShadowFull b")
    case True
    then have "\<not> bit b 7" by (simp add: full_bit7)
    moreover have "n = 7" if "bit b n" "7 \<le> n" for n using that bit_imp_le_length [of b n] by simp
    ultimately have "(scast b :: u32) = ucast b"
      by (intro bit_word_eqI) (auto simp: bit_simps min_def)
    then show ?thesis using True u by (auto simp: word_unat_eq_iff)
  next
    case False
    then have "bit (scast b :: u32) 8" by (simp add: full_bit7 bit_simps)
    moreover have "\<not> bit (ucast v :: u32) 8" by (auto simp: bit_simps dest: bit_imp_le_length)
    ultimately show ?thesis using False by auto
  qed
qed

lemma rootByte_sext: "rcShadow r = scast (b :: byte) \<Longrightarrow> rootByte r = b"
proof (rule bit_word_eqI)
  fix n assume "rcShadow r = scast b" "n < LENGTH(8)"
  then show "bit (rootByte r) n \<longleftrightarrow> bit b n"
    by (cases "n = 7") (auto simp: rootByte_def bit_simps min_def)
qed

lemma classOf_class: "classOf v = weavecRtShadowClass v"
  by (simp add: classOf_def weavecRtShadowClass_def sint_negative weavecRtShadowFull_def)

lemma jumpKind_same_byte: "shadowByte s a = b \<Longrightarrow> jumpKind e s a root b = None"
  by (simp add: jumpKind_def)

lemma jumpKind_same_class:
  assumes "\<not> (weavecRtShadowFull (shadowByte s a) \<and> weavecRtShadowFull b \<and> shadowByte s a \<noteq> b)"
    and "weavecRtShadowClass (shadowByte s a) = weavecRtShadowClass b"
  shows "jumpKind e s a root b = None"
  using assms by (auto simp: jumpKind_def Let_def)

lemma jumpKind_settled:
  assumes "same_settled e s s'" and "shadowByte s a \<noteq> WeavecRtShadowReturned"
  shows "jumpKind e s' a root b = jumpKind e s a root b"
proof -
  have m: "shMask s' = shMask s" "shBits s' = shBits s" using assms(1) by (simp_all add: same_settled_def)
  then have "weavecRtShadowOf s' a = weavecRtShadowOf s a" by (simp add: weavecRtShadowOf_def)
  moreover have "shMem s' (weavecRtShadowOf s a) = shadowByte s a"
    by (rule same_settled_byte [OF assms])
  ultimately show ?thesis
    using m by (simp add: jumpKind_def weavecRtShadowReady_def weavecRtInWindow_def)
qed

text \<open>The separate color test: as if the runtime were always asked.\<close>

lemma colorCheck_run:
  assumes "rcShadow r = scast b" and "w \<noteq> 0"
  shows "runCalls strlen e s (colorCheck s a w site r) = Some (jumpSlow e s a w (rcRoot r) b, s)"
proof -
  have rb: "rootByte r = b" by (rule rootByte_sext [OF assms(1)])
  have id: "ucast (ucast b :: u64) = b" by (intro bit_word_eqI) (auto simp: bit_simps)
  have "jumpKind e s a (rcRoot r) b = None" if "shadowByte s a = b"
    using that by (rule jumpKind_same_byte)
  then show ?thesis
    by (auto simp: colorCheck_def Let_def assms rb zext_eq_sext jumpCall_def id jumpSlow_def)
qed

text \<open>The one-granule form: one call decides the guard and the color.\<close>

lemma singleCheck_root:
  assumes wf: "shadow_wf s" and w: "0 < w" and one: "unat a mod 16 + unat w \<le> 16"
    and win: "unat a + unat w \<le> 2 ^ shBits s" and null: "nullBase \<noteq> Some 0"
    and r: "rcShadow r = scast b" "rcMonitor r = None"
  shows "map_option fst (runCalls strlen e s (singleCheck s a w site nullBase [] (Some r))) =
    map_option fst (guardJumpSlow e s a w (rcRoot r) b)"
proof -
  let ?v = "shadowByte s a"
  let ?l = "ucast ((a AND 15) + (w - 1)) :: byte"
  let ?cs = "singleCheck s a w site nullBase [] (Some r)"
  have rb: "rootByte r = b" by (rule rootByte_sext [OF r(1)])
  have id: "ucast (ucast b :: u64) = b" by (intro bit_word_eqI) (auto simp: bit_simps)
  have cs: "?cs = [] \<or> ?cs = [CallGuardJump a w (rcRoot r) (ucast b) site]"
    using null r by (simp add: singleCheck_def Let_def nullCall_def rb)
  show ?thesis
  proof (cases "?cs = []")
    case False
    then show ?thesis using cs by (simp add: id option.map_comp o_def split_beta map_option_case split: option.splits)
  next
    case True
    have ok: "byte_ok ?v (unat ?l) \<and> jumpKind e s a (rcRoot r) b = None"
    proof (cases "?v = b \<and> weavecRtShadowFull b")
      case True
      then show ?thesis by (auto intro: byte_ok_full jumpKind_same_byte)
    next
      case False
      then have nbad: "\<not> (sint ?v < 0 \<and> (?v \<ge> 0xF0 \<or> ?l \<ge> ?v AND 15))"
        and same: "\<not> (wholeByte ?v \<and> wholeByte b \<and> ?v \<noteq> b)" "classOf ?v = classOf b"
        using \<open>?cs = []\<close> null r zext_eq_sext [of ?v b]
        by (auto simp: singleCheck_def Let_def nullCall_def rb split: if_splits)
      from nbad have "byte_ok ?v (unat ?l)" by (simp only: bad_iff)
      moreover have "jumpKind e s a (rcRoot r) b = None"
        using same by (intro jumpKind_same_class) (auto simp: wholeByte_def sint_negative classOf_class not_less [symmetric])
      ultimately show ?thesis by blast
    qed
    then have all: "all_addressable s a (unat w)"
      using one_granule_addressable [OF wf w one win] last_in_granule [OF w one] by simp
    then have acc: "\<forall>i < unat w. accessible e s (a + word_of_nat i)"
      by (auto simp: all_addressable_def intro: addressable_accessible)
    obtain fs s' where g: "guardSlow e s a w = Some (fs, s')" "same_settled e s s'"
      "fs = [] \<longleftrightarrow> (\<forall>i < unat w. accessible e s (a + word_of_nat i))"
      using guardSlow_passes [OF wf w win] by blast
    have "?v \<noteq> WeavecRtShadowReturned" using ok by (auto simp: byte_ok_def full_iff poison_iff)
    then have "jumpKind e s' a (rcRoot r) b = None" using jumpKind_settled [OF g(2)] ok by simp
    then show ?thesis using True g acc by (simp add: guardJumpSlow_def jumpSlow_def)
  qed
qed

text \<open>
  The inline range guard is a range check like the runtime's, so one that passed covers
  every narrower range inside it.
\<close>

lemma emitRange_inline:
  assumes "shadow_wf s" "0 < n" "n \<le> 113" "unat a + unat n \<le> 2 ^ shBits s"
  shows "emitRange True s a n site = (if all_addressable s a (unat n) then [] else [CallGuard a n site])"
proof -
  have "unat (n - 1) = unat n - 1" using assms(2) by (simp add: unat_sub word_le_nat_alt word_less_nat_alt)
  then have "n - 1 < 113" using assms(2,3) by (simp add: word_less_nat_alt word_le_nat_alt)
  then show ?thesis
    using chunkCheck_plain [OF assms, of None] by (simp add: emitRange_def slowGuard_def)
qed

interpretation inline: range_check "\<lambda>s a n. emitRange True s a n site = []" 113
  by unfold_locales (simp add: emitRange_inline)

lemma overlap_iff:
  assumes "unat d + unat n < 2 ^ 64" "unat r + unat n < 2 ^ 64"
  shows "d < r + n \<and> r < d + n \<longleftrightarrow>
    (\<exists>i < unat n. \<exists>j < unat n. (d :: u64) + word_of_nat i = r + word_of_nat j)"
proof -
  have u: "unat (x + word_of_nat i) = unat x + i" if "i < unat n" "unat x + unat n < 2 ^ 64" for x :: u64 and i
    using that by (subst unat_add_no_wrap) (simp_all add: unat_of_nat_small)
  have e: "unat (r + n) = unat r + unat n" "unat (d + n) = unat d + unat n"
    using assms by (simp_all add: unat_add_no_wrap)
  have "(\<exists>i < unat n. \<exists>j < unat n. d + word_of_nat i = r + word_of_nat j) \<longleftrightarrow>
      (\<exists>i < unat n. \<exists>j < unat n. unat d + i = unat r + j)"
    using u assms by (simp add: word_unat_eq_iff cong: conj_cong)
  also have "\<dots> \<longleftrightarrow> unat d < unat r + unat n \<and> unat r < unat d + unat n"
  proof
    assume "unat d < unat r + unat n \<and> unat r < unat d + unat n"
    then show "\<exists>i < unat n. \<exists>j < unat n. unat d + i = unat r + j"
      by (intro exI [of _ "unat r - unat d"] conjI exI [of _ "unat d - unat r"]) auto
  qed auto
  finally show ?thesis by (simp add: word_less_nat_alt e)
qed

subsection \<open>Properties\<close>

abbreviation quietEnv :: rt_env where
  "quietEnv \<equiv> \<lparr>stackTop = 0, stackBottom = 0, here = 0, aarch64 = False, stackLostColors = False,
     heapObjectAt = (\<lambda>_. \<lparr>hoFound = False, hoLive = False, hoBase = 0, hoSize = 0\<rparr>)\<rparr>"

abbreviation smallShadow :: shadow_t where
  "smallShadow \<equiv> \<lparr>shMask = 15, shBits = 8, shMem = (\<lambda>i. if i < 3 then 9 else 0xFA)\<rparr>"

text \<open>
  C1: the guard the pass emits before an access is exact. Whatever its width and alignment,
  that is for the one-granule, the two-granule, the chunk and the runtime form alike, the
  emitted code and the runtime it calls finish, and report if and only if some byte of the
  access is not accessible (a stale granule of a returned frame is).
\<close>

theorem emitGuard_reports:
  assumes wf: "shadow_wf s" and w: "0 < w" and win: "unat a + unat w \<le> 2 ^ shBits s"
    and al: "unat alignment = 2 ^ k" "unat alignment dvd unat a" and null: "nullBase \<noteq> Some 0"
  shows "\<exists>fs s'. runCalls strlen e s (emitGuard little s a w alignment site nullBase [] None) = Some (fs, s') \<and>
    (fs = [] \<longleftrightarrow> (\<forall>i < unat w. accessible e s (a + word_of_nat i)))"
proof -
  let ?cs = "emitGuard little s a w alignment site nullBase [] None"
  have "?cs = (if all_addressable s a (unat w) then [] else [CallGuard a w site]) \<or> ?cs = [CallRange a w site]"
  proof (cases "w \<le> 113 \<and> (little \<or> w \<le> 16)")
    case True
    then show ?thesis
      using emitGuard_plain [OF wf w _ _ win al null, of little site "[]"] by (simp add: slowGuard_def)
  next
    case False
    then show ?thesis using w by (auto simp: emitGuard_def Let_def not_le)
  qed
  then show ?thesis using guard_or_skip_passes [OF wf w win] by metis
qed

theorem emitGuard_reports_witness:
  "\<exists>fs s'. runCalls (\<lambda>_ _ _. None) quietEnv smallShadow (emitGuard True smallShadow 40 12 4 7 (Some 40) [] None) =
      Some (fs, s') \<and> (fs = [] \<longleftrightarrow> (\<forall>i < 12. accessible quietEnv smallShadow (40 + word_of_nat i)))"
  using emitGuard_reports [of smallShadow 12 40 4 2 "Some 40" "\<lambda>_ _ _. None" quietEnv True 7]
  by (simp add: shadow_wf_def)

text \<open>
  C24: the color test of an access with a root changes nothing but the cost. In the
  one-granule form the emitted code reports exactly what the runtime's guard and color
  decision together would report for every access; in the other forms it reports exactly
  what the runtime's color decision would, and then guards as it does without a root. So an
  access whose shadow byte equals its root's and is whole, or has its class, needs no call.
\<close>

theorem emitGuard_root:
  assumes wf: "shadow_wf s" and w: "0 < w" and win: "unat a + unat w \<le> 2 ^ shBits s"
    and al: "unat alignment = 2 ^ k" "unat alignment dvd unat a" and null: "nullBase \<noteq> Some 0"
    and r: "rcShadow r = scast b" "rcMonitor r = None"
  shows "if w \<le> 16 \<and> isPowerOf2_64 w \<and> alignment \<ge> w
    then map_option fst (runCalls strlen e s (emitGuard little s a w alignment site nullBase [] (Some r))) =
         map_option fst (guardJumpSlow e s a w (rcRoot r) b)
    else runCalls strlen e s (emitGuard little s a w alignment site nullBase [] (Some r)) =
         map_option (\<lambda>(fs, s'). (jumpSlow e s a w (rcRoot r) b @ fs, s'))
           (runCalls strlen e s (emitGuard little s a w alignment site nullBase [] None))"
proof (cases "w \<le> 16 \<and> isPowerOf2_64 w \<and> alignment \<ge> w")
  case True
  then have "unat a mod 16 + unat w \<le> 16" using aligned_one_granule al by blast
  moreover have "w \<noteq> 0" "\<not> w > 113" "\<not> w > 16" using w True by (auto simp: word_less_nat_alt word_le_nat_alt)
  ultimately show ?thesis
    using True singleCheck_root [OF wf w _ win null r] by (simp add: emitGuard_def Let_def)
next
  case False
  have "w \<noteq> 0" using w by auto
  with False have "emitGuard little s a w alignment site nullBase [] (Some r) =
      colorCheck s a w site r @ emitGuard little s a w alignment site nullBase [] None"
    by (auto simp: emitGuard_def Let_def)
  then show ?thesis
    unfolding if_not_P [OF False]
    using colorCheck_run [OF r(1) \<open>w \<noteq> 0\<close>, of strlen e s a site] by (simp add: runCalls_append)
qed

theorem emitGuard_root_witness:
  "map_option fst (runCalls (\<lambda>_ _ _. None) quietEnv smallShadow
      (emitGuard True smallShadow 40 8 8 7 None [] (Some \<lparr>rcRoot = 0, rcShadow = scast (11 :: byte),
        rcMonitor = None, rcIsNullBase = False\<rparr>))) =
    map_option fst (guardJumpSlow quietEnv smallShadow 40 8 0 11)"
  using emitGuard_root [of smallShadow 8 40 8 3 None "\<lparr>rcRoot = 0, rcShadow = scast (11 :: byte),
      rcMonitor = None, rcIsNullBase = False\<rparr>" 11 "\<lambda>_ _ _. None" quietEnv True 7]
  by (simp add: shadow_wf_def isPowerOf2_64_def)

text \<open>
  An access through a null base is reported as such before anything else: with a base
  that is null every inline form first calls the runtime's null entry point, also where the
  null test waits for the color test, because the shadow byte of a null root is poison.
\<close>

theorem emitGuard_null:
  assumes "0 < w" "w \<le> 113" "little \<or> w \<le> 16"
    and "\<And>r. root = Some r \<Longrightarrow> rcShadow r = scast b \<and> weavecRtShadowPoison b \<and> rcIsNullBase r"
  shows "\<exists>ds cs. emitGuard little s a w alignment site (Some 0) members root = ds @ CallNull a site # cs \<and>
    (\<forall>d \<in> set ds. \<exists>r. root = Some r \<and> d = jumpCall a w site r)"
proof -
  let ?cs = "emitGuard little s a w alignment site (Some 0) members root"
  let ?one = "w \<le> 16 \<and> isPowerOf2_64 w \<and> alignment \<ge> w"
  let ?ds = "case root of Some r \<Rightarrow> if \<not> ?one then colorCheck s a w site r else [] | None \<Rightarrow> []"
  have nz: "w \<noteq> 0" "\<not> (w > 113 \<or> \<not> little \<and> w > 16)" using assms(1-3) by auto
  have z: "(ucast (shadowByte s a) :: u32) \<noteq> rcShadow r" if "root = Some r" for r
    using assms(4) [OF that] zext_eq_sext [of "shadowByte s a" b] by (auto simp: poison_iff full_iff)
  have "\<exists>cs. singleCheck s a w site (Some 0) members root = CallNull a site # cs"
    using z by (cases root) (simp_all add: singleCheck_def Let_def nullCall_def)
  moreover have "\<exists>cs. pairCheck little s a w site (Some 0) members = CallNull a site # cs"
    by (simp add: pairCheck_def Let_def nullCall_def)
  moreover have "\<exists>cs. chunkCheck s True a w site (Some 0) (slowGuard a w site members) = CallNull a site # cs"
    by (simp add: chunkCheck_def chunkExact_def Let_def nullCall_def)
  ultimately have "\<exists>cs. ?cs = ?ds @ CallNull a site # cs"
    using nz unfolding emitGuard_def Let_def by auto
  moreover have "\<forall>d \<in> set ?ds. \<exists>r. root = Some r \<and> d = jumpCall a w site r"
    by (auto simp: colorCheck_def Let_def split: option.splits if_splits)
  ultimately show ?thesis by blast
qed

theorem emitGuard_null_witness:
  "\<exists>ds cs. emitGuard True smallShadow 3 1 1 7 (Some 0) [] (Some \<lparr>rcRoot = 0, rcShadow = scast (0xFE :: byte),
      rcMonitor = None, rcIsNullBase = True\<rparr>) = ds @ CallNull 3 7 # cs"
  using emitGuard_null [of 1 True "Some \<lparr>rcRoot = 0, rcShadow = scast (0xFE :: byte),
      rcMonitor = None, rcIsNullBase = True\<rparr>" "0xFE" smallShadow 3 1 7 "[]"]
  by (auto simp: weavecRtShadowPoison_def)

text \<open>
  The range guard a library call gets is exact: for 1 to 113 bytes inline, for more
  through the runtime, and the code finishes and reports if and only if some byte of the
  range is not accessible; a range of no bytes reports nothing.
\<close>

theorem emitRange_reports:
  assumes wf: "shadow_wf s" and win: "unat a + unat n \<le> 2 ^ shBits s"
  shows "\<exists>fs s'. runCalls strlen e s (emitRange little s a n site) = Some (fs, s') \<and>
    (fs = [] \<longleftrightarrow> (\<forall>i < unat n. accessible e s (a + word_of_nat i)))"
proof (cases "n = 0")
  case True
  then show ?thesis by (simp add: emitRange_def weavec_rt_range_def weavecRtQuickOk_def)
next
  case False
  then have n: "0 < n" by (simp add: word_less_nat_alt unat_eq_0 [symmetric] del: unat_eq_zero)
  have "unat (n - 1) = unat n - 1" using n by (simp add: unat_sub word_le_nat_alt word_less_nat_alt)
  then have "n - 1 < 113 \<longleftrightarrow> n \<le> 113" using n by (auto simp: word_less_nat_alt word_le_nat_alt)
  then have "emitRange little s a n site =
      (if all_addressable s a (unat n) then [] else [CallGuard a n site]) \<or>
      emitRange little s a n site = [CallRange a n site]"
    using emitRange_inline [OF wf n _ win, of site] by (auto simp: emitRange_def)
  then show ?thesis using guard_or_skip_passes [OF wf n win] by metis
qed

theorem emitRange_reports_witness:
  "\<exists>fs s'. runCalls (\<lambda>_ _ _. None) quietEnv smallShadow (emitRange True smallShadow 8 50 7) = Some (fs, s') \<and>
    (fs = [] \<longleftrightarrow> (\<forall>i < 50. accessible quietEnv smallShadow (8 + word_of_nat i)))"
  using emitRange_reports [of smallShadow 8 50 "\<lambda>_ _ _. None" quietEnv True 7]
  by (simp add: shadow_wf_def)

text \<open>
  A copy's disjointness test is exact: unless the pass knew that the operands cannot
  overlap, the emitted code reports if and only if the operands differ and some byte lies in
  both, for operands that do not wrap around the address space.
\<close>

theorem expandDisjoint_exact:
  assumes "unat d + unat n < 2 ^ 64" "unat r + unat n < 2 ^ 64"
  shows "expandDisjoint False d r n site \<noteq> [] \<longleftrightarrow>
    d \<noteq> r \<and> (\<exists>i < unat n. \<exists>j < unat n. d + word_of_nat i = r + word_of_nat j)"
  using overlap_iff [OF assms] by (auto simp: expandDisjoint_def)

theorem expandDisjoint_exact_witness:
  "expandDisjoint False 100 108 16 7 \<noteq> [] \<longleftrightarrow>
    (100 :: u64) \<noteq> 108 \<and> (\<exists>i < 16. \<exists>j < 16. (100 :: u64) + word_of_nat i = 108 + word_of_nat j)"
  using expandDisjoint_exact [of 100 16 108 7] by simp

end
