(* ===== verification/Shadow_Runs.thy ===== *)
theory Shadow_Runs
  imports Guard_Runtime
begin

text \<open>
  Shadow written in runs of granules of one value: \<open>ShadowRun\<close> and \<open>appendRun\<close> of
  \<open>lib/Frontend/GuardPassImpl.h\<close>, the stores \<open>FunctionContext::writeShadow\<close> of
  \<open>GuardPass.cpp\<close> emits, and the frame, alloca and global entry points of
  \<open>runtime/weavec_guard.c\<close>. \<open>expandRuns\<close> is what a list of runs means, one shadow byte
  per granule; the lemmas show that the packed stores, the \<open>memset\<close>s and the runtime's
  calls all write just that.
\<close>

subsection \<open>Runs\<close>

record shadow_run =
  srCount :: nat
  srValue :: byte

definition appendRun :: "shadow_run list \<Rightarrow> nat \<Rightarrow> byte \<Rightarrow> shadow_run list" where
  "appendRun runs count v =
     (if count = 0 then runs
      else if runs \<noteq> [] \<and> srValue (last runs) = v
      then butlast runs @ [(last runs)\<lparr>srCount := srCount (last runs) + count\<rparr>]
      else runs @ [\<lparr>srCount = count, srValue = v\<rparr>])"

definition expandRuns :: "shadow_run list \<Rightarrow> byte list" where
  "expandRuns runs = concat (map (\<lambda>r. replicate (srCount r) (srValue r)) runs)"

text \<open>The n-th color: 111 values, never 0, the low three bits never 7.\<close>

definition colorAt :: "u64 \<Rightarrow> byte" where
  "colorAt n = (let m = unat n mod 111 + 1 in word_of_nat (push_bit 3 (m div 7) OR (m mod 7)))"

subsection \<open>The runtime's frame and global entry points\<close>

text \<open>The pages of the shadow: its own address, the page size, whether \<open>mmap\<close> succeeds.\<close>

record shadow_os =
  osBase :: u64
  osPage :: u64
  osMapped :: bool

abbreviation shadowClear :: "shadow_os \<Rightarrow> shadow_t \<Rightarrow> u64 \<Rightarrow> u64 \<Rightarrow> shadow_t" where
  "shadowClear os \<equiv> weavecRtShadowClear (osBase os) (osPage os) (osMapped os)"

abbreviation shadowObject :: "shadow_os \<Rightarrow> shadow_t \<Rightarrow> u64 \<Rightarrow> u64 \<Rightarrow> byte \<Rightarrow> byte \<Rightarrow> shadow_t" where
  "shadowObject os \<equiv> weavecRtShadowObject (osBase os) (osPage os) (osMapped os)"

definition onOwnStack :: "rt_env \<Rightarrow> u64 \<Rightarrow> u64 \<Rightarrow> bool" where
  "onOwnStack e address end' \<longleftrightarrow> stackTop e \<noteq> 0 \<and> address < stackTop e \<and> end' > stackBottom e"

definition weavec_rt_frame_shadow ::
  "rt_env \<Rightarrow> shadow_os \<Rightarrow> shadow_t \<Rightarrow> u64 \<Rightarrow> u64 \<Rightarrow> u64 \<Rightarrow> shadow_t" where
  "weavec_rt_frame_shadow e os s address bytes v =
     (let end' = (if unat address + unat bytes \<ge> 2 ^ 64 then NOT 0 else address + bytes);
          own = onOwnStack e address end';
          low = (if own \<and> address < stackBottom e then stackBottom e else address);
          high = (if own \<and> end' > stackTop e then stackTop e else end')
      in if \<not> own \<and> end' - address > push_bit 30 1 then s
         else if high \<le> low then s
         else if v = 0 then shadowClear os s low high
         else weavecRtShadowSet s low (high - low) (ucast v))"

definition weavec_rt_unpoison_stack ::
  "rt_env \<Rightarrow> shadow_os \<Rightarrow> shadow_t \<Rightarrow> rt_env \<times> shadow_t" where
  "weavec_rt_unpoison_stack e os s =
     (e\<lparr>stackLostColors := True\<rparr>,
      if stackTop e > here e \<and> stackTop e - here e \<le> push_bit 30 1
      then shadowClear os s (here e) (stackTop e) else s)"

definition weavec_rt_alloca_poison ::
  "rt_env \<Rightarrow> shadow_os \<Rightarrow> shadow_t \<Rightarrow> u64 \<Rightarrow> u64 \<Rightarrow> shadow_t" where
  "weavec_rt_alloca_poison e os s address sz =
     (let used = (sz + 15) AND NOT 15;
          padded = ((sz + 31) AND NOT 31) + 32;
          end' = address + padded
      in if address AND 15 \<noteq> 0 \<or> padded < sz \<or> unat address + unat padded \<ge> 2 ^ 64 \<or>
            (if onOwnStack e address end'
             then end' > stackTop e \<or> address < stackBottom e
             else padded > push_bit 30 1)
         then s
         else weavecRtShadowSet (shadowObject os s address sz WeavecRtShadowStackDynamic 0)
                (address + used) (padded - used) WeavecRtShadowStackDynamic)"

definition weavec_rt_alloca_unpoison :: "shadow_os \<Rightarrow> shadow_t \<Rightarrow> u64 \<Rightarrow> u64 \<Rightarrow> shadow_t" where
  "weavec_rt_alloca_unpoison os s low high =
     (if high > low \<and> high - low \<le> push_bit 30 1 then shadowClear os s low high else s)"

text \<open>Globals: an address, a size and the size with the redzone.\<close>

record rt_global =
  gAddress :: u64
  gSize :: u64
  gPadded :: u64

definition registerGlobal :: "shadow_os \<Rightarrow> rt_global \<Rightarrow> u64 \<times> shadow_t \<Rightarrow> u64 \<times> shadow_t" where
  "registerGlobal os g st =
     (let (colors, s) = st; used = (gSize g + 15) AND NOT 15
      in if gAddress g AND 15 \<noteq> 0 \<or> gPadded g < used then (colors, s)
         else
           let s = shadowObject os s (gAddress g) (gSize g) WeavecRtShadowGlobal (weavecRtColor colors);
               s = (if gPadded g > used
                    then weavecRtShadowSet s (gAddress g + used) (gPadded g - used) WeavecRtShadowGlobal
                    else s)
           in (colors + 1, s))"

definition weavec_rt_globals_register ::
  "shadow_os \<Rightarrow> rt_global list \<Rightarrow> u64 \<times> shadow_t \<Rightarrow> u64 \<times> shadow_t" where
  "weavec_rt_globals_register os globals st = fold (registerGlobal os) globals st"

definition weavec_rt_globals_unregister :: "shadow_os \<Rightarrow> rt_global list \<Rightarrow> shadow_t \<Rightarrow> shadow_t" where
  "weavec_rt_globals_unregister os globals s =
     fold (\<lambda>g s. shadowClear os s (gAddress g) (gAddress g + gPadded g)) globals s"

subsection \<open>Writing runs\<close>

text \<open>The state of the emitted stores: the bytes not stored yet, and where they go.\<close>

record write_state =
  wsShadow :: shadow_t
  wsPending :: "byte list"
  wsPendingAt :: nat
  wsAt :: nat

definition storeWidth :: "bool \<Rightarrow> nat \<Rightarrow> nat" where
  "storeWidth little left =
     (if \<not> little then 1 else if 8 \<le> left then 8 else if 4 \<le> left then 4 else if 2 \<le> left then 2 else 1)"

definition storeValue :: "byte list \<Rightarrow> nat \<Rightarrow> nat \<Rightarrow> u64" where
  "storeValue pending at width =
     fold (\<lambda>i w. w OR push_bit (8 * i) (ucast (pending ! (at + i)))) [0..<width] 0"

function flushLoop :: "bool \<Rightarrow> byte list \<Rightarrow> u64 \<Rightarrow> nat \<Rightarrow> (u64 \<Rightarrow> byte) \<Rightarrow> (u64 \<Rightarrow> byte)" where
  "flushLoop little pending start at m =
     (if at < length pending then
        let width = storeWidth little (length pending - at)
        in flushLoop little pending start (at + width)
             (memcpyWord m (start + word_of_nat at) width (storeValue pending at width))
      else m)"
  by pat_completeness auto
termination
  by (relation "measure (\<lambda>(_, pending, _, at, _). length pending - at)") (auto simp: storeWidth_def)

declare flushLoop.simps [simp del]

definition flush :: "bool \<Rightarrow> u64 \<Rightarrow> write_state \<Rightarrow> write_state" where
  "flush little start ws =
     ws\<lparr>wsShadow := (wsShadow ws)\<lparr>shMem :=
            flushLoop little (wsPending ws) (start + word_of_nat (wsPendingAt ws)) 0 (shMem (wsShadow ws))\<rparr>,
        wsPending := []\<rparr>"

abbreviation (input) MemsetRun :: nat where "MemsetRun \<equiv> 64"
abbreviation (input) RuntimeRun :: nat where "RuntimeRun \<equiv> 4096"

definition writeRun ::
  "bool \<Rightarrow> rt_env \<Rightarrow> shadow_os \<Rightarrow> u64 \<Rightarrow> u64 \<Rightarrow> shadow_run \<Rightarrow> write_state \<Rightarrow> write_state" where
  "writeRun little e os address start run ws =
     (if srCount run < MemsetRun then
        ws\<lparr>wsPendingAt := (if wsPending ws = [] then wsAt ws else wsPendingAt ws),
           wsPending := wsPending ws @ replicate (srCount run) (srValue run),
           wsAt := wsAt ws + srCount run\<rparr>
      else
        let ws = flush little start ws; s = wsShadow ws
        in ws\<lparr>wsShadow :=
                 (if srCount run \<ge> RuntimeRun
                  then weavec_rt_frame_shadow e os s (address + word_of_nat (wsAt ws * 16))
                         (word_of_nat (srCount run * 16)) (ucast (srValue run))
                  else s\<lparr>shMem := memset (shMem s) (start + word_of_nat (wsAt ws)) (srValue run) (srCount run)\<rparr>),
              wsAt := wsAt ws + srCount run\<rparr>)"

definition writeShadow ::
  "bool \<Rightarrow> rt_env \<Rightarrow> shadow_os \<Rightarrow> shadow_t \<Rightarrow> u64 \<Rightarrow> shadow_run list \<Rightarrow> shadow_t" where
  "writeShadow little e os s address runs =
     (if runs = [] \<or> shMask s = 0 then s
      else
        let start = drop_bit 4 address AND shMask s
        in wsShadow (flush little start
             (fold (writeRun little e os address start) runs
               \<lparr>wsShadow = s, wsPending = [], wsPendingAt = 0, wsAt = 0\<rparr>)))"

subsection \<open>Lemmas: runs\<close>

lemma expandRuns_Nil [simp]: "expandRuns [] = []"
  by (simp add: expandRuns_def)

lemma expandRuns_snoc:
  "expandRuns (runs @ [r]) = expandRuns runs @ replicate (srCount r) (srValue r)"
  by (simp add: expandRuns_def)

lemma expandRuns_Cons:
  "expandRuns (r # runs) = replicate (srCount r) (srValue r) @ expandRuns runs"
  by (simp add: expandRuns_def)

lemma expandRuns_appendRun: "expandRuns (appendRun runs n v) = expandRuns runs @ replicate n v"
proof (cases runs rule: rev_cases)
  case (snoc rs r)
  then show ?thesis by (auto simp: appendRun_def expandRuns_def replicate_add)
qed (simp add: appendRun_def expandRuns_def)

text \<open>A list of bytes written from an offset.\<close>

definition putBytes :: "(u64 \<Rightarrow> byte) \<Rightarrow> u64 \<Rightarrow> byte list \<Rightarrow> (u64 \<Rightarrow> byte)" where
  "putBytes m at xs = (\<lambda>i. if unat (i - at) < length xs then xs ! unat (i - at) else m i)"

lemma putBytes_Nil [simp]: "putBytes m at [] = m"
  by (simp add: putBytes_def)

lemma memset_putBytes: "memset m at v n = putBytes m at (replicate n v)"
  by (auto simp: memset_def putBytes_def)

lemma putBytes_append:
  assumes "length xs + length ys < 2 ^ 63"
  shows "putBytes (putBytes m at xs) (at + word_of_nat (length xs)) ys = putBytes m at (xs @ ys)"
proof
  fix i
  have e: "i - (at + word_of_nat (length xs)) = (i - at) - word_of_nat (length xs)" by simp
  show "putBytes (putBytes m at xs) (at + word_of_nat (length xs)) ys i = putBytes m at (xs @ ys) i"
  proof (cases "length xs \<le> unat (i - at)")
    case True
    then have "unat ((i - at) - word_of_nat (length xs)) = unat (i - at) - length xs"
      using assms by (subst unat_sub) (simp_all add: word_le_nat_alt unat_of_nat_small)
    then show ?thesis unfolding putBytes_def e using True by (auto simp: nth_append)
  next
    case False
    then have lt: "unat (i - at) < length xs" by simp
    have "\<not> unat ((i - at) - word_of_nat (length xs)) < length ys" if ys: "ys \<noteq> []"
      using lt assms ys unat_minus_less [of "length xs" "length ys" "i - at"] by auto
    then show ?thesis unfolding putBytes_def e using lt by (cases "ys = []") (auto simp: nth_append)
  qed
qed

lemma bit_storeValue:
  assumes "width \<le> 8"
  shows "bit (storeValue pending at width) n \<longleftrightarrow>
    n div 8 < width \<and> bit (pending ! (at + n div 8)) (n mod 8)"
  using assms
proof (induction width)
  case 0
  then show ?case by (simp add: storeValue_def)
next
  case (Suc k)
  have "storeValue pending at (Suc k) = storeValue pending at k OR push_bit (8 * k) (ucast (pending ! (at + k)))"
    by (simp add: storeValue_def)
  moreover have "bit (push_bit (8 * k) (ucast (pending ! (at + k)) :: u64)) n \<longleftrightarrow>
      n div 8 = k \<and> bit (pending ! (at + k)) (n mod 8)"
  proof -
    have "bit (push_bit (8 * k) (ucast (pending ! (at + k)) :: u64)) n \<longleftrightarrow>
        8 * k \<le> n \<and> n < 64 \<and> bit (pending ! (at + k)) (n - 8 * k)"
      by (auto simp: bit_simps)
    also have "\<dots> \<longleftrightarrow> n div 8 = k \<and> bit (pending ! (at + k)) (n mod 8)"
    proof
      assume a: "8 * k \<le> n \<and> n < 64 \<and> bit (pending ! (at + k)) (n - 8 * k)"
      then have "n - 8 * k < 8" using bit_imp_le_length [of "pending ! (at + k)" "n - 8 * k"] by simp
      then have "n div 8 = k" using a by auto
      then have "n mod 8 = n - 8 * k" using minus_mult_div_eq_mod [of n 8] by simp
      with a \<open>n div 8 = k\<close> show "n div 8 = k \<and> bit (pending ! (at + k)) (n mod 8)" by simp
    next
      assume a: "n div 8 = k \<and> bit (pending ! (at + k)) (n mod 8)"
      then have "n = 8 * k + n mod 8" by auto
      moreover have "n mod 8 < 8" by simp
      ultimately have "8 * k \<le> n" "n < 64" "n - 8 * k = n mod 8" using Suc.prems by linarith+
      then show "8 * k \<le> n \<and> n < 64 \<and> bit (pending ! (at + k)) (n - 8 * k)" using a by simp
    qed
    finally show ?thesis .
  qed
  ultimately show ?case using Suc by (auto simp: bit_or_iff less_Suc_eq)
qed

lemma memcpyWord_putBytes:
  assumes "width \<le> 8" "at + width \<le> length pending"
  shows "memcpyWord m p width (storeValue pending at width) = putBytes m p (take width (drop at pending))"
proof
  fix i
  have "(ucast (drop_bit (8 * k) (storeValue pending at width)) :: byte) = pending ! (at + k)" if "k < width" for k
  proof (rule bit_word_eqI)
    fix n assume n: "n < LENGTH(8)"
    then have "(n + 8 * k) div 8 = k" "(n + 8 * k) mod 8 = n" by auto
    then show "bit (ucast (drop_bit (8 * k) (storeValue pending at width)) :: byte) n \<longleftrightarrow> bit (pending ! (at + k)) n"
      using n that by (simp add: bit_simps bit_storeValue [OF assms(1)] add.commute)
  qed
  then show "memcpyWord m p width (storeValue pending at width) i = putBytes m p (take width (drop at pending)) i"
    using assms(2) by (auto simp: memcpyWord_def putBytes_def min_def)
qed

lemma flushLoop_putBytes:
  assumes "length pending < 2 ^ 63"
  shows "flushLoop little pending start at m = putBytes m (start + word_of_nat at) (drop at pending)"
  using assms
proof (induction little pending start at m rule: flushLoop.induct)
  case (1 little pending start at m)
  show ?case
  proof (cases "at < length pending")
    case True
    define w where "w = storeWidth little (length pending - at)"
    have w: "w \<le> 8" "at + w \<le> length pending" "0 < w" using True by (auto simp: w_def storeWidth_def)
    have "flushLoop little pending start at m =
        flushLoop little pending start (at + w) (memcpyWord m (start + word_of_nat at) w (storeValue pending at w))"
      using True by (subst flushLoop.simps) (simp add: w_def Let_def)
    also have "\<dots> = putBytes (putBytes m (start + word_of_nat at) (take w (drop at pending)))
        (start + word_of_nat (at + w)) (drop (at + w) pending)"
      using "1.IH" [OF True refl "1.prems"] by (simp add: w_def [symmetric] memcpyWord_putBytes [OF w(1,2)])
    also have "\<dots> = putBytes (putBytes m (start + word_of_nat at) (take w (drop at pending)))
        (start + word_of_nat at + word_of_nat (length (take w (drop at pending)))) (drop w (drop at pending))"
      using w by (simp add: add.assoc min_def add.commute)
    also have "\<dots> = putBytes m (start + word_of_nat at) (take w (drop at pending) @ drop w (drop at pending))"
      using "1.prems" w by (intro putBytes_append) auto
    finally show ?thesis by (simp only: append_take_drop_id)
  qed (simp add: flushLoop.simps)
qed

lemma frame_shadow_run:
  assumes wf: "shadow_wf s" and os: "shadow_room (osBase os) (osPage os)"
    and al: "16 dvd unat address" and n: "0 < n" and win: "unat address + 16 * n \<le> 2 ^ shBits s"
    and stack: "stackBottom e \<le> address" "unat address + 16 * n \<le> unat (stackTop e)"
  shows "weavec_rt_frame_shadow e os s address (word_of_nat (n * 16)) (ucast v) =
    s\<lparr>shMem := memset (shMem s) (weavecRtShadowOf s address) v n\<rparr>"
proof -
  have b: "(2 :: nat) ^ shBits s \<le> 2 ^ 63" by (rule shadow_window_bound [OF wf])
  define k where "k = (word_of_nat (n * 16) :: u64)"
  have u: "unat k = 16 * n"
    unfolding k_def using win b by (subst unat_of_nat_small) simp_all
  have e': "unat (address + k) = unat address + 16 * n"
    using win b by (simp add: unat_add_no_wrap u)
  let ?finish = "address + k"
  have lt: "address < ?finish" "\<not> ?finish \<le> address" using n by (simp_all add: word_less_nat_alt word_le_nat_alt e')
  have own: "onOwnStack e address ?finish" "\<not> address < stackBottom e" "\<not> ?finish > stackTop e"
    using stack n by (auto simp: onOwnStack_def word_less_nat_alt word_le_nat_alt e')
  have sz: "?finish - address = k" by simp
  obtain q where q: "unat address = 16 * q" using al by blast
  have g: "unat (drop_bit 4 (k + 15)) = n"
  proof -
    have "unat (k + 15) = 16 * n + 15"
      using win b by (subst unat_add_no_wrap) (simp_all add: u)
    then show ?thesis by (simp add: unat_drop_bit_4)
  qed
  have "weavec_rt_frame_shadow e os s address (k) (ucast v) =
      (if v = 0 then shadowClear os s address ?finish else weavecRtShadowSet s address (k) v)"
  proof -
    have "ucast (ucast v :: u64) = v" by (intro bit_word_eqI) (auto simp: bit_simps)
    moreover have "(ucast v :: u64) = 0 \<longleftrightarrow> v = 0"
      by (metis calculation unsigned_0)
    moreover have "\<not> unat address + unat k \<ge> 2 ^ 64" using u win b by simp
    ultimately show ?thesis unfolding weavec_rt_frame_shadow_def Let_def using own lt by simp
  qed
  also have "\<dots> = s\<lparr>shMem := memset (shMem s) (weavecRtShadowOf s address) v n\<rparr>"
  proof (cases "v = 0")
    case True
    have "(unat ?finish + 15) div 16 - unat address div 16 = n" unfolding e' q by simp
    then show ?thesis
      using True shadowClear_memset [OF wf, of address ?finish "osBase os" "osPage os" "osMapped os"] e' win n os by simp
  next
    case False
    have "weavecRtInWindow s address" using win n by (simp add: in_window_iff [OF wf])
    moreover have "k \<noteq> 0" using n u by auto
    moreover have "n < 2 ^ 63" using win b by simp
    ultimately show ?thesis
      using False by (simp add: weavecRtShadowSet_def shadow_wf_ready [OF wf] g fill_memset)
  qed
  finally show ?thesis unfolding k_def .
qed

text \<open>Writing the runs: what is stored and what is pending make up the bytes so far.\<close>

definition written :: "shadow_t \<Rightarrow> u64 \<Rightarrow> write_state \<Rightarrow> byte list \<Rightarrow> bool" where
  "written s start ws xs \<longleftrightarrow>
     (\<exists>ys. xs = ys @ wsPending ws \<and> wsShadow ws = s\<lparr>shMem := putBytes (shMem s) start ys\<rparr> \<and>
        wsAt ws = length xs \<and> (wsPending ws \<noteq> [] \<longrightarrow> wsPendingAt ws = length ys))"

lemma flush_written:
  assumes "written s start ws xs" "length xs < 2 ^ 63"
  shows "wsShadow (flush little start ws) = s\<lparr>shMem := putBytes (shMem s) start xs\<rparr>"
    and "written s start (flush little start ws) xs"
proof -
  obtain ys where ys: "xs = ys @ wsPending ws" "wsShadow ws = s\<lparr>shMem := putBytes (shMem s) start ys\<rparr>"
    "wsAt ws = length xs" "wsPending ws \<noteq> [] \<longrightarrow> wsPendingAt ws = length ys"
    using assms(1) by (auto simp: written_def)
  have len: "length (wsPending ws) < 2 ^ 63" using assms(2) ys(1) by simp
  have "putBytes (putBytes (shMem s) start ys) (start + word_of_nat (wsPendingAt ws)) (wsPending ws) =
      putBytes (shMem s) start xs"
    using ys assms(2) putBytes_append [of ys "wsPending ws"] by (cases "wsPending ws = []") auto
  then show 1: "wsShadow (flush little start ws) = s\<lparr>shMem := putBytes (shMem s) start xs\<rparr>"
    by (simp add: flush_def flushLoop_putBytes [OF len] ys(2))
  then show "written s start (flush little start ws) xs"
    by (simp add: written_def ys(3)) (simp add: flush_def ys(3))
qed

lemma writeRun_written:
  assumes wf: "shadow_wf s" and os: "shadow_room (osBase os) (osPage os)" and al: "16 dvd unat address"
    and win: "unat address + 16 * (length xs + srCount r) \<le> 2 ^ shBits s"
    and stack: "RuntimeRun \<le> srCount r \<Longrightarrow> stackBottom e \<le> address \<and>
      unat address + 16 * (length xs + srCount r) \<le> unat (stackTop e)"
    and ws: "written s (weavecRtShadowOf s address) ws xs"
  shows "written s (weavecRtShadowOf s address)
    (writeRun little e os address (weavecRtShadowOf s address) r ws) (xs @ replicate (srCount r) (srValue r))"
proof (cases "srCount r < MemsetRun")
  case True
  then show ?thesis using ws by (auto simp: writeRun_def written_def)
next
  case False
  let ?st = "weavecRtShadowOf s address"
  have b: "(2 :: nat) ^ shBits s \<le> 2 ^ 63" by (rule shadow_window_bound [OF wf])
  have len: "length xs < 2 ^ 63" "length xs + srCount r < 2 ^ 63" using win b False by simp_all
  note fl = flush_written [OF ws len(1), of little]
  define t where "t = s\<lparr>shMem := putBytes (shMem s) ?st xs\<rparr>"
  have t: "wsShadow (flush little ?st ws) = t" using fl(1) by (simp add: t_def)
  have at: "wsAt (flush little ?st ws) = length xs"
    using fl(2) by (auto simp: written_def)
  have pend: "wsPending (flush little ?st ws) = []" by (simp add: flush_def)
  have twf: "shadow_wf t" "shBits t = shBits s" using wf by (simp_all add: t_def)
  define a' where "a' = address + word_of_nat (length xs * 16)"
  have a': "unat a' = unat address + 16 * length xs"
  proof -
    have small: "unat address + 16 * length xs < 2 ^ 64" using win b by simp
    then have k: "unat (word_of_nat (length xs * 16) :: u64) = 16 * length xs"
      by (subst unat_of_nat_small) simp_all
    have "unat (address + word_of_nat (length xs * 16)) = unat address + unat (word_of_nat (length xs * 16) :: u64)"
      by (rule unat_add_no_wrap) (use small k in \<open>simp only:\<close>)
    then show ?thesis unfolding a'_def k .
  qed
  have st': "weavecRtShadowOf t a' = ?st + word_of_nat (length xs)"
  proof -
    have "weavecRtShadowOf s a' = ?st + word_of_nat ((unat address mod 16 + length xs * 16) div 16)"
      unfolding a'_def by (rule shadowOf_add [OF wf]) (use win False in simp)
    then show ?thesis using al by (simp add: t_def)
  qed
  have "weavec_rt_frame_shadow e os t a' (word_of_nat (srCount r * 16)) (ucast (srValue r)) =
      t\<lparr>shMem := memset (shMem t) (?st + word_of_nat (length xs)) (srValue r) (srCount r)\<rparr>"
    if big: "RuntimeRun \<le> srCount r"
    unfolding st' [symmetric]
    by (rule frame_shadow_run [OF twf(1) os])
      (use al a' big win stack [OF big] twf in \<open>auto simp: word_le_nat_alt\<close>)
  moreover have "memset (shMem t) (?st + word_of_nat (length xs)) (srValue r) (srCount r) =
      putBytes (shMem s) ?st (xs @ replicate (srCount r) (srValue r))"
    using putBytes_append [of xs "replicate (srCount r) (srValue r)" "shMem s" ?st] len(2)
    by (simp add: memset_putBytes t_def)
  ultimately have "wsShadow (writeRun little e os address ?st r ws) =
      s\<lparr>shMem := putBytes (shMem s) ?st (xs @ replicate (srCount r) (srValue r))\<rparr>"
    using False unfolding writeRun_def Let_def at t a'_def [symmetric] by (simp add: t_def)
  moreover have "wsPending (writeRun little e os address ?st r ws) = []"
    "wsAt (writeRun little e os address ?st r ws) = length xs + srCount r"
    using False pend at by (simp_all add: writeRun_def Let_def)
  ultimately show ?thesis by (simp add: written_def)
qed

lemma writeRuns_written:
  assumes wf: "shadow_wf s" and os: "shadow_room (osBase os) (osPage os)" and al: "16 dvd unat address"
    and win: "unat address + 16 * (length xs + length (expandRuns runs)) \<le> 2 ^ shBits s"
    and stack: "\<And>r. r \<in> set runs \<Longrightarrow> RuntimeRun \<le> srCount r \<Longrightarrow> stackBottom e \<le> address \<and>
      unat address + 16 * (length xs + length (expandRuns runs)) \<le> unat (stackTop e)"
    and ws: "written s (weavecRtShadowOf s address) ws xs"
  shows "written s (weavecRtShadowOf s address)
    (fold (writeRun little e os address (weavecRtShadowOf s address)) runs ws) (xs @ expandRuns runs)"
  using win stack ws
proof (induction runs arbitrary: ws xs)
  case (Cons r runs)
  have len: "length (expandRuns (r # runs)) = srCount r + length (expandRuns runs)"
    by (simp add: expandRuns_Cons)
  have big: "RuntimeRun \<le> srCount r \<Longrightarrow> stackBottom e \<le> address \<and>
      unat address + 16 * (length xs + srCount r) \<le> unat (stackTop e)"
    using Cons.prems(2) [of r] len by simp
  have one: "written s (weavecRtShadowOf s address)
      (writeRun little e os address (weavecRtShadowOf s address) r ws) (xs @ replicate (srCount r) (srValue r))"
    by (rule writeRun_written [OF wf os al _ big Cons.prems(3)]) (use Cons.prems(1) len in simp)
  have "written s (weavecRtShadowOf s address)
      (fold (writeRun little e os address (weavecRtShadowOf s address)) runs
        (writeRun little e os address (weavecRtShadowOf s address) r ws))
      ((xs @ replicate (srCount r) (srValue r)) @ expandRuns runs)"
  proof (rule Cons.IH [OF _ _ one])
    fix x assume "x \<in> set runs" "RuntimeRun \<le> srCount x"
    then show "stackBottom e \<le> address \<and> unat address +
        16 * (length (xs @ replicate (srCount r) (srValue r)) + length (expandRuns runs)) \<le> unat (stackTop e)"
      using Cons.prems(2) [of x] len by (simp add: add.assoc)
  qed (use Cons.prems(1) len in \<open>simp add: add.assoc\<close>)
  then show ?case by (simp add: expandRuns_Cons)
qed simp

lemma writeShadow_mem:
  assumes wf: "shadow_wf s" and os: "shadow_room (osBase os) (osPage os)" and al: "16 dvd unat address"
    and win: "unat address + 16 * length (expandRuns runs) \<le> 2 ^ shBits s"
    and stack: "\<And>r. r \<in> set runs \<Longrightarrow> RuntimeRun \<le> srCount r \<Longrightarrow> stackBottom e \<le> address \<and>
      unat address + 16 * length (expandRuns runs) \<le> unat (stackTop e)"
  shows "writeShadow little e os s address runs =
    s\<lparr>shMem := putBytes (shMem s) (weavecRtShadowOf s address) (expandRuns runs)\<rparr>"
proof -
  let ?w = "\<lparr>wsShadow = s, wsPending = [], wsPendingAt = 0, wsAt = 0\<rparr>"
  have "written s (weavecRtShadowOf s address) ?w []" by (simp add: written_def)
  then have "written s (weavecRtShadowOf s address)
      (fold (writeRun little e os address (weavecRtShadowOf s address)) runs ?w) ([] @ expandRuns runs)"
    by (intro writeRuns_written [OF wf os al]) (use win stack in auto)
  then have w: "written s (weavecRtShadowOf s address)
      (fold (writeRun little e os address (weavecRtShadowOf s address)) runs ?w) (expandRuns runs)" by simp
  have "length (expandRuns runs) < 2 ^ 63" using win shadow_window_bound [OF wf] by simp
  from flush_written(1) [OF w this, of little] show ?thesis
    using shadow_wf_ready [OF wf]
    by (auto simp: writeShadow_def Let_def weavecRtShadowReady_def weavecRtShadowOf_def)
qed

lemma putBytes_shadowOf:
  assumes wf: "shadow_wf s" and al: "16 dvd unat address"
    and win: "unat address + 16 * length xs \<le> 2 ^ shBits s" and a: "unat a < 2 ^ shBits s"
  shows "putBytes (shMem s) (weavecRtShadowOf s address) xs (weavecRtShadowOf s a) =
    (if unat address div 16 \<le> unat a div 16 \<and> unat a div 16 < unat address div 16 + length xs
     then xs ! (unat a div 16 - unat address div 16) else shadowByte s a)"
proof (cases "xs = []")
  case False
  have b: "(2 :: nat) ^ shBits s \<le> 2 ^ 63" by (rule shadow_window_bound [OF wf])
  have "unat address < 2 ^ shBits s" using False win by (cases xs) auto
  then have u: "unat (weavecRtShadowOf s address) = unat address div 16" "unat (weavecRtShadowOf s a) = unat a div 16"
    using unat_shadowOf [OF wf] a by auto
  have w: "weavecRtShadowOf s address = word_of_nat (unat address div 16)"
    by (simp add: u(1) [symmetric])
  have "unat (weavecRtShadowOf s a - weavecRtShadowOf s address) < length xs \<longleftrightarrow>
      unat address div 16 \<le> unat a div 16 \<and> unat a div 16 < unat address div 16 + length xs"
    unfolding w by (subst unat_minus_less) (use False win b u in auto)
  moreover have "unat (weavecRtShadowOf s a - weavecRtShadowOf s address) = unat a div 16 - unat address div 16"
    if "unat address div 16 \<le> unat a div 16"
    using that by (simp add: unat_sub word_le_nat_alt u)
  ultimately show ?thesis by (auto simp: putBytes_def)
qed auto

subsection \<open>Lemmas: an object and its redzone\<close>

lemma rounded_up: 
  fixes sz :: u64
  assumes "unat sz + 15 < 2 ^ 64"
  shows "unat ((sz + 15) AND NOT 15) = 16 * ((unat sz + 15) div 16)"
proof -
  have "unat (sz + 15) = unat sz + 15" using assms by (subst unat_add_no_wrap) simp_all
  then show ?thesis using unat_and_not_15 [of "sz + 15"] by (simp add: minus_mod_eq_mult_div)
qed

lemma div16_up:
  assumes "0 < x mod (16 :: nat)"
  shows "x div 16 < (x + 15) div 16"
proof -
  have "16 * (x div 16) + 16 \<le> x + 15" using assms mult_div_mod_eq [of 16 x] by linarith
  from div_le_mono [OF this, of 16] show ?thesis by simp
qed

lemma color_full: "unat (weavecRtColor n) < 128"
  by (rule color_range)

text \<open>
  A redzone of one poison after an object's granules, as the alloca and global entry points
  write it.
\<close>

lemma padded_object:
  assumes wf: "shadow_wf s" and os: "shadow_room (osBase os) (osPage os)"
    and al: "16 dvd unat base" "16 dvd unat padded" "0 < unat padded" and win: "unat base + unat padded \<le> 2 ^ shBits s"
    and used: "used = (sz + 15) AND NOT 15" "unat sz \<le> unat padded"
    and color: "unat color < 128" "unat color mod 8 < 7" and tail: "weavecRtShadowPoison tail"
    and t: "t = shadowObject os s base sz tail color"
    and u: "u = (if padded > used then weavecRtShadowSet t (base + used) (padded - used) tail else t)"
    and a: "unat a < 2 ^ shBits s"
  shows "unat a < unat base \<or> unat base + unat padded \<le> unat a \<Longrightarrow> shadowByte u a = shadowByte s a"
    and "unat base \<le> unat a \<Longrightarrow> unat a < unat base + unat padded \<Longrightarrow>
      addressable u a \<longleftrightarrow> unat a < unat base + unat sz"
    and "shMask u = shMask s" "shBits u = shBits s"
proof -
  have b: "(2 :: nat) ^ shBits s \<le> 2 ^ 63" by (rule shadow_window_bound [OF wf])
  have us: "unat used = 16 * ((unat sz + 15) div 16)"
    unfolding used(1) using win b used(2) by (intro rounded_up) simp
  obtain q where q: "unat base = 16 * q" using al(1) by blast
  obtain p where p: "unat padded = 16 * p" using al(2) by blast
  have le: "(unat sz + 15) div 16 \<le> p" using used(2) p by linarith
  have p0: "0 < p" using al(3) p by simp
  have gr: "objectGranules (unat sz) \<le> p" using le p0 by (simp add: objectGranules_def)
  have bw: "unat base + 16 * objectGranules (unat sz) \<le> 2 ^ shBits s" using win gr p by simp
  note ob = shadowObject_byte [OF wf bw al(1) os, of _ "osMapped os" tail color]
  have bits: "shMask t = shMask s" "shBits t = shBits s"
    unfolding t by (auto simp: weavecRtShadowObject_def weavecRtShadowClear_def Let_def)
  have twf: "shadow_wf t" using wf bits by (simp add: shadow_wf_def)
  have addr: "unat (base + used) = unat base + unat used"
    using win b us le p by (intro unat_add_no_wrap) simp
  have sub: "unat (padded - used) = 16 * (p - (unat sz + 15) div 16)" if "padded > used"
    using that us p by (simp add: unat_sub word_le_nat_alt word_less_nat_alt diff_mult_distrib2)
  have ge: "padded > used \<longleftrightarrow> (unat sz + 15) div 16 < p" by (simp add: word_less_nat_alt us p)
  have ub: "shadowByte u a = (if q + (unat sz + 15) div 16 \<le> unat a div 16 \<and> unat a div 16 < q + p
      then tail else shadowByte t a)"
  proof (cases "padded > used")
    case True
    have "shadowByte u a = (if unat (base + used) div 16 \<le> unat a div 16 \<and>
        unat a div 16 < unat (base + used) div 16 + (unat (padded - used) + 15) div 16 then tail else shadowByte t a)"
      unfolding u if_P [OF True]
      by (rule shadowSet_byte [OF twf]) (use True win addr sub us le a bits p ge in \<open>auto simp: word_less_nat_alt unat_eq_0 [symmetric] simp del: unat_eq_zero\<close>)
    then show ?thesis using le unfolding addr sub [OF True] us q by simp
  next
    case False
    then show ?thesis using ge le u by auto
  qed
  have sb: "shMask u = shMask s" "shBits u = shBits s"
    using bits by (auto simp: u weavecRtShadowSet_def)
  then show "shMask u = shMask s" "shBits u = shBits s" by simp_all
  have of: "weavecRtShadowOf u x = weavecRtShadowOf s x" "weavecRtShadowOf t x = weavecRtShadowOf s x" for x
    using sb bits by (simp_all add: weavecRtShadowOf_def)
  show "shadowByte u a = shadowByte s a" if "unat a < unat base \<or> unat base + unat padded \<le> unat a"
  proof -
    have "unat a div 16 < q \<or> q + p \<le> unat a div 16" using that q p by linarith
    have "0 < unat sz mod 16 \<Longrightarrow> unat sz div 16 < p" using le div16_up [of "unat sz"] by simp
    then have "shadowByte t a = shadowByte s a"
      using \<open>unat a div 16 < q \<or> q + p \<le> unat a div 16\<close> gr ob [OF a] q unfolding t
      by (auto simp: Let_def objectGranules_def split: if_splits)
    then show ?thesis using ub le \<open>unat a div 16 < q \<or> q + p \<le> unat a div 16\<close> by auto
  qed
  show "addressable u a \<longleftrightarrow> unat a < unat base + unat sz" if r: "unat base \<le> unat a" "unat a < unat base + unat padded"
  proof (cases "unat a < unat base + 16 * objectGranules (unat sz)")
    case True
    define i where "i = unat a - unat base"
    have ai: "a = base + word_of_nat i"
      using r(1) by (simp add: i_def word_unat_eq_iff of_nat_diff)
    have "addressable t a \<longleftrightarrow> i < unat sz"
      unfolding t ai by (rule shadowObject_addressable [OF wf bw al(1) os color tail]) (use True r i_def in simp)
    moreover have "addressable u a \<longleftrightarrow> addressable t a"
    proof (cases "q + (unat sz + 15) div 16 \<le> unat a div 16")
      case True
      then have "\<not> unat a < unat base + unat sz" using q by linarith
      moreover have "shadowByte u a = tail" using True ub r q p by auto
      ultimately show ?thesis
        using \<open>addressable t a \<longleftrightarrow> i < unat sz\<close> not_byte_ok_poison [OF tail] i_def by (simp add: addressable_def)
    qed (use ub in \<open>simp add: addressable_def\<close>)
    ultimately show ?thesis using r(1) by (auto simp: i_def)
  next
    case False
    then have "q + (unat sz + 15) div 16 \<le> unat a div 16" "\<not> unat a < unat base + unat sz"
      using q by (auto simp: objectGranules_def)
    moreover have "unat a div 16 < q + p" using r q p by linarith
    ultimately show ?thesis using ub not_byte_ok_poison [OF tail] by (simp add: addressable_def)
  qed
qed

text \<open>Globals: each keeps its extent to itself.\<close>

definition global_wf :: "shadow_t \<Rightarrow> rt_global \<Rightarrow> bool" where
  "global_wf s g \<longleftrightarrow> 16 dvd unat (gAddress g) \<and> 16 dvd unat (gPadded g) \<and> 0 < unat (gPadded g) \<and>
     unat (gSize g) \<le> unat (gPadded g) \<and> unat (gAddress g) + unat (gPadded g) \<le> 2 ^ shBits s"

definition apart :: "rt_global \<Rightarrow> rt_global \<Rightarrow> bool" where
  "apart g h \<longleftrightarrow> unat (gAddress g) + unat (gPadded g) \<le> unat (gAddress h) \<or>
     unat (gAddress h) + unat (gPadded h) \<le> unat (gAddress g)"

definition global_guarded :: "shadow_t \<Rightarrow> rt_global \<Rightarrow> bool" where
  "global_guarded s g \<longleftrightarrow> (\<forall>i < unat (gPadded g).
     addressable s (gAddress g + word_of_nat i) \<longleftrightarrow> i < unat (gSize g))"

lemma extent_unat:
  assumes "shadow_wf s" "global_wf s g" "i < unat (gPadded g)"
  shows "unat (gAddress g + word_of_nat i) = unat (gAddress g) + i"
  using assms shadow_window_bound [OF assms(1)]
  by (subst unat_add_no_wrap) (auto simp: global_wf_def unat_of_nat_small)

lemma registerGlobal_facts:
  assumes wf: "shadow_wf s" and os: "shadow_room (osBase os) (osPage os)" and g: "global_wf s g"
    and a: "unat a < 2 ^ shBits s"
  shows "unat a < unat (gAddress g) \<or> unat (gAddress g) + unat (gPadded g) \<le> unat a \<Longrightarrow>
      shadowByte (snd (registerGlobal os g (c, s))) a = shadowByte s a"
    and "unat (gAddress g) \<le> unat a \<Longrightarrow> unat a < unat (gAddress g) + unat (gPadded g) \<Longrightarrow>
      addressable (snd (registerGlobal os g (c, s))) a \<longleftrightarrow> unat a < unat (gAddress g) + unat (gSize g)"
    and "shMask (snd (registerGlobal os g (c, s))) = shMask s"
      "shBits (snd (registerGlobal os g (c, s))) = shBits s"
proof -
  have b: "(2 :: nat) ^ shBits s \<le> 2 ^ 63" by (rule shadow_window_bound [OF wf])
  obtain q where q: "unat (gAddress g) = 16 * q" using g by (auto simp: global_wf_def)
  obtain p where p: "unat (gPadded g) = 16 * p" using g by (auto simp: global_wf_def)
  have low: "gAddress g AND 15 = 0"
    using q by (simp add: word_unat_eq_iff unat_and_low)
  have "unat ((gSize g + 15) AND NOT 15) = 16 * ((unat (gSize g) + 15) div 16)"
    using g b by (intro rounded_up) (auto simp: global_wf_def)
  moreover have "(unat (gSize g) + 15) div 16 \<le> p"
  proof -
    have "unat (gSize g) \<le> 16 * p" using g p by (simp add: global_wf_def)
    then show ?thesis by linarith
  qed
  ultimately have "\<not> gPadded g < (gSize g + 15) AND NOT 15" by (simp add: word_less_nat_alt p)
  with low have reg: "snd (registerGlobal os g (c, s)) =
      (let t = shadowObject os s (gAddress g) (gSize g) WeavecRtShadowGlobal (weavecRtColor c)
       in if gPadded g > (gSize g + 15) AND NOT 15
          then weavecRtShadowSet t (gAddress g + ((gSize g + 15) AND NOT 15))
            (gPadded g - ((gSize g + 15) AND NOT 15)) WeavecRtShadowGlobal else t)"
    by (auto simp: registerGlobal_def Let_def)
  note po = padded_object [OF wf os _ _ _ _ refl _ color_full color_class _ refl reg [unfolded Let_def] a]
  have gw: "16 dvd unat (gAddress g)" "16 dvd unat (gPadded g)" "0 < unat (gPadded g)"
    "unat (gAddress g) + unat (gPadded g) \<le> 2 ^ shBits s" "unat (gSize g) \<le> unat (gPadded g)"
    using g by (auto simp: global_wf_def)
  have tl: "weavecRtShadowPoison WeavecRtShadowGlobal" by (simp add: weavecRtShadowPoison_def)
  show "unat a < unat (gAddress g) \<or> unat (gAddress g) + unat (gPadded g) \<le> unat a \<Longrightarrow>
      shadowByte (snd (registerGlobal os g (c, s))) a = shadowByte s a"
    by (rule po(1) [OF gw tl])
  show "unat (gAddress g) \<le> unat a \<Longrightarrow> unat a < unat (gAddress g) + unat (gPadded g) \<Longrightarrow>
      addressable (snd (registerGlobal os g (c, s))) a \<longleftrightarrow> unat a < unat (gAddress g) + unat (gSize g)"
    by (rule po(2) [OF gw tl])
  show "shMask (snd (registerGlobal os g (c, s))) = shMask s"
    "shBits (snd (registerGlobal os g (c, s))) = shBits s"
    by (rule po(3) [OF gw tl], rule po(4) [OF gw tl])
qed

lemma registerGlobal_keeps:
  assumes st0: "snd st = s" and wf: "shadow_wf s" and os: "shadow_room (osBase os) (osPage os)"
    and g: "global_wf s g"
  shows "shadow_wf (snd (registerGlobal os g st))" "global_wf (snd (registerGlobal os g st)) h = global_wf s h"
    "global_guarded (snd (registerGlobal os g st)) g"
    "global_wf s h \<Longrightarrow> apart g h \<Longrightarrow> global_guarded (snd (registerGlobal os g st)) h \<longleftrightarrow> global_guarded s h"
proof -
  obtain c where st: "st = (c, s)" using st0 by (cases st) auto
  let ?s = "snd (registerGlobal os g (c, s))"
  have z: "unat (0 :: u64) < 2 ^ shBits s" by simp
  note bits = registerGlobal_facts(3,4) [OF wf os g z, of c]
  show "shadow_wf (snd (registerGlobal os g st))" "global_wf (snd (registerGlobal os g st)) h = global_wf s h"
    using wf by (simp_all add: st shadow_wf_def global_wf_def bits)
  have ext: "unat (gAddress h) + i < 2 ^ shBits s" if "global_wf s h" "i < unat (gPadded h)" for h i
    using that by (auto simp: global_wf_def)
  show "global_guarded (snd (registerGlobal os g st)) g"
    unfolding st global_guarded_def
  proof (intro allI impI)
    fix i assume i: "i < unat (gPadded g)"
    note u = extent_unat [OF wf g i]
    show "addressable ?s (gAddress g + word_of_nat i) \<longleftrightarrow> i < unat (gSize g)"
      using registerGlobal_facts(2) [OF wf os g, of "gAddress g + word_of_nat i" c] u ext [OF g i] i by simp
  qed
  show "global_guarded (snd (registerGlobal os g st)) h \<longleftrightarrow> global_guarded s h" if h: "global_wf s h" "apart g h"
  proof -
    have "addressable ?s (gAddress h + word_of_nat i) \<longleftrightarrow> addressable s (gAddress h + word_of_nat i)"
      if i: "i < unat (gPadded h)" for i
    proof -
      note u = extent_unat [OF wf h(1) i]
      have "shadowByte ?s (gAddress h + word_of_nat i) = shadowByte s (gAddress h + word_of_nat i)"
        using registerGlobal_facts(1) [OF wf os g, of "gAddress h + word_of_nat i" c] u ext [OF h(1) i] h(2) i
        by (auto simp: apart_def)
      then show ?thesis by (simp add: addressable_def)
    qed
    then show ?thesis by (simp add: st global_guarded_def)
  qed
qed

lemma globals_register_guarded:
  assumes "shadow_wf (snd st)" and os: "shadow_room (osBase os) (osPage os)"
    and "\<forall>g \<in> set gs. global_wf (snd st) g" and "sorted_wrt apart gs"
  shows "(\<forall>g \<in> set gs. global_guarded (snd (weavec_rt_globals_register os gs st)) g) \<and>
    (\<forall>h. global_wf (snd st) h \<longrightarrow> (\<forall>g \<in> set gs. apart g h) \<longrightarrow> global_guarded (snd st) h \<longrightarrow>
      global_guarded (snd (weavec_rt_globals_register os gs st)) h)"
  using assms(1,3,4)
proof (induction gs arbitrary: st)
  case (Cons g gs)
  let ?st = "registerGlobal os g st"
  note k = registerGlobal_keeps [OF refl Cons.prems(1) os, of g]
  have g: "global_wf (snd st) g" using Cons.prems(2) by simp
  have IH: "(\<forall>x \<in> set gs. global_guarded (snd (weavec_rt_globals_register os gs ?st)) x) \<and>
    (\<forall>h. global_wf (snd ?st) h \<longrightarrow> (\<forall>x \<in> set gs. apart x h) \<longrightarrow> global_guarded (snd ?st) h \<longrightarrow>
      global_guarded (snd (weavec_rt_globals_register os gs ?st)) h)"
    using Cons.prems k(1) [OF g] k(2) [OF g] by (intro Cons.IH) auto
  have step: "weavec_rt_globals_register os (g # gs) st = weavec_rt_globals_register os gs ?st"
    by (simp add: weavec_rt_globals_register_def)
  have sym: "\<forall>x \<in> set gs. apart x g" using Cons.prems(3) by (auto simp: apart_def)
  show ?case
    unfolding step using IH k(2-4) [OF g] g sym Cons.prems(2) by auto
qed (simp add: weavec_rt_globals_register_def)

lemma colorAt_runtime: "colorAt n = weavecRtColor n"
  by (simp add: colorAt_def weavecRtColor_def)

lemma color_injective:
  assumes "weavecRtColor m = weavecRtColor n"
  shows "unat m mod 111 = unat n mod 111"
proof -
  define x y where "x = unat m mod 111 + 1" and "y = unat n mod 111 + 1"
  have "8 * (x div 7) + x mod 7 = 8 * (y div 7) + y mod 7"
    using assms color_nat [of m] color_nat [of n] by (simp add: x_def y_def)
  moreover have "x mod 7 < 8" "y mod 7 < 8" "7 * (x div 7) + x mod 7 = x" "7 * (y div 7) + y mod 7 = y"
    by (auto intro: less_trans [of _ 7])
  ultimately have "x = y" by linarith
  then show ?thesis by (simp add: x_def y_def)
qed

subsection \<open>Properties\<close>

abbreviation plainOs :: shadow_os where "plainOs \<equiv> \<lparr>osBase = 0x10000, osPage = 4096, osMapped = True\<rparr>"

lemma plainOs_room: "shadow_room (osBase plainOs) (osPage plainOs)"
  unfolding shadow_room_def by (rule exI [of _ 12]) simp

text \<open>
  C26: the stores the pass emits for a frame's shadow write exactly the runs. On a 16-aligned
  address whose granules lie in the window, granule \<open>k\<close> of the frame gets the \<open>k\<close>-th byte
  of the runs and no other granule changes, however the runs are split into words of eight,
  four, two and one bytes, \<open>memset\<close>s, and (for long runs, on the thread's own stack) calls
  of the runtime; and before the shadow exists nothing is written.
\<close>

theorem writeShadow_exact:
  assumes "shadow_wf s" and "shadow_room (osBase os) (osPage os)" and "16 dvd unat address"
    and "unat address + 16 * length (expandRuns runs) \<le> 2 ^ shBits s"
    and "\<And>r. r \<in> set runs \<Longrightarrow> RuntimeRun \<le> srCount r \<Longrightarrow> stackBottom e \<le> address \<and>
      unat address + 16 * length (expandRuns runs) \<le> unat (stackTop e)"
    and "unat a < 2 ^ shBits s"
  shows "shadowByte (writeShadow little e os s address runs) a =
      (if unat address div 16 \<le> unat a div 16 \<and> unat a div 16 < unat address div 16 + length (expandRuns runs)
       then expandRuns runs ! (unat a div 16 - unat address div 16) else shadowByte s a) \<and>
    writeShadow little e os (s\<lparr>shMask := 0\<rparr>) address runs = s\<lparr>shMask := 0\<rparr>"
  using putBytes_shadowOf [OF assms(1,3,4,6)] writeShadow_mem [OF assms(1-5), where little = little]
  by (simp add: writeShadow_def)

theorem writeShadow_exact_witness:
  "(let runs = appendRun (appendRun (appendRun [] 4 0xF1) 70 9) 3 0xF3;
        s = \<lparr>shMask = 0xFFF, shBits = 16, shMem = (\<lambda>_. 0)\<rparr>;
        e = \<lparr>stackTop = 0, stackBottom = 0, here = 0, aarch64 = False, stackLostColors = False,
             heapObjectAt = (\<lambda>_. \<lparr>hoFound = False, hoLive = False, hoBase = 0, hoSize = 0\<rparr>)\<rparr>
    in shadowByte (writeShadow True e plainOs s 32 runs) 111 = 9 \<and>
       shadowByte (writeShadow True e plainOs s 32 runs) 16 = 0)"
proof -
  let ?runs = "appendRun (appendRun (appendRun [] 4 0xF1) 70 9) 3 0xF3"
  let ?s = "\<lparr>shMask = 0xFFF, shBits = 16, shMem = (\<lambda>_. 0)\<rparr>"
  let ?e = "\<lparr>stackTop = 0, stackBottom = 0, here = 0, aarch64 = False, stackLostColors = False,
             heapObjectAt = (\<lambda>_. \<lparr>hoFound = False, hoLive = False, hoBase = 0, hoSize = 0\<rparr>)\<rparr>"
  have wf: "shadow_wf ?s" by (simp add: shadow_wf_def)
  have runs: "expandRuns ?runs = replicate 4 0xF1 @ replicate 70 9 @ replicate 3 0xF3"
    by (simp add: expandRuns_appendRun)
  have small: "\<not> RuntimeRun \<le> srCount r" if "r \<in> set ?runs" for r
    using that by (auto simp: appendRun_def)
  have e: "16 dvd unat (32 :: u64)" "unat (32 :: u64) + 16 * length (expandRuns ?runs) \<le> 2 ^ shBits ?s"
    by (simp_all add: expandRuns_appendRun)
  have "unat (111 :: u64) < 2 ^ shBits ?s" "unat (16 :: u64) < 2 ^ shBits ?s" by simp_all
  then show ?thesis
    using writeShadow_exact [OF wf plainOs_room e, where e = ?e and a = 111 and little = True]
      writeShadow_exact [OF wf plainOs_room e, where e = ?e and a = 16 and little = True] small
    unfolding Let_def by (auto simp: runs nth_append)
qed

text \<open>
  C31: registering a unit's globals makes exactly their bytes addressable. When the extents
  (object and redzone) do not meet, afterwards every byte of every global's extent is
  addressable if and only if it belongs to the object, so an overflow into the redzone of any
  of them is caught; the order of registration and the colors do not matter.
\<close>

theorem globals_register_exact:
  assumes "shadow_wf s" and "shadow_room (osBase os) (osPage os)"
    and "\<forall>g \<in> set gs. global_wf s g" and "sorted_wrt apart gs"
  shows "\<forall>g \<in> set gs. \<forall>i < unat (gPadded g).
    addressable (snd (weavec_rt_globals_register os gs (c, s))) (gAddress g + word_of_nat i) \<longleftrightarrow> i < unat (gSize g)"
  using globals_register_guarded [of "(c, s)" os gs] assms by (simp add: global_guarded_def)

theorem globals_register_exact_witness:
  "(let s = \<lparr>shMask = 0xFFF, shBits = 16, shMem = (\<lambda>_. 0)\<rparr>;
        gs = [\<lparr>gAddress = 64, gSize = 20, gPadded = 64\<rparr>, \<lparr>gAddress = 128, gSize = 3, gPadded = 48\<rparr>]
    in \<forall>g \<in> set gs. \<forall>i < unat (gPadded g).
      addressable (snd (weavec_rt_globals_register plainOs gs (0, s))) (gAddress g + word_of_nat i) \<longleftrightarrow> i < unat (gSize g))"
  unfolding Let_def
  by (rule globals_register_exact [OF _ plainOs_room]) (auto simp: shadow_wf_def global_wf_def apart_def)

text \<open>
  The colors of consecutive objects differ. Any two of 111 consecutive colors are
  distinct whole-granule bytes that are not 0 and whose class is below 7, and the compiler's
  and the runtime's colors are the same function.
\<close>

theorem colors_distinct:
  assumes "unat m mod 111 \<noteq> unat n mod 111"
  shows "colorAt m \<noteq> colorAt n \<and> colorAt m = weavecRtColor m \<and> weavecRtShadowFull (colorAt m) \<and>
    colorAt m \<noteq> 0 \<and> unat (weavecRtShadowClass (colorAt m)) < 7"
proof -
  have "weavecRtColor m < 0x80" using color_full [of m] by (simp add: word_less_nat_alt)
  then have "unat (weavecRtShadowClass (weavecRtColor m)) < 7"
    using color_class [of m] by (simp add: weavecRtShadowClass_def unat_byte_and_low)
  then show ?thesis
    using assms color_injective [of m n] color_range [of m] by (auto simp: colorAt_runtime full_iff)
qed

theorem colors_distinct_witness: "colorAt 5 \<noteq> colorAt 110"
  by (rule conjunct1 [OF colors_distinct]) simp

end
