(* ===== verification/Frame_Layout.thy ===== *)
theory Frame_Layout
  imports Shadow_Runs
begin

text \<open>
  \<open>lib/Frontend/GuardFrames.cpp\<close>: how the tracked locals of a function are laid out in one
  frame with redzones, which shadow the frame gets at entry, what a scope's start and end
  write, and what the exits write. \<open>paddedSize\<close> of \<open>GuardPass.cpp\<close> gives an object its
  extent. Sizes and offsets are natural numbers: no frame comes near \<open>2 ^ 63\<close> bytes, so the
  64-bit sums of the code do not wrap.

  What LLVM computes is an argument: \<open>overlaps\<close> says whether the live ranges of two
  allocas overlap (\<open>StackLifetime\<close>), \<open>hash\<close> is the hash of the function's name.
\<close>

subsection \<open>Objects and extents\<close>

abbreviation (input) FrameAlign :: nat where "FrameAlign \<equiv> 32"
abbreviation (input) LeftZone :: nat where "LeftZone \<equiv> 64"
abbreviation (input) ShareAbove :: nat where "ShareAbove \<equiv> 512"

definition paddedSize :: "nat \<Rightarrow> nat" where
  "paddedSize sz = (let zone = max 32 (min (sz div 8) 4096) in (sz + zone + 31) div 32 * 32)"

text \<open>
  What the layout asks of an alloca: its size when it is known and fixed, its alignment (a
  power of two), and the places of its lifetime markers.
\<close>

record alloca =
  aId :: nat
  aSize :: "nat option"
  aAlign :: nat
  aSwiftError :: bool
  aInAlloca :: bool
  aStatic :: bool
  aInEntry :: bool
  aStarts :: "nat list"
  aEnds :: "nat list"

record frame_object =
  foAlloca :: alloca
  foSize :: nat
  foOffset :: nat
  foColor :: byte

definition partialOf :: "byte \<Rightarrow> nat \<Rightarrow> byte" where
  "partialOf color bytes = 0x80 OR push_bit 4 (color AND 7) OR word_of_nat bytes"

definition objectRuns :: "nat \<Rightarrow> byte \<Rightarrow> shadow_run list \<Rightarrow> shadow_run list" where
  "objectRuns sz color runs =
     (let runs = appendRun runs (sz div 16) color
      in if sz mod 16 \<noteq> 0 then appendRun runs 1 (partialOf color (sz mod 16)) else runs)"

definition granules :: "nat \<Rightarrow> nat" where
  "granules sz = (sz + 15) div 16"

definition frameObject :: "alloca \<Rightarrow> frame_object option" where
  "frameObject al =
     (case aSize al of
        None \<Rightarrow> None
      | Some sz \<Rightarrow>
          if aSwiftError al \<or> aInAlloca al then None
          else Some \<lparr>foAlloca = al, foSize = max sz 1, foOffset = 0, foColor = 0\<rparr>)"

definition frameObjects :: "alloca list \<Rightarrow> frame_object list" where
  "frameObjects allocas =
     sort_key (\<lambda>ob. - int (aAlign (foAlloca ob))) (List.map_filter frameObject allocas)"

definition inScope :: "frame_object \<Rightarrow> bool" where
  "inScope ob \<longleftrightarrow> aStarts (foAlloca ob) = []"

definition together :: "bool \<Rightarrow> (nat \<Rightarrow> nat \<Rightarrow> bool) \<Rightarrow> frame_object \<Rightarrow> frame_object \<Rightarrow> bool" where
  "together scoped overlaps a b \<longleftrightarrow>
     \<not> scoped \<or> inScope a \<or> inScope b \<or> overlaps (aId (foAlloca a)) (aId (foAlloca b))"

definition extentEnd :: "frame_object \<Rightarrow> nat" where
  "extentEnd ob = foOffset ob + paddedSize (foSize ob)"

subsection \<open>Placing the objects\<close>

text \<open>\<open>(x + align - 1) & ~(align - 1)\<close> for a power of two.\<close>

definition alignUp :: "nat \<Rightarrow> nat \<Rightarrow> nat" where
  "alignUp x align = (x + align - 1) div align * align"

fun clashPass ::
  "(frame_object \<Rightarrow> bool) \<Rightarrow> nat \<Rightarrow> nat \<Rightarrow> frame_object list \<Rightarrow> nat \<times> bool \<Rightarrow> nat \<times> bool" where
  "clashPass with' align extent [] (offset, clash) = (offset, clash)"
| "clashPass with' align extent (ob # obs) (offset, clash) =
     (if offset < extentEnd ob \<and> foOffset ob < offset + extent \<and> with' ob
      then clashPass with' align extent obs (alignUp (extentEnd ob) align, True)
      else clashPass with' align extent obs (offset, clash))"

lemma alignUp_ge: "0 < align \<Longrightarrow> x \<le> alignUp x align"
proof -
  assume a: "0 < align"
  have "x + align - 1 = align * ((x + align - 1) div align) + (x + align - 1) mod align" by simp
  moreover have "(x + align - 1) mod align < align" using a by simp
  ultimately have "x + align - 1 < align * ((x + align - 1) div align) + align" by linarith
  then show ?thesis using a by (simp add: alignUp_def mult.commute)
qed

lemma clashPass_moves:
  assumes "0 < align"
  shows "clashPass with' align extent obs (offset, clash) = (offset', clash') \<Longrightarrow>
    offset \<le> offset' \<and> (clash \<longrightarrow> clash') \<and>
    (\<not> clash \<longrightarrow> clash' \<longrightarrow> offset < offset') \<and>
    (offset' = offset \<or> (\<exists>ob \<in> set obs. offset' = alignUp (extentEnd ob) align))"
proof (induction obs arbitrary: offset clash)
  case (Cons ob obs)
  show ?case
  proof (cases "offset < extentEnd ob \<and> foOffset ob < offset + extent \<and> with' ob")
    case True
    have "extentEnd ob \<le> alignUp (extentEnd ob) align" by (rule alignUp_ge [OF assms])
    moreover have "clashPass with' align extent obs (alignUp (extentEnd ob) align, True) = (offset', clash')"
      using Cons.prems True by simp
    note Cons.IH [OF this]
    ultimately show ?thesis using True by auto
  next
    case False
    then have "clashPass with' align extent obs (offset, clash) = (offset', clash')" using Cons.prems by auto
    from Cons.IH [OF this] show ?thesis by auto
  qed
qed simp

function clashLoop :: "(frame_object \<Rightarrow> bool) \<Rightarrow> nat \<Rightarrow> nat \<Rightarrow> frame_object list \<Rightarrow> nat \<Rightarrow> nat" where
  "clashLoop with' al extent placed offset =
     (let r = clashPass with' (max FrameAlign al) extent placed (offset, False)
      in if snd r then clashLoop with' al extent placed (fst r) else fst r)"
  by pat_completeness auto
termination
proof (relation "measure (\<lambda>(with', al, extent, placed, offset).
    sum_list (map (\<lambda>ob. alignUp (extentEnd ob) (max FrameAlign al)) placed) - offset)", goal_cases)
  case (2 with' al extent placed offset r)
  obtain o' where r: "clashPass with' (max 32 al) extent placed (offset, False) = (o', True)"
    using 2 by (metis prod.collapse)
  have "offset < o'" "\<exists>ob \<in> set placed. o' = alignUp (extentEnd ob) (max 32 al)"
    using clashPass_moves [OF _ r] by (auto simp: less_max_iff_disj)
  moreover have "alignUp (extentEnd ob) (max 32 al) \<le> sum_list (map (\<lambda>ob. alignUp (extentEnd ob) (max 32 al)) placed)"
    if "ob \<in> set placed" for ob
    using that by (induction placed) auto
  ultimately show ?case using 2 r by fastforce
qed simp

declare clashLoop.simps [simp del]

fun place ::
  "bool \<Rightarrow> (nat \<Rightarrow> nat \<Rightarrow> bool) \<Rightarrow> frame_object list \<Rightarrow> frame_object list \<Rightarrow> frame_object list" where
  "place scoped overlaps placed [] = placed"
| "place scoped overlaps placed (ob # obs) =
     (let al = aAlign (foAlloca ob);
          offset = clashLoop (\<lambda>other. together scoped overlaps other ob) al (paddedSize (foSize ob)) placed
                     (alignUp LeftZone (max FrameAlign al))
      in place scoped overlaps (placed @ [ob\<lparr>foOffset := offset\<rparr>]) obs)"

definition frameSizeOf :: "frame_object list \<Rightarrow> nat" where
  "frameSizeOf objects = fold (\<lambda>ob sz. max sz (extentEnd ob)) objects LeftZone"

fun colorObjects :: "u64 \<Rightarrow> frame_object list \<Rightarrow> frame_object list" where
  "colorObjects nxt [] = []"
| "colorObjects nxt (ob # obs) = ob\<lparr>foColor := colorAt nxt\<rparr> # colorObjects (nxt + 1) obs"

definition layoutObjects :: "u64 \<Rightarrow> (nat \<Rightarrow> nat \<Rightarrow> bool) \<Rightarrow> frame_object list \<Rightarrow> bool \<times> frame_object list" where
  "layoutObjects hash overlaps objects =
     (let apart = colorObjects hash (place False overlaps [] objects);
          scoped = (frameSizeOf apart > ShareAbove \<and> (\<exists>ob \<in> set apart. \<not> inScope ob))
      in (scoped, if scoped then place True overlaps [] apart else apart))"

subsection \<open>The shadow of the frame\<close>

definition objectsEnd :: "frame_object list \<Rightarrow> nat" where
  "objectsEnd objects = fold (\<lambda>ob end'. max end' (foOffset ob + foSize ob)) objects 0"

definition cutsOf :: "frame_object list \<Rightarrow> nat \<Rightarrow> nat list" where
  "cutsOf objects frameSize =
     remdups_adj (sort ([0, LeftZone div 16, granules (objectsEnd objects), frameSize div 16] @
       concat (map (\<lambda>ob. [foOffset ob div 16, foOffset ob div 16 + foSize ob div 16,
                           foOffset ob div 16 + granules (foSize ob)]) objects)))"

definition ownByte :: "frame_object \<Rightarrow> nat \<Rightarrow> byte" where
  "ownByte ob g = (if g - foOffset ob div 16 < foSize ob div 16 then foColor ob
                   else partialOf (foColor ob) (foSize ob mod 16))"

definition covers :: "frame_object \<Rightarrow> nat \<Rightarrow> bool" where
  "covers ob g \<longleftrightarrow> foOffset ob div 16 \<le> g \<and> g < foOffset ob div 16 + granules (foSize ob)"

definition overlay :: "nat \<Rightarrow> frame_object \<Rightarrow> byte \<Rightarrow> byte" where
  "overlay g ob v =
     (if \<not> covers ob g then v
      else if inScope ob then ownByte ob g
      else if v = WeavecRtShadowStackMid then WeavecRtShadowStackScope else v)"

definition entryByte :: "frame_object list \<Rightarrow> nat \<Rightarrow> byte" where
  "entryByte objects g =
     (if g \<ge> granules (objectsEnd objects) then WeavecRtShadowStackRight
      else fold (overlay g) objects
             (if g < LeftZone div 16 then WeavecRtShadowStackLeft else WeavecRtShadowStackMid))"

fun entryLoop :: "frame_object list \<Rightarrow> nat \<Rightarrow> nat list \<Rightarrow> shadow_run list \<Rightarrow> shadow_run list" where
  "entryLoop objects frameSize (c # c' # cuts) entry =
     (if c < frameSize div 16
      then entryLoop objects frameSize (c' # cuts)
             (appendRun entry (min c' (frameSize div 16) - c) (entryByte objects c))
      else entry)"
| "entryLoop objects frameSize _ entry = entry"

definition entryRuns :: "frame_object list \<Rightarrow> nat \<Rightarrow> shadow_run list" where
  "entryRuns objects frameSize = entryLoop objects frameSize (cutsOf objects frameSize) []"

definition sharesRedzone :: "frame_object list \<Rightarrow> frame_object \<Rightarrow> bool" where
  "sharesRedzone objects ob \<longleftrightarrow>
     (\<exists>other \<in> set objects. other \<noteq> ob \<and> foOffset other < extentEnd ob \<and>
        foOffset ob + foSize ob < foOffset other + foSize other)"

definition liveRuns :: "frame_object list \<Rightarrow> frame_object \<Rightarrow> shadow_run list" where
  "liveRuns objects ob =
     (let live = objectRuns (foSize ob) (foColor ob) []
      in if sharesRedzone objects ob
         then appendRun live (paddedSize (foSize ob) div 16 - granules (foSize ob)) WeavecRtShadowStackMid
         else live)"

definition deadRuns :: "frame_object \<Rightarrow> shadow_run list" where
  "deadRuns ob = appendRun [] (granules (foSize ob)) WeavecRtShadowStackScope"

definition clearRuns :: "nat \<Rightarrow> shadow_run list" where
  "clearRuns frameSize = appendRun [] (frameSize div 16) WeavecRtShadowReturned"

text \<open>What \<open>layoutStatic\<close> decides: the frame's size and alignment, the objects, and the runs.\<close>

record frame =
  fSize :: nat
  fAlignment :: nat
  fObjects :: "frame_object list"
  fEntry :: "shadow_run list"

definition layoutStatic :: "u64 \<Rightarrow> (nat \<Rightarrow> nat \<Rightarrow> bool) \<Rightarrow> alloca list \<Rightarrow> frame option" where
  "layoutStatic hash overlaps allocas =
     (let objects = frameObjects allocas
      in if objects = [] then None
         else
           let objs = snd (layoutObjects hash overlaps objects); sz = frameSizeOf objs
           in Some \<lparr>fSize = sz,
                    fAlignment = fold (\<lambda>ob a. max a (aAlign (foAlloca ob))) objects FrameAlign,
                    fObjects = objs, fEntry = entryRuns objs sz\<rparr>)"

text \<open>\<open>layoutFrame\<close>: the static allocas of the entry block, and the others.\<close>

definition layoutFrame ::
  "bool \<Rightarrow> u64 \<Rightarrow> (nat \<Rightarrow> nat \<Rightarrow> bool) \<Rightarrow> alloca list \<Rightarrow> frame option \<times> alloca list" where
  "layoutFrame canLayOut hash overlaps tracked =
     (if tracked = [] \<or> \<not> canLayOut then (None, [])
      else
        (layoutStatic hash overlaps (filter (\<lambda>al. aStatic al \<and> aInEntry al) tracked),
         filter (\<lambda>al. \<not> (aStatic al \<and> aInEntry al)) tracked))"

text \<open>The padded size \<open>layoutDynamic\<close> gives a dynamic alloca of \<open>bytes\<close>.\<close>

definition dynamicPadded :: "u64 \<Rightarrow> u64" where
  "dynamicPadded bytes = ((bytes + (32 - 1)) AND NOT (32 - 1)) + 32"

subsection \<open>Lemmas: the layout\<close>

lemma paddedSize_facts:
  "32 dvd paddedSize sz" "sz + 32 \<le> paddedSize sz" "paddedSize sz \<le> sz + 4127"
proof -
  define zone where "zone = max 32 (min (sz div 8) 4096)"
  have z: "32 \<le> zone" "zone \<le> 4096" by (auto simp: zone_def)
  have p: "paddedSize sz = (sz + zone + 31) div 32 * 32" by (simp add: paddedSize_def zone_def Let_def)
  show "32 dvd paddedSize sz" by (simp add: p)
  have "(sz + zone + 31) div 32 * 32 + (sz + zone + 31) mod 32 = sz + zone + 31" by simp
  moreover have "(sz + zone + 31) mod 32 < 32" by simp
  ultimately show "sz + 32 \<le> paddedSize sz" "paddedSize sz \<le> sz + 4127" using z p by linarith+
qed

lemma granules_padded: "granules sz < paddedSize sz div 16"
  using paddedSize_facts [of sz] by (auto simp: granules_def)

lemma alignUp_dvd: "align dvd alignUp x align"
  by (simp add: alignUp_def)

definition disjointExtents :: "frame_object \<Rightarrow> frame_object \<Rightarrow> bool" where
  "disjointExtents a b \<longleftrightarrow> extentEnd a \<le> foOffset b \<or> extentEnd b \<le> foOffset a"

lemma clashPass_done:
  "clashPass with' align extent obs (offset, clash) = (offset', False) \<Longrightarrow>
    offset' = offset \<and> \<not> clash \<and>
    (\<forall>ob \<in> set obs. with' ob \<longrightarrow> extentEnd ob \<le> offset \<or> offset + extent \<le> foOffset ob)"
proof (induction obs arbitrary: offset clash)
  case (Cons ob obs)
  show ?case
  proof (cases "offset < extentEnd ob \<and> foOffset ob < offset + extent \<and> with' ob")
    case True
    then have "clashPass with' align extent obs (alignUp (extentEnd ob) align, True) = (offset', False)"
      using Cons.prems by simp
    from Cons.IH [OF this] show ?thesis by simp
  next
    case False
    then have "clashPass with' align extent obs (offset, clash) = (offset', False)"
      using Cons.prems by auto
    from Cons.IH [OF this] False show ?thesis by auto
  qed
qed simp

lemma clashLoop_spec:
  assumes "max FrameAlign al dvd offset" and "LeftZone \<le> offset"
  shows "max FrameAlign al dvd clashLoop with' al extent placed offset \<and>
    LeftZone \<le> clashLoop with' al extent placed offset \<and>
    (\<forall>ob \<in> set placed. with' ob \<longrightarrow> extentEnd ob \<le> clashLoop with' al extent placed offset \<or>
      clashLoop with' al extent placed offset + extent \<le> foOffset ob)"
  using assms
proof (induction with' al extent placed offset rule: clashLoop.induct)
  case (1 with' al extent placed offset)
  obtain o' c where r: "clashPass with' (max 32 al) extent placed (offset, False) = (o', c)"
    by (cases "clashPass with' (max 32 al) extent placed (offset, False)") auto
  have al: "0 < max 32 al" by simp
  note m = clashPass_moves [OF al r]
  have o': "max 32 al dvd o'" "64 \<le> o'"
    using m "1.prems" alignUp_dvd [of "max 32 al"] by auto
  show ?case
  proof (cases c)
    case True
    then have step: "clashLoop with' al extent placed offset = clashLoop with' al extent placed o'"
      using r by (subst clashLoop.simps) simp
    show ?thesis unfolding step using "1.IH" [OF refl] r True o' by auto
  next
    case False
    then have "clashLoop with' al extent placed offset = o'"
      using r by (subst clashLoop.simps) simp
    then show ?thesis using clashPass_done [of with' "max 32 al" extent placed offset False o'] r False o' by auto
  qed
qed

lemma together_alloca [simp]:
  "together scoped overlaps (a\<lparr>foOffset := x\<rparr>) b = together scoped overlaps a b"
  "together scoped overlaps a (b\<lparr>foOffset := x\<rparr>) = together scoped overlaps a b"
  "together scoped overlaps (a\<lparr>foColor := c\<rparr>) b = together scoped overlaps a b"
  "together scoped overlaps a (b\<lparr>foColor := c\<rparr>) = together scoped overlaps a b"
  by (simp_all add: together_def inScope_def)

definition placed_wf :: "bool \<Rightarrow> (nat \<Rightarrow> nat \<Rightarrow> bool) \<Rightarrow> frame_object list \<Rightarrow> bool" where
  "placed_wf scoped overlaps objects \<longleftrightarrow>
     (\<forall>ob \<in> set objects. LeftZone \<le> foOffset ob \<and> max FrameAlign (aAlign (foAlloca ob)) dvd foOffset ob) \<and>
     sorted_wrt (\<lambda>a b. together scoped overlaps a b \<longrightarrow> disjointExtents a b) objects"

lemma place_wf:
  "placed_wf scoped overlaps placed \<Longrightarrow> placed_wf scoped overlaps (place scoped overlaps placed obs)"
proof (induction obs arbitrary: placed)
  case (Cons ob obs)
  define al where "al = aAlign (foAlloca ob)"
  define r where "r = clashLoop (\<lambda>other. together scoped overlaps other ob) al (paddedSize (foSize ob)) placed
      (alignUp 64 (max 32 al))"
  have "64 \<le> alignUp 64 (max 32 al)" by (rule alignUp_ge) simp
  then have r: "max 32 al dvd r \<and> 64 \<le> r \<and> (\<forall>p \<in> set placed. together scoped overlaps p ob \<longrightarrow>
      extentEnd p \<le> r \<or> r + paddedSize (foSize ob) \<le> foOffset p)"
    unfolding r_def by (intro clashLoop_spec alignUp_dvd)
  have "placed_wf scoped overlaps (placed @ [ob\<lparr>foOffset := r\<rparr>])"
    using Cons.prems r by (auto simp: placed_wf_def sorted_wrt_append disjointExtents_def extentEnd_def al_def)
  then show ?case using Cons.IH by (simp add: r_def al_def Let_def)
qed simp

text \<open>Placing changes offsets only.\<close>

lemma place_objects:
  "map (\<lambda>ob. ob\<lparr>foOffset := 0\<rparr>) (place scoped overlaps placed obs) =
   map (\<lambda>ob. ob\<lparr>foOffset := 0\<rparr>) (placed @ obs)"
  by (induction obs arbitrary: placed) (simp_all add: Let_def)

lemma place_member:
  assumes "ob \<in> set (place scoped overlaps [] obs)"
  obtains ob' where "ob' \<in> set obs" "foAlloca ob = foAlloca ob'" "foSize ob = foSize ob'" "foColor ob = foColor ob'"
proof -
  have "ob\<lparr>foOffset := 0\<rparr> \<in> set (map (\<lambda>ob. ob\<lparr>foOffset := 0\<rparr>) obs)"
    using assms place_objects [of scoped overlaps "[]" obs] by (metis append_Nil image_eqI list.set_map)
  then obtain ob' where "ob' \<in> set obs" "ob\<lparr>foOffset := 0\<rparr> = ob'\<lparr>foOffset := 0\<rparr>" by auto
  then show ?thesis using that
    by (metis frame_object.select_convs(1,2,4) frame_object.surjective frame_object.update_convs(3))
qed

lemma colorObjects_members:
  "ob \<in> set (colorObjects nxt obs) \<Longrightarrow> \<exists>ob' n. ob' \<in> set obs \<and> ob = ob'\<lparr>foColor := colorAt n\<rparr>"
  by (induction nxt obs rule: colorObjects.induct) auto

lemma colorObjects_wf: "placed_wf scoped overlaps (colorObjects nxt obs) = placed_wf scoped overlaps obs"
proof -
  have "sorted_wrt (\<lambda>a b. together scoped overlaps a b \<longrightarrow> disjointExtents a b) (colorObjects nxt obs) \<longleftrightarrow>
      sorted_wrt (\<lambda>a b. together scoped overlaps a b \<longrightarrow> disjointExtents a b) obs"
  proof (induction nxt obs rule: colorObjects.induct)
    case (2 nxt ob obs)
    have "(\<forall>x \<in> set (colorObjects n obs). P x) \<longleftrightarrow> (\<forall>x \<in> set obs. P x)"
      if "\<And>x c. P (x\<lparr>foColor := c\<rparr>) = P x" for P n
      using that by (induction n obs rule: colorObjects.induct) auto
    then show ?case using 2 by (simp add: disjointExtents_def extentEnd_def)
  qed simp
  moreover have "(\<forall>ob \<in> set (colorObjects nxt obs). 64 \<le> foOffset ob \<and> max 32 (aAlign (foAlloca ob)) dvd foOffset ob) \<longleftrightarrow>
      (\<forall>ob \<in> set obs. 64 \<le> foOffset ob \<and> max 32 (aAlign (foAlloca ob)) dvd foOffset ob)"
    by (induction nxt obs rule: colorObjects.induct) auto
  ultimately show ?thesis by (simp add: placed_wf_def)
qed

lemma layoutObjects_wf:
  assumes "layoutObjects hash overlaps objects = (scoped, objs)"
  shows "placed_wf scoped overlaps objs"
proof -
  have "placed_wf b overlaps []" for b by (simp add: placed_wf_def)
  then show ?thesis
    using assms place_wf by (auto simp: layoutObjects_def Let_def colorObjects_wf split: if_splits)
qed

subsection \<open>Lemmas: the entry shadow\<close>

definition cutPoints :: "frame_object list \<Rightarrow> nat \<Rightarrow> nat list" where
  "cutPoints objects frameSize =
     [0, LeftZone div 16, granules (objectsEnd objects), frameSize div 16] @
       concat (map (\<lambda>ob. [foOffset ob div 16, foOffset ob div 16 + foSize ob div 16,
                           foOffset ob div 16 + granules (foSize ob)]) objects)"

lemma cutsOf_points: "cutsOf objects frameSize = remdups_adj (sort (cutPoints objects frameSize))"
  by (simp add: cutsOf_def cutPoints_def)

lemma strict_remdups_adj: "sorted xs \<Longrightarrow> sorted_wrt (<) (remdups_adj xs)" for xs :: "nat list"
  by (induction xs rule: remdups_adj.induct) auto

lemma cutsOf_sorted: "sorted_wrt (<) (cutsOf objects frameSize)"
  unfolding cutsOf_points by (rule strict_remdups_adj) simp

text \<open>No cut between two granules: they have the same byte.\<close>

lemma entryByte_same:
  assumes "\<And>x. x \<in> set (cutPoints objects frameSize) \<Longrightarrow> g < x \<longleftrightarrow> c < x"
  shows "entryByte objects g = entryByte objects c"
proof -
  have "overlay g ob = overlay c ob" if ob: "ob \<in> set objects" for ob
  proof -
    have x: "g < foOffset ob div 16 \<longleftrightarrow> c < foOffset ob div 16"
      "g < foOffset ob div 16 + foSize ob div 16 \<longleftrightarrow> c < foOffset ob div 16 + foSize ob div 16"
      "g < foOffset ob div 16 + granules (foSize ob) \<longleftrightarrow> c < foOffset ob div 16 + granules (foSize ob)"
      using ob by (auto intro!: assms simp: cutPoints_def)
    then have cov: "covers ob g = covers ob c" by (auto simp: covers_def)
    have "ownByte ob g = ownByte ob c" if "covers ob g"
    proof -
      have sub: "k - f < n \<longleftrightarrow> k < f + n" if "f \<le> k" for k f n :: nat using that by auto
      show ?thesis using that cov x(2) by (simp add: ownByte_def covers_def sub)
    qed
    then show ?thesis using cov by (auto simp: overlay_def)
  qed
  then have "fold (overlay g) objects v = fold (overlay c) objects v" for v
    by (intro fold_cong) auto
  moreover have "g < 4 \<longleftrightarrow> c < 4" "g < granules (objectsEnd objects) \<longleftrightarrow> c < granules (objectsEnd objects)"
    using assms by (auto simp: cutPoints_def)
  ultimately show ?thesis by (simp add: entryByte_def not_less [symmetric] del: not_less)
qed

lemma entryLoop_expand:
  assumes "sorted_wrt (<) (c # cuts)"
    and "\<And>x. x \<in> set (cutPoints objects frameSize) \<Longrightarrow> x \<le> c \<or> x \<in> set cuts"
  shows "expandRuns (entryLoop objects frameSize (c # cuts) entry) =
    expandRuns entry @ map (entryByte objects) [c..<frameSize div 16]"
  using assms
proof (induction cuts arbitrary: c entry)
  case Nil
  then have "frameSize div 16 \<le> c" by (auto simp: cutPoints_def)
  then show ?case by simp
next
  case (Cons c' cuts)
  show ?case
  proof (cases "c < frameSize div 16")
    case False
    then show ?thesis by simp
  next
    case True
    have cc: "c < c'" using Cons.prems(1) by simp
    have "frameSize div 16 \<in> set (c' # cuts)"
      using Cons.prems(2) [of "frameSize div 16"] True by (auto simp: cutPoints_def)
    then have c'N: "c' \<le> frameSize div 16" using Cons.prems(1) by auto
    have same: "entryByte objects g = entryByte objects c" if "c \<le> g" "g < c'" for g
    proof (rule entryByte_same)
      fix x assume "x \<in> set (cutPoints objects frameSize)"
      from Cons.prems(2) [OF this] have "x \<le> c \<or> c' \<le> x"
        using Cons.prems(1) by (auto simp: less_imp_le)
      then show "g < x \<longleftrightarrow> c < x" using that by auto
    qed
    have run: "replicate (c' - c) (entryByte objects c) = map (entryByte objects) [c..<c']"
    proof -
      have "map (entryByte objects) [c..<c'] = map (\<lambda>_. entryByte objects c) [c..<c']"
        by (rule map_cong [OF refl]) (rule same, simp_all)
      then show ?thesis by (simp add: map_replicate_const)
    qed
    have "expandRuns (entryLoop objects frameSize (c' # cuts)
        (appendRun entry (c' - c) (entryByte objects c))) =
      (expandRuns entry @ map (entryByte objects) [c..<c']) @ map (entryByte objects) [c'..<frameSize div 16]"
    proof (subst Cons.IH)
      show "sorted_wrt (<) (c' # cuts)" using Cons.prems(1) by simp
      show "x \<le> c' \<or> x \<in> set cuts" if "x \<in> set (cutPoints objects frameSize)" for x
        using Cons.prems(2) [OF that] cc by auto
    qed (simp add: expandRuns_appendRun run)
    moreover have "[c..<frameSize div 16] = [c..<c'] @ [c'..<frameSize div 16]"
      using cc c'N by (metis le_add_diff_inverse less_imp_le upt_add_eq_append)
    ultimately show ?thesis using True c'N by (simp add: min_def)
  qed
qed

lemma entryRuns_expand:
  "expandRuns (entryRuns objects frameSize) = map (entryByte objects) [0..<frameSize div 16]"
proof -
  have set: "set (cutsOf objects frameSize) = set (cutPoints objects frameSize)"
    by (simp add: cutsOf_points)
  have "0 \<in> set (cutsOf objects frameSize)" by (simp add: set cutPoints_def)
  then obtain c cuts where cs: "cutsOf objects frameSize = c # cuts" by (cases "cutsOf objects frameSize") auto
  have sorted: "sorted_wrt (<) (c # cuts)" using cutsOf_sorted [of objects frameSize] cs by simp
  have "c = 0" using \<open>0 \<in> set (cutsOf objects frameSize)\<close> sorted cs by auto
  have "x \<le> c \<or> x \<in> set cuts" if "x \<in> set (cutPoints objects frameSize)" for x
    using that set cs by auto
  from entryLoop_expand [OF sorted this] show ?thesis
    by (simp add: entryRuns_def cs \<open>c = 0\<close>)
qed

subsection \<open>Lemmas: the objects' bytes\<close>

lemma partialOf_runtime: "partialOf = weavecRtShadowPartialOf"
  by (intro ext) (simp add: partialOf_def weavecRtShadowPartialOf_def)

lemma granules_split: "granules sz = sz div 16 + (if sz mod 16 \<noteq> 0 then 1 else 0)"
proof -
  have sz: "sz = 16 * (sz div 16) + sz mod 16" "sz mod 16 < 16" by simp_all
  show ?thesis
  proof (cases "sz mod 16 = 0")
    case False
    then have "sz div 16 < granules sz" using div16_up [of sz] by (simp add: granules_def)
    moreover have "granules sz \<le> sz div 16 + 1"
      using sz by (simp add: granules_def)
    ultimately show ?thesis using False by simp
  qed (use sz in \<open>auto simp: granules_def\<close>)
qed

lemma objectRuns_expand:
  "expandRuns (objectRuns sz color []) =
   replicate (sz div 16) color @ (if sz mod 16 \<noteq> 0 then [partialOf color (sz mod 16)] else [])"
  by (simp add: objectRuns_def Let_def expandRuns_appendRun)

lemma objectRuns_length: "length (expandRuns (objectRuns sz color [])) = granules sz"
  unfolding objectRuns_expand granules_split by simp

lemma objectRuns_own:
  assumes "foOffset ob div 16 \<le> g" "g < foOffset ob div 16 + granules (foSize ob)"
  shows "expandRuns (objectRuns (foSize ob) (foColor ob) []) ! (g - foOffset ob div 16) = ownByte ob g"
  unfolding objectRuns_expand ownByte_def
  using assms granules_split [of "foSize ob"] by (auto simp: nth_append)

lemma own_byte_ok:
  assumes color: "unat (foColor ob) < 128" "unat (foColor ob) mod 8 < 7"
    and k: "k < 16 * granules (foSize ob)"
  shows "byte_ok (ownByte ob (foOffset ob div 16 + k div 16)) (k mod 16) \<longleftrightarrow> k < foSize ob"
proof (cases "k div 16 < foSize ob div 16")
  case True
  then have "k < foSize ob" by (metis div_le_mono not_less)
  then show ?thesis using True color by (simp add: ownByte_def byte_ok_full full_iff)
next
  case False
  have "k div 16 < granules (foSize ob)" using k by (simp add: less_mult_imp_div_less mult.commute)
  with False have m: "foSize ob mod 16 \<noteq> 0" "k div 16 = foSize ob div 16"
    using granules_split [of "foSize ob"] by (auto split: if_splits)
  then have "k < foSize ob \<longleftrightarrow> k mod 16 < foSize ob mod 16"
    by (metis add_less_cancel_left mult_div_mod_eq)
  then show ?thesis
    using False m byte_ok_partialOf [OF _ color(2), of "foSize ob mod 16" "k mod 16"]
    by (simp add: ownByte_def partialOf_runtime)
qed

subsection \<open>The frame while the function runs\<close>

text \<open>The shadow byte of granule \<open>g\<close> of a frame at \<open>fp\<close>.\<close>

definition frameByte :: "shadow_t \<Rightarrow> u64 \<Rightarrow> nat \<Rightarrow> byte" where
  "frameByte s fp g = shadowByte s (fp + word_of_nat (16 * g))"

definition frame_at :: "rt_env \<Rightarrow> shadow_os \<Rightarrow> shadow_t \<Rightarrow> u64 \<Rightarrow> nat \<Rightarrow> bool" where
  "frame_at e os s fp frameSize \<longleftrightarrow> shadow_wf s \<and> shadow_room (osBase os) (osPage os) \<and>
     16 dvd unat fp \<and> unat fp + frameSize \<le> 2 ^ shBits s \<and>
     stackBottom e \<le> fp \<and> unat fp + frameSize \<le> unat (stackTop e)"

lemma frame_unat:
  assumes "frame_at e os s fp n" "k < n"
  shows "unat (fp + word_of_nat k) = unat fp + k"
proof -
  have "(2 :: nat) ^ shBits s \<le> 2 ^ 63" using assms shadow_window_bound by (auto simp: frame_at_def)
  then show ?thesis using assms by (subst unat_add_no_wrap) (auto simp: frame_at_def unat_of_nat_small)
qed

lemma frame_addressable:
  assumes "frame_at e os s fp n" "k < n"
  shows "addressable s (fp + word_of_nat k) \<longleftrightarrow> byte_ok (frameByte s fp (k div 16)) (k mod 16)"
proof -
  have wf: "shadow_wf s" and al: "16 dvd unat fp" and win: "unat fp + n \<le> 2 ^ shBits s"
    using assms(1) by (auto simp: frame_at_def)
  have low: "16 * (k div 16) \<le> k" by simp
  have "frameByte s fp (k div 16) = shMem s (weavecRtShadowOf s fp + word_of_nat ((16 * (k div 16)) div 16))"
    unfolding frameByte_def using shadowOf_add [OF wf, of fp "16 * (k div 16)"] low assms(2) win al by simp
  then show ?thesis
    using addressable_add [OF wf, of fp k] assms(2) win al by simp
qed

text \<open>Runs written at an offset of the frame.\<close>

lemma write_frame:
  assumes at: "frame_at e os s fp n" and off: "16 dvd off" "off div 16 + length (expandRuns runs) \<le> n div 16"
  shows "g < n div 16 \<Longrightarrow> frameByte (writeShadow little e os s (fp + word_of_nat off) runs) fp g =
    (if off div 16 \<le> g \<and> g < off div 16 + length (expandRuns runs)
     then expandRuns runs ! (g - off div 16) else frameByte s fp g)"
    and "frame_at e os (writeShadow little e os s (fp + word_of_nat off) runs) fp n"
proof -
  have wf: "shadow_wf s" and al: "16 dvd unat fp" and win: "unat fp + n \<le> 2 ^ shBits s"
    and st: "stackBottom e \<le> fp" "unat fp + n \<le> unat (stackTop e)"
    using at by (auto simp: frame_at_def)
  obtain q where q: "unat fp = 16 * q" using al by blast
  obtain o' where o': "off = 16 * o'" using off(1) by blast
  have n: "16 * (n div 16) \<le> n" by simp
  define len where "len = length (expandRuns runs)"
  have le: "o' + len \<le> n div 16" using off(2) o' by (simp add: len_def)
  have b: "(2 :: nat) ^ shBits s \<le> 2 ^ 63" by (rule shadow_window_bound [OF wf])
  have on: "off \<le> n" using le n o' by linarith
  have u: "unat (fp + word_of_nat off) = unat fp + off"
    using on win b by (subst unat_add_no_wrap) (auto simp: unat_of_nat_small)
  have w: "writeShadow little e os s (fp + word_of_nat off) runs =
      s\<lparr>shMem := putBytes (shMem s) (weavecRtShadowOf s (fp + word_of_nat off)) (expandRuns runs)\<rparr>"
    by (rule writeShadow_mem [OF wf])
      (use at u q o' le n win st in \<open>auto simp: frame_at_def len_def word_le_nat_alt\<close>)
  show "frame_at e os (writeShadow little e os s (fp + word_of_nat off) runs) fp n"
    using at unfolding w by (simp add: frame_at_def)
  assume g: "g < n div 16"
  have gu: "unat (fp + word_of_nat (16 * g)) = unat fp + 16 * g"
    using frame_unat [OF at, of "16 * g"] g n by simp
  have d: "unat (fp + word_of_nat off) div 16 = q + off div 16" "unat (fp + word_of_nat (16 * g)) div 16 = q + g"
    unfolding u gu q by simp_all
  have "frameByte (writeShadow little e os s (fp + word_of_nat off) runs) fp g =
      putBytes (shMem s) (weavecRtShadowOf s (fp + word_of_nat off)) (expandRuns runs)
        (weavecRtShadowOf s (fp + word_of_nat (16 * g)))"
    unfolding w frameByte_def by (simp del: of_nat_mult)
  also have "\<dots> = (if unat (fp + word_of_nat off) div 16 \<le> unat (fp + word_of_nat (16 * g)) div 16 \<and>
      unat (fp + word_of_nat (16 * g)) div 16 < unat (fp + word_of_nat off) div 16 + length (expandRuns runs)
     then expandRuns runs ! (unat (fp + word_of_nat (16 * g)) div 16 - unat (fp + word_of_nat off) div 16)
     else shadowByte s (fp + word_of_nat (16 * g)))"
    by (rule putBytes_shadowOf [OF wf])
      (use u q o' le n win g gu in \<open>auto simp: len_def [symmetric]\<close>)
  finally show "frameByte (writeShadow little e os s (fp + word_of_nat off) runs) fp g =
    (if off div 16 \<le> g \<and> g < off div 16 + length (expandRuns runs)
     then expandRuns runs ! (g - off div 16) else frameByte s fp g)"
    unfolding d frameByte_def by (simp del: of_nat_mult)
qed

text \<open>
  The running frame is a state machine: its state is the set of objects in scope and the
  shadow. A scope's start or end writes the object's shadow. A marker only runs while the
  objects in scope are ones that the layout keeps apart from its object: what
  \<open>StackLifetime\<close> gives, since a marker lies in the live range of its object.
\<close>

definition keptApart :: "bool \<Rightarrow> (nat \<Rightarrow> nat \<Rightarrow> bool) \<Rightarrow> frame_object set \<Rightarrow> frame_object \<Rightarrow> bool" where
  "keptApart scoped overlaps live ob \<longleftrightarrow>
     (\<forall>l \<in> live. l = ob \<or> together scoped overlaps l ob \<and> together scoped overlaps ob l)"

inductive frame_step ::
  "bool \<Rightarrow> rt_env \<Rightarrow> shadow_os \<Rightarrow> u64 \<Rightarrow> bool \<Rightarrow> (nat \<Rightarrow> nat \<Rightarrow> bool) \<Rightarrow> frame_object list \<Rightarrow>
   frame_object set \<times> shadow_t \<Rightarrow> frame_object set \<times> shadow_t \<Rightarrow> bool"
  for little e os fp scoped overlaps objects where
  scope_start: "ob \<in> set objects \<Longrightarrow> \<not> inScope ob \<Longrightarrow> keptApart scoped overlaps live ob \<Longrightarrow>
    frame_step little e os fp scoped overlaps objects (live, s)
      (insert ob live, writeShadow little e os s (fp + word_of_nat (foOffset ob)) (liveRuns objects ob))"
| scope_end: "ob \<in> set objects \<Longrightarrow> \<not> inScope ob \<Longrightarrow> keptApart scoped overlaps live ob \<Longrightarrow>
    frame_step little e os fp scoped overlaps objects (live, s)
      (live - {ob}, writeShadow little e os s (fp + word_of_nat (foOffset ob)) (deadRuns ob))"

text \<open>An object in scope: its granules hold its own bytes, its redzone poison.\<close>

definition exactObject :: "shadow_t \<Rightarrow> u64 \<Rightarrow> frame_object \<Rightarrow> bool" where
  "exactObject s fp ob \<longleftrightarrow>
     (\<forall>g. foOffset ob div 16 \<le> g \<longrightarrow> g < extentEnd ob div 16 \<longrightarrow>
        (if covers ob g then frameByte s fp g = ownByte ob g else weavecRtShadowPoison (frameByte s fp g)))"

definition frame_inv ::
  "rt_env \<Rightarrow> shadow_os \<Rightarrow> u64 \<Rightarrow> nat \<Rightarrow> frame_object list \<Rightarrow> frame_object set \<times> shadow_t \<Rightarrow> bool" where
  "frame_inv e os fp n objects st \<longleftrightarrow>
     frame_at e os (snd st) fp n \<and> fst st \<subseteq> set objects \<and> (\<forall>ob \<in> fst st. exactObject (snd st) fp ob) \<and>
     (\<forall>g < n div 16. (\<forall>ob \<in> set objects. \<not> covers ob g) \<longrightarrow> weavecRtShadowPoison (frameByte (snd st) fp g))"

lemma liveRuns_expand:
  "expandRuns (liveRuns objects ob) = expandRuns (objectRuns (foSize ob) (foColor ob) []) @
     (if sharesRedzone objects ob
      then replicate (paddedSize (foSize ob) div 16 - granules (foSize ob)) WeavecRtShadowStackMid else [])"
  by (simp add: liveRuns_def Let_def expandRuns_appendRun)

lemma deadRuns_expand: "expandRuns (deadRuns ob) = replicate (granules (foSize ob)) WeavecRtShadowStackScope"
  by (simp add: deadRuns_def expandRuns_appendRun)

lemma liveRuns_redzone:
  "granules (foSize ob) \<le> i \<Longrightarrow> i < length (expandRuns (liveRuns objects ob)) \<Longrightarrow>
   weavecRtShadowPoison (expandRuns (liveRuns objects ob) ! i)"
  by (auto simp: liveRuns_expand nth_append objectRuns_length weavecRtShadowPoison_def split: if_splits)

lemma runs_within:
  "length (expandRuns (liveRuns objects ob)) \<le> paddedSize (foSize ob) div 16"
  "length (expandRuns (deadRuns ob)) \<le> paddedSize (foSize ob) div 16"
  using granules_padded [of "foSize ob"] by (simp_all add: liveRuns_expand deadRuns_expand objectRuns_length)

lemma extent_div:
  assumes "32 dvd foOffset ob"
  shows "extentEnd ob div 16 = foOffset ob div 16 + paddedSize (foSize ob) div 16" "16 dvd foOffset ob"
proof -
  have "(16 :: nat) dvd 32" by simp
  then show "16 dvd foOffset ob" using assms by (rule dvd_trans)
  then show "extentEnd ob div 16 = foOffset ob div 16 + paddedSize (foSize ob) div 16"
    unfolding extentEnd_def by (intro div_plus_div_distrib_dvd_left)
qed

text \<open>A granule of one extent is in no extent kept apart from it.\<close>

lemma disjoint_granules:
  assumes "disjointExtents a b \<or> disjointExtents b a" "32 dvd foOffset a" "32 dvd foOffset b"
    and "foOffset a div 16 \<le> g" "g < extentEnd a div 16"
  shows "g < foOffset b div 16 \<or> extentEnd b div 16 \<le> g"
  using assms div_le_mono [of "extentEnd a" "foOffset b" 16] div_le_mono [of "extentEnd b" "foOffset a" 16]
  by (auto simp: disjointExtents_def)

definition objects_wf :: "bool \<Rightarrow> (nat \<Rightarrow> nat \<Rightarrow> bool) \<Rightarrow> nat \<Rightarrow> frame_object list \<Rightarrow> bool" where
  "objects_wf scoped overlaps n objects \<longleftrightarrow>
     (\<forall>ob \<in> set objects. 32 dvd foOffset ob \<and> LeftZone \<le> foOffset ob \<and> extentEnd ob \<le> n \<and>
        unat (foColor ob) < 128 \<and> unat (foColor ob) mod 8 < 7) \<and>
     (\<forall>a \<in> set objects. \<forall>b \<in> set objects. a \<noteq> b \<longrightarrow>
        together scoped overlaps a b \<and> together scoped overlaps b a \<longrightarrow> disjointExtents a b \<or> disjointExtents b a)"

lemma covers_bytes:
  assumes "covers ob g" "16 dvd foOffset ob"
  shows "foOffset ob \<le> 16 * g" "16 * g < foOffset ob + foSize ob"
proof -
  obtain q where q: "foOffset ob = 16 * q" using assms(2) by blast
  have "q \<le> g" "g < q + granules (foSize ob)" using assms(1) q by (auto simp: covers_def)
  then show "foOffset ob \<le> 16 * g" "16 * g < foOffset ob + foSize ob"
    using q by (auto simp: granules_def)
qed

lemma covers_extent:
  assumes "covers ob g" "32 dvd foOffset ob"
  shows "foOffset ob div 16 \<le> g" "g < extentEnd ob div 16"
  using assms granules_padded [of "foSize ob"] by (auto simp: covers_def extent_div)

lemma redzone_uncovered:
  assumes wf: "objects_wf scoped overlaps n objects" and ob: "ob \<in> set objects"
    and g: "\<not> covers ob g" "foOffset ob div 16 \<le> g" "g < extentEnd ob div 16"
    and free: "\<not> sharesRedzone objects ob" and other: "other \<in> set objects"
  shows "\<not> covers other g"
proof
  assume c: "covers other g"
  have al: "16 dvd foOffset ob" "16 dvd foOffset other" "32 dvd foOffset ob"
    using wf ob other extent_div(2) by (auto simp: objects_wf_def)
  have "other \<noteq> ob" using c g(1) by auto
  moreover have "foOffset other < extentEnd ob"
    using covers_bytes(1) [OF c al(2)] g(3) by simp
  moreover have "foOffset ob + foSize ob < foOffset other + foSize other"
  proof -
    obtain q where q: "foOffset ob = 16 * q" using al(1) by blast
    have "q + granules (foSize ob) \<le> g" using g(1,2) q by (auto simp: covers_def)
    then have "foOffset ob + foSize ob \<le> 16 * g" using q by (auto simp: granules_def)
    then show ?thesis using covers_bytes(2) [OF c al(2)] by linarith
  qed
  ultimately show False using free other by (auto simp: sharesRedzone_def)
qed

text \<open>A write inside one extent leaves the objects kept apart from it exact.\<close>

lemma exact_elsewhere:
  assumes wf: "objects_wf scoped overlaps n objects" and at: "frame_at e os s fp n"
    and ob: "ob \<in> set objects" and l: "l \<in> set objects" "exactObject s fp l" "l \<noteq> ob"
    and tog: "together scoped overlaps l ob" "together scoped overlaps ob l"
    and len: "length (expandRuns runs) \<le> paddedSize (foSize ob) div 16"
  shows "exactObject (writeShadow little e os s (fp + word_of_nat (foOffset ob)) runs) fp l"
proof -
  have al: "32 dvd foOffset ob" "32 dvd foOffset l" "extentEnd ob \<le> n" "extentEnd l \<le> n"
    using wf ob l by (auto simp: objects_wf_def)
  have dis: "disjointExtents l ob \<or> disjointExtents ob l"
    using wf ob l tog by (auto simp: objects_wf_def)
  have le: "foOffset ob div 16 + length (expandRuns runs) \<le> n div 16"
    using len al(3) extent_div(1) [OF al(1)] div_le_mono [OF al(3), of 16] by simp
  show ?thesis
    unfolding exactObject_def
  proof (intro allI impI)
    fix g assume g: "foOffset l div 16 \<le> g" "g < extentEnd l div 16"
    have "g < foOffset ob div 16 \<or> extentEnd ob div 16 \<le> g"
      by (rule disjoint_granules [OF dis al(2,1) g])
    moreover have "g < n div 16" using g(2) div_le_mono [OF al(4), of 16] by simp
    ultimately have "frameByte (writeShadow little e os s (fp + word_of_nat (foOffset ob)) runs) fp g = frameByte s fp g"
      using write_frame(1) [OF at extent_div(2) [OF al(1)] le] len extent_div(1) [OF al(1)] by auto
    then show "if covers l g
        then frameByte (writeShadow little e os s (fp + word_of_nat (foOffset ob)) runs) fp g = ownByte l g
        else weavecRtShadowPoison (frameByte (writeShadow little e os s (fp + word_of_nat (foOffset ob)) runs) fp g)"
      using l(2) g by (simp add: exactObject_def)
  qed
qed

lemma frame_step_inv:
  assumes wf: "objects_wf scoped overlaps n objects"
    and step: "frame_step little e os fp scoped overlaps objects st st'"
    and inv: "frame_inv e os fp n objects st"
  shows "frame_inv e os fp n objects st'"
  using step inv
proof (induction rule: frame_step.induct)
  case (scope_start ob live s)
  let ?s = "writeShadow little e os s (fp + word_of_nat (foOffset ob)) (liveRuns objects ob)"
  have at: "frame_at e os s fp n" and sub: "live \<subseteq> set objects" and ex: "\<forall>l \<in> live. exactObject s fp l"
    and out: "\<forall>g < n div 16. (\<forall>ob \<in> set objects. \<not> covers ob g) \<longrightarrow> weavecRtShadowPoison (frameByte s fp g)"
    using scope_start.prems by (auto simp: frame_inv_def)
  have al: "32 dvd foOffset ob" "extentEnd ob \<le> n" using wf scope_start.hyps(1) by (auto simp: objects_wf_def)
  have ed: "extentEnd ob div 16 \<le> n div 16" using al(2) by (rule div_le_mono)
  have le: "foOffset ob div 16 + length (expandRuns (liveRuns objects ob)) \<le> n div 16"
    using runs_within(1) [of objects ob] ed extent_div(1) [OF al(1)] by simp
  note w = write_frame [OF at extent_div(2) [OF al(1)] le]
  have own: "exactObject ?s fp ob"
    unfolding exactObject_def
  proof (intro allI impI)
    fix g assume g: "foOffset ob div 16 \<le> g" "g < extentEnd ob div 16"
    then have gn: "g < n div 16" using ed by simp
    show "if covers ob g then frameByte ?s fp g = ownByte ob g else weavecRtShadowPoison (frameByte ?s fp g)"
    proof (cases "covers ob g")
      case True
      then show ?thesis
        using w(1) [OF gn] g objectRuns_own [of ob g] objectRuns_length [of "foSize ob" "foColor ob"]
        by (auto simp: liveRuns_expand nth_append covers_def)
    next
      case False
      then have far: "foOffset ob div 16 + granules (foSize ob) \<le> g" using g by (auto simp: covers_def)
      show ?thesis
      proof (cases "sharesRedzone objects ob")
        case True
        have "g - (foOffset ob div 16 + granules (foSize ob)) < paddedSize (foSize ob) div 16 - granules (foSize ob)"
          using far g extent_div(1) [OF al(1)] by linarith
        then show ?thesis
          using True w(1) [OF gn] False far g extent_div(1) [OF al(1)] granules_padded [of "foSize ob"]
          by (auto simp: liveRuns_expand nth_append objectRuns_length weavecRtShadowPoison_def)
      next
        case free: False
        have "\<forall>other \<in> set objects. \<not> covers other g"
          using redzone_uncovered [OF wf scope_start.hyps(1) False g free] by blast
        then show ?thesis
          using w(1) [OF gn] False far free out gn by (auto simp: liveRuns_expand objectRuns_length)
      qed
    qed
  qed
  have others: "exactObject ?s fp l" if "l \<in> live" "l \<noteq> ob" for l
    using that sub ex scope_start.hyps(3)
    by (intro exact_elsewhere [OF wf at scope_start.hyps(1) _ _ _ _ _ runs_within(1)]) (auto simp: keptApart_def)
  have "weavecRtShadowPoison (frameByte ?s fp g)" if g: "g < n div 16" and unc: "\<forall>ob \<in> set objects. \<not> covers ob g" for g
  proof (cases "foOffset ob div 16 \<le> g \<and> g < foOffset ob div 16 + length (expandRuns (liveRuns objects ob))")
    case True
    moreover have "\<not> covers ob g" using unc scope_start.hyps(1) by blast
    ultimately show ?thesis
      using w(1) [OF g] liveRuns_redzone [of ob "g - foOffset ob div 16" objects] by (auto simp: covers_def)
  next
    case False
    then show ?thesis using w(1) [OF g] out g unc by auto
  qed
  moreover have "\<forall>l \<in> insert ob live. exactObject ?s fp l" using own others by blast
  ultimately show ?case using w(2) sub scope_start.hyps(1) by (auto simp: frame_inv_def)
next
  case (scope_end ob live s)
  let ?s = "writeShadow little e os s (fp + word_of_nat (foOffset ob)) (deadRuns ob)"
  have at: "frame_at e os s fp n" and sub: "live \<subseteq> set objects" and ex: "\<forall>l \<in> live. exactObject s fp l"
    and out: "\<forall>g < n div 16. (\<forall>ob \<in> set objects. \<not> covers ob g) \<longrightarrow> weavecRtShadowPoison (frameByte s fp g)"
    using scope_end.prems by (auto simp: frame_inv_def)
  have al: "32 dvd foOffset ob" "extentEnd ob \<le> n" using wf scope_end.hyps(1) by (auto simp: objects_wf_def)
  have le: "foOffset ob div 16 + length (expandRuns (deadRuns ob)) \<le> n div 16"
    using runs_within(2) [of ob] div_le_mono [OF al(2), of 16] extent_div(1) [OF al(1)] by simp
  note w = write_frame [OF at extent_div(2) [OF al(1)] le]
  have others: "exactObject ?s fp l" if "l \<in> live" "l \<noteq> ob" for l
    using that sub ex scope_end.hyps(3)
    by (intro exact_elsewhere [OF wf at scope_end.hyps(1) _ _ _ _ _ runs_within(2)]) (auto simp: keptApart_def)
  have "weavecRtShadowPoison (frameByte ?s fp g)" if g: "g < n div 16" and unc: "\<forall>ob \<in> set objects. \<not> covers ob g" for g
    using w(1) [OF g] out g unc scope_end.hyps(1)
    by (auto simp: deadRuns_expand covers_def weavecRtShadowPoison_def)
  then show ?case using w(2) sub others by (auto simp: frame_inv_def)
qed

lemma frame_reachable_inv:
  assumes "objects_wf scoped overlaps n objects"
    and "rtranclp (frame_step little e os fp scoped overlaps objects) st st'"
    and "frame_inv e os fp n objects st"
  shows "frame_inv e os fp n objects st'"
  using assms(2,3)
proof (induction rule: rtranclp_induct)
  case (step y z)
  then show ?case using frame_step_inv [OF assms(1)] by blast
qed

text \<open>The frame at entry.\<close>

lemma objectsEnd_ge: "ob \<in> set objects \<Longrightarrow> foOffset ob + foSize ob \<le> objectsEnd objects"
proof -
  have le: "x \<le> fold (\<lambda>ob e. max e (foOffset ob + foSize ob)) objects x" for x
    by (induction objects arbitrary: x) (auto intro: le_trans [OF max.cobounded1])
  have "ob \<in> set objects \<Longrightarrow> foOffset ob + foSize ob \<le> fold (\<lambda>ob e. max e (foOffset ob + foSize ob)) objects x" for x
  proof (induction objects arbitrary: x)
    case (Cons a objects)
    have "max x (foOffset a + foSize a) \<le>
        fold (\<lambda>ob e. max e (foOffset ob + foSize ob)) objects (max x (foOffset a + foSize a))" for x
      by (induction objects arbitrary: a x) (auto intro: le_trans [OF max.cobounded1])
    then show ?case using Cons by (auto intro: le_trans [OF max.cobounded2])
  qed simp
  then show "ob \<in> set objects \<Longrightarrow> foOffset ob + foSize ob \<le> objectsEnd objects"
    by (simp add: objectsEnd_def)
qed

lemma overlay_none: "(\<And>ob. ob \<in> set objects \<Longrightarrow> \<not> covers ob g) \<Longrightarrow> fold (overlay g) objects v = v"
  by (induction objects arbitrary: v) (auto simp: overlay_def)

lemma entryByte_uncovered:
  assumes "\<And>ob. ob \<in> set objects \<Longrightarrow> \<not> covers ob g"
  shows "weavecRtShadowPoison (entryByte objects g)"
  using overlay_none [OF assms] by (simp add: entryByte_def weavecRtShadowPoison_def)

lemma entryByte_own:
  assumes wf: "objects_wf scoped overlaps n objects" and ob: "ob \<in> set objects" "inScope ob" "covers ob g"
  shows "entryByte objects g = ownByte ob g"
proof -
  have al: "32 dvd foOffset ob" using wf ob(1) by (auto simp: objects_wf_def)
  have "\<not> covers other g" if other: "other \<in> set objects" "other \<noteq> ob" for other
  proof -
    have "disjointExtents ob other \<or> disjointExtents other ob"
      using wf ob other by (auto simp: objects_wf_def together_def)
    moreover have "32 dvd foOffset other" using wf other by (auto simp: objects_wf_def)
    ultimately show ?thesis
      using disjoint_granules [of ob other g] covers_extent [OF ob(3) al] covers_extent [of other g] al by force
  qed
  then have one: "overlay g other v = (if other = ob then ownByte ob g else v)" if "other \<in> set objects" for other v
    using that ob by (auto simp: overlay_def)
  have "fold (overlay g) os v = (if ob \<in> set os then ownByte ob g else v)" if "set os \<subseteq> set objects" for os v
    using that by (induction os arbitrary: v) (auto simp: one)
  then have "fold (overlay g) objects v = ownByte ob g" for v using ob(1) by simp
  moreover have "g < granules (objectsEnd objects)"
  proof -
    have "16 * g < foOffset ob + foSize ob" by (rule covers_bytes(2) [OF ob(3) extent_div(2) [OF al]])
    then have "16 * g < objectsEnd objects" using objectsEnd_ge [OF ob(1)] by simp
    then show ?thesis by (auto simp: granules_def)
  qed
  ultimately show ?thesis by (simp add: entryByte_def)
qed

lemma entry_inv:
  assumes wf: "objects_wf scoped overlaps n objects" and at: "frame_at e os s fp n"
  shows "frame_inv e os fp n objects
    ({ob \<in> set objects. inScope ob}, writeShadow little e os s fp (entryRuns objects n))"
proof -
  let ?s = "writeShadow little e os s fp (entryRuns objects n)"
  have le: "0 div 16 + length (expandRuns (entryRuns objects n)) \<le> n div 16"
    by (simp add: entryRuns_expand)
  have byte: "frameByte ?s fp g = entryByte objects g" if "g < n div 16" for g
    using write_frame(1) [OF at _ le that, of little] that by (simp add: entryRuns_expand)
  have exact: "exactObject ?s fp ob" if ob: "ob \<in> set objects" "inScope ob" for ob
    unfolding exactObject_def
  proof (intro allI impI)
    fix g assume g: "foOffset ob div 16 \<le> g" "g < extentEnd ob div 16"
    have al: "32 dvd foOffset ob" "extentEnd ob \<le> n" using wf ob(1) by (auto simp: objects_wf_def)
    then have gn: "g < n div 16" using g(2) div_le_mono [OF al(2), of 16] by simp
    have "weavecRtShadowPoison (entryByte objects g)" if "\<not> covers ob g"
    proof (rule entryByte_uncovered)
      fix other assume other: "other \<in> set objects"
      show "\<not> covers other g"
      proof (cases "other = ob")
        case False
        have "disjointExtents ob other \<or> disjointExtents other ob"
          using wf ob other False by (auto simp: objects_wf_def together_def)
        moreover have "32 dvd foOffset other" using wf other by (auto simp: objects_wf_def)
        ultimately show ?thesis using disjoint_granules [of ob other g] g al covers_extent [of other g] by force
      qed (use that in simp)
    qed
    then show "if covers ob g then frameByte ?s fp g = ownByte ob g else weavecRtShadowPoison (frameByte ?s fp g)"
      using entryByte_own [OF wf ob] by (simp add: byte [OF gn])
  qed
  have "frame_at e os ?s fp n" using write_frame(2) [OF at _ le, of little] by simp
  then show ?thesis
    using exact byte entryByte_uncovered by (auto simp: frame_inv_def)
qed

text \<open>What the layout gives.\<close>

lemma frameSizeOf_ge: "ob \<in> set objects \<Longrightarrow> extentEnd ob \<le> frameSizeOf objects"
proof -
  have mono: "x \<le> fold (\<lambda>ob sz. max sz (extentEnd ob)) obs x" for x obs
    by (induction obs arbitrary: x) (auto intro: le_trans [OF max.cobounded1])
  have "ob \<in> set obs \<Longrightarrow> extentEnd ob \<le> fold (\<lambda>ob sz. max sz (extentEnd ob)) obs x" for x obs
  proof (induction obs arbitrary: x)
    case (Cons a obs)
    then show ?case using mono [of "max x (extentEnd a)" obs] by auto
  qed simp
  then show "ob \<in> set objects \<Longrightarrow> extentEnd ob \<le> frameSizeOf objects" by (simp add: frameSizeOf_def)
qed

lemma sorted_wrt_pairs:
  assumes "sorted_wrt P xs" "a \<in> set xs" "b \<in> set xs" "a \<noteq> b"
  shows "P a b \<or> P b a"
  using assms by (induction xs) auto

lemma power_two_dvd:
  assumes "al = 2 ^ k" "max 32 al dvd (n :: nat)"
  shows "32 dvd n" "al dvd n"
proof -
  have "(2 :: nat) ^ 5 dvd 2 ^ k \<or> (2 :: nat) ^ k dvd 2 ^ 5"
    by (meson le_imp_power_dvd nat_le_linear)
  then have "(32 :: nat) dvd max 32 al" "al dvd max 32 al"
    using assms(1) by (auto simp: max_def dest: dvd_imp_le)
  then show "32 dvd n" "al dvd n" using assms(2) dvd_trans by blast+
qed

lemma layoutObjects_members:
  assumes "layoutObjects hash overlaps objects = (scoped, objs)" "ob \<in> set objs"
  shows "(\<exists>n. foColor ob = colorAt n) \<and> (\<exists>ob' \<in> set objects. foAlloca ob = foAlloca ob' \<and> foSize ob = foSize ob')"
proof -
  let ?apart = "colorObjects hash (place False overlaps [] objects)"
  obtain ob1 where ob1: "ob1 \<in> set ?apart" "foAlloca ob = foAlloca ob1" "foSize ob = foSize ob1" "foColor ob = foColor ob1"
  proof (cases scoped)
    case True
    then have "ob \<in> set (place True overlaps [] ?apart)"
      using assms by (auto simp: layoutObjects_def Let_def split: if_splits)
    then show ?thesis using place_member that by metis
  next
    case False
    then have "ob \<in> set ?apart" using assms by (auto simp: layoutObjects_def Let_def split: if_splits)
    then show ?thesis using that by blast
  qed
  obtain ob2 n where ob2: "ob2 \<in> set (place False overlaps [] objects)" "ob1 = ob2\<lparr>foColor := colorAt n\<rparr>"
    using colorObjects_members [OF ob1(1)] by blast
  obtain ob3 where "ob3 \<in> set objects" "foAlloca ob2 = foAlloca ob3" "foSize ob2 = foSize ob3"
    using place_member [OF ob2(1)] by metis
  then show ?thesis using ob1 ob2 by auto
qed

lemma layoutObjects_objects_wf:
  assumes lay: "layoutObjects hash overlaps objects = (scoped, objs)"
    and al: "\<And>ob. ob \<in> set objects \<Longrightarrow> \<exists>k. aAlign (foAlloca ob) = 2 ^ k"
  shows "objects_wf scoped overlaps (frameSizeOf objs) objs"
proof -
  have pw: "placed_wf scoped overlaps objs" by (rule layoutObjects_wf [OF lay])
  have "32 dvd foOffset ob \<and> 64 \<le> foOffset ob \<and> unat (foColor ob) < 128 \<and> unat (foColor ob) mod 8 < 7"
    if ob: "ob \<in> set objs" for ob
  proof -
    obtain n ob' where m: "foColor ob = colorAt n" "ob' \<in> set objects" "foAlloca ob = foAlloca ob'"
      using layoutObjects_members [OF lay ob] by blast
    obtain k where "aAlign (foAlloca ob) = 2 ^ k" using al [OF m(2)] m(3) by auto
    then have "32 dvd foOffset ob" using pw ob power_two_dvd(1) by (auto simp: placed_wf_def)
    then show ?thesis
      using pw ob m(1) color_full color_class by (auto simp: placed_wf_def colorAt_runtime)
  qed
  moreover have "disjointExtents a b \<or> disjointExtents b a"
    if "a \<in> set objs" "b \<in> set objs" "a \<noteq> b" "together scoped overlaps a b" "together scoped overlaps b a" for a b
    using that pw sorted_wrt_pairs by (fastforce simp: placed_wf_def)
  ultimately show ?thesis using frameSizeOf_ge by (auto simp: objects_wf_def)
qed

lemma exact_bytes:
  assumes wf: "objects_wf scoped overlaps n objects" and at: "frame_at e os s fp n"
    and ob: "ob \<in> set objects" "exactObject s fp ob" and k: "k < paddedSize (foSize ob)"
  shows "addressable s (fp + word_of_nat (foOffset ob + k)) \<longleftrightarrow> k < foSize ob"
proof -
  have al: "32 dvd foOffset ob" "extentEnd ob \<le> n" and color: "unat (foColor ob) < 128" "unat (foColor ob) mod 8 < 7"
    using wf ob(1) by (auto simp: objects_wf_def)
  obtain q where q: "foOffset ob = 16 * q" using extent_div(2) [OF al(1)] by blast
  let ?g = "foOffset ob div 16 + k div 16"
  have in_frame: "foOffset ob + k < n" using k al(2) by (simp add: extentEnd_def)
  have d: "(foOffset ob + k) div 16 = ?g" "(foOffset ob + k) mod 16 = k mod 16" using q by auto
  have "k div 16 < paddedSize (foSize ob) div 16"
    using k paddedSize_facts(1) [of "foSize ob"] by (auto simp: dvd_def)
  then have g: "foOffset ob div 16 \<le> ?g" "?g < extentEnd ob div 16" using extent_div(1) [OF al(1)] by auto
  have a: "addressable s (fp + word_of_nat (foOffset ob + k)) \<longleftrightarrow> byte_ok (frameByte s fp ?g) (k mod 16)"
    using frame_addressable [OF at in_frame] d by simp
  show ?thesis
  proof (cases "covers ob ?g")
    case True
    then have "k div 16 < granules (foSize ob)" by (simp add: covers_def)
    then have "k < 16 * granules (foSize ob)" by (simp add: div_less_iff_less_mult mult.commute)
    then show ?thesis
      using a True ob(2) g own_byte_ok [OF color] by (simp add: exactObject_def)
  next
    case False
    then have "granules (foSize ob) \<le> k div 16" by (simp add: covers_def)
    then have "foSize ob \<le> k" by (simp add: granules_def)
    then show ?thesis using a False ob(2) g not_byte_ok_poison by (auto simp: exactObject_def)
  qed
qed

lemma place_allocas: "map foAlloca (place scoped overlaps placed obs) = map foAlloca (placed @ obs)"
  by (induction obs arbitrary: placed) (simp_all add: Let_def)

lemma place_colors: "map foColor (place scoped overlaps placed obs) = map foColor (placed @ obs)"
  by (induction obs arbitrary: placed) (simp_all add: Let_def)

lemma colorObjects_allocas: "map foAlloca (colorObjects nxt obs) = map foAlloca obs"
  by (induction nxt obs rule: colorObjects.induct) simp_all

lemma colorObjects_nth:
  "i < length obs \<Longrightarrow> map foColor (colorObjects nxt obs) ! i = colorAt (nxt + word_of_nat i)"
proof (induction obs arbitrary: nxt i)
  case (Cons ob obs)
  then show ?case by (cases i) (simp_all add: add.assoc)
qed simp

lemma layoutObjects_allocas: "map foAlloca (snd (layoutObjects hash overlaps objects)) = map foAlloca objects"
  by (simp add: layoutObjects_def Let_def place_allocas colorObjects_allocas)

lemma colorObjects_length [simp]: "length (colorObjects nxt obs) = length obs"
  by (induction nxt obs rule: colorObjects.induct) simp_all

lemma layoutObjects_colors:
  assumes "i < length objects"
  shows "map foColor (snd (layoutObjects hash overlaps objects)) ! i = colorAt (hash + word_of_nat i)"
proof -
  have "length (place False overlaps [] objects) = length objects"
    using arg_cong [OF place_allocas [of False overlaps "[]" objects], of length] by simp
  then show ?thesis
    using assms colorObjects_nth [of i "place False overlaps [] objects" hash]
    by (simp add: layoutObjects_def Let_def place_colors)
qed

lemma frameObjects_allocas: "foAlloca ` set (frameObjects allocas) = {al \<in> set allocas. frameObject al \<noteq> None}"
proof -
  have "frameObject al = Some ob \<Longrightarrow> foAlloca ob = al" for al ob
    by (auto simp: frameObject_def split: option.splits if_splits)
  then show ?thesis
    by (force simp: frameObjects_def List.map_filter_def image_iff)
qed

lemma frameObjects_align:
  assumes "\<forall>al \<in> set allocas. \<exists>k. aAlign al = 2 ^ k" "ob \<in> set (frameObjects allocas)"
  shows "\<exists>k. aAlign (foAlloca ob) = 2 ^ k"
proof -
  have "foAlloca ob \<in> set allocas" using frameObjects_allocas [of allocas] assms(2) by blast
  then show ?thesis using assms(1) by blast
qed

lemma layoutStatic_facts:
  assumes lay: "layoutStatic hash overlaps allocas = Some f"
    and al: "\<forall>al \<in> set allocas. \<exists>k. aAlign al = 2 ^ k"
    and scoped: "scoped = fst (layoutObjects hash overlaps (frameObjects allocas))"
  shows "objects_wf scoped overlaps (fSize f) (fObjects f)" "placed_wf scoped overlaps (fObjects f)"
    "fEntry f = entryRuns (fObjects f) (fSize f)"
    "foAlloca ` set (fObjects f) = {al \<in> set allocas. frameObject al \<noteq> None}"
    "32 dvd fSize f"
proof -
  let ?objs = "snd (layoutObjects hash overlaps (frameObjects allocas))"
  have f: "fSize f = frameSizeOf ?objs" "fObjects f = ?objs" "fEntry f = entryRuns ?objs (frameSizeOf ?objs)"
    using lay by (auto simp: layoutStatic_def Let_def split: if_splits)
  have eq: "layoutObjects hash overlaps (frameObjects allocas) = (scoped, ?objs)" by (simp add: scoped)
  show wf: "objects_wf scoped overlaps (fSize f) (fObjects f)"
    unfolding f by (rule layoutObjects_objects_wf [OF eq]) (rule frameObjects_align [OF al])
  show "placed_wf scoped overlaps (fObjects f)" unfolding f by (rule layoutObjects_wf [OF eq])
  show "fEntry f = entryRuns (fObjects f) (fSize f)" by (simp add: f)
  have "set (map foAlloca ?objs) = set (map foAlloca (frameObjects allocas))"
    by (simp only: layoutObjects_allocas)
  then show "foAlloca ` set (fObjects f) = {al \<in> set allocas. frameObject al \<noteq> None}"
    using frameObjects_allocas [of allocas] by (simp add: f)
  have "32 dvd fold (\<lambda>ob sz. max sz (extentEnd ob)) obs x" if "32 dvd x" "\<forall>ob \<in> set obs. 32 dvd extentEnd ob" for x obs
    using that by (induction obs arbitrary: x) (auto simp: max_def)
  moreover have "\<forall>ob \<in> set ?objs. 32 dvd extentEnd ob"
    using wf paddedSize_facts(1) unfolding f by (auto simp: objects_wf_def extentEnd_def)
  ultimately show "32 dvd fSize f" by (simp add: f frameSizeOf_def)
qed

subsection \<open>Properties\<close>

text \<open>
  C19: the layout of a frame. Every local that can be laid out is in the frame, once placed it
  is aligned as its alloca asks and to 32 bytes, at least 64 bytes above the frame's start,
  followed by a redzone of at least 32 bytes, and inside the frame; and the extents (object
  and redzone) of two locals meet only when both have lifetime markers and their live
  ranges do not overlap. The placement loop terminates.
\<close>

theorem layoutStatic_apart:
  assumes "layoutStatic hash overlaps allocas = Some f" and "\<forall>al \<in> set allocas. \<exists>k. aAlign al = 2 ^ k"
  shows "foAlloca ` set (fObjects f) = {al \<in> set allocas. frameObject al \<noteq> None} \<and> 32 dvd fSize f \<and>
    (\<forall>ob \<in> set (fObjects f). aAlign (foAlloca ob) dvd foOffset ob \<and> 32 dvd foOffset ob \<and> 64 \<le> foOffset ob \<and>
       foOffset ob + foSize ob + 32 \<le> extentEnd ob \<and> extentEnd ob \<le> fSize f) \<and>
    (\<forall>a \<in> set (fObjects f). \<forall>b \<in> set (fObjects f). a \<noteq> b \<longrightarrow>
       inScope a \<or> inScope b \<or> (overlaps (aId (foAlloca a)) (aId (foAlloca b)) \<and>
         overlaps (aId (foAlloca b)) (aId (foAlloca a))) \<longrightarrow>
       extentEnd a \<le> foOffset b \<or> extentEnd b \<le> foOffset a)"
proof -
  note F = layoutStatic_facts [OF assms refl]
  have al: "aAlign (foAlloca ob) dvd foOffset ob" if ob: "ob \<in> set (fObjects f)" for ob
  proof -
    have "foAlloca ob \<in> set allocas" using F(4) ob by blast
    then obtain k where "aAlign (foAlloca ob) = 2 ^ k" using assms(2) by blast
    then show ?thesis using F(2) ob power_two_dvd(2) by (auto simp: placed_wf_def)
  qed
  have pad: "foOffset ob + foSize ob + 32 \<le> extentEnd ob" for ob
    using paddedSize_facts(2) [of "foSize ob"] by (simp add: extentEnd_def)
  show ?thesis
    using F(1,4,5) al pad by (auto simp: objects_wf_def together_def disjointExtents_def)
qed

text \<open>Two arrays live throughout and a scoped integer.\<close>

abbreviation sampleAllocas :: "alloca list" where
  "sampleAllocas \<equiv>
    [\<lparr>aId = 0, aSize = Some 20, aAlign = 16, aSwiftError = False, aInAlloca = False, aStatic = True,
      aInEntry = True, aStarts = [], aEnds = []\<rparr>,
     \<lparr>aId = 1, aSize = Some 4, aAlign = 4, aSwiftError = False, aInAlloca = False, aStatic = True,
      aInEntry = True, aStarts = [7], aEnds = [9]\<rparr>]"

lemma sample_layout: "\<exists>f. layoutStatic 5 (\<lambda>_ _. True) sampleAllocas = Some f"
  by (simp add: layoutStatic_def frameObjects_def map_filter_simps frameObject_def Let_def)

lemma sample_align: "\<forall>al \<in> set sampleAllocas. \<exists>k. aAlign al = 2 ^ k"
  by (auto intro: exI [of _ 4] exI [of _ 2])

theorem layoutStatic_apart_witness:
  "\<exists>f. layoutStatic 5 (\<lambda>_ _. True) sampleAllocas = Some f \<and> 32 dvd fSize f \<and>
    foAlloca ` set (fObjects f) = set sampleAllocas"
proof -
  obtain f where f: "layoutStatic 5 (\<lambda>_ _. True) sampleAllocas = Some f" using sample_layout by blast
  have "foAlloca ` set (fObjects f) = {al \<in> set sampleAllocas. frameObject al \<noteq> None}" "32 dvd fSize f"
    by (rule conjunct1 [OF layoutStatic_apart [OF f sample_align]],
        rule conjunct1 [OF conjunct2 [OF layoutStatic_apart [OF f sample_align]]])
  moreover have "{al \<in> set sampleAllocas. frameObject al \<noteq> None} = set sampleAllocas"
    by (auto simp: frameObject_def)
  ultimately show ?thesis using f by metis
qed


abbreviation stackEnv :: rt_env where
  "stackEnv \<equiv> \<lparr>stackTop = 0x8000, stackBottom = 0x1000, here = 0x2000, aarch64 = False, stackLostColors = False,
     heapObjectAt = (\<lambda>_. \<lparr>hoFound = False, hoLive = False, hoBase = 0, hoSize = 0\<rparr>)\<rparr>"

lemma clashLoop_Nil: "clashLoop with' al extent [] offset = offset"
  by (subst clashLoop.simps) simp

lemma clashLoop_single:
  "clashLoop with' al extent [ob] offset =
    (if offset < extentEnd ob \<and> foOffset ob < offset + extent \<and> with' ob
     then alignUp (extentEnd ob) (max FrameAlign al) else offset)"
proof -
  have "\<not> alignUp (extentEnd ob) (max 32 al) < extentEnd ob" using alignUp_ge [of "max 32 al" "extentEnd ob"] by (simp add: less_max_iff_disj not_less)
  then have "clashLoop with' al extent [ob] (alignUp (extentEnd ob) (max 32 al)) = alignUp (extentEnd ob) (max 32 al)"
    by (subst clashLoop.simps) simp
  then show ?thesis by (subst clashLoop.simps) simp
qed

lemma sample_size:
  "layoutStatic 5 (\<lambda>_ _. True) sampleAllocas = Some f \<Longrightarrow> fSize f = 192"
  by (auto simp: layoutStatic_def frameObjects_def map_filter_simps frameObject_def layoutObjects_def
      Let_def frameSizeOf_def clashLoop_Nil clashLoop_single extentEnd_def paddedSize_def alignUp_def
      together_def inScope_def)

lemma sample_frame_small:
  assumes "layoutStatic 5 (\<lambda>_ _. True) sampleAllocas = Some f"
  shows "frame_at stackEnv plainOs \<lparr>shMask = 0xFFF, shBits = 16, shMem = (\<lambda>_. 0)\<rparr> 0x2000 (fSize f)"
proof -
  have "fSize f = 192" by (rule sample_size [OF assms])
  then show ?thesis using plainOs_room by (simp add: frame_at_def shadow_wf_def)
qed


text \<open>
  C13: a local's bytes are not addressable after its scope ends, nor any byte of the frame
  after the function returns: the end of a scope makes every byte of the object poison, and an
  exit marks every granule of the frame as returned, whatever state the frame was in.
\<close>

theorem frame_ends_poison:
  assumes lay: "layoutStatic hash overlaps allocas = Some f" and al: "\<forall>al \<in> set allocas. \<exists>k. aAlign al = 2 ^ k"
    and at: "frame_at e os s fp (fSize f)"
  shows "(\<forall>ob \<in> set (fObjects f). \<forall>k < foSize ob.
      \<not> addressable (writeShadow little e os s (fp + word_of_nat (foOffset ob)) (deadRuns ob))
          (fp + word_of_nat (foOffset ob + k))) \<and>
    (\<forall>k < fSize f. let s' = writeShadow little e os s fp (clearRuns (fSize f))
       in shadowByte s' (fp + word_of_nat (16 * (k div 16))) = WeavecRtShadowReturned \<and>
          \<not> addressable s' (fp + word_of_nat k))"
proof (intro conjI ballI allI impI)
  note F = layoutStatic_facts [OF lay al refl]
  fix ob k assume ob: "ob \<in> set (fObjects f)" and k: "k < foSize ob"
  have oa: "32 dvd foOffset ob" "extentEnd ob \<le> fSize f" using F(1) ob by (auto simp: objects_wf_def)
  have le: "foOffset ob div 16 + length (expandRuns (deadRuns ob)) \<le> fSize f div 16"
    using runs_within(2) [of ob] div_le_mono [OF oa(2), of 16] extent_div(1) [OF oa(1)] by simp
  let ?s = "writeShadow little e os s (fp + word_of_nat (foOffset ob)) (deadRuns ob)"
  note w = write_frame [OF at extent_div(2) [OF oa(1)] le, where little = little]
  obtain q where q: "foOffset ob = 16 * q" using extent_div(2) [OF oa(1)] by blast
  let ?g = "foOffset ob div 16 + k div 16"
  have kg: "k div 16 < granules (foSize ob)" using k by (auto simp: granules_def)
  have gn: "?g < fSize f div 16" using kg le by (simp add: deadRuns_expand)
  have fk: "foOffset ob + k < fSize f" using k oa(2) paddedSize_facts(2) [of "foSize ob"] by (simp add: extentEnd_def)
  have "frameByte ?s fp ?g = WeavecRtShadowStackScope"
    using w(1) [OF gn] kg by (simp add: deadRuns_expand)
  moreover have "(foOffset ob + k) div 16 = ?g" using q by simp
  ultimately show "\<not> addressable ?s (fp + word_of_nat (foOffset ob + k))"
    using frame_addressable [OF w(2) fk] not_byte_ok_poison [of WeavecRtShadowStackScope]
    by (simp add: weavecRtShadowPoison_def)
next
  note F = layoutStatic_facts [OF lay al refl]
  fix k assume k: "k < fSize f"
  have le: "0 div 16 + length (expandRuns (clearRuns (fSize f))) \<le> fSize f div 16"
    by (simp add: clearRuns_def expandRuns_appendRun)
  let ?s = "writeShadow little e os s fp (clearRuns (fSize f))"
  note w = write_frame [OF at _ le, where little = little, simplified]
  have gn: "k div 16 < fSize f div 16" using k F(5) by (auto simp: dvd_def)
  have b: "frameByte ?s fp (k div 16) = WeavecRtShadowReturned"
    using w(1) [OF gn] gn by (simp add: clearRuns_def expandRuns_appendRun)
  have "\<not> addressable ?s (fp + word_of_nat k)"
    using frame_addressable [OF w(2) k] b not_byte_ok_poison [of WeavecRtShadowReturned]
    by (simp add: weavecRtShadowPoison_def)
  with b show "let s' = ?s in shadowByte s' (fp + word_of_nat (16 * (k div 16))) = WeavecRtShadowReturned \<and>
      \<not> addressable s' (fp + word_of_nat k)"
    unfolding Let_def frameByte_def by simp
qed

theorem frame_ends_poison_witness:
  "\<exists>f. layoutStatic 5 (\<lambda>_ _. True) sampleAllocas = Some f \<and>
    \<not> addressable (writeShadow True stackEnv plainOs \<lparr>shMask = 0xFFF, shBits = 16, shMem = (\<lambda>_. 0)\<rparr> 0x2000
        (clearRuns (fSize f))) (0x2000 + word_of_nat 100)"
proof -
  obtain f where f: "layoutStatic 5 (\<lambda>_ _. True) sampleAllocas = Some f" using sample_layout by blast
  have "100 < fSize f" using sample_size [OF f] by simp
  then show ?thesis
    using f conjunct2 [OF frame_ends_poison [OF f sample_align sample_frame_small [OF f], where little = True]]
    unfolding Let_def by blast
qed

text \<open>
  The compressed shadow of the entry is the granule-by-granule one: the runs between the
  cuts expand to one byte per granule of the frame, each the one that the objects covering
  that granule decide, so the cost of an entry depends on the number of objects only.
\<close>

theorem entryRuns_exact:
  "expandRuns (entryRuns objects frameSize) = map (entryByte objects) [0..<frameSize div 16]"
  by (rule entryRuns_expand)

text \<open>
  A dynamic alloca. For an object that fits on the stack the runtime makes exactly the
  object's bytes addressable among the padded bytes that the pass allocates for it.
\<close>

theorem alloca_poison_exact:
  assumes wf: "shadow_wf s" and os: "shadow_room (osBase os) (osPage os)" and al: "16 dvd unat address"
    and fits: "unat address + unat (dynamicPadded sz) \<le> 2 ^ shBits s" "unat sz + 63 < 2 ^ 64"
    and stack: "stackBottom e \<le> address" "unat address + unat (dynamicPadded sz) \<le> unat (stackTop e)"
    and i: "i < unat (dynamicPadded sz)"
  shows "addressable (weavec_rt_alloca_poison e os s address sz) (address + word_of_nat i) \<longleftrightarrow> i < unat sz"
proof -
  define padded where "padded = dynamicPadded sz"
  have b: "(2 :: nat) ^ shBits s \<le> 2 ^ 63" by (rule shadow_window_bound [OF wf])
  have s31: "unat (sz + 31) = unat sz + 31" using fits(2) by (subst unat_add_no_wrap) simp_all
  have r: "unat ((sz + 31) AND NOT 31) = 32 * ((unat sz + 31) div 32)"
    using unat_and_not_mask [of "sz + 31" 5] by (simp add: s31 minus_mod_eq_mult_div)
  have r_le: "32 * ((unat sz + 31) div 32) \<le> unat sz + 31" by simp
  have p: "unat padded = 32 * ((unat sz + 31) div 32) + 32"
    unfolding padded_def dynamicPadded_def
    using unat_add_no_wrap [of "(sz + 31) AND NOT 31" 32] r r_le fits(2) by simp
  have pd: "16 dvd unat padded" "0 < unat padded" "unat sz \<le> unat padded" 
  proof -
    show "16 dvd unat padded" unfolding p by (intro dvd_add dvd_mult2) simp_all
    show "0 < unat padded" "unat sz \<le> unat padded" unfolding p by linarith+
  qed
  have low: "address AND 15 = 0" using al by (simp add: word_unat_eq_iff unat_and_low)
  have pad: "((sz + 31) AND NOT 31) + 32 = padded" by (simp add: padded_def dynamicPadded_def)
  have sum: "unat address + unat padded < 2 ^ 64" using fits(1) b by (simp add: padded_def)
  have end': "unat (address + padded) = unat address + unat padded" by (rule unat_add_no_wrap [OF sum])
  have used: "unat ((sz + 15) AND NOT 15) < unat padded"
    using rounded_up [of sz] fits(2) p by simp
  have own: "onOwnStack e address (address + padded)" "\<not> address + padded > stackTop e" "\<not> address < stackBottom e"
    using stack pd end' by (auto simp: onOwnStack_def word_less_nat_alt word_le_nat_alt padded_def)
  have ps: "\<not> padded < sz" using pd(3) by (simp add: word_less_nat_alt)
  have eq: "weavec_rt_alloca_poison e os s address sz =
      (if padded > (sz + 15) AND NOT 15
       then weavecRtShadowSet (shadowObject os s address sz WeavecRtShadowStackDynamic 0)
         (address + ((sz + 15) AND NOT 15)) (padded - ((sz + 15) AND NOT 15)) WeavecRtShadowStackDynamic
       else shadowObject os s address sz WeavecRtShadowStackDynamic 0)"
    using low ps own sum used unfolding weavec_rt_alloca_poison_def Let_def pad by (simp add: word_less_nat_alt)
  have ai: "unat (address + word_of_nat i) = unat address + i"
    using i sum by (subst unat_add_no_wrap) (auto simp: unat_of_nat_small padded_def)
  have "addressable (weavec_rt_alloca_poison e os s address sz) (address + word_of_nat i) \<longleftrightarrow>
      unat (address + word_of_nat i) < unat address + unat sz"
    by (rule padded_object(2) [OF wf os al pd(1,2) _ refl pd(3) _ _ _ refl eq])
      (use fits(1) i ai in \<open>auto simp: padded_def weavecRtShadowPoison_def\<close>)
  then show ?thesis unfolding ai by simp
qed

theorem alloca_poison_exact_witness:
  "addressable (weavec_rt_alloca_poison stackEnv plainOs \<lparr>shMask = 0xFFF, shBits = 16, shMem = (\<lambda>_. 0)\<rparr> 0x2000 40)
     (0x2000 + word_of_nat 50) \<longleftrightarrow> (50 :: nat) < 40"
  using alloca_poison_exact [of "\<lparr>shMask = 0xFFF, shBits = 16, shMem = (\<lambda>_. 0)\<rparr>" plainOs "0x2000" 40 stackEnv 50]
    plainOs_room by (simp add: shadow_wf_def dynamicPadded_def)

text \<open>
  The locals of a frame have different colors: any two of them fewer than 111 places apart
  in the layout, so in a frame of up to 111 locals all of them, unless the counter wraps.
\<close>

theorem frame_colors_differ:
  assumes "i < j" "j < i + 111" "j < length objects" "unat hash + length objects \<le> 2 ^ 64"
  shows "foColor (snd (layoutObjects hash overlaps objects) ! i) \<noteq> foColor (snd (layoutObjects hash overlaps objects) ! j)"
proof -
  let ?objs = "snd (layoutObjects hash overlaps objects)"
  have len: "length ?objs = length objects"
    using arg_cong [OF layoutObjects_allocas [of hash overlaps objects], of length] by simp
  have c: "foColor (?objs ! k) = weavecRtColor (hash + word_of_nat k)" if "k < length objects" for k
    using layoutObjects_colors [OF that, of hash overlaps] that len by (simp add: colorAt_runtime)
  have u: "unat (hash + word_of_nat k) = unat hash + k" if "k < length objects" for k
    using that assms(4) by (subst unat_add_no_wrap) (auto simp: unat_of_nat_small)
  have "(unat hash + i) mod 111 \<noteq> (unat hash + j) mod 111"
  proof
    assume "(unat hash + i) mod 111 = (unat hash + j) mod 111"
    then have "111 dvd (unat hash + j) - (unat hash + i)" using assms(1) mod_eq_dvd_iff_nat [of "unat hash + i" "unat hash + j" 111] by simp
    then have "111 dvd j - i" by simp
    then show False using assms(1,2) dvd_imp_le [of 111 "j - i"] by simp
  qed
  then show ?thesis
    using c [of i] c [of j] u [of i] u [of j] assms color_injective [of "hash + word_of_nat i" "hash + word_of_nat j"] by auto
qed

theorem frame_colors_differ_witness:
  "foColor (snd (layoutObjects 5 (\<lambda>_ _. True) (frameObjects sampleAllocas)) ! 0) \<noteq>
   foColor (snd (layoutObjects 5 (\<lambda>_ _. True) (frameObjects sampleAllocas)) ! 1)"
  by (rule frame_colors_differ) (simp_all add: frameObjects_def map_filter_simps frameObject_def)

end
