(* ===== verification/Access_Rules.thy ===== *)
theory Access_Rules
  imports Inline_Guard
begin

text \<open>
  \<open>lib/Frontend/GuardExpand.cpp\<close>: the accesses the markers stand for, the rules that
  remove or merge their guards (in bounds, rule 6.1; dominated, rule 6.2; merged, rule 6.3),
  which locals escape, and the expansion of what is left into the checks of
  \<open>Inline_Guard\<close>. The laws of the rules are in \<open>Dominated\<close> and \<open>Merged\<close>.

  An LLVM value is a number; two uses of one number are the same value. What LLVM's analyses
  answer (scalar evolution, the traversal order, whether an instruction transfers control to
  the next) is part of the data here.
\<close>

subsection \<open>Accesses\<close>

datatype access_kind = KindGuard | KindRange | KindString
datatype access_state = StateGuard | StateInBounds | StateDominated | StateMerged

record access =
  acMarker :: nat
  acKind :: access_kind
  acPointer :: nat
  acWidth :: u64
  acLength :: "nat option"
  acAlign :: u64
  acWrite :: bool
  acPruned :: bool
  acNullOk :: bool
  acNullBase :: "nat option"
  acRow :: nat
  acState :: access_state
  acBase :: "nat option"
  acOffset :: int
  acGuardOffset :: int
  acGuardWidth :: u64
  acLeader :: nat
  acObject :: "nat option"

definition constantAccess :: "access \<Rightarrow> bool" where
  "constantAccess ac \<longleftrightarrow> acKind ac \<noteq> KindString \<and> acLength ac = None"

text \<open>
  A marker call: its name, the value and (where it is a constant) the number of its second
  argument, its flags and row where they are constants, and the base of a guard, if not null.
\<close>

datatype marker_name = MarkerGuard | MarkerRange | MarkerString

record marker_call =
  mcId :: nat
  mcPointer :: nat
  mcCount :: nat
  mcCountConstant :: "u64 option"
  mcFlags :: "u64 option"
  mcBase :: "nat option"
  mcRow :: "nat option"

definition emptyAccess :: access where
  "emptyAccess = \<lparr>acMarker = 0, acKind = KindGuard, acPointer = 0, acWidth = 0, acLength = None,
     acAlign = 1, acWrite = False, acPruned = False, acNullOk = False, acNullBase = None, acRow = 0,
     acState = StateGuard, acBase = None, acOffset = 0, acGuardOffset = 0, acGuardWidth = 0,
     acLeader = 0, acObject = None\<rparr>"

definition accessOf :: "marker_call \<Rightarrow> marker_name \<Rightarrow> access option" where
  "accessOf call marker =
     (case mcFlags call of
        None \<Rightarrow> None
      | Some bits \<Rightarrow>
          let ac = emptyAccess\<lparr>acMarker := mcId call, acPointer := mcPointer call,
                     acWrite := bits AND 1 \<noteq> 0, acPruned := bits AND 2 \<noteq> 0,
                     acAlign := push_bit (unat (drop_bit 8 bits AND 63)) 1,
                     acRow := (case mcRow call of Some r \<Rightarrow> r | None \<Rightarrow> 0)\<rparr>
          in if marker = MarkerString then
               Some (ac\<lparr>acKind := KindString, acNullOk := bits AND 4 \<noteq> 0, acLength := Some (mcCount call)\<rparr>)
             else
               let ac = ac\<lparr>acKind := (if marker = MarkerGuard then KindGuard else KindRange)\<rparr>;
                   ac = (case mcCountConstant call of
                           Some w \<Rightarrow> ac\<lparr>acWidth := w\<rparr>
                         | None \<Rightarrow> ac\<lparr>acLength := Some (mcCount call)\<rparr>)
               in Some (if marker = MarkerGuard \<and> mcBase call \<noteq> None
                        then ac\<lparr>acNullBase := mcBase call\<rparr> else ac))"

subsection \<open>Rule 6.1: in bounds\<close>

text \<open>\<open>insideAt\<close> of \<open>GuardPass.cpp\<close>, for an object whose exact size is known or not.\<close>

definition insideAt :: "nat option \<Rightarrow> int \<Rightarrow> u64 \<Rightarrow> bool" where
  "insideAt sz offset width =
     (case sz of
        None \<Rightarrow> False
      | Some n \<Rightarrow> offset \<ge> 0 \<and> offset \<le> int n \<and> unat width \<le> n - nat offset)"

text \<open>
  What scalar evolution knows of an access relative to its object: whether the difference is
  an integer it can compute, whether a run-time length is known to be at most the size, and
  whether the offset is at least 0 and the end at most the size.
\<close>

record scev =
  scDifference :: bool
  scLengthOk :: bool
  scOffsetNonneg :: bool
  scEndInside :: bool

definition inBounds :: "access \<Rightarrow> bool \<Rightarrow> nat option \<Rightarrow> scev \<Rightarrow> bool" where
  "inBounds ac outOfScope sz sc =
     (if acObject ac = None \<or> acKind ac = KindString then False
      else if outOfScope then False
      else case sz of
        None \<Rightarrow> False
      | Some n \<Rightarrow>
          if acBase ac = acObject ac \<and> acLength ac = None then insideAt sz (acOffset ac) (acWidth ac)
          else if \<not> scDifference sc then False
          else if acLength ac \<noteq> None \<and> \<not> scLengthOk sc then False
          else if acLength ac = None \<and> unat (acWidth ac) > n then False
          else scOffsetNonneg sc \<and> scEndInside sc)"

subsection \<open>Instructions and functions\<close>

datatype intrinsic = LifetimeStart | LifetimeEnd | StackRestore | OtherIntrinsic

datatype instruction_kind =
    LoadInst
  | StoreInst
  | Call (isMarker: bool) (intrinsicOf: "intrinsic option") (calleeName: "string option") (noFree: bool)
  | OtherInst

text \<open>
  \<open>iTransfers\<close> says that control always reaches the next instruction, \<open>iDefines\<close> is the value it
  defines, \<open>iLastArg\<close> the last argument of a call.
\<close>

record instruction =
  iId :: nat
  iKind :: instruction_kind
  iTransfers :: bool
  iDefines :: "nat option"
  iLastArg :: "nat option"

definition startsWith :: "string \<Rightarrow> string \<Rightarrow> bool" where
  "startsWith prefix text = (take (length prefix) text = prefix)"

definition isRuntimeName :: "string \<Rightarrow> bool" where
  "isRuntimeName n \<longleftrightarrow> startsWith ''__weavec_'' n \<or> startsWith ''__weavec.'' n \<or> startsWith ''__ubsan_handle_'' n"

definition killsGuards :: "instruction \<Rightarrow> bool" where
  "killsGuards ins =
     (case iKind ins of
        Call mk intr nm nofree \<Rightarrow>
          if mk then False
          else (case intr of
                  Some LifetimeEnd \<Rightarrow> True
                | Some LifetimeStart \<Rightarrow> True
                | Some StackRestore \<Rightarrow> True
                | Some OtherIntrinsic \<Rightarrow> \<not> nofree
                | None \<Rightarrow>
                    (case nm of
                       Some n \<Rightarrow> if isRuntimeName n then False else \<not> nofree
                     | None \<Rightarrow> \<not> nofree))
      | _ \<Rightarrow> False)"

text \<open>
  A function: its blocks by number, the entry first; \<open>fnOrder\<close> is the reverse post-order
  of the blocks that can be reached.
\<close>

record func =
  fnBlocks :: "instruction list list"
  fnSuccs :: "nat \<Rightarrow> nat list"
  fnOrder :: "nat list"

definition blockOf :: "func \<Rightarrow> nat \<Rightarrow> instruction list" where
  "blockOf fn b = (if b < length (fnBlocks fn) then fnBlocks fn ! b else [])"

definition removable :: "access \<Rightarrow> bool" where
  "removable ac \<longleftrightarrow> acState ac = StateGuard \<and> constantAccess ac \<and> acBase ac \<noteq> None"

definition candidatesOf :: "access list \<Rightarrow> nat list" where
  "candidatesOf accesses = filter (\<lambda>i. removable (accesses ! i)) [0..<length accesses]"

definition byMarker :: "access list \<Rightarrow> instruction \<Rightarrow> nat option" where
  "byMarker accesses ins = find (\<lambda>i. acMarker (accesses ! i) = iId ins) (candidatesOf accesses)"

subsection \<open>Rule 6.2: dominated guards\<close>

text \<open>
  The bytes of one access inside those of another: the widths are cast to signed 64-bit
  integers first.
\<close>

definition bytesInside :: "access \<Rightarrow> access \<Rightarrow> bool" where
  "bytesInside guard ac \<longleftrightarrow> acOffset guard \<le> acOffset ac \<and>
     acOffset ac + sint (acWidth ac) \<le> acOffset guard + sint (acWidth guard)"

definition coveredBy :: "access list \<Rightarrow> nat set \<Rightarrow> nat \<Rightarrow> bool" where
  "coveredBy accesses available c \<longleftrightarrow>
     (\<exists>other \<in> set (candidatesOf accesses). other \<noteq> c \<and> other \<in> available \<and>
        acBase (accesses ! other) = acBase (accesses ! c) \<and>
        bytesInside (accesses ! other) (accesses ! c))"

definition transferOne :: "access list \<Rightarrow> instruction \<Rightarrow> nat set \<Rightarrow> nat set" where
  "transferOne accesses ins available =
     (let available = (if killsGuards ins then {} else available)
      in case byMarker accesses ins of None \<Rightarrow> available | Some c \<Rightarrow> insert c available)"

definition transfer :: "access list \<Rightarrow> instruction list \<Rightarrow> nat set \<Rightarrow> nat set" where
  "transfer accesses block available = fold (transferOne accesses) block available"

text \<open>The markers of a block that the guards available there cover.\<close>

fun decide :: "access list \<Rightarrow> instruction list \<Rightarrow> nat set \<Rightarrow> nat list" where
  "decide accesses [] available = []"
| "decide accesses (ins # block) available =
     (let before = (if killsGuards ins then {} else available);
          rest = decide accesses block (transferOne accesses ins available)
      in case byMarker accesses ins of
           None \<Rightarrow> rest
         | Some c \<Rightarrow> if coveredBy accesses before c then c # rest else rest)"

definition predecessors :: "func \<Rightarrow> nat \<Rightarrow> nat list" where
  "predecessors fn b = filter (\<lambda>p. b \<in> set (fnSuccs fn p)) [0..<length (fnBlocks fn)]"

text \<open>\<open>out\<close> of the blocks in the order; the sets at the start of a block.\<close>

type_synonym flow = "nat \<Rightarrow> nat set option"

definition inOf :: "access list \<Rightarrow> func \<Rightarrow> flow \<Rightarrow> nat \<Rightarrow> nat set" where
  "inOf accesses fn out b =
     (if b = 0 then {}
      else
        let known = filter (\<lambda>p. out p \<noteq> None) (predecessors fn b)
        in if known = [] then {}
           else fold (\<lambda>p available. available \<inter> the (out p)) known (set (candidatesOf accesses)))"

fun sweep :: "access list \<Rightarrow> func \<Rightarrow> nat list \<Rightarrow> flow \<times> bool \<Rightarrow> flow \<times> bool" where
  "sweep accesses fn [] (out, changed) = (out, changed)"
| "sweep accesses fn (b # order) (out, changed) =
     (let next = transfer accesses (blockOf fn b) (inOf accesses fn out b)
      in if out b \<noteq> Some next
         then sweep accesses fn order (out(b \<mapsto> next), True)
         else sweep accesses fn order (out, changed))"

partial_function (option) sweeps :: "access list \<Rightarrow> func \<Rightarrow> flow \<Rightarrow> flow option" where
  "sweeps accesses fn out =
     (let r = sweep accesses fn (fnOrder fn) (out, False)
      in if snd r then sweeps accesses fn (fst r) else Some (fst r))"

definition initialOut :: "access list \<Rightarrow> func \<Rightarrow> flow" where
  "initialOut accesses fn b =
     (if b \<in> set (fnOrder fn) then Some (if b = 0 then {} else set (candidatesOf accesses)) else None)"

abbreviation (input) MaxCandidates :: nat where "MaxCandidates \<equiv> 20000"

definition markDominated :: "nat list \<Rightarrow> access list \<Rightarrow> access list" where
  "markDominated cs accesses = fold (\<lambda>c accs. accs[c := (accs ! c)\<lparr>acState := StateDominated\<rparr>]) cs accesses"

definition removeDominated :: "func \<Rightarrow> access list \<Rightarrow> access list option" where
  "removeDominated fn accesses =
     (let n = length (candidatesOf accesses)
      in if n = 0 \<or> n > MaxCandidates \<or> length (fnBlocks fn) > MaxCandidates then Some accesses
         else map_option (\<lambda>out.
                markDominated (concat (map (\<lambda>b. decide accesses (blockOf fn b) (inOf accesses fn out b)) (fnOrder fn)))
                  accesses)
              (sweeps accesses fn (initialOut accesses fn)))"

subsection \<open>Rule 6.3: merged guards\<close>

abbreviation (input) MaxHull :: int where "MaxHull \<equiv> 64"

definition openGuards :: "access \<Rightarrow> access" where
  "openGuards ac = ac\<lparr>acGuardOffset := acOffset ac, acGuardWidth := acWidth ac\<rparr>"

definition stopsMerging :: "instruction \<Rightarrow> bool" where
  "stopsMerging ins \<longleftrightarrow> killsGuards ins \<or>
     ((case iKind ins of Call mk _ _ _ \<Rightarrow> \<not> mk | _ \<Rightarrow> True) \<and>
      iKind ins \<noteq> LoadInst \<and> iKind ins \<noteq> StoreInst \<and> \<not> iTransfers ins)"

definition mergeOne ::
  "(instruction \<Rightarrow> nat option) \<Rightarrow> instruction \<Rightarrow> access list \<times> (nat \<Rightarrow> nat option) \<Rightarrow> access list \<times> (nat \<Rightarrow> nat option)"
where
  "mergeOne marker ins st =
     (let (accs, opened) = st
      in case marker ins of
           Some i \<Rightarrow>
             let ac = accs ! i; b = the (acBase ac)
             in (case opened b of
                   Some g \<Rightarrow>
                     let guard = accs ! g;
                         low = min (acGuardOffset guard) (acOffset ac);
                         high = max (acGuardOffset guard + sint (acGuardWidth guard)) (acOffset ac + sint (acWidth ac))
                     in if high - low \<le> MaxHull
                        then ((accs[g := guard\<lparr>acGuardOffset := low, acGuardWidth := word_of_int (high - low)\<rparr>])
                                [i := ac\<lparr>acState := StateMerged, acLeader := g\<rparr>], opened)
                        else (accs, opened(b \<mapsto> i))
                 | None \<Rightarrow> (accs, opened(b \<mapsto> i)))
         | None \<Rightarrow> if stopsMerging ins then (accs, \<lambda>_. None) else (accs, opened))"

definition mergeBlock :: "(instruction \<Rightarrow> nat option) \<Rightarrow> instruction list \<Rightarrow> access list \<Rightarrow> access list" where
  "mergeBlock marker block accs = fst (fold (mergeOne marker) block (accs, \<lambda>_. None))"

definition mergeInBlocks :: "func \<Rightarrow> access list \<Rightarrow> access list" where
  "mergeInBlocks fn accesses =
     (let accs = map openGuards accesses
      in fold (mergeBlock (byMarker accs)) (fnBlocks fn) accs)"

subsection \<open>Escapes\<close>

text \<open>A use of a pointer: what the user is, and the value it makes of it.\<close>

datatype pointer_use =
    Derived nat
  | LoadOrCompare
  | StoreOf (asValue: bool)
  | AtomicRmw (asOperand: bool)
  | CmpXchg (asPointer: bool)
  | MarkerCall
  | BenignIntrinsic
  | OtherCall
  | OtherUse

fun useEscapes :: "pointer_use \<Rightarrow> bool" where
  "useEscapes (Derived _) = False"
| "useEscapes LoadOrCompare = False"
| "useEscapes (StoreOf v) = v"
| "useEscapes (AtomicRmw v) = v"
| "useEscapes (CmpXchg p) = (\<not> p)"
| "useEscapes MarkerCall = False"
| "useEscapes BenignIntrinsic = False"
| "useEscapes OtherCall = True"
| "useEscapes OtherUse = True"

text \<open>One value's uses: escapes, or the values not seen before that come onto the work list.\<close>

fun scanUses :: "pointer_use list \<Rightarrow> nat list \<Rightarrow> nat list \<Rightarrow> (nat list \<times> nat list) option" where
  "scanUses [] work seen = Some (work, seen)"
| "scanUses (u # us) work seen =
     (case u of
        Derived v \<Rightarrow> if v \<in> set seen then scanUses us work seen else scanUses us (v # work) (v # seen)
      | _ \<Rightarrow> if useEscapes u then None else scanUses us work seen)"

partial_function (option) escapesLoop :: "(nat \<Rightarrow> pointer_use list) \<Rightarrow> nat list \<Rightarrow> nat list \<Rightarrow> bool option" where
  "escapesLoop uses work seen =
     (case work of
        [] \<Rightarrow> Some False
      | v # rest \<Rightarrow>
          (case scanUses (uses v) rest seen of
             None \<Rightarrow> Some True
           | Some (work', seen') \<Rightarrow> escapesLoop uses work' seen'))"

definition escapes :: "(nat \<Rightarrow> pointer_use list) \<Rightarrow> nat \<Rightarrow> bool option" where
  "escapes uses al = escapesLoop uses [al] [al]"

subsection \<open>Expansion\<close>

definition reasonOf :: "access_state \<Rightarrow> string" where
  "reasonOf st =
     (case st of StateInBounds \<Rightarrow> ''in-bounds'' | StateDominated \<Rightarrow> ''dominated''
      | StateMerged \<Rightarrow> ''merged'' | StateGuard \<Rightarrow> ''access'')"

text \<open>
  What the expansion of one access calls when it runs. \<open>value\<close> gives the run-time value of
  an LLVM value, \<open>site\<close> the site record for the flags, \<open>root\<close> the access's root if it
  has one; a string's length that nothing reads is \<open>unused\<close>.
\<close>

definition hullAddress :: "(nat \<Rightarrow> u64) \<Rightarrow> access \<Rightarrow> u64" where
  "hullAddress value ac = value (the (acBase ac)) + word_of_int (acGuardOffset ac)"

definition expandString ::
  "bool \<Rightarrow> shadow_t \<Rightarrow> (nat \<Rightarrow> u64) \<Rightarrow> (u64 \<Rightarrow> site) \<Rightarrow> bool \<Rightarrow> u64 option \<Rightarrow> root_check option \<Rightarrow> access \<Rightarrow> slow_call list"
where
  "expandString little s value site unused bound root ac =
     (case root of Some r \<Rightarrow> colorCheck s (value (acPointer ac)) 1 (site 0) r | None \<Rightarrow> []) @
     (let flags = (if acNullOk ac then 8 else 0)
      in case bound of
           Some b \<Rightarrow>
             if unused \<and> b \<noteq> 0 \<and> b \<le> 113 \<and> little
             then chunkCheckString s (value (acPointer ac)) b (site flags)
             else [CallStrlen (value (acPointer ac)) b (site flags)]
         | None \<Rightarrow> [CallStrlen (value (acPointer ac)) (value (the (acLength ac))) (site flags)])"

definition expandGuard ::
  "bool \<Rightarrow> bool \<Rightarrow> shadow_t \<Rightarrow> (nat \<Rightarrow> u64) \<Rightarrow> (u64 \<Rightarrow> site) \<Rightarrow> member list \<Rightarrow> root_check option \<Rightarrow> access \<Rightarrow> slow_call list"
where
  "expandGuard little verify s value site members root ac =
     (let removed = (acState ac \<noteq> StateGuard \<or> acPruned ac)
      in if removed \<and> \<not> verify then []
         else
           let flags = (if acWrite ac then 1 else 0) OR (if removed then 4 else 0);
               root = (if removed then None else root);
               nullBase = map_option value (acNullBase ac)
           in case acLength ac of
                Some len \<Rightarrow>
                  (case root of Some r \<Rightarrow> colorCheck s (value (acPointer ac)) (value len) (site flags) r | None \<Rightarrow> []) @
                  emitRange little s (value (acPointer ac)) (value len) (site flags)
              | None \<Rightarrow>
                  if acState ac = StateGuard \<and>
                     (acGuardOffset ac \<noteq> acOffset ac \<or> acGuardWidth ac \<noteq> acWidth ac)
                  then emitGuard little s (hullAddress value ac) (acGuardWidth ac) 1 (site flags) nullBase members root
                  else emitGuard little s (value (acPointer ac)) (acWidth ac) (acAlign ac) (site flags) nullBase [] root)"

end
