(* ===== verification/Dominated.thy ===== *)
theory Dominated
  imports Access_Rules
begin

text \<open>
  Rule 6.2 of \<open>GuardExpand.cpp\<close>: the guards \<open>removeDominated\<close> removes are redundant on
  every execution. An execution is a path through the instructions of the function; the
  data-flow solution is below what every path has made available, and single assignment
  makes the base of an available guard the base of the access.
\<close>

subsection \<open>Paths\<close>

definition insAt :: "func \<Rightarrow> nat \<times> nat \<Rightarrow> instruction" where
  "insAt fn p = blockOf fn (fst p) ! snd p"

definition markedAt :: "func \<Rightarrow> access list \<Rightarrow> nat \<times> nat \<Rightarrow> nat option" where
  "markedAt fn accesses p = byMarker accesses (insAt fn p)"

text \<open>The positions executed before a position is reached.\<close>

inductive path :: "func \<Rightarrow> nat \<times> nat \<Rightarrow> (nat \<times> nat) list \<Rightarrow> bool" for fn where
  path_start: "path fn (0, 0) []"
| path_next: "path fn (b, i) T \<Longrightarrow> i < length (blockOf fn b) \<Longrightarrow> path fn (b, Suc i) (T @ [(b, i)])"
| path_jump: "path fn (b, length (blockOf fn b)) T \<Longrightarrow> b' \<in> set (fnSuccs fn b) \<Longrightarrow> path fn (b', 0) T"

definition cfg_ok :: "func \<Rightarrow> bool" where
  "cfg_ok fn \<longleftrightarrow> (\<exists>rest. fnOrder fn = 0 # rest) \<and> distinct (fnOrder fn) \<and>
     (\<forall>b \<in> set (fnOrder fn). b < length (fnBlocks fn) \<and> set (fnSuccs fn b) \<subseteq> set (fnOrder fn))"

text \<open>What a path has made available: the markers since the last kill.\<close>

definition traceSet :: "func \<Rightarrow> access list \<Rightarrow> (nat \<times> nat) list \<Rightarrow> nat set" where
  "traceSet fn accesses T = fold (\<lambda>p. transferOne accesses (insAt fn p)) T {}"

lemma traceSet_snoc: "traceSet fn accesses (T @ [p]) = transferOne accesses (insAt fn p) (traceSet fn accesses T)"
  by (simp add: traceSet_def)

lemma traceSet_iff:
  "c \<in> traceSet fn accesses T \<longleftrightarrow>
   (\<exists>T1 p T2. T = T1 @ p # T2 \<and> markedAt fn accesses p = Some c \<and> (\<forall>q \<in> set T2. \<not> killsGuards (insAt fn q)))"
proof (induction T rule: rev_induct)
  case Nil
  then show ?case by (simp add: traceSet_def)
next
  case (snoc x T)
  let ?occ = "\<lambda>T. \<exists>T1 p T2. T = T1 @ p # T2 \<and> markedAt fn accesses p = Some c \<and> (\<forall>q \<in> set T2. \<not> killsGuards (insAt fn q))"
  have "?occ (T @ [x]) \<longleftrightarrow> markedAt fn accesses x = Some c \<or> (\<not> killsGuards (insAt fn x) \<and> ?occ T)"
  proof
    assume "?occ (T @ [x])"
    then obtain T1 p T2 where h: "T @ [x] = T1 @ p # T2" "markedAt fn accesses p = Some c"
      "\<forall>q \<in> set T2. \<not> killsGuards (insAt fn q)" by blast
    show "markedAt fn accesses x = Some c \<or> (\<not> killsGuards (insAt fn x) \<and> ?occ T)"
    proof (cases T2 rule: rev_cases)
      case Nil
      then show ?thesis using h by auto
    next
      case (snoc T2' y)
      then have T: "T = T1 @ p # T2'" "y = x" using h(1) by (simp_all flip: append_Cons append_assoc)
      then have "?occ T" using h(2,3) snoc by (intro exI [of _ T1] exI [of _ p] exI [of _ T2']) simp
      then show ?thesis using h(3) snoc T by simp
    qed
  next
    assume "markedAt fn accesses x = Some c \<or> (\<not> killsGuards (insAt fn x) \<and> ?occ T)"
    then show "?occ (T @ [x])"
    proof
      assume "markedAt fn accesses x = Some c"
      then show ?thesis by (intro exI [of _ T] exI [of _ x] exI [of _ "[]"]) simp
    next
      assume "\<not> killsGuards (insAt fn x) \<and> ?occ T"
      then obtain T1 p T2 where "T = T1 @ p # T2" "markedAt fn accesses p = Some c"
        "\<forall>q \<in> set T2. \<not> killsGuards (insAt fn q)" "\<not> killsGuards (insAt fn x)" by blast
      then show ?thesis by (intro exI [of _ T1] exI [of _ p] exI [of _ "T2 @ [x]"]) simp
    qed
  qed
  then show ?case
    using snoc by (auto simp: traceSet_snoc transferOne_def markedAt_def Let_def split: option.splits)
qed

lemma path_prefix: "path fn q (T1 @ p # T2) \<Longrightarrow> path fn p T1"
proof (induction q "T1 @ p # T2" arbitrary: T2 rule: path.induct)
  case (path_next b i T)
  show ?case
  proof (cases T2 rule: rev_cases)
    case Nil
    then show ?thesis using path_next by simp
  next
    case (snoc T2' y)
    then have "T = T1 @ p # T2'" using path_next.hyps(4) by (simp flip: append_Cons append_assoc)
    then show ?thesis using path_next.hyps(2) by blast
  qed
qed auto

lemma path_splice: "path fn q (A @ d # B) \<Longrightarrow> path fn d A' \<Longrightarrow> path fn q (A' @ d # B)"
proof (induction q "A @ d # B" arbitrary: B rule: path.induct)
  case (path_next b i T)
  show ?case
  proof (cases B rule: rev_cases)
    case Nil
    then have "d = (b, i)" using path_next.hyps(4) by simp
    then show ?thesis using path.path_next [of fn b i A'] path_next.prems path_next.hyps(3) Nil by simp
  next
    case (snoc B' y)
    then have T: "T = A @ d # B'" "y = (b, i)" using path_next.hyps(4) by (simp_all flip: append_Cons append_assoc)
    then have "path fn (b, i) (A' @ d # B')" using path_next.hyps(2) path_next.prems by blast
    then show ?thesis using path.path_next [of fn b i "A' @ d # B'"] path_next.hyps(3) snoc T by simp
  qed
next
  case (path_jump b T b')
  then show ?case using path.path_jump by blast
qed simp

subsection \<open>The data-flow solution\<close>

lemma transferOne_mono: "A \<subseteq> B \<Longrightarrow> transferOne accesses ins A \<subseteq> transferOne accesses ins B"
  by (auto simp: transferOne_def Let_def split: option.splits)

lemma transfer_mono: "A \<subseteq> B \<Longrightarrow> transfer accesses block A \<subseteq> transfer accesses block B"
  unfolding transfer_def by (induction block arbitrary: A B) (simp_all add: transferOne_mono)

lemma byMarker_candidate: "byMarker accesses ins = Some c \<Longrightarrow> c \<in> set (candidatesOf accesses)"
  by (auto simp: byMarker_def find_Some_iff)

lemma transfer_candidates:
  "A \<subseteq> set (candidatesOf accesses) \<Longrightarrow> transfer accesses block A \<subseteq> set (candidatesOf accesses)"
  unfolding transfer_def
proof (induction block arbitrary: A)
  case (Cons ins block)
  have "transferOne accesses ins A \<subseteq> set (candidatesOf accesses)"
    using Cons.prems byMarker_candidate by (auto simp: transferOne_def Let_def split: option.splits)
  then show ?case using Cons.IH by simp
qed simp

text \<open>The sets at a block's start are those all its known predecessors leave.\<close>

lemma fold_inter: "fold (\<lambda>p available. available \<inter> f p) ps S = S \<inter> (\<Inter>p \<in> set ps. f p)"
  by (induction ps arbitrary: S) auto

lemma inOf_pred:
  assumes "out p = Some X" "p < length (fnBlocks fn)" "b \<in> set (fnSuccs fn p)"
  shows "inOf accesses fn out b \<subseteq> X"
proof -
  have p: "p \<in> set (predecessors fn b)" using assms by (simp add: predecessors_def)
  show ?thesis
  proof
    fix c assume "c \<in> inOf accesses fn out b"
    then have "\<forall>q \<in> set (predecessors fn b). out q \<noteq> None \<longrightarrow> c \<in> the (out q)"
      by (auto simp: inOf_def Let_def fold_inter split: if_splits)
    then show "c \<in> X" using p assms(1) by fastforce
  qed
qed

lemma inOf_candidates: "inOf accesses fn out b \<subseteq> set (candidatesOf accesses)"
  by (auto simp: inOf_def Let_def fold_inter)

lemma inOf_mono:
  assumes "\<And>p. (out p = None \<longleftrightarrow> out' p = None)" "\<And>p. out p \<noteq> None \<Longrightarrow> the (out p) \<subseteq> the (out' p)"
  shows "inOf accesses fn out b \<subseteq> inOf accesses fn out' b"
proof -
  define known where "known = filter (\<lambda>p. out p \<noteq> None) (predecessors fn b)"
  have known': "filter (\<lambda>p. out' p \<noteq> None) (predecessors fn b) = known" using assms(1) by (simp add: known_def)
  have "(\<Inter>p \<in> set known. the (out p)) \<subseteq> (\<Inter>p \<in> set known. the (out' p))"
    using assms(2) by (intro INT_anti_mono order_refl) (auto simp: known_def)
  then show ?thesis unfolding inOf_def Let_def fold_inter known' known_def [symmetric] by auto
qed

definition flow_fix :: "access list \<Rightarrow> func \<Rightarrow> flow \<Rightarrow> bool" where
  "flow_fix accesses fn out \<longleftrightarrow> dom out = set (fnOrder fn) \<and>
     (\<forall>b \<in> set (fnOrder fn). out b = Some (transfer accesses (blockOf fn b) (inOf accesses fn out b)))"

definition availableAt :: "access list \<Rightarrow> func \<Rightarrow> flow \<Rightarrow> nat \<times> nat \<Rightarrow> nat set" where
  "availableAt accesses fn out p =
     transfer accesses (take (snd p) (blockOf fn (fst p))) (inOf accesses fn out (fst p))"

lemma path_available:
  assumes cfg: "cfg_ok fn" and fix_: "flow_fix accesses fn out" and p: "path fn p T"
  shows "fst p \<in> set (fnOrder fn) \<and> availableAt accesses fn out p \<subseteq> traceSet fn accesses T"
  using p
proof (induction rule: path.induct)
  case path_start
  then show ?case using cfg by (auto simp: cfg_ok_def availableAt_def transfer_def inOf_def)
next
  case (path_next b i T)
  have "availableAt accesses fn out (b, Suc i) =
      transferOne accesses (insAt fn (b, i)) (availableAt accesses fn out (b, i))"
    using path_next.hyps(2) by (simp add: availableAt_def transfer_def insAt_def take_Suc_conv_app_nth)
  then show ?case using path_next.IH by (simp add: traceSet_snoc transferOne_mono)
next
  case (path_jump b T b')
  have b: "b \<in> set (fnOrder fn)" "b < length (fnBlocks fn)" using path_jump.IH cfg by (auto simp: cfg_ok_def)
  then have out: "out b = Some (availableAt accesses fn out (b, length (blockOf fn b)))"
    using fix_ by (simp add: flow_fix_def availableAt_def)
  have "availableAt accesses fn out (b', 0) \<subseteq> availableAt accesses fn out (b, length (blockOf fn b))"
    using inOf_pred [where out = out and p = b and fn = fn and b = b' and accesses = accesses, OF out b(2) path_jump.hyps(2)] by (simp add: availableAt_def transfer_def)
  moreover have "b' \<in> set (fnOrder fn)" using path_jump.hyps(2) b cfg by (auto simp: cfg_ok_def)
  ultimately show ?case using path_jump.IH by auto
qed

subsection \<open>The sweeps reach the solution\<close>

text \<open>
  After the entry block's set is known, every set is above what its block makes of its
  predecessors, so a sweep only ever shrinks sets and the sum of their sizes bounds the sweeps.
\<close>

definition flow_above :: "access list \<Rightarrow> func \<Rightarrow> flow \<Rightarrow> bool" where
  "flow_above accesses fn out \<longleftrightarrow> dom out = set (fnOrder fn) \<and>
     (\<forall>b \<in> set (fnOrder fn). the (out b) \<subseteq> set (candidatesOf accesses) \<and>
        transfer accesses (blockOf fn b) (inOf accesses fn out b) \<subseteq> the (out b))"

definition flow_size :: "func \<Rightarrow> flow \<Rightarrow> nat" where
  "flow_size fn out = (\<Sum>b \<in> set (fnOrder fn). card (the (out b)))"

lemma flow_step:
  assumes above: "flow_above accesses fn out" and b: "b \<in> set (fnOrder fn)"
    and nxt: "nxt = transfer accesses (blockOf fn b) (inOf accesses fn out b)" and ne: "out b \<noteq> Some nxt"
  shows "flow_above accesses fn (out(b \<mapsto> nxt)) \<and> flow_size fn (out(b \<mapsto> nxt)) < flow_size fn out"
proof -
  obtain X where X: "out b = Some X" using above b by (force simp: flow_above_def)
  have nX: "nxt \<subset> X" "X \<subseteq> set (candidatesOf accesses)" using above b X ne nxt by (force simp: flow_above_def)+
  have mono: "inOf accesses fn (out(b \<mapsto> nxt)) b' \<subseteq> inOf accesses fn out b'" for b'
    using X nX by (intro inOf_mono) auto
  have above': "flow_above accesses fn (out(b \<mapsto> nxt))"
    unfolding flow_above_def
  proof (intro conjI ballI)
    show "dom (out(b \<mapsto> nxt)) = set (fnOrder fn)" using above b by (auto simp: flow_above_def)
    fix b' assume b': "b' \<in> set (fnOrder fn)"
    show "the ((out(b \<mapsto> nxt)) b') \<subseteq> set (candidatesOf accesses)"
      using above b' nX by (auto simp: flow_above_def)
    have "transfer accesses (blockOf fn b') (inOf accesses fn (out(b \<mapsto> nxt)) b')
        \<subseteq> transfer accesses (blockOf fn b') (inOf accesses fn out b')"
      by (intro transfer_mono mono)
    moreover have "transfer accesses (blockOf fn b') (inOf accesses fn out b') \<subseteq> the ((out(b \<mapsto> nxt)) b')"
      using above b' nxt by (auto simp: flow_above_def)
    ultimately show "transfer accesses (blockOf fn b') (inOf accesses fn (out(b \<mapsto> nxt)) b') \<subseteq> the ((out(b \<mapsto> nxt)) b')"
      by blast
  qed
  have "card nxt < card X" using nX by (intro psubset_card_mono) (auto intro: finite_subset)
  then have "flow_size fn (out(b \<mapsto> nxt)) < flow_size fn out"
    unfolding flow_size_def using b X by (intro sum_strict_mono_ex1) auto
  then show ?thesis using above' by blast
qed

definition flow_settled :: "access list \<Rightarrow> func \<Rightarrow> nat list \<Rightarrow> flow \<Rightarrow> bool" where
  "flow_settled accesses fn bs out \<longleftrightarrow>
     (\<forall>b \<in> set bs. out b = Some (transfer accesses (blockOf fn b) (inOf accesses fn out b)))"

lemma sweep_result:
  "flow_above accesses fn out \<Longrightarrow> set bs \<subseteq> set (fnOrder fn) \<Longrightarrow> sweep accesses fn bs (out, ch) = (out', ch') \<Longrightarrow>
   flow_above accesses fn out' \<and> flow_size fn out' \<le> flow_size fn out \<and>
   (ch' \<longrightarrow> ch \<or> flow_size fn out' < flow_size fn out) \<and>
   (\<not> ch' \<longrightarrow> \<not> ch \<and> out' = out \<and> flow_settled accesses fn bs out)"
proof (induction bs arbitrary: out ch)
  case Nil
  then show ?case by (simp add: flow_settled_def)
next
  case (Cons b bs)
  define nxt where "nxt = transfer accesses (blockOf fn b) (inOf accesses fn out b)"
  show ?case
  proof (cases "out b = Some nxt")
    case True
    then have "sweep accesses fn bs (out, ch) = (out', ch')" using Cons.prems(3) by (simp add: nxt_def)
    then show ?thesis
      using Cons.IH [of out ch] Cons.prems(1,2) True by (auto simp: flow_settled_def nxt_def)
  next
    case False
    define out1 where "out1 = out(b \<mapsto> nxt)"
    have step: "sweep accesses fn bs (out1, True) = (out', ch')" using False Cons.prems(3) by (simp add: nxt_def out1_def)
    have smaller: "flow_above accesses fn out1" "flow_size fn out1 < flow_size fn out"
      unfolding out1_def using flow_step [OF Cons.prems(1) _ nxt_def False] Cons.prems(2) by auto
    have "set bs \<subseteq> set (fnOrder fn)" using Cons.prems(2) by simp
    from Cons.IH [OF smaller(1) this step] smaller(2) show ?thesis by simp
  qed
qed

lemma settled_fix:
  "flow_above accesses fn out \<Longrightarrow> flow_settled accesses fn (fnOrder fn) out \<Longrightarrow> flow_fix accesses fn out"
  by (simp add: flow_above_def flow_settled_def flow_fix_def)

lemma sweeps_total:
  "flow_above accesses fn out \<Longrightarrow> \<exists>out'. sweeps accesses fn out = Some out' \<and> flow_fix accesses fn out'"
proof (induction "flow_size fn out" arbitrary: out rule: less_induct)
  case less
  obtain out' ch' where r: "sweep accesses fn (fnOrder fn) (out, False) = (out', ch')" by fastforce
  note res = sweep_result [OF less.prems order_refl r]
  show ?case
  proof (cases ch')
    case True
    then have "\<exists>o'. sweeps accesses fn out' = Some o' \<and> flow_fix accesses fn o'" using less.hyps res by auto
    then show ?thesis using r True by (subst sweeps.simps) simp
  next
    case False
    then have "flow_fix accesses fn out" using res less.prems by (auto intro: settled_fix)
    then show ?thesis using r False res by (subst sweeps.simps) simp
  qed
qed

text \<open>The entry block is first in the order, so the first step of the first sweep settles it.\<close>

lemma entry_above:
  fixes accesses :: "access list"
  assumes cfg: "cfg_ok fn"
  defines "E \<equiv> transfer accesses (blockOf fn 0) {}"
  shows "flow_above accesses fn ((initialOut accesses fn)(0 \<mapsto> E))"
proof -
  have E: "E \<subseteq> set (candidatesOf accesses)" unfolding E_def by (rule transfer_candidates) simp
  have 0: "0 \<in> set (fnOrder fn)" using cfg by (auto simp: cfg_ok_def)
  show ?thesis
    unfolding flow_above_def
  proof (intro conjI ballI)
    show "dom ((initialOut accesses fn)(0 \<mapsto> E)) = set (fnOrder fn)"
      using 0 by (auto simp: initialOut_def split: if_splits)
    fix b assume b: "b \<in> set (fnOrder fn)"
    show "the (((initialOut accesses fn)(0 \<mapsto> E)) b) \<subseteq> set (candidatesOf accesses)"
      using E b by (auto simp: initialOut_def)
    show "transfer accesses (blockOf fn b) (inOf accesses fn ((initialOut accesses fn)(0 \<mapsto> E)) b)
        \<subseteq> the (((initialOut accesses fn)(0 \<mapsto> E)) b)"
    proof (cases "b = 0")
      case True
      then show ?thesis by (simp add: E_def inOf_def)
    next
      case False
      then show ?thesis using transfer_candidates [OF inOf_candidates] b by (simp add: initialOut_def)
    qed
  qed
qed

lemma sweeps_initial:
  assumes cfg: "cfg_ok fn"
  shows "\<exists>out. sweeps accesses fn (initialOut accesses fn) = Some out \<and> flow_fix accesses fn out"
proof -
  define E where "E = transfer accesses (blockOf fn 0) {}"
  define out1 where "out1 = (initialOut accesses fn)(0 \<mapsto> E)"
  obtain rest where order: "fnOrder fn = 0 # rest" using cfg by (auto simp: cfg_ok_def)
  have above: "flow_above accesses fn out1" unfolding out1_def E_def using entry_above [OF cfg] .
  have init0: "initialOut accesses fn 0 = Some {}" by (simp add: initialOut_def order)
  have in0: "inOf accesses fn out 0 = {}" for out by (simp add: inOf_def)
  have step: "sweep accesses fn (fnOrder fn) (initialOut accesses fn, False) =
      sweep accesses fn rest (out1, E \<noteq> {})"
  proof (cases "E = {}")
    case True
    then have "out1 = initialOut accesses fn" using init0 by (auto simp: out1_def fun_eq_iff)
    then show ?thesis using True init0 by (simp add: order in0 E_def)
  next
    case False
    then show ?thesis using init0 by (auto simp: order in0 E_def out1_def)
  qed
  obtain out' ch' where r: "sweep accesses fn rest (out1, E \<noteq> {}) = (out', ch')" by fastforce
  have res: "flow_above accesses fn out'" "\<not> ch' \<Longrightarrow> E = {} \<and> out' = out1 \<and> flow_settled accesses fn rest out1"
    using sweep_result [OF above _ r] order by auto
  show ?thesis
  proof (cases ch')
    case True
    then show ?thesis using sweeps_total [OF res(1)] step r by (subst sweeps.simps) simp
  next
    case False
    have "flow_settled accesses fn (fnOrder fn) out1"
      using res(2) [OF False] by (simp add: flow_settled_def order in0 E_def [symmetric]) (simp add: out1_def)
    then have "flow_fix accesses fn out'" using res False by (auto intro: settled_fix)
    then show ?thesis using step r False by (subst sweeps.simps) simp
  qed
qed

subsection \<open>Single assignment\<close>

text \<open>A position of the function, and the position that defines a value.\<close>

definition position :: "func \<Rightarrow> nat \<times> nat \<Rightarrow> bool" where
  "position fn p \<longleftrightarrow> snd p < length (blockOf fn (fst p))"

definition defines_at :: "func \<Rightarrow> nat \<Rightarrow> nat \<times> nat \<Rightarrow> bool" where
  "defines_at fn v p \<longleftrightarrow> position fn p \<and> iDefines (insAt fn p) = Some v"

text \<open>
  What LLVM guarantees of the function: an instruction stands at one place, a value has one
  definition, the definition of a marker's base comes before the marker on every path, and
  a guard or range marker is a marker call that defines nothing.
\<close>

definition ssa_ok :: "func \<Rightarrow> access list \<Rightarrow> bool" where
  "ssa_ok fn accesses \<longleftrightarrow>
     (\<forall>p q. position fn p \<longrightarrow> position fn q \<longrightarrow> iId (insAt fn p) = iId (insAt fn q) \<longrightarrow> p = q) \<and>
     (\<forall>p q v. defines_at fn v p \<longrightarrow> defines_at fn v q \<longrightarrow> p = q) \<and>
     (\<forall>p c v d T. position fn p \<longrightarrow> markedAt fn accesses p = Some c \<longrightarrow> acBase (accesses ! c) = Some v \<longrightarrow>
        defines_at fn v d \<longrightarrow> path fn p T \<longrightarrow> d \<in> set T) \<and>
     (\<forall>p c. position fn p \<longrightarrow> markedAt fn accesses p = Some c \<longrightarrow>
        \<not> killsGuards (insAt fn p) \<and> iDefines (insAt fn p) = None)"

lemma ssa_base:
  assumes "ssa_ok fn accesses" "position fn p" "markedAt fn accesses p = Some c"
    "acBase (accesses ! c) = Some v" "defines_at fn v d" "path fn p T"
  shows "d \<in> set T"
  using assms unfolding ssa_ok_def by blast

lemma ssa_unique:
  assumes "ssa_ok fn accesses" "defines_at fn v d" "defines_at fn v q"
  shows "q = d"
  using assms unfolding ssa_ok_def by blast

lemma ssa_marker:
  assumes "ssa_ok fn accesses" "position fn p" "markedAt fn accesses p = Some c"
  shows "\<not> killsGuards (insAt fn p)" "iDefines (insAt fn p) = None"
  using assms unfolding ssa_ok_def by blast+

lemma path_positions: "path fn p T \<Longrightarrow> q \<in> set T \<Longrightarrow> position fn q"
  by (induction rule: path.induct) (auto simp: position_def)

text \<open>
  An occurrence of a marker on a path after which nothing kills guards and nothing defines
  its base again.
\<close>

definition fresh_at :: "func \<Rightarrow> nat \<Rightarrow> (nat \<times> nat) list \<Rightarrow> bool" where
  "fresh_at fn v T \<longleftrightarrow> (\<forall>q \<in> set T. \<not> killsGuards (insAt fn q) \<and> iDefines (insAt fn q) \<noteq> Some v)"

text \<open>
  Between the last definition of the base and the access, cut the path at the definition and
  reach the definition another way, for the first time: a guard that is available on that
  path too must come after the definition.
\<close>

lemma first_split: "xs @ x # ys = xs' @ x # ys' \<Longrightarrow> x \<notin> set xs \<Longrightarrow> x \<notin> set xs' \<Longrightarrow> ys = ys'"
proof (induction xs arbitrary: xs')
  case Nil
  then show ?case by (cases xs') auto
next
  case (Cons a xs)
  then show ?case by (cases xs') auto
qed

lemma fresh_available:
  assumes cfg: "cfg_ok fn" and ssa: "ssa_ok fn accesses" and flow: "flow_fix accesses fn out"
    and p: "path fn p T" "position fn p" "markedAt fn accesses p = Some c"
    and v: "acBase (accesses ! c) = Some v" "acBase (accesses ! g) = Some v"
    and g: "g \<in> availableAt accesses fn out p"
  shows "\<exists>T1 q T2. T = T1 @ q # T2 \<and> markedAt fn accesses q = Some g \<and> fresh_at fn v T2"
proof (cases "\<exists>d. defines_at fn v d")
  case False
  have "g \<in> traceSet fn accesses T" using path_available [OF cfg flow p(1)] g by blast
  then obtain T1 q T2 where T: "T = T1 @ q # T2" "markedAt fn accesses q = Some g"
    "\<forall>q \<in> set T2. \<not> killsGuards (insAt fn q)" by (auto simp: traceSet_iff)
  have "\<forall>q \<in> set T2. position fn q" using path_positions [OF p(1)] T(1) by auto
  then have "fresh_at fn v T2" using T(3) False by (auto simp: fresh_at_def defines_at_def)
  then show ?thesis using T by blast
next
  case True
  then obtain d where d: "defines_at fn v d" by blast
  have "d \<in> set T" using ssa_base [OF ssa p(2,3) v(1) d p(1)] .
  then obtain A0 B0 where first: "T = A0 @ d # B0" "d \<notin> set A0" by (meson split_list_first)
  obtain A B where last: "T = A @ d # B" "d \<notin> set B" using \<open>d \<in> set T\<close> by (meson split_list_last)
  have path0: "path fn d A0" using path_prefix p(1) first(1) by blast
  have spliced: "path fn p (A0 @ d # B)" using path_splice [OF _ path0] p(1) last(1) by blast
  have "g \<in> traceSet fn accesses (A0 @ d # B)" using path_available [OF cfg flow spliced] g by blast
  then obtain T1 q T2 where T: "A0 @ d # B = T1 @ q # T2" "markedAt fn accesses q = Some g"
    "\<forall>q \<in> set T2. \<not> killsGuards (insAt fn q)" by (auto simp: traceSet_iff)
  have "path fn q T1" using path_prefix spliced T(1) by metis
  moreover have "position fn q" using path_positions [OF spliced, of q] T(1) by simp
  ultimately have "d \<in> set T1" using ssa_base [OF ssa _ T(2) v(2) d] by blast
  then obtain C D where T1: "T1 = C @ d # D" "d \<notin> set C" by (meson split_list_first)
  have "B = D @ q # T2" using first_split [of A0 d B C "D @ q # T2"] T(1) T1 first(2) by simp
  then have split: "T = (A @ d # D) @ q # T2" "d \<notin> set T2" using last by auto
  have "position fn r" "r \<noteq> d" if r: "r \<in> set T2" for r
    using r split path_positions [OF p(1), of r] by auto
  then have "iDefines (insAt fn r) \<noteq> Some v" if r: "r \<in> set T2" for r
    using r ssa_unique [OF ssa d, of r] unfolding defines_at_def by blast
  then have "fresh_at fn v T2" using T(3) by (simp add: fresh_at_def)
  then show ?thesis using split T(2) by blast
qed

subsection \<open>What is decided\<close>

lemma decide_set:
  "c \<in> set (decide accesses block available) \<longleftrightarrow>
   (\<exists>i < length block. byMarker accesses (block ! i) = Some c \<and>
      coveredBy accesses (if killsGuards (block ! i) then {} else transfer accesses (take i block) available) c)"
proof (induction block arbitrary: available)
  case (Cons ins block)
  have "c \<in> set (decide accesses (ins # block) available) \<longleftrightarrow>
      (byMarker accesses ins = Some c \<and> coveredBy accesses (if killsGuards ins then {} else available) c) \<or>
      c \<in> set (decide accesses block (transferOne accesses ins available))"
    by (auto simp: Let_def split: option.splits)
  then show ?case unfolding Cons.IH by (simp add: Ex_less_Suc2 transfer_def)
qed simp

lemma coveredBy_empty: "\<not> coveredBy accesses {} c"
  by (simp add: coveredBy_def)

lemma markDominated_length [simp]: "length (markDominated cs accesses) = length accesses"
  unfolding markDominated_def by (induction cs arbitrary: accesses) auto

lemma markDominated_nth:
  "i < length accesses \<Longrightarrow> markDominated cs accesses ! i =
     (if i \<in> set cs then (accesses ! i)\<lparr>acState := StateDominated\<rparr> else accesses ! i)"
  unfolding markDominated_def
proof (induction cs arbitrary: accesses)
  case (Cons a cs)
  then show ?case by (cases "a = i") (simp_all add: nth_list_update)
qed simp

definition dominatedSet :: "access list \<Rightarrow> func \<Rightarrow> flow \<Rightarrow> nat list" where
  "dominatedSet accesses fn out =
     concat (map (\<lambda>b. decide accesses (blockOf fn b) (inOf accesses fn out b)) (fnOrder fn))"

lemma dominatedSet_iff:
  assumes ssa: "ssa_ok fn accesses"
    and p: "position fn p" "fst p \<in> set (fnOrder fn)" "markedAt fn accesses p = Some c"
  shows "c \<in> set (dominatedSet accesses fn out) \<longleftrightarrow> coveredBy accesses (availableAt accesses fn out p) c"
proof
  have cm: "iId (insAt fn q) = acMarker (accesses ! c)" if q: "markedAt fn accesses q = Some c" for q
    using q by (auto simp: markedAt_def byMarker_def find_Some_iff)
  assume "c \<in> set (dominatedSet accesses fn out)"
  then obtain b i where b: "i < length (blockOf fn b)" "byMarker accesses (blockOf fn b ! i) = Some c"
    and cov: "coveredBy accesses (if killsGuards (blockOf fn b ! i) then {}
       else transfer accesses (take i (blockOf fn b)) (inOf accesses fn out b)) c"
    by (auto simp: dominatedSet_def decide_set)
  have at: "position fn (b, i)" "markedAt fn accesses (b, i) = Some c"
    using b by (simp_all add: position_def markedAt_def insAt_def)
  then have "p = (b, i)" using ssa p(1) cm [OF p(3)] cm [OF at(2)] unfolding ssa_ok_def by metis
  then show "coveredBy accesses (availableAt accesses fn out p) c"
    using cov by (auto simp: availableAt_def coveredBy_empty split: if_splits)
next
  assume cov: "coveredBy accesses (availableAt accesses fn out p) c"
  have "\<not> killsGuards (insAt fn p)" using ssa_marker ssa p by blast
  then have "c \<in> set (decide accesses (blockOf fn (fst p)) (inOf accesses fn out (fst p)))"
    using cov p(1,3) by (auto simp: decide_set position_def markedAt_def insAt_def availableAt_def)
  then show "c \<in> set (dominatedSet accesses fn out)" using p(2) by (auto simp: dominatedSet_def)
qed

text \<open>Following a chain of removed guards back ends at one that is kept.\<close>

lemma kept_guard:
  assumes cfg: "cfg_ok fn" and ssa: "ssa_ok fn accesses" and flow: "flow_fix accesses fn out"
  shows "path fn p T \<Longrightarrow> position fn p \<Longrightarrow> markedAt fn accesses p = Some c \<Longrightarrow>
    acBase (accesses ! c) = Some v \<Longrightarrow> c \<in> set (dominatedSet accesses fn out) \<Longrightarrow>
    \<exists>T1 q T2 g. T = T1 @ q # T2 \<and> markedAt fn accesses q = Some g \<and> fresh_at fn v T2 \<and>
      g \<notin> set (dominatedSet accesses fn out) \<and> acBase (accesses ! g) = Some v \<and>
      bytesInside (accesses ! g) (accesses ! c)"
proof (induction "length T" arbitrary: p T c rule: less_induct)
  case less
  have "fst p \<in> set (fnOrder fn)" using path_available [OF cfg flow less.prems(1)] by blast
  then have "coveredBy accesses (availableAt accesses fn out p) c"
    using dominatedSet_iff [OF ssa less.prems(2) _ less.prems(3)] less.prems(5) by blast
  then obtain g where g: "g \<in> availableAt accesses fn out p" "acBase (accesses ! g) = Some v"
    "bytesInside (accesses ! g) (accesses ! c)" using less.prems(4) by (auto simp: coveredBy_def)
  obtain T1 q T2 where T: "T = T1 @ q # T2" "markedAt fn accesses q = Some g" "fresh_at fn v T2"
    using fresh_available [OF cfg ssa flow less.prems(1-4) g(2,1)] by blast
  show ?case
  proof (cases "g \<in> set (dominatedSet accesses fn out)")
    case False
    then show ?thesis using T g by blast
  next
    case True
    have q: "path fn q T1" "position fn q" using T(1) path_prefix path_positions less.prems(1) by (blast, auto)
    then obtain T1' q' T2' g' where r: "T1 = T1' @ q' # T2'" "markedAt fn accesses q' = Some g'" "fresh_at fn v T2'"
      "g' \<notin> set (dominatedSet accesses fn out)" "acBase (accesses ! g') = Some v"
      "bytesInside (accesses ! g') (accesses ! g)"
      using less.hyps [OF _ q T(2) g(2) True] T(1) by auto
    have "fresh_at fn v (T2' @ q # T2)"
      using r(3) T(3) ssa_marker [OF ssa q(2) T(2)] by (auto simp: fresh_at_def)
    moreover have "bytesInside (accesses ! g') (accesses ! c)" using r(6) g(3) by (auto simp: bytesInside_def)
    ultimately show ?thesis using r T(1) by (intro exI [of _ T1'] exI [of _ q'] exI [of _ "T2' @ q # T2"] exI [of _ g']) simp
  qed
qed

subsection \<open>The pass\<close>

lemma removeDominated_result:
  assumes "cfg_ok fn"
  shows "removeDominated fn accesses = Some accesses \<or>
    (\<exists>out. flow_fix accesses fn out \<and>
       removeDominated fn accesses = Some (markDominated (dominatedSet accesses fn out) accesses))"
proof -
  obtain out where "sweeps accesses fn (initialOut accesses fn) = Some out" "flow_fix accesses fn out"
    using sweeps_initial [OF assms] by blast
  then show ?thesis by (auto simp: removeDominated_def Let_def dominatedSet_def)
qed

lemma byMarker_found:
  assumes "byMarker accesses ins = Some c"
  shows "c < length accesses \<and> removable (accesses ! c) \<and> acMarker (accesses ! c) = iId ins"
proof -
  have "acMarker (accesses ! c) = iId ins" using assms by (auto simp: byMarker_def find_Some_iff)
  then show ?thesis using byMarker_candidate [OF assms] by (simp add: candidatesOf_def)
qed

lemma byMarker_own:
  assumes c: "c < length accesses" "removable (accesses ! c)" "iId ins = acMarker (accesses ! c)"
    and d: "distinct (map acMarker accesses)"
  shows "byMarker accesses ins = Some c"
proof -
  have "c \<in> set (candidatesOf accesses)" using c by (simp add: candidatesOf_def)
  then obtain c' where c': "byMarker accesses ins = Some c'" using c(3)
    by (cases "byMarker accesses ins") (auto simp: byMarker_def find_None_iff)
  then have "c' < length accesses" "acMarker (accesses ! c') = acMarker (accesses ! c)"
    using byMarker_found [OF c'] c(3) by simp_all
  then show ?thesis using c' c(1) d by (metis length_map nth_eq_iff_index_eq nth_map)
qed

lemma bytesInside_bytes:
  assumes "bytesInside guard ac" "uint (acWidth guard) < 2 ^ 63" "uint (acWidth ac) < 2 ^ 63"
  shows "acOffset guard \<le> acOffset ac \<and>
     acOffset ac + uint (acWidth ac) \<le> acOffset guard + uint (acWidth guard)"
proof -
  have "sint w = uint w" if w: "uint w < 2 ^ 63" for w :: u64
    using w by (simp add: sint_uint signed_take_bit_int_eq_self_iff order.trans [OF _ uint_nonnegative])
  then show ?thesis using assms by (simp add: bytesInside_def)
qed

text \<open>
  C29: Rule 6.2 ends: on every control flow graph whose order starts at the entry and holds
  the blocks that can be reached, the sweeps over the data-flow sets reach a solution, and
  \<open>removeDominated\<close> returns.
\<close>

theorem removeDominated_total: "cfg_ok fn \<Longrightarrow> \<exists>accesses'. removeDominated fn accesses = Some accesses'"
  using removeDominated_result by blast


text \<open>A function with a loop: a guard at the entry, and an access to part of its bytes in the loop.\<close>

definition loopMarker :: "nat \<Rightarrow> instruction" where
  "loopMarker n = \<lparr>iId = n, iKind = Call True None None True, iTransfers = True, iDefines = None, iLastArg = None\<rparr>"

definition loopFunction :: func where
  "loopFunction = \<lparr>fnBlocks = [[loopMarker 2], [loopMarker 3]],
     fnSuccs = (\<lambda>b. if b \<le> 1 then [1] else []), fnOrder = [0, 1]\<rparr>"

definition loopAccess :: "nat \<Rightarrow> int \<Rightarrow> u64 \<Rightarrow> access" where
  "loopAccess n off w = emptyAccess\<lparr>acMarker := n, acWidth := w, acBase := Some 5, acOffset := off\<rparr>"

lemma loop_ok:
  "cfg_ok loopFunction" "ssa_ok loopFunction accesses"
proof -
  have at: "position loopFunction p \<Longrightarrow> p = (0, 0) \<or> p = (1, 0)" for p
    by (cases p) (auto simp: position_def blockOf_def loopFunction_def nth_Cons less_Suc_eq split: if_splits nat.splits)
  have ins: "insAt loopFunction (0, 0) = loopMarker 2" "insAt loopFunction (1, 0) = loopMarker 3"
    by (simp_all add: insAt_def blockOf_def loopFunction_def)
  have plain: "position loopFunction p \<Longrightarrow> \<not> killsGuards (insAt loopFunction p) \<and> iDefines (insAt loopFunction p) = None" for p
    using at [of p] ins by (auto simp: loopMarker_def killsGuards_def)
  have same: "position loopFunction p \<Longrightarrow> position loopFunction q \<Longrightarrow>
      iId (insAt loopFunction p) = iId (insAt loopFunction q) \<Longrightarrow> p = q" for p q
    using at [of p] at [of q] ins by (auto simp: loopMarker_def)
  show "cfg_ok loopFunction" by (auto simp: cfg_ok_def loopFunction_def)
  have "\<not> defines_at loopFunction v d" for v d using plain [of d] by (auto simp: defines_at_def)
  then show "ssa_ok loopFunction accesses" unfolding ssa_ok_def using plain same by blast
qed

lemma loop_candidates:
  "candidatesOf [loopAccess 2 i w, loopAccess 3 j w'] = [0, 1]"
  by (simp add: candidatesOf_def removable_def loopAccess_def emptyAccess_def constantAccess_def upt_rec)

lemma loop_markers:
  "byMarker [loopAccess 2 i w, loopAccess 3 j w'] (loopMarker 2) = Some 0"
  "byMarker [loopAccess 2 i w, loopAccess 3 j w'] (loopMarker 3) = Some (Suc 0)"
  unfolding byMarker_def loop_candidates by (simp_all add: loopAccess_def loopMarker_def emptyAccess_def)

lemma loop_sweeps:
  assumes "accs = [loopAccess 2 i w, loopAccess 3 j w']"
  shows "sweeps accs loopFunction (initialOut accs loopFunction) =
    Some ((initialOut accs loopFunction)(0 \<mapsto> {0}))"
proof -
  have blocks: "blockOf loopFunction 0 = [loopMarker 2]" "blockOf loopFunction (Suc 0) = [loopMarker 3]"
      "fnOrder loopFunction = [0, Suc 0]"
    by (simp_all add: blockOf_def loopFunction_def)
  have kills: "\<not> killsGuards (loopMarker n)" for n by (simp add: killsGuards_def loopMarker_def)
  have moves: "transfer accs [loopMarker 2] A = insert 0 A" "transfer accs [loopMarker 3] A = insert 1 A" for A
    using kills by (simp_all add: transfer_def transferOne_def Let_def loop_markers assms)
  have preds: "predecessors loopFunction (Suc 0) = [0, Suc 0]"
    by (simp add: predecessors_def loopFunction_def upt_rec)
  have cand: "set (candidatesOf accs) = {0, 1}" by (simp add: assms loop_candidates)
  define out1 where "out1 = (initialOut accs loopFunction)(0 \<mapsto> {0})"
  have init: "initialOut accs loopFunction 0 = Some {}" "initialOut accs loopFunction 1 = Some {0, 1}"
    by (simp_all add: initialOut_def blocks cand)
  have out1: "out1 0 = Some {0}" "out1 (Suc 0) = Some {0, Suc 0}" using init by (simp_all add: out1_def)
  have in1: "inOf accs loopFunction out1 1 = {0}" "inOf accs loopFunction out1 0 = {}"
    by (simp_all add: inOf_def Let_def preds out1 cand)
  have s0: "inOf accs loopFunction (initialOut accs loopFunction) 0 = {}" by (simp add: inOf_def)
  have "sweep accs loopFunction [0, 1] (initialOut accs loopFunction, False) = (out1, True)"
    using s0 init in1 out1 by (simp add: blocks moves Let_def insert_commute flip: out1_def)
  moreover have "sweep accs loopFunction [0, 1] (out1, False) = (out1, False)"
    using in1 out1 by (simp add: blocks moves Let_def insert_commute)
  ultimately show ?thesis
    unfolding out1_def [symmetric] by (subst sweeps.simps, simp add: blocks, subst sweeps.simps, simp add: blocks)
qed

text \<open>The guard of four bytes in the loop goes, the guard of eight bytes at the entry stays.\<close>

lemma loop_result:
  assumes "accs = [loopAccess 2 i w, loopAccess 3 j w']" "i \<le> j" "j + sint w' \<le> i + sint w"
  shows "removeDominated loopFunction accs =
    Some [loopAccess 2 i w, (loopAccess 3 j w')\<lparr>acState := StateDominated\<rparr>]"
proof -
  define out where "out = (initialOut accs loopFunction)(0 \<mapsto> {0})"
  have sweeps: "sweeps accs loopFunction (initialOut accs loopFunction) = Some out"
    unfolding out_def by (rule loop_sweeps [OF assms(1)])
  have blocks: "blockOf loopFunction 0 = [loopMarker 2]" "blockOf loopFunction (Suc 0) = [loopMarker 3]"
      "fnOrder loopFunction = [0, Suc 0]" "length (fnBlocks loopFunction) = 2" "predecessors loopFunction (Suc 0) = [0, Suc 0]"
    by (simp_all add: blockOf_def loopFunction_def predecessors_def upt_rec)
  have cand: "candidatesOf accs = [0, 1]" by (simp add: assms(1) loop_candidates)
  have "out 0 = Some {0}" "out 1 = Some {0, 1}" by (simp_all add: out_def initialOut_def blocks cand)
  then have ins: "inOf accs loopFunction out 1 = {0}" "inOf accs loopFunction out 0 = {}"
    by (simp_all add: inOf_def Let_def blocks cand)
  have "acBase (accs ! 0) = acBase (accs ! 1)" "bytesInside (accs ! 0) (accs ! 1)"
    using assms by (simp_all add: bytesInside_def loopAccess_def emptyAccess_def)
  then have covered: "coveredBy accs {0} 1" "\<not> coveredBy accs {} c" for c
    by (simp_all add: coveredBy_def cand)
  have kills: "\<not> killsGuards (loopMarker n)" for n by (simp add: killsGuards_def loopMarker_def)
  have decided: "decide accs [loopMarker 2] {} = []" "decide accs [loopMarker 3] {0} = [Suc 0]"
    using covered kills by (simp_all add: assms(1) loop_markers Let_def)
  have ins: "inOf accs loopFunction out (Suc 0) = {0}" "inOf accs loopFunction out 0 = {}" using ins by simp_all
  show ?thesis
    by (simp add: removeDominated_def Let_def sweeps cand blocks ins decided markDominated_def del: decide.simps)
      (simp add: assms(1))
qed

theorem removeDominated_total_witness:
  "cfg_ok loopFunction \<and> (\<exists>accesses'. removeDominated loopFunction [loopAccess 2 0 8] = Some accesses')"
  using removeDominated_total [of loopFunction "[loopAccess 2 0 8]"] loop_ok(1) by simp



end
