(* ===== verification/Merged.thy ===== *)
theory Merged
  imports Dominated
begin

text \<open>
  Rule 6.3 of \<open>GuardExpand.cpp\<close>: what a leader's guard promises for the accesses
  merged into it. The bytes of every merged access lie in the hull of a guard that stays,
  earlier in the same block, and control that passes the leader's marker always reaches the
  merged one.
\<close>

subsection \<open>Where a leader stands\<close>

text \<open>
  In a block, the marker of \<open>g\<close> comes before that of \<open>i\<close>, and nothing between them stops
  merging: nothing kills guards, and every instruction passes control on.
\<close>

definition ahead :: "(instruction \<Rightarrow> nat option) \<Rightarrow> instruction list \<Rightarrow> nat \<Rightarrow> nat \<Rightarrow> bool" where
  "ahead marker block g i \<longleftrightarrow>
     (\<exists>xs x ys y zs. block = xs @ x # ys @ y # zs \<and> marker x = Some g \<and> marker y = Some i \<and>
        (\<forall>z \<in> set ys. marker z = None \<longrightarrow> \<not> stopsMerging z))"

definition openAt :: "(instruction \<Rightarrow> nat option) \<Rightarrow> instruction list \<Rightarrow> nat \<Rightarrow> bool" where
  "openAt marker block g \<longleftrightarrow>
     (\<exists>xs x ys. block = xs @ x # ys \<and> marker x = Some g \<and> (\<forall>z \<in> set ys. marker z = None \<longrightarrow> \<not> stopsMerging z))"

lemma ahead_more: "ahead marker block g i \<Longrightarrow> ahead marker (block @ rest) g i"
  unfolding ahead_def by fastforce

lemma openAt_here: "marker ins = Some g \<Longrightarrow> openAt marker (block @ [ins]) g"
  unfolding openAt_def by fastforce

lemma openAt_more: "openAt marker block g \<Longrightarrow> marker ins = None \<longrightarrow> \<not> stopsMerging ins \<Longrightarrow> openAt marker (block @ [ins]) g"
  unfolding openAt_def by fastforce

lemma openAt_ahead: "openAt marker block g \<Longrightarrow> marker ins = Some i \<Longrightarrow> ahead marker (block @ [ins]) g i"
  unfolding openAt_def ahead_def by fastforce

subsection \<open>The invariant\<close>

text \<open>The hull of a guard, and that the bytes of an access lie in it.\<close>

definition inHull :: "access \<Rightarrow> access \<Rightarrow> bool" where
  "inHull guard ac \<longleftrightarrow> acGuardOffset guard \<le> acOffset ac \<and>
     acOffset ac + sint (acWidth ac) \<le> acGuardOffset guard + sint (acGuardWidth guard)"

text \<open>What merging never changes of an access.\<close>

definition same_access :: "access \<Rightarrow> access \<Rightarrow> bool" where
  "same_access a b \<longleftrightarrow> acMarker a = acMarker b \<and> acBase a = acBase b \<and> acOffset a = acOffset b \<and>
     acWidth a = acWidth b \<and> acKind a = acKind b \<and> acLength a = acLength b \<and> acPruned a = acPruned b"

definition processed :: "(instruction \<Rightarrow> nat option) \<Rightarrow> instruction list \<Rightarrow> nat \<Rightarrow> bool" where
  "processed marker instrs i \<longleftrightarrow> (\<exists>ins \<in> set instrs. marker ins = Some i)"

definition merged_ok :: "(instruction \<Rightarrow> nat option) \<Rightarrow> instruction list list \<Rightarrow> access list \<Rightarrow> nat \<Rightarrow> bool" where
  "merged_ok marker blocks accs i \<longleftrightarrow>
     (let g = acLeader (accs ! i)
      in g < length accs \<and> g \<noteq> i \<and> acState (accs ! g) = StateGuard \<and> acBase (accs ! g) = acBase (accs ! i) \<and>
         inHull (accs ! g) (accs ! i) \<and> sint (acGuardWidth (accs ! g)) \<le> MaxHull \<and> (\<exists>block \<in> set blocks. ahead marker block g i))"

definition hull_ok :: "access \<Rightarrow> bool" where
  "hull_ok ac \<longleftrightarrow> 0 \<le> sint (acGuardWidth ac) \<and> inHull ac ac \<and>
     (acGuardOffset ac = acOffset ac \<and> acGuardWidth ac = acWidth ac \<or> sint (acGuardWidth ac) \<le> MaxHull)"

text \<open>
  After the blocks \<open>blocks\<close> and the first instructions \<open>pre\<close> of the current one. \<open>accs0\<close> are the
  accesses before merging, with their guards opened.
\<close>

definition slot_ok ::
  "(instruction \<Rightarrow> nat option) \<Rightarrow> access list \<Rightarrow> instruction list list \<Rightarrow> instruction list \<Rightarrow> access list \<Rightarrow> nat \<Rightarrow> bool"
where
  "slot_ok marker accs0 blocks pre accs i \<longleftrightarrow> same_access (accs ! i) (accs0 ! i) \<and>
     (\<not> processed marker (concat blocks @ pre) i \<longrightarrow> accs ! i = accs0 ! i) \<and>
     (removable (accs0 ! i) \<longrightarrow> hull_ok (accs ! i)) \<and>
     (accs ! i \<noteq> accs0 ! i \<longrightarrow> acState (accs ! i) = StateGuard \<and> acState (accs0 ! i) = StateGuard \<or>
        acState (accs ! i) = StateMerged \<and> processed marker (concat blocks @ pre) (acLeader (accs ! i)) \<and>
        merged_ok marker (blocks @ [pre]) accs i)"

definition open_ok :: "(instruction \<Rightarrow> nat option) \<Rightarrow> instruction list \<Rightarrow> access list \<Rightarrow> (nat \<Rightarrow> nat option) \<Rightarrow> bool" where
  "open_ok marker pre accs opened \<longleftrightarrow>
     (\<forall>b g. opened b = Some g \<longrightarrow> g < length accs \<and> acState (accs ! g) = StateGuard \<and>
        acBase (accs ! g) = Some b \<and> openAt marker pre g)"

definition merge_inv ::
  "(instruction \<Rightarrow> nat option) \<Rightarrow> access list \<Rightarrow> instruction list list \<Rightarrow> instruction list \<Rightarrow> access list \<times> (nat \<Rightarrow> nat option) \<Rightarrow> bool"
where
  "merge_inv marker accs0 blocks pre st \<longleftrightarrow> length (fst st) = length accs0 \<and>
     (\<forall>i < length accs0. slot_ok marker accs0 blocks pre (fst st) i) \<and> open_ok marker pre (fst st) (snd st)"

lemma openAt_processed: "openAt marker pre g \<Longrightarrow> processed marker (concat blocks @ pre) g"
  by (fastforce simp: openAt_def processed_def)

lemma processed_snoc [simp]:
  "processed marker (xs @ pre @ [ins]) i \<longleftrightarrow> processed marker (xs @ pre) i \<or> marker ins = Some i"
  by (auto simp: processed_def)

text \<open>A merged access stays right while its own bytes and its leader's state stay and the hull grows.\<close>

lemma merged_ok_keep:
  assumes ok: "merged_ok marker (blocks @ [pre]) accs j" and len: "length accs' = length accs"
    and j: "acLeader (accs' ! j) = acLeader (accs ! j)" "acBase (accs' ! j) = acBase (accs ! j)"
      "acOffset (accs' ! j) = acOffset (accs ! j)" "acWidth (accs' ! j) = acWidth (accs ! j)"
    and l: "acState (accs' ! acLeader (accs ! j)) = acState (accs ! acLeader (accs ! j))"
      "acBase (accs' ! acLeader (accs ! j)) = acBase (accs ! acLeader (accs ! j))"
      "acGuardOffset (accs' ! acLeader (accs ! j)) \<le> acGuardOffset (accs ! acLeader (accs ! j))"
      "acGuardOffset (accs ! acLeader (accs ! j)) + sint (acGuardWidth (accs ! acLeader (accs ! j)))
        \<le> acGuardOffset (accs' ! acLeader (accs ! j)) + sint (acGuardWidth (accs' ! acLeader (accs ! j)))"
      "sint (acGuardWidth (accs ! acLeader (accs ! j))) \<le> MaxHull \<Longrightarrow>
        sint (acGuardWidth (accs' ! acLeader (accs ! j))) \<le> MaxHull"
  shows "merged_ok marker (blocks @ [pre @ [ins]]) accs' j"
proof -
  have "\<exists>block \<in> set (blocks @ [pre @ [ins]]). ahead marker block (acLeader (accs ! j)) j"
    using ok ahead_more [of marker pre _ _ "[ins]"] by (auto simp: merged_ok_def Let_def)
  then show ?thesis using ok len j l by (auto simp: merged_ok_def Let_def inHull_def)
qed

lemma slot_ok_skip:
  assumes "slot_ok marker accs0 blocks pre accs j"
  shows "slot_ok marker accs0 blocks (pre @ [ins]) accs j"
proof -
  have "merged_ok marker (blocks @ [pre]) accs j \<Longrightarrow> merged_ok marker (blocks @ [pre @ [ins]]) accs j"
    by (erule merged_ok_keep) simp_all
  then show ?thesis using assms by (auto simp: slot_ok_def)
qed

lemma merge_inv_skip:
  assumes "merge_inv marker accs0 blocks pre (accs, opened)" "open_ok marker (pre @ [ins]) accs opened'"
  shows "merge_inv marker accs0 blocks (pre @ [ins]) (accs, opened')"
  using assms slot_ok_skip by (auto simp: merge_inv_def)

text \<open>One merge: the hull of the open guard grows over the access.\<close>

lemma sint_small: "0 \<le> k \<Longrightarrow> k \<le> MaxHull \<Longrightarrow> sint (word_of_int k :: u64) = k"
  by (simp add: sint_uint uint_word_of_int_eq take_bit_int_eq_self signed_take_bit_int_eq_self_iff)

lemma merge_inv_grow:
  assumes inv: "merge_inv marker accs0 blocks pre (accs, opened)"
    and i: "marker ins = Some i" "i < length accs0" "removable (accs0 ! i)" "\<not> processed marker (concat blocks @ pre) i"
    and g: "opened b = Some g" "acBase (accs ! i) = Some b"
    and low: "low = min (acGuardOffset (accs ! g)) (acOffset (accs ! i))"
    and high: "high = max (acGuardOffset (accs ! g) + sint (acGuardWidth (accs ! g)))
        (acOffset (accs ! i) + sint (acWidth (accs ! i)))"
    and small: "high - low \<le> MaxHull" and gr: "removable (accs0 ! g)"
  shows "merge_inv marker accs0 blocks (pre @ [ins])
    ((accs[g := (accs ! g)\<lparr>acGuardOffset := low, acGuardWidth := word_of_int (high - low)\<rparr>])
       [i := (accs ! i)\<lparr>acState := StateMerged, acLeader := g\<rparr>], opened)"
    (is "merge_inv _ _ _ _ (?accs, _)")
proof -
  have len: "length accs = length accs0" "length ?accs = length accs0" using inv by (simp_all add: merge_inv_def)
  have slots: "slot_ok marker accs0 blocks pre accs j" if j: "j < length accs0" for j
    using inv j by (simp add: merge_inv_def)
  have op: "open_ok marker pre accs opened" using inv by (simp add: merge_inv_def)
  then have g': "g < length accs0" "acState (accs ! g) = StateGuard" "acBase (accs ! g) = Some b" "openAt marker pre g"
    using g(1) len by (auto simp: open_ok_def)
  have unproc: "j \<noteq> i" if j: "processed marker (concat blocks @ pre) j" for j using i(4) j by blast
  have gi: "g \<noteq> i" using unproc openAt_processed g'(4) by blast
  have i0: "accs ! i = accs0 ! i" using slots [OF i(2)] i(4) by (simp add: slot_ok_def)
  have at: "?accs ! i = (accs ! i)\<lparr>acState := StateMerged, acLeader := g\<rparr>"
    "?accs ! g = (accs ! g)\<lparr>acGuardOffset := low, acGuardWidth := word_of_int (high - low)\<rparr>"
    "\<And>j. j \<noteq> i \<Longrightarrow> j \<noteq> g \<Longrightarrow> ?accs ! j = accs ! j"
    using i(2) g'(1) gi len by simp_all
  have gok: "hull_ok (accs ! g)" using slots [OF g'(1)] gr by (simp add: slot_ok_def)
  then have "sint (word_of_int (high - low) :: u64) = high - low"
    using small by (intro sint_small) (auto simp: low high hull_ok_def)
  then have hull: "acGuardOffset (?accs ! g) = low" "acGuardOffset (?accs ! g) + sint (acGuardWidth (?accs ! g)) = high"
    using at(2) by simp_all
  show ?thesis
    unfolding merge_inv_def fst_conv snd_conv
  proof (intro conjI allI impI)
    show "length ?accs = length accs0" by (rule len(2))
    show "open_ok marker (pre @ [ins]) ?accs opened"
      unfolding open_ok_def
    proof (intro allI impI)
      fix b' g2 assume o: "opened b' = Some g2"
      then have g2: "g2 < length accs" "acState (accs ! g2) = StateGuard" "acBase (accs ! g2) = Some b'" "openAt marker pre g2"
        using op by (auto simp: open_ok_def)
      then have "g2 \<noteq> i" using unproc openAt_processed by blast
      then show "g2 < length ?accs \<and> acState (?accs ! g2) = StateGuard \<and> acBase (?accs ! g2) = Some b' \<and>
          openAt marker (pre @ [ins]) g2"
        using g2 at(2,3) i(1) openAt_more [OF g2(4), of ins] by (cases "g2 = g") simp_all
    qed
  next
    fix j assume j: "j < length accs0"
    consider "j = i" | "j = g" | "j \<noteq> i" "j \<noteq> g" by blast
    then show "slot_ok marker accs0 blocks (pre @ [ins]) ?accs j"
    proof cases
      case 1
      have "merged_ok marker (blocks @ [pre @ [ins]]) ?accs i"
        using gi g' g(2) at len(2) hull small openAt_ahead [OF g'(4) i(1)]
        by (auto simp: merged_ok_def Let_def inHull_def low high)
      moreover have "hull_ok (?accs ! i)" using slots [OF i(2)] i(3) at(1) by (simp add: slot_ok_def hull_ok_def inHull_def)
      moreover have "processed marker (concat blocks @ pre) g" using openAt_processed g'(4) .
      ultimately show ?thesis using 1 at(1) i0 i(1) by (simp add: slot_ok_def same_access_def)
    next
      case 2
      have own: "acOffset (?accs ! g) = acOffset (accs ! g)" "acWidth (?accs ! g) = acWidth (accs ! g)"
        using at(2) by simp_all
      have "0 \<le> sint (acGuardWidth (accs ! g))" "inHull (accs ! g) (accs ! g)" using gok by (simp_all add: hull_ok_def)
      moreover have "low \<le> acGuardOffset (accs ! g)"
        "acGuardOffset (accs ! g) + sint (acGuardWidth (accs ! g)) \<le> high" by (simp_all add: low high)
      ultimately have "hull_ok (?accs ! g)"
        using hull small unfolding hull_ok_def inHull_def own by linarith
      moreover have "acState (accs0 ! g) = StateGuard" using slots [OF g'(1)] g'(2) by (auto simp: slot_ok_def)
      ultimately show ?thesis
        using 2 at(2) g'(2) slots [OF g'(1)] openAt_processed [OF g'(4), of blocks] by (simp add: slot_ok_def same_access_def)
    next
      case 3
      have keep: "merged_ok marker (blocks @ [pre @ [ins]]) ?accs j"
        if m: "merged_ok marker (blocks @ [pre]) accs j" "processed marker (concat blocks @ pre) (acLeader (accs ! j))"
      proof -
        let ?l = "acLeader (accs ! j)"
        have "?l \<noteq> i" using unproc m(2) by blast
        then show ?thesis
          using at(2,3) 3 hull small len by (cases "?l = g") (auto intro!: merged_ok_keep [OF m(1)] simp: low high)
      qed
      then show ?thesis using slots [OF j] at(3) [OF 3] by (auto simp: slot_ok_def)
    qed
  qed
qed

subsection \<open>The whole function\<close>

text \<open>Every access's marker stands once in the function.\<close>

lemma marker_fresh:
  assumes inj: "\<And>x y i. marker x = Some i \<Longrightarrow> marker y = Some i \<Longrightarrow> iId x = iId y"
    and d: "distinct (map iId (instrs @ ins # rest))" and m: "marker ins = Some i"
  shows "\<not> processed marker instrs i"
proof
  assume "processed marker instrs i"
  then obtain x where "x \<in> set instrs" "marker x = Some i" by (auto simp: processed_def)
  then have "iId ins \<in> iId ` set instrs" using inj [OF _ m] by (metis imageI)
  then show False using d by simp
qed

definition marks :: "access list \<Rightarrow> (instruction \<Rightarrow> nat option) \<Rightarrow> bool" where
  "marks accs0 marker \<longleftrightarrow> (\<forall>ins i. marker ins = Some i \<longrightarrow> i < length accs0 \<and> removable (accs0 ! i)) \<and>
     (\<forall>x y i. marker x = Some i \<longrightarrow> marker y = Some i \<longrightarrow> iId x = iId y)"

lemma marks_byMarker: "marks accs0 (byMarker accs0)"
  unfolding marks_def using byMarker_found by metis

lemma merge_step:
  assumes inv: "merge_inv marker accs0 blocks pre st" and mk: "marks accs0 marker"
    and d: "distinct (map iId ((concat blocks @ pre) @ ins # rest))"
  shows "merge_inv marker accs0 blocks (pre @ [ins]) (mergeOne marker ins st)"
proof -
  obtain accs opened where st: "st = (accs, opened)" by fastforce
  have op: "open_ok marker pre accs opened" and len: "length accs = length accs0" using inv st by (simp_all add: merge_inv_def)
  show ?thesis
  proof (cases "marker ins")
    case None
    have "\<not> stopsMerging ins \<Longrightarrow> open_ok marker (pre @ [ins]) accs opened"
      using op openAt_more [of marker pre _ ins] None unfolding open_ok_def by blast
    moreover have "open_ok marker (pre @ [ins]) accs (\<lambda>_. None)" by (simp add: open_ok_def)
    ultimately show ?thesis using merge_inv_skip inv st None by (auto simp: mergeOne_def)
  next
    case (Some i)
    have i: "i < length accs0" "removable (accs0 ! i)" using mk Some by (auto simp: marks_def)
    have new: "\<not> processed marker (concat blocks @ pre) i"
      using marker_fresh [where marker = marker and instrs = "concat blocks @ pre" and ins = ins and rest = rest and i = i, OF _ d Some] mk unfolding marks_def by blast
    have i0: "accs ! i = accs0 ! i" using inv st i(1) new by (auto simp: merge_inv_def slot_ok_def)
    then obtain b where b: "acBase (accs ! i) = Some b" "acState (accs ! i) = StateGuard"
      using i(2) by (auto simp: removable_def)
    have "open_ok marker (pre @ [ins]) accs (opened(b \<mapsto> i))"
      unfolding open_ok_def
    proof (intro allI impI)
      fix b' g assume "(opened(b \<mapsto> i)) b' = Some g"
      then consider "b' = b" "g = i" | "opened b' = Some g" by (cases "b' = b") simp_all
      then show "g < length accs \<and> acState (accs ! g) = StateGuard \<and> acBase (accs ! g) = Some b' \<and> openAt marker (pre @ [ins]) g"
      proof cases
        case 1
        then show ?thesis using b i(1) len openAt_here [of marker ins i pre] Some by simp
      next
        case 2
        then show ?thesis using op openAt_more [of marker pre g ins] Some by (auto simp: open_ok_def)
      qed
    qed
    then have fresh: "merge_inv marker accs0 blocks (pre @ [ins]) (accs, opened(b \<mapsto> i))"
      using merge_inv_skip inv st by blast
    have rem: "removable (accs0 ! g)" if g: "opened b' = Some g" for b' g
    proof -
      obtain x where "marker x = Some g" using op g unfolding open_ok_def openAt_def by blast
      then show ?thesis using mk by (auto simp: marks_def)
    qed
    show ?thesis
    proof (cases "opened b")
      case None
      then show ?thesis using fresh by (simp add: mergeOne_def st Some b(1) Let_def)
    next
      case opened: (Some g)
      define low where "low = min (acGuardOffset (accs ! g)) (acOffset (accs ! i))"
      define high where "high = max (acGuardOffset (accs ! g) + sint (acGuardWidth (accs ! g)))
          (acOffset (accs ! i) + sint (acWidth (accs ! i)))"
      have "mergeOne marker ins st =
          (if high - low \<le> MaxHull
           then ((accs[g := (accs ! g)\<lparr>acGuardOffset := low, acGuardWidth := word_of_int (high - low)\<rparr>])
                   [i := (accs ! i)\<lparr>acState := StateMerged, acLeader := g\<rparr>], opened)
           else (accs, opened(b \<mapsto> i)))"
        using opened by (simp only: mergeOne_def st Some b(1) Let_def low_def high_def prod.case option.case option.sel)
      then show ?thesis
        using fresh merge_inv_grow [OF inv [unfolded st] Some i new opened b(1) low_def high_def _ rem [OF opened]]
        by presburger
    qed
  qed
qed

lemma merge_fold:
  "merge_inv marker accs0 blocks pre st \<Longrightarrow> marks accs0 marker \<Longrightarrow>
   distinct (map iId (concat blocks @ pre @ block @ rest)) \<Longrightarrow>
   merge_inv marker accs0 blocks (pre @ block) (fold (mergeOne marker) block st)"
proof (induction block arbitrary: pre st)
  case (Cons ins block)
  have "merge_inv marker accs0 blocks (pre @ [ins]) (mergeOne marker ins st)"
    using Cons.prems by (intro merge_step [where rest = "block @ rest"]) simp_all
  then show ?case using Cons.IH [of "pre @ [ins]" "mergeOne marker ins st"] Cons.prems by simp
qed simp

lemma slot_ok_block: "slot_ok marker accs0 blocks pre accs i \<Longrightarrow> slot_ok marker accs0 (blocks @ [pre]) [] accs i"
  unfolding slot_ok_def merged_ok_def Let_def by auto

lemma merge_blocks:
  "merge_inv marker accs0 blocks [] (accs, \<lambda>_. None) \<Longrightarrow> marks accs0 marker \<Longrightarrow>
   distinct (map iId (concat (blocks @ todo))) \<Longrightarrow>
   merge_inv marker accs0 (blocks @ todo) [] (fold (mergeBlock marker) todo accs, \<lambda>_. None)"
proof (induction todo arbitrary: blocks accs)
  case (Cons block todo)
  have "merge_inv marker accs0 blocks block (fold (mergeOne marker) block (accs, \<lambda>_. None))"
    using merge_fold [OF Cons.prems(1,2), of block "concat todo"] Cons.prems(3) by simp
  then have "merge_inv marker accs0 (blocks @ [block]) [] (mergeBlock marker block accs, \<lambda>_. None)"
    using slot_ok_block by (auto simp: merge_inv_def mergeBlock_def open_ok_def)
  then show ?case using Cons.IH [of "blocks @ [block]"] Cons.prems(2,3) by simp
qed simp

lemma openGuards_fields [simp]:
  "acMarker (openGuards a) = acMarker a" "acBase (openGuards a) = acBase a" "acOffset (openGuards a) = acOffset a"
  "acWidth (openGuards a) = acWidth a" "acState (openGuards a) = acState a" "removable (openGuards a) = removable a"
  by (simp_all add: openGuards_def removable_def constantAccess_def)

lemma byMarker_open: "byMarker (map openGuards accesses) = byMarker accesses"
proof -
  have cand: "candidatesOf (map openGuards accesses) = candidatesOf accesses"
    unfolding candidatesOf_def by (intro filter_cong) auto
  show ?thesis
    unfolding byMarker_def cand by (intro ext find_cong) (simp_all add: candidatesOf_def)
qed

lemma sint_wide: "uint (w :: u64) < 2 ^ 63 \<Longrightarrow> sint w = uint w"
  by (simp add: sint_uint signed_take_bit_int_eq_self_iff order.trans [OF _ uint_nonnegative])

lemma sint_nonneg: "0 \<le> sint (w :: u64) \<Longrightarrow> uint w = sint w"
  using uint_sint [of w] sint_lt [of w] by (simp add: take_bit_int_eq_self)

lemma merge_start:
  assumes "\<forall>ac \<in> set accesses. uint (acWidth ac) < 2 ^ 63"
  shows "merge_inv marker (map openGuards accesses) [] [] (map openGuards accesses, \<lambda>_. None)"
proof -
  have "slot_ok marker (map openGuards accesses) [] [] (map openGuards accesses) i" if i: "i < length accesses" for i
  proof -
    have "sint (acWidth (accesses ! i)) = uint (acWidth (accesses ! i))" using assms i by (intro sint_wide) simp
    then show ?thesis using i by (simp add: slot_ok_def same_access_def hull_ok_def inHull_def openGuards_def)
  qed
  then show ?thesis by (simp add: merge_inv_def open_ok_def)
qed


text \<open>Two accesses to one record: the second is merged into the first, whose hull is 12 bytes.\<close>

definition pairFunction :: func where
  "pairFunction = \<lparr>fnBlocks = [[loopMarker 2, loopMarker 3]], fnSuccs = (\<lambda>_. []), fnOrder = [0]\<rparr>"

definition pairAccesses :: "access list" where
  "pairAccesses = [loopAccess 2 0 4, loopAccess 3 8 4]"

lemma pair_merged:
  "acState (mergeInBlocks pairFunction pairAccesses ! 1) = StateMerged"
  "acLeader (mergeInBlocks pairFunction pairAccesses ! 1) = 0"
proof -
  have m: "byMarker pairAccesses (loopMarker 2) = Some 0" "byMarker pairAccesses (loopMarker 3) = Some (Suc 0)"
    unfolding pairAccesses_def by (rule loop_markers)+
  have accs: "map openGuards pairAccesses = [openGuards (loopAccess 2 0 4), openGuards (loopAccess 3 8 4)]"
    by (simp add: pairAccesses_def)
  have fields: "acBase (loopAccess n k w) = Some 5" "acOffset (loopAccess n k w) = k" "acWidth (loopAccess n k w) = w"
    for n k w by (simp_all add: loopAccess_def)
  have guards: "acGuardOffset (openGuards a) = acOffset a" "acGuardWidth (openGuards a) = acWidth a" for a
    by (simp_all add: openGuards_def)
  have "mergeInBlocks pairFunction pairAccesses =
      fst (fold (mergeOne (byMarker pairAccesses)) [loopMarker 2, loopMarker 3]
        ([openGuards (loopAccess 2 0 4), openGuards (loopAccess 3 8 4)], \<lambda>_. None))"
    unfolding mergeInBlocks_def Let_def byMarker_open unfolding accs by (simp add: mergeBlock_def pairFunction_def)
  also have "\<dots> = [(openGuards (loopAccess 2 0 4))\<lparr>acGuardOffset := 0, acGuardWidth := 12\<rparr>,
      (openGuards (loopAccess 3 8 4))\<lparr>acState := StateMerged, acLeader := 0\<rparr>]"
    by (simp add: mergeOne_def m fields guards)
  finally show "acState (mergeInBlocks pairFunction pairAccesses ! 1) = StateMerged"
    "acLeader (mergeInBlocks pairFunction pairAccesses ! 1) = 0" by simp_all
qed


end
