(* ===== verification/Escapes.thy ===== *)
theory Escapes
  imports Access_Rules
begin

text \<open>
  \<open>escapes\<close> of \<open>GuardExpand.cpp\<close>: the work list over the uses of a local decides
  exactly whether some value derived from it is used in a way that lets the address out.
\<close>

subsection \<open>Derived values\<close>

inductive derived :: "(nat \<Rightarrow> pointer_use list) \<Rightarrow> nat \<Rightarrow> nat \<Rightarrow> bool" for uses where
  derived_self: "derived uses al al"
| derived_step: "derived uses al v \<Longrightarrow> Derived w \<in> set (uses v) \<Longrightarrow> derived uses al w"

definition leaks :: "(nat \<Rightarrow> pointer_use list) \<Rightarrow> nat \<Rightarrow> bool" where
  "leaks uses v \<longleftrightarrow> (\<exists>u \<in> set (uses v). useEscapes u)"

text \<open>Scanning the uses of one value: it leaks, or every value derived from it is seen afterwards.\<close>

lemma scanUses_none: "scanUses us work seen = None \<longleftrightarrow> (\<exists>u \<in> set us. useEscapes u)"
  by (induction us work seen rule: scanUses.induct) (auto split: pointer_use.splits)

lemma scanUses_some:
  "scanUses us work seen = Some (work', seen') \<Longrightarrow>
   set seen' = set seen \<union> {w. Derived w \<in> set us} \<and> set work' = set work \<union> ({w. Derived w \<in> set us} - set seen) \<and>
   (seen' = seen \<longrightarrow> work' = work) \<and> (seen' \<noteq> seen \<longrightarrow> set seen \<subset> set seen')"
proof (induction us arbitrary: work seen)
  case (Cons u us)
  have skip: "scanUses us work seen = Some (work', seen') \<Longrightarrow> (\<And>w. u \<noteq> Derived w) \<Longrightarrow> ?case"
    using Cons.IH [of work seen] by (metis (mono_tags, lifting) Collect_cong list.set_intros(2) set_ConsD)
  show ?case
  proof (cases u)
    case (Derived v)
    show ?thesis
    proof (cases "v \<in> set seen")
      case True
      then show ?thesis using Cons.IH [of work seen] Cons.prems Derived by auto
    next
      case False
      then have "scanUses us (v # work) (v # seen) = Some (work', seen')" using Cons.prems Derived by simp
      from Cons.IH [OF this] False show ?thesis unfolding Derived by auto
    qed
  qed (use Cons.prems skip in \<open>auto split: if_splits\<close>)
qed simp

subsection \<open>The work list\<close>

definition scan_inv :: "(nat \<Rightarrow> pointer_use list) \<Rightarrow> nat \<Rightarrow> nat list \<Rightarrow> nat list \<Rightarrow> bool" where
  "scan_inv uses al work seen \<longleftrightarrow> al \<in> set seen \<and> set work \<subseteq> set seen \<and> (\<forall>v \<in> set seen. derived uses al v) \<and>
     (\<forall>v \<in> set seen - set work. \<not> leaks uses v \<and> (\<forall>w. Derived w \<in> set (uses v) \<longrightarrow> w \<in> set seen))"

lemma scan_inv_done:
  assumes "scan_inv uses al [] seen" "derived uses al v"
  shows "v \<in> set seen \<and> \<not> leaks uses v"
  using assms(2,1) by (induction rule: derived.induct) (auto simp: scan_inv_def)

lemma scan_inv_step:
  assumes inv: "scan_inv uses al (v # rest) seen" and scan: "scanUses (uses v) rest seen = Some (work', seen')"
  shows "scan_inv uses al work' seen'"
proof -
  note r = scanUses_some [OF scan]
  have "\<not> leaks uses v" using scan scanUses_none [of "uses v" rest seen] by (auto simp: leaks_def)
  moreover have "derived uses al v" using inv by (simp add: scan_inv_def)
  then have "derived uses al w" if "Derived w \<in> set (uses v)" for w
    using that by (rule derived_step)
  moreover have sets: "set seen' = set seen \<union> {w. Derived w \<in> set (uses v)}"
    "set work' = set rest \<union> ({w. Derived w \<in> set (uses v)} - set seen)" using r by blast+
  have "set seen' - set work' \<subseteq> insert v (set seen - set (v # rest))" unfolding sets by auto
  ultimately show ?thesis
    using inv unfolding scan_inv_def by (simp only: sets list.set) blast
qed

lemma escapesLoop_exact:
  assumes fin: "finite {v. derived uses al v}"
  shows "scan_inv uses al work seen \<Longrightarrow> escapesLoop uses work seen = Some (\<exists>v. derived uses al v \<and> leaks uses v)"
proof (induction "(card ({v. derived uses al v} - set seen), length work)" arbitrary: work seen
    rule: wf_induct [OF wf_lex_prod [OF wf_less wf_less]])
  case (1 work seen)
  show ?case
  proof (cases work)
    case Nil
    then have "\<not> (\<exists>v. derived uses al v \<and> leaks uses v)" using scan_inv_done 1(2) by blast
    then show ?thesis using Nil by (subst escapesLoop.simps) simp
  next
    case (Cons v rest)
    show ?thesis
    proof (cases "scanUses (uses v) rest seen")
      case None
      have "derived uses al v" using 1(2) Cons by (auto simp: scan_inv_def)
      moreover have "leaks uses v" using None scanUses_none by (auto simp: leaks_def)
      ultimately show ?thesis using Cons None by (subst escapesLoop.simps) auto
    next
      case (Some r)
      obtain work' seen' where r: "r = (work', seen')" by fastforce
      have inv: "scan_inv uses al work' seen'" using scan_inv_step 1(2) Cons Some r by blast
      have step: "seen' = seen \<and> work' = rest \<or> set seen \<subset> set seen'"
        using scanUses_some [of "uses v" rest seen work' seen'] Some r by auto
      have "{v. derived uses al v} - set seen' \<subset> {v. derived uses al v} - set seen" if "set seen \<subset> set seen'"
        using inv that by (auto simp: scan_inv_def)
      then have "card ({v. derived uses al v} - set seen') < card ({v. derived uses al v} - set seen) \<or>
          seen' = seen \<and> length work' < length work"
        using step fin Cons by (auto intro: psubset_card_mono)
      then have "escapesLoop uses work' seen' = Some (\<exists>v. derived uses al v \<and> leaks uses v)"
        using 1(1) inv by auto
      then show ?thesis using Cons Some r by (subst escapesLoop.simps) simp
    qed
  qed
qed

text \<open>
  C30: \<open>escapes\<close> returns and is exact: a local escapes exactly when some value derived from its
  address (by address arithmetic, casts, selects and phis) is stored, passed to a call that is
  not a marker, or used in another way that lets it out.
\<close>

theorem escapes_exact:
  assumes "finite {v. derived uses al v}"
  shows "escapes uses al = Some (\<exists>v. derived uses al v \<and> leaks uses v)"
  unfolding escapes_def
  by (rule escapesLoop_exact [OF assms]) (auto simp: scan_inv_def intro: derived_self)

text \<open>A pointer that goes round a loop and is stored there.\<close>

definition loopUses :: "nat \<Rightarrow> pointer_use list" where
  "loopUses v = (if v = 0 then [LoadOrCompare, Derived 1] else if v = 1 then [Derived 2] else if v = 2 then [Derived 1, StoreOf True] else [])"

theorem escapes_exact_witness: "escapes loopUses 0 = Some True"
proof -
  have "derived loopUses a v \<Longrightarrow> a = 0 \<Longrightarrow> v \<le> 2" for a v
    by (induction rule: derived.induct) (auto simp: loopUses_def split: if_splits)
  then have "derived loopUses 0 v \<Longrightarrow> v \<le> 2" for v by blast
  then have fin: "finite {v. derived loopUses 0 v}" by (meson finite_nat_set_iff_bounded_le mem_Collect_eq)
  have "derived loopUses 0 1" using derived_step [OF derived_self] by (simp add: loopUses_def)
  then have "derived loopUses 0 2" using derived_step by (fastforce simp: loopUses_def)
  moreover have "leaks loopUses 2" by (simp add: leaks_def loopUses_def)
  ultimately show ?thesis using escapes_exact [OF fin] by auto
qed

end
