(* ===== verification/Scopes.thy ===== *)
theory Scopes
  imports Access_Rules
begin

text \<open>
  What the guard rules know of an object (\<open>GuardPass.cpp\<close>): its exact size, whether a
  local may be out of scope at an instruction, and the field an address points into.
\<close>

subsection \<open>Exact sizes\<close>

text \<open>An allocation whose size LLVM knows, or not; a size may be scalable.\<close>

datatype type_size = Fixed nat | Scalable nat

datatype ir_object =
    AllocaObject (isStatic: bool) (allocationSize: "type_size option")
  | GlobalObject (isDeclaration: bool) (exactDefinition: bool) (interposable: bool) (commonLinkage: bool) (valueSize: type_size)
  | OtherObject

fun fixedSize :: "type_size \<Rightarrow> nat option" where
  "fixedSize (Fixed n) = Some n"
| "fixedSize (Scalable n) = None"

fun exactSize :: "ir_object \<Rightarrow> nat option" where
  "exactSize (AllocaObject st sz) =
     (if \<not> st then None else case sz of None \<Rightarrow> None | Some t \<Rightarrow> fixedSize t)"
| "exactSize (GlobalObject decl exact ip common sz) =
     (if decl \<or> \<not> exact \<or> ip \<or> common then None else fixedSize sz)"
| "exactSize OtherObject = None"

subsection \<open>Scopes\<close>

definition markerFor :: "instruction \<Rightarrow> nat \<Rightarrow> int" where
  "markerFor ins al =
     (case iKind ins of
        Call _ (Some LifetimeStart) _ _ \<Rightarrow> if iLastArg ins = Some al then 1 else 0
      | Call _ (Some LifetimeEnd) _ _ \<Rightarrow> if iLastArg ins = Some al then - 1 else 0
      | _ \<Rightarrow> 0)"

definition leavesDead :: "nat \<Rightarrow> instruction list \<Rightarrow> bool \<Rightarrow> bool" where
  "leavesDead al block enteredDead =
     fold (\<lambda>ins state. if markerFor ins al \<noteq> 0 then markerFor ins al < 0 else state) block enteredDead"

text \<open>The blocks of the ends, one entry per end; the last is popped first.\<close>

definition endBlocks :: "func \<Rightarrow> nat \<Rightarrow> nat list" where
  "endBlocks fn al = rev (concat (map (\<lambda>b. map (\<lambda>_. b) (filter (\<lambda>ins. markerFor ins al < 0) (blockOf fn b)))
     [0..<length (fnBlocks fn)]))"

fun pushDead :: "nat list \<Rightarrow> nat set \<Rightarrow> nat list \<Rightarrow> nat set \<times> nat list" where
  "pushDead [] dead work = (dead, work)"
| "pushDead (b # bs) dead work =
     (if b \<in> dead then pushDead bs dead work else pushDead bs (insert b dead) (b # work))"

partial_function (option) deadLoop :: "func \<Rightarrow> nat \<Rightarrow> nat list \<Rightarrow> nat set \<Rightarrow> nat set \<Rightarrow> nat set option" where
  "deadLoop fn al work dead leftDead =
     (case work of
        [] \<Rightarrow> Some dead
      | b # rest \<Rightarrow>
          if \<not> leavesDead al (blockOf fn b) (b \<in> dead) \<or> b \<in> leftDead then deadLoop fn al rest dead leftDead
          else deadLoop fn al (snd (pushDead (fnSuccs fn b) dead rest)) (fst (pushDead (fnSuccs fn b) dead rest))
                 (insert b leftDead))"

definition mayBeOutOfScope :: "func \<Rightarrow> nat \<Rightarrow> nat \<times> nat \<Rightarrow> bool option" where
  "mayBeOutOfScope fn al at =
     map_option (\<lambda>dead. leavesDead al (take (snd at) (blockOf fn (fst at))) (fst at \<in> dead))
       (deadLoop fn al (endBlocks fn al) {} {})"

subsection \<open>The field of an address\<close>

datatype ir_type = StructTy "ir_type list" | ArrayTy nat ir_type | OtherTy

text \<open>
  An address computation: its source type, its operand, and its indices, each a constant or
  not. \<open>allocSize\<close> is the layout's size of a type.
\<close>

datatype ir_pointer = Gep ir_type ir_pointer "nat option list" | OtherPointer

fun allZero :: "nat option list \<Rightarrow> bool" where
  "allZero [] = True"
| "allZero (i # is') = (i = Some 0 \<and> allZero is')"

text \<open>
  The type an index path ends at, and the struct and field of its last index, if that is a field.
  (LLVM's verifier has the field index inside the struct.)
\<close>

fun walkIndices :: "ir_type \<Rightarrow> (ir_type list \<times> nat) option \<Rightarrow> nat option list \<Rightarrow> (ir_type \<times> (ir_type list \<times> nat) option) option" where
  "walkIndices ty parent [] = Some (ty, parent)"
| "walkIndices ty parent (None # is') = None"
| "walkIndices ty parent (Some i # is') =
     (case ty of
        StructTy members \<Rightarrow> if i < length members then walkIndices (members ! i) (Some (members, i)) is' else None
      | ArrayTy _ el \<Rightarrow> walkIndices el None is'
      | OtherTy \<Rightarrow> None)"

fun isArray :: "ir_type \<Rightarrow> bool" where "isArray (ArrayTy _ _) = True" | "isArray _ = False"
fun isStruct :: "ir_type \<Rightarrow> bool" where "isStruct (StructTy _) = True" | "isStruct _ = False"

fun decayed :: "ir_pointer \<Rightarrow> ir_pointer" where
  "decayed (Gep ty p indices) = (if isArray ty \<and> allZero indices then p else Gep ty p indices)"
| "decayed OtherPointer = OtherPointer"

definition fieldLimit :: "(ir_type \<Rightarrow> nat) \<Rightarrow> ir_pointer \<Rightarrow> nat option" where
  "fieldLimit allocSize pointer =
     (case decayed pointer of
        OtherPointer \<Rightarrow> None
      | Gep ty _ indices \<Rightarrow>
          if length indices < 2 \<or> \<not> isStruct ty then None
          else if hd indices \<noteq> Some 0 then None
          else case walkIndices ty None (tl indices) of
                 None \<Rightarrow> None
               | Some (ty', None) \<Rightarrow> None
               | Some (ty', Some (members, field)) \<Rightarrow>
                   if \<not> isArray ty' \<or> field + 1 \<ge> length members then None else Some (allocSize ty'))"

subsection \<open>Functions the pass leaves alone\<close>

definition ThunkPrefix :: string where "ThunkPrefix = ''__weavec_thunk_''"

record ir_function =
  fuName :: string
  fuDeclaration :: bool
  fuNaked :: bool

definition skips :: "ir_function \<Rightarrow> bool" where
  "skips fu \<longleftrightarrow> fuDeclaration fu \<or> fuNaked fu \<or> (isRuntimeName (fuName fu) \<and> \<not> startsWith ThunkPrefix (fuName fu))"

subsection \<open>Where a local is out of scope\<close>

text \<open>
  A local is out of scope at a position when control can come there from an end of its scope
  without passing a start.
\<close>

inductive dead_at :: "func \<Rightarrow> nat \<Rightarrow> nat \<times> nat \<Rightarrow> bool" for fn al where
  dead_end: "b < length (fnBlocks fn) \<Longrightarrow> i < length (blockOf fn b) \<Longrightarrow> markerFor (blockOf fn b ! i) al < 0 \<Longrightarrow> dead_at fn al (b, Suc i)"
| dead_next: "dead_at fn al (b, i) \<Longrightarrow> i < length (blockOf fn b) \<Longrightarrow> markerFor (blockOf fn b ! i) al = 0 \<Longrightarrow> dead_at fn al (b, Suc i)"
| dead_jump: "dead_at fn al (b, length (blockOf fn b)) \<Longrightarrow> b' \<in> set (fnSuccs fn b) \<Longrightarrow> dead_at fn al (b', 0)"

inductive_cases dead_startE: "dead_at fn al (b, 0)"
inductive_cases dead_SucE: "dead_at fn al (b, Suc i)"

lemma leavesDead_Nil [simp]: "leavesDead al [] st = st"
  by (simp add: leavesDead_def)

lemma leavesDead_snoc:
  "leavesDead al (block @ [ins]) st = (if markerFor ins al \<noteq> 0 then markerFor ins al < 0 else leavesDead al block st)"
  by (simp add: leavesDead_def)

lemma leavesDead_take:
  "i < length block \<Longrightarrow> leavesDead al (take (Suc i) block) st =
     (if markerFor (block ! i) al \<noteq> 0 then markerFor (block ! i) al < 0 else leavesDead al (take i block) st)"
  by (simp add: take_Suc_conv_app_nth leavesDead_snoc)

lemma leavesDead_end:
  "leavesDead al block False \<Longrightarrow> \<exists>ins \<in> set block. markerFor ins al < 0"
  by (induction block rule: rev_induct) (auto simp: leavesDead_snoc split: if_splits)

lemma blockOf_empty: "\<not> b < length (fnBlocks fn) \<Longrightarrow> blockOf fn b = []"
  by (simp add: blockOf_def)

text \<open>The state inside a block, from the state at its start.\<close>

lemma dead_inside:
  assumes "b < length (fnBlocks fn)" "enter \<Longrightarrow> dead_at fn al (b, 0)"
  shows "i \<le> length (blockOf fn b) \<Longrightarrow> leavesDead al (take i (blockOf fn b)) enter \<Longrightarrow> dead_at fn al (b, i)"
proof (induction i)
  case (Suc i)
  then show ?case
    using assms(1) by (auto simp: leavesDead_take intro: dead_end dead_next split: if_splits)
qed (use assms(2) in simp)

lemma pushDead_sets:
  "pushDead bs dead work = (dead', work') \<Longrightarrow> dead' = dead \<union> set bs \<and> set work' = set work \<union> (set bs - dead)"
proof (induction bs arbitrary: dead work)
  case (Cons b bs)
  show ?case
  proof (cases "b \<in> dead")
    case True
    then show ?thesis using Cons.IH [of dead work] Cons.prems by auto
  next
    case False
    then show ?thesis using Cons.IH [of "insert b dead" "b # work"] Cons.prems by auto
  qed
qed simp

definition scope_graph :: "func \<Rightarrow> bool" where
  "scope_graph fn \<longleftrightarrow> (\<forall>b < length (fnBlocks fn). \<forall>b' \<in> set (fnSuccs fn b). b' < length (fnBlocks fn))"

definition scope_inv :: "func \<Rightarrow> nat \<Rightarrow> nat list \<Rightarrow> nat set \<Rightarrow> nat set \<Rightarrow> bool" where
  "scope_inv fn al work dead leftDead \<longleftrightarrow>
     (\<forall>b \<in> set work. b < length (fnBlocks fn)) \<and> (\<forall>b \<in> leftDead. b < length (fnBlocks fn)) \<and>
     (\<forall>b \<in> dead. dead_at fn al (b, 0)) \<and> (\<forall>b \<in> leftDead. set (fnSuccs fn b) \<subseteq> dead) \<and>
     (\<forall>b < length (fnBlocks fn). leavesDead al (blockOf fn b) (b \<in> dead) \<longrightarrow> b \<in> leftDead \<or> b \<in> set work)"

lemma scope_inv_start: "scope_inv fn al (endBlocks fn al) {} {}"
proof -
  have "b \<in> set (endBlocks fn al) \<longleftrightarrow> b < length (fnBlocks fn) \<and> (\<exists>ins \<in> set (blockOf fn b). markerFor ins al < 0)" for b
    unfolding endBlocks_def by auto
  then show ?thesis using leavesDead_end by (auto simp: scope_inv_def)
qed

lemma scope_inv_drop:
  assumes "scope_inv fn al (b # rest) dead leftDead" "\<not> leavesDead al (blockOf fn b) (b \<in> dead) \<or> b \<in> leftDead"
  shows "scope_inv fn al rest dead leftDead"
  using assms unfolding scope_inv_def by auto

lemma scope_inv_left:
  assumes graph: "scope_graph fn" and inv: "scope_inv fn al (b # rest) dead leftDead"
    and leaves: "leavesDead al (blockOf fn b) (b \<in> dead)"
    and push: "pushDead (fnSuccs fn b) dead rest = (dead', work')"
  shows "scope_inv fn al work' dead' (insert b leftDead)"
proof -
  have b: "b < length (fnBlocks fn)" using inv by (simp add: scope_inv_def)
  have "dead_at fn al (b, length (blockOf fn b))"
    using dead_inside [OF b, of "b \<in> dead" al "length (blockOf fn b)"] inv leaves by (auto simp: scope_inv_def)
  then have new: "dead_at fn al (b', 0)" if "b' \<in> set (fnSuccs fn b)" for b' using that by (rule dead_jump)
  have sets: "dead' = dead \<union> set (fnSuccs fn b)" "set work' = set rest \<union> (set (fnSuccs fn b) - dead)"
    using pushDead_sets [OF push] by simp_all
  have "b' \<in> insert b leftDead \<or> b' \<in> set work'"
    if b': "b' < length (fnBlocks fn)" "leavesDead al (blockOf fn b') (b' \<in> dead')" for b'
  proof (cases "b' \<in> dead' \<longleftrightarrow> b' \<in> dead")
    case True
    then show ?thesis using inv b' sets by (auto simp: scope_inv_def)
  next
    case False
    then show ?thesis using sets by auto
  qed
  moreover have "b' < length (fnBlocks fn)" if "b' \<in> set (fnSuccs fn b)" for b'
    using graph b that by (simp add: scope_graph_def)
  ultimately show ?thesis using inv new b sets by (auto simp: scope_inv_def)
qed

lemma dead_in_graph: "dead_at fn al p \<Longrightarrow> scope_graph fn \<Longrightarrow> fst p < length (fnBlocks fn)"
  by (induction rule: dead_at.induct) (auto simp: scope_graph_def)

lemma scope_inv_done:
  assumes graph: "scope_graph fn" and inv: "scope_inv fn al [] dead leftDead"
  shows "dead_at fn al p \<Longrightarrow> leavesDead al (take (snd p) (blockOf fn (fst p))) (fst p \<in> dead)"
proof (induction rule: dead_at.induct)
  case (dead_jump b b')
  have "b < length (fnBlocks fn)" using dead_in_graph [OF dead_jump.hyps(1) graph] by simp
  then have "b \<in> leftDead" using dead_jump.IH inv by (auto simp: scope_inv_def)
  then show ?case using inv dead_jump.hyps(2) by (auto simp: scope_inv_def)
qed (simp_all add: leavesDead_take)

lemma deadLoop_total:
  assumes graph: "scope_graph fn"
  shows "scope_inv fn al work dead leftDead \<Longrightarrow>
    \<exists>dead' leftDead'. deadLoop fn al work dead leftDead = Some dead' \<and> scope_inv fn al [] dead' leftDead'"
proof (induction "(card ({..<length (fnBlocks fn)} - leftDead), length work)" arbitrary: work dead leftDead
    rule: wf_induct [OF wf_lex_prod [OF wf_less wf_less]])
  case (1 work leftDead dead)
  have IH: "\<exists>dead' leftDead'. deadLoop fn al w d l = Some dead' \<and> scope_inv fn al [] dead' leftDead'"
    if small: "card ({..<length (fnBlocks fn)} - l) < card ({..<length (fnBlocks fn)} - leftDead) \<or>
        l = leftDead \<and> length w < length work" and inv: "scope_inv fn al w d l" for w d l
    by (rule 1(1) [rule_format, OF _ refl inv]) (use small in auto)
  show ?case
  proof (cases work)
    case Nil
    then show ?thesis using 1(2) by (subst deadLoop.simps) auto
  next
    case (Cons b rest)
    show ?thesis
    proof (cases "\<not> leavesDead al (blockOf fn b) (b \<in> dead) \<or> b \<in> leftDead")
      case True
      then have "scope_inv fn al rest dead leftDead" using scope_inv_drop 1(2) Cons by blast
      then have "\<exists>dead' leftDead'. deadLoop fn al rest dead leftDead = Some dead' \<and> scope_inv fn al [] dead' leftDead'"
        using IH [of leftDead rest dead] Cons by simp
      then show ?thesis using Cons True by (subst deadLoop.simps) simp
    next
      case False
      obtain dead1 work1 where push: "pushDead (fnSuccs fn b) dead rest = (dead1, work1)" by fastforce
      then have inv: "scope_inv fn al work1 dead1 (insert b leftDead)"
        using scope_inv_left [OF graph] 1(2) Cons False by blast
      have "b < length (fnBlocks fn)" using 1(2) Cons by (simp add: scope_inv_def)
      then have "card ({..<length (fnBlocks fn)} - insert b leftDead) < card ({..<length (fnBlocks fn)} - leftDead)"
        using False by (intro psubset_card_mono) auto
      then have "\<exists>dead' leftDead'. deadLoop fn al work1 dead1 (insert b leftDead) = Some dead' \<and> scope_inv fn al [] dead' leftDead'"
        using IH inv by blast
      then show ?thesis using Cons False push by (subst deadLoop.simps) simp
    qed
  qed
qed

text \<open>
  C21: \<open>Scopes::mayBeOutOfScope\<close> returns and is exact: it says yes at an instruction exactly
  when control can come there from an end of the local's scope without passing a start.
\<close>

theorem mayBeOutOfScope_exact:
  assumes "scope_graph fn" "b < length (fnBlocks fn)" "i \<le> length (blockOf fn b)"
  shows "mayBeOutOfScope fn al (b, i) = Some (dead_at fn al (b, i))"
proof -
  obtain dead left where r: "deadLoop fn al (endBlocks fn al) {} {} = Some dead" "scope_inv fn al [] dead left"
    using deadLoop_total [OF assms(1) scope_inv_start] by blast
  have "leavesDead al (take i (blockOf fn b)) (b \<in> dead) \<Longrightarrow> dead_at fn al (b, i)"
    using dead_inside [OF assms(2), of "b \<in> dead" al i] assms(3) r(2) by (auto simp: scope_inv_def)
  moreover have "dead_at fn al (b, i) \<Longrightarrow> leavesDead al (take i (blockOf fn b)) (b \<in> dead)"
    using scope_inv_done [OF assms(1) r(2), of "(b, i)"] by simp
  ultimately show ?thesis using r(1) by (auto simp: mayBeOutOfScope_def)
qed

text \<open>A loop whose body starts and ends the scope of local 7: it is out of scope when the loop is entered again.\<close>

definition scopeMarker :: "nat \<Rightarrow> intrinsic \<Rightarrow> instruction" where
  "scopeMarker n it = \<lparr>iId = n, iKind = Call False (Some it) None True, iTransfers = True, iDefines = None, iLastArg = Some 7\<rparr>"

definition scopeLoop :: func where
  "scopeLoop = \<lparr>fnBlocks = [[], [scopeMarker 1 LifetimeStart, scopeMarker 2 LifetimeEnd]],
     fnSuccs = (\<lambda>b. if b \<le> 1 then [1] else []), fnOrder = [0, 1]\<rparr>"

theorem mayBeOutOfScope_exact_witness:
  "mayBeOutOfScope scopeLoop 7 (1, 0) = Some True \<and> mayBeOutOfScope scopeLoop 7 (1, 1) = Some False"
proof -
  have graph: "scope_graph scopeLoop" by (simp add: scope_graph_def scopeLoop_def)
  have block: "blockOf scopeLoop 1 = [scopeMarker 1 LifetimeStart, scopeMarker 2 LifetimeEnd]"
    "length (fnBlocks scopeLoop) = 2" by (simp_all add: blockOf_def scopeLoop_def)
  have marks: "markerFor (blockOf scopeLoop 1 ! 0) 7 = 1" "markerFor (blockOf scopeLoop 1 ! 1) 7 = - 1"
    unfolding block by (simp_all add: markerFor_def scopeMarker_def)
  have "dead_at scopeLoop 7 (1, Suc 1)" using dead_end [of 1 scopeLoop 1 7] marks block by simp
  then have "dead_at scopeLoop 7 (1, 0)" using dead_jump [of scopeLoop 7 1 1] block by (simp add: scopeLoop_def)
  moreover have "\<not> dead_at scopeLoop 7 (1, 1)" using marks dead_SucE [of scopeLoop 7 1 0] by auto
  ultimately show ?thesis
    using mayBeOutOfScope_exact [OF graph, of 1 0 7] mayBeOutOfScope_exact [OF graph, of 1 1 7] block by simp
qed

text \<open>
  Rule 6.1 is sound: an access whose constant offset and width are inside the exact size of
  its object touches only bytes of the object, and no object of unknown size is ever inside.
\<close>

theorem insideAt_exact:
  "insideAt (exactSize obj) offset width \<longleftrightarrow>
     (\<exists>n. exactSize obj = Some n \<and> 0 \<le> offset \<and> offset + uint width \<le> int n)"
proof (cases "exactSize obj")
  case (Some n)
  define k where "k = unat width"
  then have u: "uint width = int k" by simp
  show ?thesis unfolding insideAt_def u k_def [symmetric] Some by auto
qed (simp add: insideAt_def)

end
