(* ===== verification/Strings.thy ===== *)
theory Strings
  imports Guard_Runtime
begin

text \<open>
  The string guard of \<open>runtime/weavec_guard.c\<close>: \<open>hasZeroByte\<close>, \<open>stringLength\<close> and
  \<open>__weavec_rt_strlen\<close>. The program's memory is a map from addresses to bytes; \<open>strnlen\<close> of
  the C library is the number of bytes before the first zero, at most the bound.
\<close>

subsection \<open>The model\<close>

primrec strnlen :: "(u64 \<Rightarrow> byte) \<Rightarrow> u64 \<Rightarrow> nat \<Rightarrow> nat" where
  "strnlen m p 0 = 0"
| "strnlen m p (Suc n) = (if m p = 0 then 0 else Suc (strnlen m (p + 1) n))"

definition stringLength ::
  "rt_env \<Rightarrow> shadow_t \<Rightarrow> (u64 \<Rightarrow> byte) \<Rightarrow> u64 \<Rightarrow> u64 \<Rightarrow> (u64 \<times> failure list \<times> shadow_t) option" where
  "stringLength e s m p bound =
     (let len = word_of_nat (strnlen m p (unat bound));
          scanned = (if len < bound then len + 1 else bound)
      in if weavecRtQuickOk s p scanned then Some (len, [], s)
         else map_option (\<lambda>(r, s'). (len,
                (case r of None \<Rightarrow> []
                 | Some (bad, v) \<Rightarrow>
                     [Fail (if v = WeavecRtShadowHeapFreed then HeapUseAfterFree else UnterminatedString) p scanned]), s'))
              (firstUnaddressable e s p scanned))"

abbreviation lowBits :: u64 where "lowBits \<equiv> 0x0101010101010101"

definition hasZeroByte :: "u64 \<Rightarrow> bool" where
  "hasZeroByte w \<longleftrightarrow> (w - lowBits) AND NOT w AND signBits \<noteq> 0"

partial_function (option) untilZero :: "(u64 \<Rightarrow> byte) \<Rightarrow> u64 \<Rightarrow> u64 option" where
  "untilZero m at = (if m at = 0 then Some at else untilZero m (at + 1))"

text \<open>The four words of the first 32 bytes: the first that holds a zero byte.\<close>

fun zeroWord :: "(u64 \<Rightarrow> byte) \<Rightarrow> u64 \<Rightarrow> nat list \<Rightarrow> u64 option" where
  "zeroWord m p [] = None"
| "zeroWord m p (i # is') =
     (if hasZeroByte (load64 m (p + 8 * word_of_nat i)) then Some (p + 8 * word_of_nat i) else zeroWord m p is')"

definition weavec_rt_strlen ::
  "rt_env \<Rightarrow> shadow_t \<Rightarrow> (u64 \<Rightarrow> byte) \<Rightarrow> u64 \<Rightarrow> u64 \<Rightarrow> u64 option \<Rightarrow> (u64 \<times> failure list \<times> shadow_t) option" where
  "weavec_rt_strlen e s m p bound siteFlags =
     (if p = 0 then
        Some (0, if siteFlags = None \<or> the siteFlags AND 8 = 0 then [Fail NullDereference 0 1] else [], s)
      else
        let shadow = weavecRtShadowOf s p;
            near = bound \<ge> 32 \<and> p AND 4095 \<le> 4096 - 32 \<and> weavecRtShadowReady s \<and> weavecRtInWindow s (p + 32) \<and>
              (shMem s shadow OR shMem s (shadow + 1) OR (if p AND 15 \<noteq> 0 then shMem s (shadow + 2) else 0)) AND 0x80 = 0
        in case (if near then zeroWord m p [0..<4] else None) of
             Some at \<Rightarrow> map_option (\<lambda>z. (z - p, [], s)) (untilZero m at)
           | None \<Rightarrow> stringLength e s m p bound)"

subsection \<open>A zero byte in a word\<close>

text \<open>Numbers in base 256: adding a low byte splits every bitwise operation.\<close>

lemma bit_low_byte:
  assumes "0 \<le> b" "b < (256 :: int)"
  shows "bit (b + 256 * x) n = (if n < 8 then bit b n else bit x (n - 8))"
proof -
  have b: "take_bit 8 b = b" using assms by (simp add: take_bit_int_eq_self)
  have "b + 256 * x = concat_bit 8 b x" by (simp add: concat_bit_eq b push_bit_eq_mult)
  then show ?thesis by (simp only: bit_concat_bit_iff) simp
qed

fun ones :: "nat \<Rightarrow> int" where
  "ones 0 = 0"
| "ones (Suc n) = 1 + 256 * ones n"

fun fromBytes :: "int list \<Rightarrow> int" where
  "fromBytes [] = 0"
| "fromBytes (b # bs) = b + 256 * fromBytes bs"

definition zeroTest :: "nat \<Rightarrow> int \<Rightarrow> int" where
  "zeroTest n w = (w - ones n) AND NOT w AND (128 * ones n)"

lemma bit_128 [simp]: "bit (128 :: int) n \<longleftrightarrow> n = 7"
  using bit_exp_iff [of 7 n] by (auto simp: exp_eq_0_imp_not_bit)

lemma bit_7_int:
  assumes "0 \<le> b" "b < (256 :: int)"
  shows "bit b 7 \<longleftrightarrow> 128 \<le> b"
proof (cases "b < 128")
  case True
  then show ?thesis using assms by (simp add: bit_iff_odd)
next
  case False
  then have "b div 128 = 1" using assms by (intro int_div_pos_eq [where r = "b - 128"]) simp_all
  then show ?thesis using False by (simp add: bit_iff_odd)
qed

lemma byte_minus_one:
  assumes "1 \<le> b" "b < (256 :: int)"
  shows "\<not> (bit (b - 1) 7 \<and> \<not> bit b 7)"
  using assms by (simp add: bit_7_int)

lemma zeroTest_Cons:
  assumes b: "0 \<le> b" "b < 256"
  shows "zeroTest (Suc n) (b + 256 * w) \<noteq> 0 \<longleftrightarrow> b = 0 \<or> zeroTest n w \<noteq> 0"
proof -
  have ne: "x \<noteq> 0 \<longleftrightarrow> (\<exists>k. bit x k)" for x :: int by (metis bit_0_eq bit_eqI bot_apply bot_bool_def)
  have highs: "128 * ones (Suc n) = 128 + 256 * (128 * ones n)" by simp
  have bits: "bit (128 * ones (Suc n)) k = (if k < 8 then k = 7 else bit (128 * ones n) (k - 8))" for k
    unfolding highs by (subst bit_low_byte) auto
  show ?thesis
  proof (cases "b = 0")
    case True
    have sub: "b + 256 * w - ones (Suc n) = 255 + 256 * (w - ones n - 1)" using True by simp
    have "bit (255 :: int) 7" by (simp add: bit_iff_odd)
    then have "bit (b + 256 * w - ones (Suc n)) 7" unfolding sub by (subst bit_low_byte) simp_all
    then have "bit (zeroTest (Suc n) (b + 256 * w)) 7"
      using True bits [of 7] by (simp add: zeroTest_def bit_and_iff bit_not_iff bit_low_byte [of 0, simplified])
    then show ?thesis using True ne by blast
  next
    case False
    then have sub: "b + 256 * w - ones (Suc n) = (b - 1) + 256 * (w - ones n)" by simp
    have parts: "bit ((b - 1) + 256 * (w - ones n)) k = (if k < 8 then bit (b - 1) k else bit (w - ones n) (k - 8))"
      "bit (b + 256 * w) k = (if k < 8 then bit b k else bit w (k - 8))" for k
      using False b by (intro bit_low_byte; simp)+
    have "bit (zeroTest (Suc n) (b + 256 * w)) k \<longleftrightarrow> 8 \<le> k \<and> bit (zeroTest n w) (k - 8)" for k
      using byte_minus_one [of b] False b unfolding zeroTest_def sub
      by (simp only: bit_and_iff bit_not_int_iff parts bits) auto
    then show ?thesis using False ne by (metis add_diff_cancel_right' le_add2)
  qed
qed

lemma zeroTest_bytes:
  "(\<forall>b \<in> set bs. 0 \<le> b \<and> b < 256) \<Longrightarrow> zeroTest (length bs) (fromBytes bs) \<noteq> 0 \<longleftrightarrow> 0 \<in> set bs"
proof (induction bs)
  case (Cons b bs)
  then show ?case using zeroTest_Cons [of b "length bs" "fromBytes bs"] by auto
qed (simp add: zeroTest_def)

lemma bit_fromBytes:
  "(\<forall>b \<in> set bs. 0 \<le> b \<and> b < 256) \<Longrightarrow>
   bit (fromBytes bs) n \<longleftrightarrow> n div 8 < length bs \<and> bit (bs ! (n div 8)) (n mod 8)"
proof (induction bs arbitrary: n)
  case (Cons b bs)
  show ?case
  proof (cases "n < 8")
    case True
    then show ?thesis using Cons.prems by (simp add: bit_low_byte)
  next
    case False
    then have "n div 8 = Suc ((n - 8) div 8)" "(n - 8) mod 8 = n mod 8" by (simp_all add: div_if mod_if)
    then show ?thesis using False Cons.IH [of "n - 8"] Cons.prems by (simp add: bit_low_byte)
  qed
qed simp

lemma load64_bytes: "uint (load64 m p) = fromBytes (map (\<lambda>i. uint (m (p + word_of_nat i))) [0..<8])"
proof (rule bit_eqI)
  fix n
  have bound: "\<forall>b \<in> set (map (\<lambda>i. uint (m (p + word_of_nat i))) [0..<8]). 0 \<le> b \<and> b < 256"
    using uint_bounded [where 'a = 8] by simp
  have "bit (uint (load64 m p)) n \<longleftrightarrow> n < 64 \<and> bit (m (p + word_of_nat (n div 8))) (n mod 8)"
    using bit_load64 [of n m p] by (auto simp: bit_uint_iff)
  also have "\<dots> \<longleftrightarrow> bit (fromBytes (map (\<lambda>i. uint (m (p + word_of_nat i))) [0..<8])) n"
    unfolding bit_fromBytes [OF bound] by (auto simp: bit_uint_iff div_less_iff_less_mult)
  finally show "bit (uint (load64 m p)) n = bit (fromBytes (map (\<lambda>i. uint (m (p + word_of_nat i))) [0..<8])) n" .
qed

lemma hasZeroByte_int: "hasZeroByte w \<longleftrightarrow> zeroTest 8 (uint w) \<noteq> 0"
proof -
  have ones8: "ones 8 = 0x0101010101010101" "128 * ones 8 = 0x8080808080808080" by (simp_all add: eval_nat_numeral)
  have sub: "bit (w - lowBits) n \<longleftrightarrow> bit (uint w - ones 8) n" if "n < 64" for n
  proof -
    have "uint (w - lowBits) = take_bit 64 (uint w - ones 8)" by (simp add: ones8 uint_word_ariths take_bit_eq_mod)
    then have "bit (uint (w - lowBits)) n \<longleftrightarrow> bit (uint w - ones 8) n" using that by (simp only: bit_take_bit_iff) simp
    then show ?thesis using that by (simp add: bit_uint_iff)
  qed
  have mask: "bit (128 * ones 8) n \<longleftrightarrow> n < 64 \<and> bit signBits n" for n
  proof -
    have m: "128 * ones 8 = uint signBits" by (simp add: ones8)
    show ?thesis unfolding m by (simp only: bit_uint_iff) simp
  qed
  have "uint ((w - lowBits) AND NOT w AND signBits) = zeroTest 8 (uint w)"
    by (rule bit_eqI) (auto simp: zeroTest_def bit_uint_iff bit_and_iff bit_not_iff bit_not_int_iff sub mask)
  then show ?thesis unfolding hasZeroByte_def by (metis uint_0_iff)
qed

lemma hasZeroByte_load: "hasZeroByte (load64 m p) \<longleftrightarrow> (\<exists>i < 8. m (p + word_of_nat i) = 0)"
proof -
  have "zeroTest 8 (uint (load64 m p)) \<noteq> 0 \<longleftrightarrow> 0 \<in> set (map (\<lambda>i. uint (m (p + word_of_nat i))) [0..<8])"
    unfolding load64_bytes using zeroTest_bytes [of "map (\<lambda>i. uint (m (p + word_of_nat i))) [0..<8]"]
      uint_bounded [where 'a = 8] by simp
  also have "\<dots> \<longleftrightarrow> (\<exists>i < 8. m (p + word_of_nat i) = 0)" by (force simp: uint_0_iff)
  finally show ?thesis unfolding hasZeroByte_int .
qed

subsection \<open>The length\<close>

lemma strnlen_le: "strnlen m p n \<le> n"
  by (induction n arbitrary: p) auto

lemma strnlen_before: "i < strnlen m p n \<Longrightarrow> m (p + word_of_nat i) \<noteq> 0"
proof (induction n arbitrary: p i)
  case (Suc n)
  show ?case
  proof (cases i)
    case (Suc j)
    then have "m ((p + 1) + word_of_nat j) \<noteq> 0" using Suc.IH [of j "p + 1"] Suc.prems by (simp split: if_splits)
    then show ?thesis using Suc by (simp add: add.assoc)
  qed (use Suc.prems in \<open>simp split: if_splits\<close>)
qed simp

lemma strnlen_at: "strnlen m p n < n \<Longrightarrow> m (p + word_of_nat (strnlen m p n)) = 0"
proof (induction n arbitrary: p)
  case (Suc n)
  then show ?case using Suc.IH [of "p + 1"] by (auto simp: add.assoc)
qed simp

lemma strnlen_eq:
  assumes "k < n" "m (p + word_of_nat k) = 0" "\<And>i. i < k \<Longrightarrow> m (p + word_of_nat i) \<noteq> 0"
  shows "strnlen m p n = k"
proof -
  have "\<not> k < strnlen m p n" using strnlen_before assms(2) by blast
  moreover have "\<not> strnlen m p n < k" using strnlen_at [of m p n] assms(1,3) by fastforce
  ultimately show ?thesis by simp
qed

lemma untilZero_finds:
  "m (p + word_of_nat k) = 0 \<Longrightarrow> (\<And>i. i < k \<Longrightarrow> m (p + word_of_nat i) \<noteq> 0) \<Longrightarrow>
   untilZero m p = Some (p + word_of_nat k)"
proof (induction k arbitrary: p)
  case 0
  then show ?case by (subst untilZero.simps) simp
next
  case (Suc k)
  have "m p \<noteq> 0" using Suc.prems(2) [of 0] by simp
  moreover have "untilZero m (p + 1) = Some (p + 1 + word_of_nat k)"
    using Suc.prems(1) Suc.prems(2) [of "Suc _"] by (intro Suc.IH) (simp_all add: add.assoc)
  ultimately show ?case by (subst untilZero.simps) (simp add: add.assoc)
qed

text \<open>The word that holds the first zero byte leads to the same length as the byte scan.\<close>

lemma zeroWord_least:
  assumes "zeroWord m p [j..<4] = Some at" "\<And>i. i < 8 * j \<Longrightarrow> m (p + word_of_nat i) \<noteq> 0"
  shows "\<exists>k < 32. m (p + word_of_nat k) = 0 \<and> (\<forall>i < k. m (p + word_of_nat i) \<noteq> 0) \<and>
    untilZero m at = Some (p + word_of_nat k)"
  using assms
proof (induction "4 - j" arbitrary: j)
  case (Suc d)
  then have j: "j < 4" by simp
  then have up: "[j..<4] = j # [Suc j..<4]" by (simp add: upt_conv_Cons)
  have add: "p + 8 * word_of_nat j + word_of_nat i = p + word_of_nat (8 * j + i)" for i by simp
  show ?case
  proof (cases "hasZeroByte (load64 m (p + 8 * word_of_nat j))")
    case True
    define k where "k = (LEAST i. m (p + 8 * word_of_nat j + word_of_nat i) = 0)"
    have "\<exists>i < 8. m (p + 8 * word_of_nat j + word_of_nat i) = 0" using True by (simp add: hasZeroByte_load)
    then have k: "k < 8" "m (p + 8 * word_of_nat j + word_of_nat k) = 0"
      "\<And>i. i < k \<Longrightarrow> m (p + 8 * word_of_nat j + word_of_nat i) \<noteq> 0"
      unfolding k_def by (auto intro: LeastI Least_le [THEN le_less_trans] dest: not_less_Least)
    have "m (p + word_of_nat i) \<noteq> 0" if "i < 8 * j + k" for i
      using that Suc.prems(2) [of i] k(3) [of "i - 8 * j"] add [of "i - 8 * j"] by (cases "i < 8 * j") auto
    moreover have "untilZero m at = Some (p + word_of_nat (8 * j + k))"
      using untilZero_finds [of m "p + 8 * word_of_nat j" k] k Suc.prems(1) True up add by simp
    ultimately show ?thesis using k j add [of k] by (intro exI [of _ "8 * j + k"]) simp
  next
    case False
    then have none: "m (p + 8 * word_of_nat j + word_of_nat i) \<noteq> 0" if "i < 8" for i using that by (auto simp: hasZeroByte_load)
    have "m (p + word_of_nat i) \<noteq> 0" if i: "i < 8 * Suc j" for i
    proof (cases "i < 8 * j")
      case False
      then have "p + 8 * word_of_nat j + word_of_nat (i - 8 * j) = p + word_of_nat i"
        using add [of "i - 8 * j"] by (simp only: not_less le_add_diff_inverse)
      then show ?thesis using none [of "i - 8 * j"] i False by simp
    qed (use Suc.prems(2) in blast)
    then show ?thesis using Suc.hyps(1) [of "Suc j"] Suc.hyps(2) Suc.prems(1) False up by simp
  qed
qed simp

subsection \<open>The guard\<close>

text \<open>Three whole granules hold the 32 bytes the word scan reads.\<close>

lemma near_addressable:
  assumes wf: "shadow_wf s" and p: "unat p < 2 ^ shBits s" "p AND 4095 \<le> 4096 - 32" "weavecRtInWindow s (p + 32)"
    and near: "(shMem s (weavecRtShadowOf s p) OR shMem s (weavecRtShadowOf s p + 1) OR
        (if p AND 15 \<noteq> 0 then shMem s (weavecRtShadowOf s p + 2) else 0)) AND 0x80 = 0"
  shows "all_addressable s p 32"
proof -
  have b: "(2 :: nat) ^ shBits s \<le> 2 ^ 63" by (rule shadow_window_bound [OF wf])
  have win: "unat p + 32 \<le> 2 ^ shBits s"
    using p(1,3) b by (simp add: in_window_iff [OF wf] unat_add_no_wrap)
  have "\<not> bit (shMem s (weavecRtShadowOf s p) OR shMem s (weavecRtShadowOf s p + 1) OR
      (if p AND 15 \<noteq> 0 then shMem s (weavecRtShadowOf s p + 2) else 0)) 7"
    using near and_exp_eq_0_iff_not_bit [where 'a = byte and n = 7] by simp
  then have whole: "weavecRtShadowFull (shMem s (weavecRtShadowOf s p))" "weavecRtShadowFull (shMem s (weavecRtShadowOf s p + 1))"
    "p AND 15 \<noteq> 0 \<Longrightarrow> weavecRtShadowFull (shMem s (weavecRtShadowOf s p + 2))"
    by (simp_all add: bit_or_iff full_bit7)
  define r where "r = unat p mod 16"
  have r: "unat (p AND 15) = r" "r < 16" by (simp_all add: unat_and_low r_def)
  then have zero: "p AND 15 = 0 \<longleftrightarrow> r = 0" by (metis unat_eq_zero)
  have l: "l = r + 32 - 1 \<Longrightarrow> l div 16 = (if r = 0 then 1 else 2)" for l
    using r(2) by (cases "r = 0") (auto intro!: div_nat_eqI)
  define l where "l = unat p mod 16 + 32 - 1"
  then have last: "l div 16 = (if p AND 15 \<noteq> 0 then 2 else 1)" using l [of l] zero by (simp add: r_def)
  have "weavecRtShadowFull (shMem s (weavecRtShadowOf s p + word_of_nat k))" if k: "k \<le> l div 16" for k
  proof -
    have "k = 0 \<or> k = 1 \<or> k = 2 \<and> p AND 15 \<noteq> 0" using k last by (auto split: if_splits)
    then show ?thesis using whole by auto
  qed
  then show ?thesis
    using all_addressable_granules [OF wf _ win l_def] by (simp add: byte_ok_full)
qed

lemma stringLength_exact:
  assumes wf: "shadow_wf s" and bound: "0 < bound" and len: "len = strnlen m p (unat bound)"
    and n: "n = min (len + 1) (unat bound)" and win: "unat p + n \<le> 2 ^ shBits s"
  shows "\<exists>fs s'. stringLength e s m p bound = Some (word_of_nat len, fs, s') \<and> same_settled e s s' \<and>
    (fs = [] \<longleftrightarrow> (\<forall>i < n. accessible e s (p + word_of_nat i))) \<and>
    (fs = [] \<or> fs = [Fail HeapUseAfterFree p (word_of_nat n)] \<or> fs = [Fail UnterminatedString p (word_of_nat n)])"
proof -
  have le: "len \<le> unat bound" unfolding len by (rule strnlen_le)
  then have u: "unat (word_of_nat len :: u64) = len" using unat_u64_less [of bound] by (intro unat_of_nat_small) simp
  define scanned where "scanned = (if (word_of_nat len :: u64) < bound then word_of_nat len + 1 else bound)"
  have sc: "unat scanned = n"
  proof (cases "len < unat bound")
    case True
    then have "unat (word_of_nat len + 1 :: u64) = len + 1"
      using u unat_u64_less [of bound] by (subst unat_add_no_wrap) simp_all
    then show ?thesis using True u n by (simp add: scanned_def word_less_nat_alt)
  next
    case False
    then show ?thesis using u n le by (simp add: scanned_def word_less_nat_alt)
  qed
  then have scw: "scanned = word_of_nat n" by auto
  have n0: "0 < n" using n bound by (simp add: word_less_nat_alt)
  have s0: "0 < scanned" using sc n0 by (simp add: word_less_nat_alt)
  have run: "stringLength e s m p bound =
      (if weavecRtQuickOk s p scanned then Some (word_of_nat len, [], s)
       else map_option (\<lambda>(r, s'). (word_of_nat len,
              (case r of None \<Rightarrow> []
               | Some (bad, v) \<Rightarrow>
                   [Fail (if v = WeavecRtShadowHeapFreed then HeapUseAfterFree else UnterminatedString) p scanned]), s'))
            (firstUnaddressable e s p scanned))"
    unfolding stringLength_def Let_def len scanned_def ..
  have pw: "unat p < 2 ^ shBits s" using win n0 by simp
  have wins: "unat p + unat scanned \<le> 2 ^ shBits s" using win sc by simp
  show ?thesis
  proof (cases "weavecRtQuickOk s p scanned")
    case True
    then have "scanned \<le> 113" using s0 by (auto simp: weavecRtQuickOk_def Let_def not_less split: if_splits)
    then have "all_addressable s p (unat scanned)" using quickOk_exact [OF wf s0 _ wins] True by simp
    then have "\<forall>i < n. accessible e s (p + word_of_nat i)"
      using sc by (simp add: all_addressable_def addressable_accessible)
    then show ?thesis using True by (simp add: run)
  next
    case False
    obtain r s' where r: "firstUnaddressable e s p scanned = Some (r, s')" "same_settled e s s'"
      "scan_answer e s p (rangeEnd s p scanned) r" using firstUnaddressable_answer [OF wf s0 pw] by blast
    have "r = None \<longleftrightarrow> (\<forall>b. p \<le> b \<and> unat b < unat p + n \<longrightarrow> accessible e s b)"
      using r(3) win sc
      by (cases r) (auto simp: scan_answer_def word_less_nat_alt rangeEnd_window [OF wf s0 pw] min_def)
    also have "\<dots> \<longleftrightarrow> (\<forall>i < n. accessible e s (p + word_of_nat i))" by (rule in_range_add [OF wf win])
    finally show ?thesis
      using False r(1,2) by (auto simp: run scw split: option.splits)
  qed
qed

lemma weavec_rt_strlen_result:
  assumes wf: "shadow_wf s" and p: "p \<noteq> 0" and bound: "0 < bound" and len: "len = strnlen m p (unat bound)"
    and n: "n = min (len + 1) (unat bound)" and win: "unat p + n \<le> 2 ^ shBits s"
  shows "\<exists>fs s'. weavec_rt_strlen e s m p bound siteFlags = Some (word_of_nat len, fs, s') \<and>
    same_settled e s s' \<and> (fs = [] \<longleftrightarrow> (\<forall>i < n. accessible e s (p + word_of_nat i))) \<and>
    (fs = [] \<or> fs = [Fail HeapUseAfterFree p (word_of_nat n)] \<or> fs = [Fail UnterminatedString p (word_of_nat n)])"
proof -
  define near where "near \<longleftrightarrow> bound \<ge> 32 \<and> p AND 4095 \<le> 4096 - 32 \<and> weavecRtShadowReady s \<and> weavecRtInWindow s (p + 32) \<and>
      (shMem s (weavecRtShadowOf s p) OR shMem s (weavecRtShadowOf s p + 1) OR
        (if p AND 15 \<noteq> 0 then shMem s (weavecRtShadowOf s p + 2) else 0)) AND 0x80 = 0"
  have run: "weavec_rt_strlen e s m p bound siteFlags =
      (case (if near then zeroWord m p [0..<4] else None) of
         Some at \<Rightarrow> map_option (\<lambda>z. (z - p, [], s)) (untilZero m at)
       | None \<Rightarrow> stringLength e s m p bound)"
    unfolding weavec_rt_strlen_def near_def Let_def using p by (simp only: if_False)
  show ?thesis
  proof (cases "if near then zeroWord m p [0..<4] else None")
    case None
    then show ?thesis using stringLength_exact [OF wf bound len n win] run by simp
  next
    case (Some at)
    then have near: near and z: "zeroWord m p [0..<4] = Some at" by (simp_all split: if_splits)
    obtain k where k: "k < 32" "m (p + word_of_nat k) = 0" "\<And>i. i < k \<Longrightarrow> m (p + word_of_nat i) \<noteq> 0"
      "untilZero m at = Some (p + word_of_nat k)" using zeroWord_least [OF z] by auto
    have b32: "32 \<le> unat bound" using near by (simp add: near_def word_le_nat_alt)
    then have "len = k" unfolding len using k by (intro strnlen_eq) auto
    have "0 < n" using n bound by (simp add: word_less_nat_alt)
    then have "all_addressable s p 32" using near_addressable [OF wf] near win unfolding near_def by simp
    then have "\<forall>i < 32. accessible e s (p + word_of_nat i)" by (simp add: all_addressable_def addressable_accessible)
    then have "\<forall>i < n. accessible e s (p + word_of_nat i)" using n \<open>len = k\<close> k(1) by simp
    then show ?thesis using run Some k(4) \<open>len = k\<close> by simp
  qed
qed

subsection \<open>What the emitted code uses of it\<close>

definition rtLength :: "rt_env \<Rightarrow> shadow_t \<Rightarrow> (u64 \<Rightarrow> byte) \<Rightarrow> u64 \<Rightarrow> u64 \<Rightarrow> u64" where
  "rtLength e s m p bound = (case weavec_rt_strlen e s m p bound None of Some (len, _) \<Rightarrow> len | None \<Rightarrow> 0)"

definition stringAt :: "shadow_t \<Rightarrow> (u64 \<Rightarrow> byte) \<Rightarrow> u64 \<Rightarrow> nat \<Rightarrow> bool" where
  "stringAt s m p n \<longleftrightarrow> shadow_wf s \<and> p \<noteq> 0 \<and> unat p + n < 2 ^ shBits s \<and>
     m (p + word_of_nat n) = 0 \<and> (\<forall>i < n. m (p + word_of_nat i) \<noteq> 0)"

lemma strnlen_stringAt: "stringAt s m p n \<Longrightarrow> strnlen m p k = min k n"
proof (cases "n < k")
  case True
  then show "stringAt s m p n \<Longrightarrow> ?thesis" by (subst strnlen_eq [of n]) (auto simp: stringAt_def)
next
  case False
  assume st: "stringAt s m p n"
  have "\<not> strnlen m p k < k"
  proof
    assume lt: "strnlen m p k < k"
    then have "m (p + word_of_nat (strnlen m p k)) \<noteq> 0" using st False by (auto simp: stringAt_def)
    then show False using strnlen_at [OF lt] by contradiction
  qed
  then show ?thesis using strnlen_le [of m p k] False by simp
qed

interpretation rt: string_scan "rtLength e s m" "stringAt s m" for e s m
proof unfold_locales
  fix p n and b :: u64
  assume st: "stringAt s m p n" and b: "0 < b"
  have len: "strnlen m p (unat b) = min (unat b) n" by (rule strnlen_stringAt [OF st])
  have "unat p + min (min (unat b) n + 1) (unat b) \<le> 2 ^ shBits s"
    using st by (auto simp: stringAt_def min_def)
  then obtain fs s' where "weavec_rt_strlen e s m p b None = Some (word_of_nat (min (unat b) n), fs, s')"
    using weavec_rt_strlen_result [OF _ _ b len [symmetric] refl, of s e None] st by (auto simp: stringAt_def)
  moreover have "min (unat b) n < 2 ^ 64" using unsigned_less [of b, where 'a = nat] by simp
  ultimately show "unat (rtLength e s m p b) = min (unat b) n"
    by (simp add: rtLength_def unsigned_of_nat take_bit_nat_eq_self)
next
  fix p n
  assume "stringAt s m p n"
  then show "n < 2 ^ 64" using power_increasing [of "shBits s" 64 "2 :: nat"] by (auto simp: stringAt_def shadow_wf_def)
qed

text \<open>
  C17: The string guard returns the length \<open>strnlen\<close> gives, whichever way it scans (four
  words at a time over whole granules, or the C library's scan followed by the shadow of what it
  scanned), and reports exactly when some byte up to and including the terminator, or up to
  the bound, must not be read.
\<close>

theorem strlen_exact:
  assumes wf: "shadow_wf s" and p: "p \<noteq> 0" and bound: "0 < bound" and len: "len = strnlen m p (unat bound)"
    and n: "n = min (len + 1) (unat bound)" and win: "unat p + n \<le> 2 ^ shBits s"
  shows "\<exists>fs s'. weavec_rt_strlen e s m p bound siteFlags = Some (word_of_nat len, fs, s') \<and>
    same_settled e s s' \<and> (fs = [] \<longleftrightarrow> (\<forall>i < n. accessible e s (p + word_of_nat i))) \<and>
    (fs = [] \<or> fs = [Fail HeapUseAfterFree p (word_of_nat n)] \<or> fs = [Fail UnterminatedString p (word_of_nat n)])"
  by (rule weavec_rt_strlen_result [OF assms])

theorem strlen_exact_witness:
  "\<exists>fs s'. weavec_rt_strlen
      \<lparr>stackTop = 0, stackBottom = 0, here = 0, aarch64 = False, stackLostColors = False,
       heapObjectAt = (\<lambda>_. \<lparr>hoFound = False, hoLive = False, hoBase = 0, hoSize = 0\<rparr>)\<rparr>
      \<lparr>shMask = 15, shBits = 8, shMem = (\<lambda>i. if i < 3 then 9 else 0xFA)\<rparr>
      (\<lambda>a. if a = 18 then 0 else 65) 16 40 None = Some (2, fs, s')"
proof -
  let ?e = "\<lparr>stackTop = 0, stackBottom = 0, here = 0, aarch64 = False, stackLostColors = False,
       heapObjectAt = (\<lambda>_. \<lparr>hoFound = False, hoLive = False, hoBase = 0, hoSize = 0\<rparr>)\<rparr>"
  have wf: "shadow_wf \<lparr>shMask = 15, shBits = 8, shMem = (\<lambda>i. if i < 3 then 9 else 0xFA)\<rparr>" (is "shadow_wf ?s")
    by (simp add: shadow_wf_def)
  let ?m = "\<lambda>a :: u64. if a = 18 then 0 else 65 :: byte"
  have facts: "(16 :: u64) \<noteq> 0" "(0 :: u64) < 40" "(3 :: nat) = min (2 + 1) (unat (40 :: u64))"
    "unat (16 :: u64) + 3 \<le> 2 ^ shBits ?s" by simp_all
  have "strnlen ?m 16 40 = 2" by (rule strnlen_eq) (auto simp: less_2_cases_iff)
  then have len: "2 = strnlen ?m 16 (unat (40 :: u64))" by simp
  obtain fs s' where "weavec_rt_strlen ?e ?s ?m 16 40 None = Some (word_of_nat 2, fs, s')"
    using strlen_exact [OF wf facts(1,2) len facts(3,4), of ?e None] by blast
  then show ?thesis by (simp only: of_nat_numeral) blast
qed

end
