(* ===== verification/Lib_Term.thy ===== *)
theory Lib_Term
  imports Prelude
begin

text \<open>
  The terms of the library table (\<open>LibTerm\<close> of \<open>include/weavec/Core/LibrarySpec.h\<close> and
  \<open>lib/Core/LibrarySpec.cpp\<close>): their construction, printing (\<open>str\<close>), evaluation in
  \<open>std::int64_t\<close>, and the recursive-descent \<open>TermReader\<close> with \<open>LibTerm::parse\<close>.

  A \<open>std::string_view\<close> with a position is the string that is left; \<open>std::int64_t\<close> values
  are integers with their range written out, and signed overflow, which C++ leaves
  undefined, is a result of its own. The mutually recursive reader counts down fuel;
  \<open>term_fuel\<close> is enough for every text.
\<close>

subsection \<open>Terms\<close>

datatype lib_term =
    Constant int
  | Argument nat
  | StringLength nat
  | Product lib_term lib_term
  | Sum lib_term lib_term
  | Difference lib_term int
  | Min lib_term lib_term
  | Quotient lib_term int

abbreviation int64_max :: int where "int64_max \<equiv> 2 ^ 63 - 1"
abbreviation int64_min :: int where "int64_min \<equiv> - (2 ^ 63)"

definition in_int64 :: "int \<Rightarrow> bool" where
  "in_int64 x \<longleftrightarrow> int64_min \<le> x \<and> x \<le> int64_max"

text \<open>The factories; an index is converted to \<open>std::uint8_t\<close>.\<close>

definition argument :: "nat \<Rightarrow> lib_term" where
  "argument index = Argument (index mod 256)"

definition stringLength :: "nat \<Rightarrow> lib_term" where
  "stringLength index = StringLength (index mod 256)"

definition isAdditive :: "lib_term \<Rightarrow> bool" where
  "isAdditive t = (case t of Sum _ _ \<Rightarrow> True | Difference _ _ \<Rightarrow> True | _ \<Rightarrow> False)"

subsection \<open>Printing\<close>

fun digits :: "nat \<Rightarrow> string" where
  "digits n = (if n < 10 then [char_of (48 + n)] else digits (n div 10) @ [char_of (48 + n mod 10)])"

declare digits.simps [simp del]

definition to_string :: "int \<Rightarrow> string" where
  "to_string x = (if x < 0 then ''-'' @ digits (nat (- x)) else digits (nat x))"

definition parenthesised :: "string \<Rightarrow> bool \<Rightarrow> string" where
  "parenthesised s needed = (if needed then ''('' @ s @ '')'' else s)"

fun isProduct :: "lib_term \<Rightarrow> bool" where
  "isProduct (Product _ _) = True"
| "isProduct _ = False"

fun str :: "lib_term \<Rightarrow> string" where
  "str (Constant v) = to_string v"
| "str (Argument a) = ''a'' @ digits a"
| "str (StringLength a) = ''strlen(a'' @ digits a @ '')''"
| "str (Product l r) = parenthesised (str l) (isAdditive l) @ ''*'' @
     parenthesised (str r) (isAdditive r \<or> isProduct r)"
| "str (Sum l r) = str l @ ''+'' @ parenthesised (str r) (isAdditive r)"
| "str (Difference l v) = str l @ ''-'' @ to_string v"
| "str (Min l r) = ''min('' @ str l @ '','' @ str r @ '')''"
| "str (Quotient l v) = parenthesised (str l) (isAdditive l) @ ''/'' @ to_string v"

subsection \<open>Evaluation\<close>

text \<open>What a call knows of its leaves; \<open>None\<close> is an empty \<open>std::function\<close>.\<close>

record lib_values =
  vArgument :: "(nat \<Rightarrow> int option) option"
  vStringLength :: "(nat \<Rightarrow> int option) option"

text \<open>\<open>Undefined\<close>: the code overflows a signed integer.\<close>

datatype eval = Undefined | Unknown | Known int

definition ask :: "(nat \<Rightarrow> int option) option \<Rightarrow> nat \<Rightarrow> eval" where
  "ask f index = (case f of None \<Rightarrow> Unknown
     | Some g \<Rightarrow> (case g index of None \<Rightarrow> Unknown | Some v \<Rightarrow> Known v))"

definition checkedAdd :: "int \<Rightarrow> int \<Rightarrow> int option" where
  "checkedAdd left right =
     (if (right > 0 \<and> left > int64_max - right) \<or> (right < 0 \<and> left < int64_min - right)
      then None else Some (left + right))"

text \<open>C++ division of 64-bit integers, rounding towards zero.\<close>

definition cdiv :: "int \<Rightarrow> int \<Rightarrow> int" where
  "cdiv a b = sgn a * sgn b * (\<bar>a\<bar> div \<bar>b\<bar>)"

definition checkedMultiply :: "int \<Rightarrow> int \<Rightarrow> int option" where
  "checkedMultiply left right =
     (if left = 0 \<or> right = 0 then Some 0
      else
        let overflows =
          (if left > 0
           then (if right > 0 then left > cdiv int64_max right else right < cdiv int64_min left)
           else (if right > 0 then left < cdiv int64_min right else left < cdiv int64_max right))
        in if overflows then None else Some (left * right))"

definition known :: "int option \<Rightarrow> eval" where
  "known r = (case r of None \<Rightarrow> Unknown | Some v \<Rightarrow> Known v)"

text \<open>
  \<open>-((-left + value - 1) / value)\<close> of a negative \<open>left\<close>: the negation and the sum are
  evaluated in \<open>std::int64_t\<close>.
\<close>

definition roundedDown :: "int \<Rightarrow> int \<Rightarrow> eval" where
  "roundedDown left v =
     (if left \<ge> 0 then Known (cdiv left v)
      else if \<not> in_int64 (- left) \<or> \<not> in_int64 (- left + v) then Undefined
      else Known (- cdiv (- left + v - 1) v))"

fun evaluate :: "lib_values \<Rightarrow> lib_term \<Rightarrow> eval" where
  "evaluate vs (Constant v) = Known v"
| "evaluate vs (Argument a) = ask (vArgument vs) a"
| "evaluate vs (StringLength a) = ask (vStringLength vs) a"
| "evaluate vs (Difference l v) =
     (case evaluate vs l of
        Known left \<Rightarrow> if v = int64_min then Unknown else known (checkedAdd left (- v))
      | r \<Rightarrow> r)"
| "evaluate vs (Quotient l v) =
     (case evaluate vs l of
        Known left \<Rightarrow> if v \<le> 0 then Unknown else roundedDown left v
      | r \<Rightarrow> r)"
| "evaluate vs (Product l r) =
     (case (evaluate vs l, evaluate vs r) of
        (Known left, Known right) \<Rightarrow> known (checkedMultiply left right)
      | (Undefined, _) \<Rightarrow> Undefined
      | (_, Undefined) \<Rightarrow> Undefined
      | _ \<Rightarrow> Unknown)"
| "evaluate vs (Sum l r) =
     (case (evaluate vs l, evaluate vs r) of
        (Known left, Known right) \<Rightarrow> known (checkedAdd left right)
      | (Undefined, _) \<Rightarrow> Undefined
      | (_, Undefined) \<Rightarrow> Undefined
      | _ \<Rightarrow> Unknown)"
| "evaluate vs (Min l r) =
     (case (evaluate vs l, evaluate vs r) of
        (Known left, Known right) \<Rightarrow> Known (min left right)
      | (Undefined, _) \<Rightarrow> Undefined
      | (_, Undefined) \<Rightarrow> Undefined
      | _ \<Rightarrow> Unknown)"

subsection \<open>Characters\<close>

definition isDigit :: "char \<Rightarrow> bool" where
  "isDigit c \<longleftrightarrow> 48 \<le> (of_char c :: nat) \<and> (of_char c :: nat) \<le> 57"

definition isIdentifierStart :: "char \<Rightarrow> bool" where
  "isIdentifierStart c \<longleftrightarrow>
     (65 \<le> (of_char c :: nat) \<and> (of_char c :: nat) \<le> 90) \<or>
     (97 \<le> (of_char c :: nat) \<and> (of_char c :: nat) \<le> 122) \<or> c = CHR ''_''"

definition isIdentifierChar :: "char \<Rightarrow> bool" where
  "isIdentifierChar c \<longleftrightarrow> isIdentifierStart c \<or> isDigit c"

definition isIdentifier :: "string \<Rightarrow> bool" where
  "isIdentifier s \<longleftrightarrow> s \<noteq> [] \<and> isIdentifierStart (hd s) \<and> list_all isIdentifierChar s"

subsection \<open>The term reader\<close>

datatype term_error =
    ExpectedTerm | IntegerOutOfRange | ExpectedCloseInTerm | ExpectedStrlen
  | ExpectedCommaInMin | ExpectedCloseAfterMin | ArgumentOutOfRange
  | ExpectedIntegerAfterMinus | ExpectedPositiveAfterSlash

definition skipSpace :: "string \<Rightarrow> string" where
  "skipSpace s = dropWhile (\<lambda>c. c = CHR '' '') s"

text \<open>
  \<open>accept\<close>: what follows the token, or \<open>None\<close>; either way the spaces before it are
  consumed.
\<close>

definition acceptTok :: "string \<Rightarrow> string \<Rightarrow> string option" where
  "acceptTok token s =
     (let s' = skipSpace s
      in if take (length token) s' = token then Some (drop (length token) s') else None)"

fun numberLoop :: "int \<Rightarrow> string \<Rightarrow> int option \<times> string" where
  "numberLoop v [] = (Some v, [])"
| "numberLoop v (c # s) =
     (if isDigit c then
        let digit = int (of_char c) - 48
        in if v > cdiv (int64_max - digit) 10 then (None, s)
           else numberLoop (v * 10 + digit) s
      else (Some v, c # s))"

definition number :: "string \<Rightarrow> int option \<times> string" where
  "number s =
     (case skipSpace s of
        [] \<Rightarrow> (None, [])
      | c # s' \<Rightarrow> if isDigit c then numberLoop 0 (c # s') else (None, c # s'))"

definition argumentIndex :: "string \<Rightarrow> nat option \<times> string" where
  "argumentIndex s =
     (case acceptTok ''a'' s of
        None \<Rightarrow> (None, skipSpace s)
      | Some s' \<Rightarrow>
          (case number s' of
             (Some index, s'') \<Rightarrow> if index > 255 then (None, s'') else (Some (nat index), s'')
           | (None, s'') \<Rightarrow> (None, s'')))"

type_synonym term_result = "(term_error + lib_term) \<times> string"

text \<open>
  The steps of \<open>atom\<close> that read no further term: an integer, the argument of
  \<open>strlen\<close>, an argument, and the parenthesis that ends a term.
\<close>

definition readConstant :: "string \<Rightarrow> term_result" where
  "readConstant s =
     (case number s of
        (None, t) \<Rightarrow> (Inl IntegerOutOfRange, t)
      | (Some v, t) \<Rightarrow> (Inr (Constant v), t))"

definition readClose :: "term_error \<Rightarrow> lib_term \<Rightarrow> string \<Rightarrow> term_result" where
  "readClose e t s =
     (case acceptTok '')'' s of
        None \<Rightarrow> (Inl e, skipSpace s)
      | Some s' \<Rightarrow> (Inr t, s'))"

definition readStrlen :: "string \<Rightarrow> term_result" where
  "readStrlen s =
     (case argumentIndex s of
        (None, t) \<Rightarrow> (Inl ExpectedStrlen, t)
      | (Some index, t) \<Rightarrow> readClose ExpectedStrlen (stringLength index) t)"

definition readArgument :: "string \<Rightarrow> term_result" where
  "readArgument s =
     (if s \<noteq> [] \<and> hd s = CHR ''a'' \<and> tl s \<noteq> [] \<and> isDigit (hd (tl s)) then
        (case argumentIndex s of
           (None, t) \<Rightarrow> (Inl ArgumentOutOfRange, t)
         | (Some index, t) \<Rightarrow> (Inr (argument index), t))
      else (Inl ExpectedTerm, s))"

text \<open>Going on with a term that was read; a failure is passed on as it is.\<close>

definition thenRead ::
  "term_result option \<Rightarrow> (lib_term \<Rightarrow> string \<Rightarrow> term_result option) \<Rightarrow> term_result option" where
  "thenRead r f =
     (case r of
        None \<Rightarrow> None
      | Some (Inl e, s) \<Rightarrow> Some (Inl e, s)
      | Some (Inr t, s) \<Rightarrow> f t s)"

fun readSum :: "nat \<Rightarrow> string \<Rightarrow> term_result option"
  and sumLoop :: "nat \<Rightarrow> lib_term \<Rightarrow> string \<Rightarrow> term_result option"
  and readProduct :: "nat \<Rightarrow> string \<Rightarrow> term_result option"
  and productLoop :: "nat \<Rightarrow> lib_term \<Rightarrow> string \<Rightarrow> term_result option"
  and readAtom :: "nat \<Rightarrow> string \<Rightarrow> term_result option" where
  "readSum 0 s = None"
| "readSum (Suc n) s = thenRead (readProduct n s) (\<lambda>left. sumLoop n left)"
| "sumLoop 0 left s = None"
| "sumLoop (Suc n) left s =
     (case acceptTok ''+'' s of
        Some s' \<Rightarrow> thenRead (readProduct n s') (\<lambda>right. sumLoop n (Sum left right))
      | None \<Rightarrow>
          (case acceptTok ''-'' s of
             Some s' \<Rightarrow>
               (case number s' of
                  (None, t) \<Rightarrow> Some (Inl ExpectedIntegerAfterMinus, t)
                | (Some right, t) \<Rightarrow> sumLoop n (Difference left right) t)
           | None \<Rightarrow> Some (Inr left, skipSpace s)))"
| "readProduct 0 s = None"
| "readProduct (Suc n) s = thenRead (readAtom n s) (\<lambda>left. productLoop n left)"
| "productLoop 0 left s = None"
| "productLoop (Suc n) left s =
     (case acceptTok ''*'' s of
        Some s' \<Rightarrow> thenRead (readAtom n s') (\<lambda>right. productLoop n (Product left right))
      | None \<Rightarrow>
          (case acceptTok ''/'' s of
             Some s' \<Rightarrow>
               (case number s' of
                  (None, t) \<Rightarrow> Some (Inl ExpectedPositiveAfterSlash, t)
                | (Some right, t) \<Rightarrow>
                    if right \<le> 0 then Some (Inl ExpectedPositiveAfterSlash, t)
                    else productLoop n (Quotient left right) t)
           | None \<Rightarrow> Some (Inr left, skipSpace s)))"
| "readAtom 0 s = None"
| "readAtom (Suc n) s =
     (let s' = skipSpace s
      in if s' = [] then Some (Inl ExpectedTerm, s')
         else if isDigit (hd s') then Some (readConstant s')
         else
           (case acceptTok ''('' s' of
              Some p \<Rightarrow>
                thenRead (readSum n p) (\<lambda>inner r. Some (readClose ExpectedCloseInTerm inner r))
            | None \<Rightarrow>
                (case acceptTok ''strlen('' s' of
                   Some p \<Rightarrow> Some (readStrlen p)
                 | None \<Rightarrow>
                     (case acceptTok ''min('' s' of
                        Some p \<Rightarrow>
                          thenRead (readSum n p) (\<lambda>left r.
                            (case acceptTok '','' r of
                               None \<Rightarrow> Some (Inl ExpectedCommaInMin, skipSpace r)
                             | Some q \<Rightarrow>
                                 thenRead (readSum n q) (\<lambda>right u.
                                   Some (readClose ExpectedCloseAfterMin (Min left right) u))))
                      | None \<Rightarrow> Some (readArgument s')))))"

definition term_fuel :: "string \<Rightarrow> nat" where
  "term_fuel s = 4 * length s + 4"

text \<open>\<open>LibTerm::parse\<close>: a whole term, or the error (\<open>UnexpectedText\<close> carries what is left).\<close>

datatype parse_error = TermError term_error | UnexpectedText string

definition parseTerm :: "string \<Rightarrow> (parse_error + lib_term) option" where
  "parseTerm s =
     map_option (\<lambda>(r, s').
         let rest = skipSpace s'
         in case r of Inl e \<Rightarrow> Inl (TermError e)
                    | Inr t \<Rightarrow> if rest \<noteq> [] then Inl (UnexpectedText rest) else Inr t)
       (readSum (term_fuel s) s)"

end
