(* ===== verification/Lib_Eval.thy ===== *)
theory Lib_Eval
  imports Lib_Term
begin

text \<open>
  What \<open>LibTerm::evaluate\<close> computes: the mathematical value of the term, or nothing when a
  leaf is unknown or a value leaves \<open>std::int64_t\<close>.
\<close>

text \<open>The value of a term as a mathematical integer; division rounds down.\<close>

fun leaf :: "(nat \<Rightarrow> int option) option \<Rightarrow> nat \<Rightarrow> int option" where
  "leaf None i = None"
| "leaf (Some f) i = f i"

fun math_value :: "lib_values \<Rightarrow> lib_term \<Rightarrow> int option" where
  "math_value vs (Constant v) = Some v"
| "math_value vs (Argument a) = leaf (vArgument vs) a"
| "math_value vs (StringLength a) = leaf (vStringLength vs) a"
| "math_value vs (Difference l v) = map_option (\<lambda>x. x - v) (math_value vs l)"
| "math_value vs (Quotient l v) =
     (if v \<le> 0 then None else map_option (\<lambda>x. x div v) (math_value vs l))"
| "math_value vs (Product l r) =
     (case (math_value vs l, math_value vs r) of (Some x, Some y) \<Rightarrow> Some (x * y) | _ \<Rightarrow> None)"
| "math_value vs (Sum l r) =
     (case (math_value vs l, math_value vs r) of (Some x, Some y) \<Rightarrow> Some (x + y) | _ \<Rightarrow> None)"
| "math_value vs (Min l r) =
     (case (math_value vs l, math_value vs r) of (Some x, Some y) \<Rightarrow> Some (min x y) | _ \<Rightarrow> None)"

text \<open>
  The constants of a term are 64-bit integers, as its fields are, and what the caller says
  of the leaves is too.
\<close>

fun consts_in_range :: "lib_term \<Rightarrow> bool" where
  "consts_in_range (Constant v) = in_int64 v"
| "consts_in_range (Argument _) = True"
| "consts_in_range (StringLength _) = True"
| "consts_in_range (Difference l v) = (consts_in_range l \<and> in_int64 v)"
| "consts_in_range (Quotient l v) = (consts_in_range l \<and> in_int64 v)"
| "consts_in_range (Product l r) = (consts_in_range l \<and> consts_in_range r)"
| "consts_in_range (Sum l r) = (consts_in_range l \<and> consts_in_range r)"
| "consts_in_range (Min l r) = (consts_in_range l \<and> consts_in_range r)"

definition leaves_in_range :: "lib_values \<Rightarrow> bool" where
  "leaves_in_range vs \<longleftrightarrow>
     (\<forall>i v. leaf (vArgument vs) i = Some v \<or> leaf (vStringLength vs) i = Some v \<longrightarrow> in_int64 v)"

text \<open>Every intermediate value is a 64-bit integer and every dividend is not negative.\<close>

fun values_in_range :: "lib_values \<Rightarrow> lib_term \<Rightarrow> bool" where
  "values_in_range vs (Constant v) = True"
| "values_in_range vs (Argument a) = True"
| "values_in_range vs (StringLength a) = True"
| "values_in_range vs (Difference l v) =
     (values_in_range vs l \<and> (\<forall>x \<in> set_option (math_value vs l). in_int64 (x - v)) \<and> v \<noteq> int64_min)"
| "values_in_range vs (Quotient l v) =
     (values_in_range vs l \<and> (\<forall>x \<in> set_option (math_value vs l). 0 \<le> x))"
| "values_in_range vs (Product l r) =
     (values_in_range vs l \<and> values_in_range vs r \<and>
      (\<forall>x \<in> set_option (math_value vs (Product l r)). in_int64 x))"
| "values_in_range vs (Sum l r) =
     (values_in_range vs l \<and> values_in_range vs r \<and>
      (\<forall>x \<in> set_option (math_value vs (Sum l r)). in_int64 x))"
| "values_in_range vs (Min l r) = (values_in_range vs l \<and> values_in_range vs r)"

subsection \<open>Lemmas: the checked operations\<close>

lemma checkedAdd_exact:
  "in_int64 a \<Longrightarrow> in_int64 b \<Longrightarrow> checkedAdd a b = (if in_int64 (a + b) then Some (a + b) else None)"
  by (auto simp: checkedAdd_def in_int64_def)

lemma cdiv_nonneg: "0 \<le> a \<Longrightarrow> 0 < b \<Longrightarrow> cdiv a b = a div b"
  by (cases "a = 0") (simp_all add: cdiv_def)

lemma cdiv_pos_neg: "0 < a \<Longrightarrow> b < 0 \<Longrightarrow> cdiv a b = - (a div (- b))"
  by (simp add: cdiv_def)

lemma cdiv_neg_pos: "a < 0 \<Longrightarrow> 0 < b \<Longrightarrow> cdiv a b = - ((- a) div b)"
  by (simp add: cdiv_def)

lemma less_div_mult:
  fixes b :: int
  assumes b: "0 < b"
  shows "m div b < a \<longleftrightarrow> m < a * b"
proof
  have m: "b * (m div b) + m mod b = m" "0 \<le> m mod b" "m mod b < b" using b by simp_all
  show "m < a * b" if "m div b < a"
  proof -
    have "b * (m div b + 1) \<le> b * a" using that b by (intro mult_left_mono) auto
    then have "b * (m div b) + b \<le> b * a" by (simp only: distrib_left mult_1_right)
    then show ?thesis using m by (subst mult.commute) linarith
  qed
  show "m div b < a" if "m < a * b"
  proof (rule ccontr)
    assume "\<not> m div b < a"
    then have "b * a \<le> b * (m div b)" using b by (intro mult_left_mono) auto
    moreover have "m < b * a" using that by (simp add: mult.commute)
    ultimately show False using m by linarith
  qed
qed

lemma checkedMultiply_exact:
  "checkedMultiply a b = (if in_int64 (a * b) then Some (a * b) else None)"
proof -
  consider "a = 0 \<or> b = 0" | "0 < a" "0 < b" | "0 < a" "b < 0" | "a < 0" "0 < b" | "a < 0" "b < 0"
    by linarith
  then show ?thesis
  proof cases
    case 2
    have pos: "0 \<le> a * b" using 2 by (simp add: zero_le_mult_iff)
    have "int64_min \<le> a * b" by (rule order_trans [OF _ pos]) simp
    then show ?thesis using 2 less_div_mult [of b int64_max a]
      by (auto simp: checkedMultiply_def cdiv_nonneg in_int64_def)
  next
    case 3
    have neg: "a * b \<le> 0" using 3 by (simp add: mult_le_0_iff)
    have "a * b \<le> int64_max" by (rule order_trans [OF neg]) simp
    then show ?thesis using 3 less_div_mult [of a "2 ^ 63" "- b"]
      by (auto simp: checkedMultiply_def cdiv_neg_pos in_int64_def minus_less_iff mult.commute)
  next
    case 4
    have neg: "a * b \<le> 0" using 4 by (simp add: mult_le_0_iff)
    have "a * b \<le> int64_max" by (rule order_trans [OF neg]) simp
    then show ?thesis using 4 less_div_mult [of b "2 ^ 63" "- a"]
      by (auto simp: checkedMultiply_def cdiv_neg_pos in_int64_def minus_less_iff mult.commute)
  next
    case 5
    have pos: "0 \<le> a * b" using 5 by (simp add: zero_le_mult_iff)
    have "int64_min \<le> a * b" by (rule order_trans [OF _ pos]) simp
    then show ?thesis using 5 less_div_mult [of "- b" int64_max "- a"]
      by (auto simp: checkedMultiply_def cdiv_pos_neg in_int64_def minus_less_iff)
  qed (auto simp: checkedMultiply_def in_int64_def)
qed

lemma ceiling_as_floor:
  fixes v :: int
  assumes "0 < v"
  shows "- ((- x + v - 1) div v) = x div v"
proof -
  have "x mod v < v" "0 \<le> x mod v" "v * (x div v) + x mod v = x" using assms by simp_all
  then have "(- x + v - 1) div v = - (x div v)"
    by (intro int_div_pos_eq [where r = "v - 1 - x mod v"]) (auto simp: algebra_simps)
  then show ?thesis by simp
qed

lemma in_int64_div:
  assumes "in_int64 x" "0 < v"
  shows "in_int64 (x div v)"
proof (cases "0 \<le> x")
  case True
  then have "0 \<le> x div v" "x div v \<le> x"
    using assms(2) pos_imp_zdiv_nonneg_iff zdiv_mono2 [of x 1 v] by auto
  then show ?thesis using assms(1) by (simp add: in_int64_def)
next
  case False
  then have "x * v \<le> x" using mult_left_mono_neg [of 1 v x] assms(2) by simp
  then have "x \<le> x div v" using less_div_mult [OF assms(2), of x x] by linarith
  moreover have "x div v < 0" using False assms(2) by (simp add: pos_imp_zdiv_neg_iff not_le)
  ultimately show ?thesis using assms(1) by (simp add: in_int64_def)
qed

lemma roundedDown_math: "0 < v \<Longrightarrow> roundedDown x v = Known y \<Longrightarrow> y = x div v"
  using ceiling_as_floor [of v x] by (auto simp: roundedDown_def cdiv_nonneg split: if_splits)

lemma roundedDown_nonneg: "0 < v \<Longrightarrow> 0 \<le> x \<Longrightarrow> roundedDown x v = Known (x div v)"
  by (simp add: roundedDown_def cdiv_nonneg)

lemma ask_leaf: "ask f i = Known v \<longleftrightarrow> leaf f i = Some v"
  by (cases f) (auto simp: ask_def split: option.splits)

lemma known_Known: "known r = Known v \<longleftrightarrow> r = Some v"
  by (auto simp: known_def split: option.splits)

lemma evaluate_math:
  assumes "leaves_in_range vs" "consts_in_range t" "evaluate vs t = Known x"
  shows "math_value vs t = Some x \<and> in_int64 x"
  using assms(2,3)
proof (induction t arbitrary: x)
  case (Difference l v)
  then obtain y where y: "evaluate vs l = Known y" "v \<noteq> int64_min" "checkedAdd y (- v) = Some x"
    by (auto simp: known_Known split: eval.splits if_splits)
  moreover have "in_int64 (- v)" using Difference.prems(1) y(2) by (auto simp: in_int64_def)
  ultimately show ?case
    using Difference by (auto simp: checkedAdd_exact split: if_splits)
next
  case (Quotient l v)
  then obtain y where y: "evaluate vs l = Known y" "0 < v" "roundedDown y v = Known x"
    by (auto split: eval.splits if_splits)
  then show ?case
    using Quotient roundedDown_math [OF y(2,3)] in_int64_div [of y v] by auto
next
  case (Product l r)
  then show ?case
    by (auto simp: known_Known checkedMultiply_exact split: eval.splits if_splits)
next
  case (Sum l r)
  then show ?case
    by (fastforce simp: known_Known checkedAdd_exact split: eval.splits if_splits)
next
  case (Min l r)
  then show ?case by (fastforce simp: min_def split: eval.splits)
qed (use assms(1) in \<open>auto simp: ask_leaf leaves_in_range_def\<close>)

lemma math_evaluate:
  assumes "leaves_in_range vs" "consts_in_range t" "values_in_range vs t" "math_value vs t = Some x"
  shows "evaluate vs t = Known x"
  using assms(2-)
proof (induction t arbitrary: x)
  case (Difference l v)
  then obtain y where y: "math_value vs l = Some y" "x = y - v" by auto
  have l: "evaluate vs l = Known y" using Difference y by simp
  have "in_int64 y" using evaluate_math [OF assms(1) _ l] Difference.prems(1) by simp
  moreover have "in_int64 (- v)" using Difference.prems(1,2) by (auto simp: in_int64_def)
  ultimately show ?case
    using Difference.prems y l by (simp add: known_Known checkedAdd_exact)
next
  case (Quotient l v)
  then show ?case by (auto simp: roundedDown_nonneg split: if_splits)
next
  case (Product l r)
  then show ?case
    by (auto simp: known_Known checkedMultiply_exact split: option.splits)
next
  case (Sum l r)
  then obtain y z where y: "math_value vs l = Some y" "math_value vs r = Some z" "x = y + z"
    by (auto split: option.splits)
  have lr: "evaluate vs l = Known y" "evaluate vs r = Known z" using Sum y by simp_all
  then have "in_int64 y" "in_int64 z"
    using evaluate_math [OF assms(1)] Sum.prems(1) by auto
  then show ?case using Sum.prems y lr by (simp add: known_Known checkedAdd_exact)
next
  case (Min l r)
  then show ?case by (auto split: option.splits)
qed (auto simp: ask_leaf)

subsection \<open>Properties\<close>




end
