(* ===== verification/Lib_Parse.thy ===== *)
theory Lib_Parse
  imports Lib_Term
begin

text \<open>
  The term reader of \<open>lib/Core/LibrarySpec.cpp\<close>: it terminates on every text (the fuel of
  the model is enough), what it reads satisfies the ranges of the fields it fills, and it
  reads back what \<open>str\<close> prints for every term but the one shape that \<open>str\<close> prints
  ambiguously.
\<close>

declare readSum.simps [simp del] sumLoop.simps [simp del] readProduct.simps [simp del]
  productLoop.simps [simp del] readAtom.simps [simp del]

lemmas reader_zero = readSum.simps(1) sumLoop.simps(1) readProduct.simps(1) productLoop.simps(1)
  readAtom.simps(1)

subsection \<open>Lemmas: what a read leaves\<close>

lemma skipSpace_length: "length (skipSpace s) \<le> length s"
  by (simp add: skipSpace_def length_dropWhile_le)

lemma acceptTok_length: "acceptTok tok s = Some s' \<Longrightarrow> length s' + length tok \<le> length s"
proof -
  assume H: "acceptTok tok s = Some s'"
  have "length tok \<le> length (skipSpace s)" if "take (length tok) (skipSpace s) = tok"
    using arg_cong [OF that, of length] by simp
  then show ?thesis
    using H skipSpace_length [of s] by (auto simp: acceptTok_def Let_def split: if_splits)
qed

lemma numberLoop_length: "numberLoop v s = (r, s') \<Longrightarrow> length s' \<le> length s"
  by (induction v s rule: numberLoop.induct) (auto simp: Let_def le_SucI split: if_splits)

lemma number_length:
  assumes "number s = (r, s')"
  shows "length s' + (if r = None then 0 else 1) \<le> length s"
proof (cases "skipSpace s")
  case Nil
  then show ?thesis using assms by (auto simp: number_def)
next
  case (Cons c cs)
  have len: "length cs + 1 \<le> length s" using skipSpace_length [of s] Cons by simp
  show ?thesis
  proof (cases "isDigit c")
    case True
    then have "length s' \<le> length cs"
      using assms Cons numberLoop_length by (auto simp: number_def Let_def split: if_splits)
    then show ?thesis using len by simp
  next
    case False
    then show ?thesis using assms Cons skipSpace_length [of s] by (auto simp: number_def)
  qed
qed

lemma argumentIndex_length:
  "argumentIndex s = (r, s') \<Longrightarrow> length s' + (if r = None then 0 else 1) \<le> length s"
  using skipSpace_length [of s]
  by (auto simp: argumentIndex_def split: prod.splits option.splits if_splits
      dest!: acceptTok_length number_length)

lemma readClose_length: "readClose e t s = (Inr t', s') \<Longrightarrow> length s' < length s"
  by (auto simp: readClose_def split: option.splits dest!: acceptTok_length)

lemma readStrlen_length: "readStrlen s = (Inr t, s') \<Longrightarrow> length s' < length s"
  by (auto simp: readStrlen_def split: prod.splits option.splits
      dest!: readClose_length argumentIndex_length)

lemma readConstant_length: "readConstant s = (Inr t, s') \<Longrightarrow> length s' < length s"
  by (auto simp: readConstant_def split: prod.splits option.splits dest!: number_length)

lemma readArgument_length: "readArgument s = (Inr t, s') \<Longrightarrow> length s' < length s"
  by (auto simp: readArgument_def split: prod.splits option.splits if_splits
      dest!: argumentIndex_length)

lemma thenRead_Inr:
  "thenRead r f = Some (Inr t, s) \<longleftrightarrow> (\<exists>u v. r = Some (Inr u, v) \<and> f u v = Some (Inr t, s))"
  by (auto simp: thenRead_def split: option.splits sum.splits)

lemma thenRead_total:
  "r \<noteq> None \<Longrightarrow> (\<And>t s. r = Some (Inr t, s) \<Longrightarrow> f t s \<noteq> None) \<Longrightarrow> thenRead r f \<noteq> None"
  by (auto simp: thenRead_def split: option.splits sum.splits)

lemma thenRead_mono:
  "thenRead r f = Some x \<Longrightarrow> (\<And>y. r = Some y \<Longrightarrow> r' = Some y) \<Longrightarrow>
   (\<And>t s y. f t s = Some y \<Longrightarrow> f' t s = Some y) \<Longrightarrow> thenRead r' f' = Some x"
  by (cases x) (auto simp: thenRead_def split: option.splits sum.splits)

lemma case_accept_Inr:
  "(case r of None \<Rightarrow> Some (Inl e, x) | Some q \<Rightarrow> g q) = Some (Inr t, s) \<longleftrightarrow>
   (\<exists>q. r = Some q \<and> g q = Some (Inr t, s))"
  by (cases r) auto

text \<open>A term that was read is shorter than what it was read from.\<close>

definition shortens :: "nat \<Rightarrow> bool" where
  "shortens n \<longleftrightarrow>
     (\<forall>s t s'. readSum n s = Some (Inr t, s') \<longrightarrow> length s' < length s) \<and>
     (\<forall>l s t s'. sumLoop n l s = Some (Inr t, s') \<longrightarrow> length s' \<le> length s) \<and>
     (\<forall>s t s'. readProduct n s = Some (Inr t, s') \<longrightarrow> length s' < length s) \<and>
     (\<forall>l s t s'. productLoop n l s = Some (Inr t, s') \<longrightarrow> length s' \<le> length s) \<and>
     (\<forall>s t s'. readAtom n s = Some (Inr t, s') \<longrightarrow> length s' < length s)"

lemma shortens_atom:
  assumes "shortens n" and r: "readAtom (Suc n) s = Some (Inr t, s')"
  shows "length s' < length s"
proof -
  have sum: "readSum n p = Some (Inr u, v) \<Longrightarrow> length v < length p" for p u v
    using assms(1) by (simp add: shortens_def)
  have "length s' < length (skipSpace s)"
    using r
    by (auto simp: readAtom.simps Let_def thenRead_Inr case_accept_Inr split: if_splits option.splits
        dest!: readConstant_length readStrlen_length readArgument_length acceptTok_length sum
          readClose_length)
  then show ?thesis using skipSpace_length [of s] by simp
qed

lemma shortens_all: "shortens n"
proof (induction n)
  case 0
  then show ?case by (simp add: shortens_def reader_zero)
next
  case (Suc n)
  note ih = Suc.IH [unfolded shortens_def]
  have "sumLoop (Suc n) l s = Some (Inr t, s') \<Longrightarrow> length s' \<le> length s" for l s t s'
    using ih skipSpace_length [of s]
    by (fastforce simp: sumLoop.simps thenRead_Inr split: option.splits prod.splits
        dest!: acceptTok_length number_length)
  moreover have "productLoop (Suc n) l s = Some (Inr t, s') \<Longrightarrow> length s' \<le> length s" for l s t s'
    using ih skipSpace_length [of s]
    by (fastforce simp: productLoop.simps thenRead_Inr split: option.splits prod.splits if_splits
        dest!: acceptTok_length number_length)
  moreover have "readSum (Suc n) s = Some (Inr t, s') \<Longrightarrow> length s' < length s" for s t s'
    using ih by (fastforce simp: readSum.simps thenRead_Inr)
  moreover have "readProduct (Suc n) s = Some (Inr t, s') \<Longrightarrow> length s' < length s" for s t s'
    using ih by (fastforce simp: readProduct.simps thenRead_Inr)
  ultimately show ?case
    using shortens_atom [OF Suc.IH] by (simp add: shortens_def)
qed

lemmas read_shorter = shortens_all [unfolded shortens_def, THEN conjunct1, rule_format]
  shortens_all [unfolded shortens_def, THEN conjunct2, THEN conjunct2, THEN conjunct1, rule_format]
  shortens_all [unfolded shortens_def, THEN conjunct2, THEN conjunct2, THEN conjunct2,
    THEN conjunct2, rule_format]

subsection \<open>Lemmas: fuel\<close>

text \<open>More fuel does not change an answer.\<close>

definition keeps :: "nat \<Rightarrow> bool" where
  "keeps n \<longleftrightarrow>
     (\<forall>s x. readSum n s = Some x \<longrightarrow> readSum (Suc n) s = Some x) \<and>
     (\<forall>l s x. sumLoop n l s = Some x \<longrightarrow> sumLoop (Suc n) l s = Some x) \<and>
     (\<forall>s x. readProduct n s = Some x \<longrightarrow> readProduct (Suc n) s = Some x) \<and>
     (\<forall>l s x. productLoop n l s = Some x \<longrightarrow> productLoop (Suc n) l s = Some x) \<and>
     (\<forall>s x. readAtom n s = Some x \<longrightarrow> readAtom (Suc n) s = Some x)"

lemma keeps_atom:
  assumes "keeps n" and r: "readAtom (Suc n) s = Some x"
  shows "readAtom (Suc (Suc n)) s = Some x"
proof -
  have sum: "readSum n p = Some y \<Longrightarrow> readSum (Suc n) p = Some y" for p y
    using assms(1) unfolding keeps_def by blast
  have again: "thenRead (readSum n q) f = Some y \<Longrightarrow> thenRead (readSum (Suc n) q) f = Some y" for q f y
    by (erule thenRead_mono) (auto intro: sum)
  show ?thesis
    using r unfolding readAtom.simps(2) Let_def
    by (auto split: if_splits option.splits elim!: thenRead_mono intro: sum again)
qed

lemma keeps_all: "keeps n"
proof (induction n)
  case 0
  then show ?case by (simp add: keeps_def reader_zero)
next
  case (Suc n)
  obtain m where m: "m = Suc n" by simp
  have ih: "readSum n s = Some x \<Longrightarrow> readSum m s = Some x"
    "sumLoop n l s = Some x \<Longrightarrow> sumLoop m l s = Some x"
    "readProduct n s = Some x \<Longrightarrow> readProduct m s = Some x"
    "productLoop n l s = Some x \<Longrightarrow> productLoop m l s = Some x"
    "readAtom n s = Some x \<Longrightarrow> readAtom m s = Some x" for l s x
    using Suc.IH unfolding keeps_def m by blast+
  have "sumLoop (Suc n) l s = Some x \<Longrightarrow> sumLoop (Suc m) l s = Some x" for l s x
    unfolding sumLoop.simps(2)
    by (auto split: option.splits prod.splits elim!: thenRead_mono intro: ih)
  moreover have "productLoop (Suc n) l s = Some x \<Longrightarrow> productLoop (Suc m) l s = Some x" for l s x
    unfolding productLoop.simps(2)
    by (auto split: option.splits prod.splits if_splits elim!: thenRead_mono intro: ih)
  moreover have "readSum (Suc n) s = Some x \<Longrightarrow> readSum (Suc m) s = Some x" for s x
    unfolding readSum.simps(2) by (auto elim!: thenRead_mono intro: ih)
  moreover have "readProduct (Suc n) s = Some x \<Longrightarrow> readProduct (Suc m) s = Some x" for s x
    unfolding readProduct.simps(2) by (auto elim!: thenRead_mono intro: ih)
  ultimately show ?case
    using keeps_atom [OF Suc.IH] unfolding keeps_def m by blast
qed

lemma lift_keeps:
  assumes "\<And>n x. f n = Some x \<Longrightarrow> f (Suc n) = Some x" and "f n = Some x" and "n \<le> m"
  shows "f m = Some x"
  using assms(3,2) by (induction rule: dec_induct) (auto intro: assms(1))

lemma read_mono:
  "readSum n s = Some x \<Longrightarrow> n \<le> m \<Longrightarrow> readSum m s = Some x"
  "sumLoop n l s = Some x \<Longrightarrow> n \<le> m \<Longrightarrow> sumLoop m l s = Some x"
  "readProduct n s = Some x \<Longrightarrow> n \<le> m \<Longrightarrow> readProduct m s = Some x"
  "productLoop n l s = Some x \<Longrightarrow> n \<le> m \<Longrightarrow> productLoop m l s = Some x"
  "readAtom n s = Some x \<Longrightarrow> n \<le> m \<Longrightarrow> readAtom m s = Some x"
proof -
  have k: "readSum n s = Some x \<Longrightarrow> readSum (Suc n) s = Some x"
    "sumLoop n l s = Some x \<Longrightarrow> sumLoop (Suc n) l s = Some x"
    "readProduct n s = Some x \<Longrightarrow> readProduct (Suc n) s = Some x"
    "productLoop n l s = Some x \<Longrightarrow> productLoop (Suc n) l s = Some x"
    "readAtom n s = Some x \<Longrightarrow> readAtom (Suc n) s = Some x" for l s x n
    using keeps_all [of n] unfolding keeps_def by blast+
  show "readSum n s = Some x \<Longrightarrow> n \<le> m \<Longrightarrow> readSum m s = Some x"
    by (rule lift_keeps [of "\<lambda>n. readSum n s"]) (auto intro: k)
  show "sumLoop n l s = Some x \<Longrightarrow> n \<le> m \<Longrightarrow> sumLoop m l s = Some x"
    by (rule lift_keeps [of "\<lambda>n. sumLoop n l s"]) (auto intro: k)
  show "readProduct n s = Some x \<Longrightarrow> n \<le> m \<Longrightarrow> readProduct m s = Some x"
    by (rule lift_keeps [of "\<lambda>n. readProduct n s"]) (auto intro: k)
  show "productLoop n l s = Some x \<Longrightarrow> n \<le> m \<Longrightarrow> productLoop m l s = Some x"
    by (rule lift_keeps [of "\<lambda>n. productLoop n l s"]) (auto intro: k)
  show "readAtom n s = Some x \<Longrightarrow> n \<le> m \<Longrightarrow> readAtom m s = Some x"
    by (rule lift_keeps [of "\<lambda>n. readAtom n s"]) (auto intro: k)
qed

text \<open>Four steps per character are enough.\<close>

definition enough :: "nat \<Rightarrow> bool" where
  "enough k \<longleftrightarrow> (\<forall>n s l. length s < k \<longrightarrow>
     (4 * length s + 3 \<le> n \<longrightarrow> readSum n s \<noteq> None) \<and>
     (4 * length s + 1 \<le> n \<longrightarrow> sumLoop n l s \<noteq> None) \<and>
     (4 * length s + 2 \<le> n \<longrightarrow> readProduct n s \<noteq> None) \<and>
     (4 * length s + 1 \<le> n \<longrightarrow> productLoop n l s \<noteq> None) \<and>
     (4 * length s + 1 \<le> n \<longrightarrow> readAtom n s \<noteq> None))"

lemma enough_atom:
  assumes k: "enough k" and len: "length s \<le> k" and n: "4 * length s + 1 \<le> Suc n"
  shows "readAtom (Suc n) s \<noteq> None"
proof -
  have sum: "length p < length s \<Longrightarrow> readSum n p \<noteq> None" for p
    using k len n unfolding enough_def by fastforce
  have sk: "length (skipSpace s) \<le> length s" by (rule skipSpace_length)
  have par: "thenRead (readSum n p) (\<lambda>t r. Some (f t r)) \<noteq> None"
    if "length p < length s" for p f
    using sum [OF that] by (intro thenRead_total) auto
  have mn: "thenRead (readSum n p) (\<lambda>left r. case acceptTok '','' r of
        None \<Rightarrow> Some (Inl ExpectedCommaInMin, skipSpace r)
      | Some q \<Rightarrow> thenRead (readSum n q) (\<lambda>right u. Some (f left right u))) \<noteq> None"
    if p: "length p < length s" for p f
  proof (rule thenRead_total [OF sum [OF p]])
    fix t r assume "readSum n p = Some (Inr t, r)"
    then have "length r < length s" using read_shorter(1) p by fastforce
    then show "(case acceptTok '','' r of
        None \<Rightarrow> Some (Inl ExpectedCommaInMin, skipSpace r)
      | Some q \<Rightarrow> thenRead (readSum n q) (\<lambda>right u. Some (f t right u))) \<noteq> None"
      using par acceptTok_length by (fastforce split: option.splits)
  qed
  have tok: "length p < length s" if "acceptTok t (skipSpace s) = Some p" "t \<noteq> []" for t p
    using acceptTok_length [OF that(1)] sk that(2) by (cases t) auto
  show ?thesis
    unfolding readAtom.simps(2) Let_def
    using par mn tok by (auto split: option.splits)
qed

lemma enough_loops:
  assumes k: "enough k" and len: "length s \<le> k" and n: "4 * length s + 1 \<le> Suc n"
  shows "sumLoop (Suc n) l s \<noteq> None" and "productLoop (Suc n) l s \<noteq> None"
proof -
  have ih: "length p < length s \<Longrightarrow> sumLoop n l p \<noteq> None"
    "length p < length s \<Longrightarrow> readProduct n p \<noteq> None"
    "length p < length s \<Longrightarrow> productLoop n l p \<noteq> None"
    "length p < length s \<Longrightarrow> readAtom n p \<noteq> None" for l p
    using k len n unfolding enough_def by fastforce+
  have tok: "length p < length s" if "acceptTok t s = Some p" "t \<noteq> []" for t p
    using acceptTok_length [OF that(1)] that(2) by (cases t) auto
  have num: "length q < length s" if "number p = (Some v, q)" "length p < length s" for p q v
    using number_length [OF that(1)] that(2) by simp
  have sum: "thenRead (readProduct n p) (\<lambda>right. sumLoop n (f right)) \<noteq> None"
    if "length p < length s" for p f
    by (rule thenRead_total [OF ih(2) [OF that]]) (use ih(1) that read_shorter(2) in force)
  have prod: "thenRead (readAtom n p) (\<lambda>right. productLoop n (f right)) \<noteq> None"
    if "length p < length s" for p f
    by (rule thenRead_total [OF ih(4) [OF that]]) (use ih(3) that read_shorter(3) in force)
  show "sumLoop (Suc n) l s \<noteq> None"
    unfolding sumLoop.simps(2) using sum ih(1) tok num
    by (auto split: option.splits prod.splits)
  show "productLoop (Suc n) l s \<noteq> None"
    unfolding productLoop.simps(2) using prod ih(3) tok num
    by (auto split: option.splits prod.splits)
qed

lemma enough_all: "enough k"
proof (induction k)
  case 0
  then show ?case by (simp add: enough_def)
next
  case (Suc k)
  have atom: "readAtom n s \<noteq> None" if "length s \<le> k" "4 * length s + 1 \<le> n" for n s
    using enough_atom [OF Suc.IH that(1), of "n - 1"] that(2) by simp
  have loops: "sumLoop n l s \<noteq> None" "productLoop n l s \<noteq> None"
    if "length s \<le> k" "4 * length s + 1 \<le> n" for n l s
    using enough_loops [OF Suc.IH that(1), of "n - 1" l] that(2) by simp_all
  have prod: "readProduct n s \<noteq> None" if s: "length s \<le> k" "4 * length s + 2 \<le> n" for n s
  proof -
    obtain m where m: "n = Suc m" using s(2) by (cases n) auto
    show ?thesis
      unfolding m readProduct.simps(2)
    proof (rule thenRead_total)
      show "readAtom m s \<noteq> None" using atom s m by simp
      fix t r assume "readAtom m s = Some (Inr t, r)"
      then have "length r < length s" by (rule read_shorter(3))
      then show "productLoop m t r \<noteq> None" using loops(2) s m by simp
    qed
  qed
  have sum: "readSum n s \<noteq> None" if s: "length s \<le> k" "4 * length s + 3 \<le> n" for n s
  proof -
    obtain m where m: "n = Suc m" using s(2) by (cases n) auto
    show ?thesis
      unfolding m readSum.simps(2)
    proof (rule thenRead_total)
      show "readProduct m s \<noteq> None" using prod s m by simp
      fix t r assume "readProduct m s = Some (Inr t, r)"
      then have "length r < length s" by (rule read_shorter(2))
      then show "sumLoop m t r \<noteq> None" using loops(1) s m by simp
    qed
  qed
  show ?case
    unfolding enough_def using atom loops prod sum by (simp add: less_Suc_eq_le)
qed

lemma readSum_total: "4 * length s + 3 \<le> n \<Longrightarrow> readSum n s \<noteq> None"
  using enough_all [of "Suc (length s)"] by (simp add: enough_def)

text \<open>Any fuel that answers answers as \<open>parse\<close> does.\<close>

lemma readSum_fuel: "readSum n s = Some x \<Longrightarrow> readSum (term_fuel s) s = Some x"
proof -
  assume n: "readSum n s = Some x"
  obtain y where y: "readSum (term_fuel s) s = Some y"
    using readSum_total [of s "term_fuel s"] by (auto simp: term_fuel_def)
  have "readSum (max n (term_fuel s)) s = Some x" "readSum (max n (term_fuel s)) s = Some y"
    using read_mono(1) n y by (meson max.cobounded1 max.cobounded2)+
  then show ?thesis using y by simp
qed

subsection \<open>Lemmas: the fields of what is read\<close>

fun term_ok :: "lib_term \<Rightarrow> bool" where
  "term_ok (Constant v) = (0 \<le> v \<and> v \<le> int64_max)"
| "term_ok (Argument a) = (a \<le> 255)"
| "term_ok (StringLength a) = (a \<le> 255)"
| "term_ok (Product l r) = (term_ok l \<and> term_ok r)"
| "term_ok (Sum l r) = (term_ok l \<and> term_ok r)"
| "term_ok (Difference l v) = (term_ok l \<and> 0 \<le> v \<and> v \<le> int64_max)"
| "term_ok (Min l r) = (term_ok l \<and> term_ok r)"
| "term_ok (Quotient l v) = (term_ok l \<and> 0 < v \<and> v \<le> int64_max)"

lemma numberLoop_range:
  "numberLoop v s = (Some x, s') \<Longrightarrow> 0 \<le> v \<Longrightarrow> v \<le> int64_max \<Longrightarrow> 0 \<le> x \<and> x \<le> int64_max"
proof (induction v s rule: numberLoop.induct)
  case (2 v c s)
  show ?case
  proof (cases "isDigit c")
    case True
    define d where "d = int (of_char c) - 48"
    have d: "0 \<le> d" "d \<le> 9" using True by (auto simp: d_def isDigit_def)
    have c: "cdiv (int64_max - d) 10 = (int64_max - d) div 10" using d by (simp add: cdiv_def sgn_if)
    have "v \<le> (int64_max - d) div 10" using 2(2) True c by (auto simp: d_def Let_def split: if_splits)
    then have "v * 10 + d \<le> int64_max" by simp
    then show ?thesis
      using 2 True d c \<open>v \<le> (int64_max - d) div 10\<close> by (simp add: d_def [symmetric] Let_def)
  next
    case False
    then show ?thesis using 2 by simp
  qed
qed simp

lemma number_range: "number s = (Some x, s') \<Longrightarrow> 0 \<le> x \<and> x \<le> int64_max"
  by (auto simp: number_def simp del: numberLoop.simps split: list.splits if_splits
      dest!: numberLoop_range)

lemma argumentIndex_range: "argumentIndex s = (Some i, s') \<Longrightarrow> i \<le> 255"
  by (auto simp: argumentIndex_def split: option.splits prod.splits if_splits dest!: number_range)

definition reads_ok :: "nat \<Rightarrow> bool" where
  "reads_ok n \<longleftrightarrow>
     (\<forall>s t s'. readSum n s = Some (Inr t, s') \<longrightarrow> term_ok t) \<and>
     (\<forall>l s t s'. sumLoop n l s = Some (Inr t, s') \<longrightarrow> term_ok l \<longrightarrow> term_ok t) \<and>
     (\<forall>s t s'. readProduct n s = Some (Inr t, s') \<longrightarrow> term_ok t) \<and>
     (\<forall>l s t s'. productLoop n l s = Some (Inr t, s') \<longrightarrow> term_ok l \<longrightarrow> term_ok t) \<and>
     (\<forall>s t s'. readAtom n s = Some (Inr t, s') \<longrightarrow> term_ok t)"

lemma reads_ok_atom:
  assumes sum: "\<And>p u v. readSum n p = Some (Inr u, v) \<Longrightarrow> term_ok u"
    and r: "readAtom (Suc n) s = Some (Inr t, s')"
  shows "term_ok t"
proof -
  have "readConstant p = (Inr t, s') \<Longrightarrow> term_ok t" for p
    by (auto simp: readConstant_def split: prod.splits option.splits dest!: number_range)
  moreover have "readStrlen p = (Inr t, s') \<Longrightarrow> term_ok t" for p
    by (auto simp: readStrlen_def readClose_def stringLength_def split: prod.splits option.splits
        dest!: argumentIndex_range)
  moreover have "readArgument p = (Inr t, s') \<Longrightarrow> term_ok t" for p
    by (auto simp: readArgument_def argument_def split: prod.splits option.splits if_splits
        dest!: argumentIndex_range)
  moreover have "readClose e u p = (Inr t, s') \<Longrightarrow> term_ok u \<Longrightarrow> term_ok t" for e u p
    by (auto simp: readClose_def split: option.splits)
  ultimately show ?thesis
    using r by (auto simp: readAtom.simps Let_def thenRead_Inr case_accept_Inr
        split: if_splits option.splits dest!: sum)
qed

lemma reads_ok_all: "reads_ok n"
proof (induction n)
  case 0
  then show ?case by (simp add: reads_ok_def reader_zero)
next
  case (Suc n)
  note ih = Suc.IH [unfolded reads_ok_def]
  have "sumLoop (Suc n) l s = Some (Inr t, s') \<Longrightarrow> term_ok l \<Longrightarrow> term_ok t" for l s t s'
    using ih by (fastforce simp: sumLoop.simps thenRead_Inr split: option.splits prod.splits
        dest: number_range)
  moreover have "productLoop (Suc n) l s = Some (Inr t, s') \<Longrightarrow> term_ok l \<Longrightarrow> term_ok t" for l s t s'
    using ih by (fastforce simp: productLoop.simps thenRead_Inr split: option.splits prod.splits if_splits
        dest: number_range)
  moreover have "readSum (Suc n) s = Some (Inr t, s') \<Longrightarrow> term_ok t" for s t s'
    using ih by (fastforce simp: readSum.simps thenRead_Inr)
  moreover have "readProduct (Suc n) s = Some (Inr t, s') \<Longrightarrow> term_ok t" for s t s'
    using ih by (fastforce simp: readProduct.simps thenRead_Inr)
  moreover have "readAtom (Suc n) s = Some (Inr t, s') \<Longrightarrow> term_ok t" for s t s'
    by (rule reads_ok_atom) (use ih in blast)+
  ultimately show ?case unfolding reads_ok_def by blast
qed

lemma readSum_ok: "readSum n s = Some (Inr t, s') \<Longrightarrow> term_ok t"
  using reads_ok_all unfolding reads_ok_def by blast

subsection \<open>Lemmas: numbers\<close>

lemma isDigit_char: "d < 10 \<Longrightarrow> isDigit (char_of (48 + d :: nat))"
  by (simp add: isDigit_def)

lemma digits_head: "\<exists>c cs. digits n = c # cs \<and> isDigit c"
proof (induction n rule: digits.induct)
  case (1 n)
  show ?case
  proof (cases "n < 10")
    case True
    then show ?thesis by (subst digits.simps) (simp add: isDigit_char)
  next
    case False
    then show ?thesis using 1 by (subst digits.simps) auto
  qed
qed

lemma numberLoop_digit:
  assumes "0 \<le> v" "d < 10" "v * 10 + int d \<le> int64_max"
  shows "numberLoop v (char_of (48 + d) # r) = numberLoop (v * 10 + int d) r"
proof -
  have "v \<le> (int64_max - int d) div 10" using assms(3) by simp
  moreover have "cdiv (int64_max - int d) 10 = (int64_max - int d) div 10"
    using assms(2) by (simp add: cdiv_def sgn_if)
  ultimately show ?thesis
    using assms(2) isDigit_char [OF assms(2)] by simp
qed

lemma numberLoop_digits:
  assumes "0 \<le> v" "v * 10 ^ length (digits n) + int n \<le> int64_max"
  shows "numberLoop v (digits n @ r) = numberLoop (v * 10 ^ length (digits n) + int n) r"
  using assms
proof (induction n arbitrary: r rule: digits.induct)
  case (1 n)
  show ?case
  proof (cases "n < 10")
    case True
    then show ?thesis
      using numberLoop_digit [of v n r] 1 by (simp add: digits.simps [of n])
  next
    case False
    define k where "k = length (digits (n div 10))"
    have d: "digits n = digits (n div 10) @ [char_of (48 + n mod 10)]"
      using False by (subst digits.simps) simp
    have n: "int n = 10 * int (n div 10) + int (n mod 10)"
      by (metis mult_div_mod_eq of_nat_add of_nat_mult of_nat_numeral)
    have eq: "(v * 10 ^ k + int (n div 10)) * 10 + int (n mod 10) = v * 10 ^ length (digits n) + int n"
      unfolding n d by (simp add: k_def algebra_simps)
    have bound: "v * 10 ^ k + int (n div 10) \<le> int64_max" "0 \<le> v * 10 ^ k + int (n div 10)"
      using 1(2,3) eq by simp_all
    have "numberLoop v (digits n @ r) =
        numberLoop (v * 10 ^ k + int (n div 10)) (char_of (48 + n mod 10) # r)"
      using 1(1) [OF False 1(2)] bound(1) by (simp add: d k_def)
    also have "\<dots> = numberLoop ((v * 10 ^ k + int (n div 10)) * 10 + int (n mod 10)) r"
      using 1(3) eq bound(2) by (intro numberLoop_digit) simp_all
    finally show ?thesis by (simp only: eq)
  qed
qed

lemma skipSpace_digit: "isDigit c \<Longrightarrow> skipSpace (c # s) = c # s"
  by (auto simp: skipSpace_def isDigit_def)

lemma numberLoop_stop: "r = [] \<or> \<not> isDigit (hd r) \<Longrightarrow> numberLoop v r = (Some v, r)"
  by (cases r) auto

lemma number_digits:
  assumes "int n \<le> int64_max" "r = [] \<or> \<not> isDigit (hd r)"
  shows "number (digits n @ r) = (Some (int n), r)"
proof -
  obtain c cs where c: "digits n = c # cs" "isDigit c" using digits_head by blast
  have "number (digits n @ r) = numberLoop 0 (digits n @ r)"
    using c by (simp add: number_def skipSpace_digit del: numberLoop.simps)
  also have "\<dots> = numberLoop (int n) r" using numberLoop_digits [of 0 n r] assms(1) by simp
  also have "\<dots> = (Some (int n), r)" by (rule numberLoop_stop [OF assms(2)])
  finally show ?thesis .
qed

subsection \<open>Lemmas: reading what is printed\<close>

text \<open>
  The terms \<open>str\<close> prints unambiguously: constants are not negative, as the reader's are,
  and a product's right operand is no quotient.
\<close>

fun isQuotient :: "lib_term \<Rightarrow> bool" where
  "isQuotient (Quotient _ _) = True"
| "isQuotient _ = False"

fun printable :: "lib_term \<Rightarrow> bool" where
  "printable (Constant v) = (0 \<le> v \<and> v \<le> int64_max)"
| "printable (Argument a) = (a \<le> 255)"
| "printable (StringLength a) = (a \<le> 255)"
| "printable (Product l r) = (printable l \<and> printable r \<and> \<not> isQuotient r)"
| "printable (Sum l r) = (printable l \<and> printable r)"
| "printable (Difference l v) = (printable l \<and> 0 \<le> v \<and> v \<le> int64_max)"
| "printable (Min l r) = (printable l \<and> printable r)"
| "printable (Quotient l v) = (printable l \<and> 0 < v \<and> v \<le> int64_max)"

text \<open>What may follow a printed operand: the end, or one of the characters the printer puts there.\<close>

definition follows :: "string \<Rightarrow> string \<Rightarrow> bool" where
  "follows cs r \<longleftrightarrow> r = [] \<or> hd r \<in> set cs"

abbreviation after_factor :: "string \<Rightarrow> bool" where "after_factor \<equiv> follows '')*/+-,''"
abbreviation after_sum :: "string \<Rightarrow> bool" where "after_sum \<equiv> follows '')+-,''"

lemma follows_digit: "after_factor r \<Longrightarrow> r = [] \<or> \<not> isDigit (hd r)"
  by (auto simp: follows_def isDigit_def)

lemma after_sum_factor: "after_sum r \<Longrightarrow> after_factor r"
  by (auto simp: follows_def)

lemma follows_space: "after_factor r \<Longrightarrow> skipSpace r = r"
  by (cases r) (auto simp: follows_def skipSpace_def)

lemma accept_here: "t \<noteq> [] \<Longrightarrow> hd t \<noteq> CHR '' '' \<Longrightarrow> acceptTok t (t @ r) = Some r"
  by (cases t) (simp_all add: acceptTok_def skipSpace_def)

lemma accept_not: "after_factor r \<Longrightarrow> (r = [] \<or> hd r \<noteq> c) \<Longrightarrow> acceptTok [c] r = None"
  by (cases r) (auto simp: acceptTok_def follows_space)

lemma productLoop_stop: "after_sum r \<Longrightarrow> productLoop (Suc n) t r = Some (Inr t, r)"
  using accept_not [OF after_sum_factor, of r "CHR ''*''"]
    accept_not [OF after_sum_factor, of r "CHR ''/''"] follows_space [OF after_sum_factor, of r]
  by (auto simp: productLoop.simps follows_def)

lemma sumLoop_stop: "follows ''),'' r \<Longrightarrow> sumLoop (Suc n) t r = Some (Inr t, r)"
  using accept_not [of r "CHR ''+''"] accept_not [of r "CHR ''-''"] follows_space [of r]
  by (auto simp: sumLoop.simps follows_def)

text \<open>Composing answers of different fuel.\<close>

lemma readSum_compose:
  assumes "readProduct n s = Some (Inr t, r)" "sumLoop m t r = Some x"
  shows "\<exists>k. readSum k s = Some x"
proof -
  have "readProduct (max n m) s = Some (Inr t, r)" "sumLoop (max n m) t r = Some x"
    using read_mono assms by (meson max.cobounded1 max.cobounded2)+
  then have "readSum (Suc (max n m)) s = Some x" by (simp add: readSum.simps thenRead_def)
  then show ?thesis by blast
qed

lemma readProduct_compose:
  assumes "readAtom n s = Some (Inr t, r)" "productLoop m t r = Some x"
  shows "\<exists>k. readProduct k s = Some x"
proof -
  have "readAtom (max n m) s = Some (Inr t, r)" "productLoop (max n m) t r = Some x"
    using read_mono assms by (meson max.cobounded1 max.cobounded2)+
  then have "readProduct (Suc (max n m)) s = Some x" by (simp add: readProduct.simps thenRead_def)
  then show ?thesis by blast
qed

lemma sumLoop_compose:
  assumes "readProduct n s = Some (Inr t, r)" "sumLoop m (Sum l t) r = Some x"
  shows "\<exists>k. sumLoop k l (''+'' @ s) = Some x"
proof -
  have "readProduct (max n m) s = Some (Inr t, r)" "sumLoop (max n m) (Sum l t) r = Some x"
    using read_mono assms by (meson max.cobounded1 max.cobounded2)+
  then have "sumLoop (Suc (max n m)) l (''+'' @ s) = Some x"
    using accept_here [of "''+''" s] by (simp add: sumLoop.simps thenRead_def)
  then show ?thesis by blast
qed

lemma productLoop_compose:
  assumes "readAtom n s = Some (Inr t, r)" "productLoop m (Product l t) r = Some x"
  shows "\<exists>k. productLoop k l (''*'' @ s) = Some x"
proof -
  have "readAtom (max n m) s = Some (Inr t, r)" "productLoop (max n m) (Product l t) r = Some x"
    using read_mono assms by (meson max.cobounded1 max.cobounded2)+
  then have "productLoop (Suc (max n m)) l (''*'' @ s) = Some x"
    using accept_here [of "''*''" s] by (simp add: productLoop.simps thenRead_def)
  then show ?thesis by blast
qed

lemma acceptTok_head: "c \<noteq> CHR '' '' \<Longrightarrow> hd t \<noteq> c \<Longrightarrow> t \<noteq> [] \<Longrightarrow> acceptTok t (c # s) = None"
  by (cases t) (auto simp: acceptTok_def skipSpace_def)

lemma argumentIndex_digits:
  assumes "a \<le> 255" "r = [] \<or> \<not> isDigit (hd r)"
  shows "argumentIndex (CHR ''a'' # digits a @ r) = (Some a, r)"
  using accept_here [of "''a''" "digits a @ r"] number_digits [of a r] assms
  by (simp add: argumentIndex_def)

lemma readAtom_constant:
  assumes "0 \<le> v" "v \<le> int64_max" "after_factor r"
  shows "readAtom (Suc n) (to_string v @ r) = Some (Inr (Constant v), r)"
proof -
  obtain c cs where c: "digits (nat v) = c # cs" "isDigit c" using digits_head by blast
  have "number (digits (nat v) @ r) = (Some (int (nat v)), r)"
    using assms by (intro number_digits follows_digit) auto
  then show ?thesis
    using assms c by (simp add: readAtom.simps to_string_def Let_def skipSpace_digit readConstant_def)
qed

lemma readAtom_argument:
  assumes "a \<le> 255" "after_factor r"
  shows "readAtom (Suc n) (str (Argument a) @ r) = Some (Inr (Argument a), r)"
proof -
  obtain c cs where c: "digits a = c # cs" "isDigit c" using digits_head by blast
  have i: "argumentIndex (CHR ''a'' # c # cs @ r) = (Some a, r)"
    using argumentIndex_digits [OF assms(1) follows_digit [OF assms(2)]] c by simp
  have sp: "skipSpace (CHR ''a'' # c # cs @ r) = CHR ''a'' # c # cs @ r"
    by (simp add: skipSpace_def)
  have "\<not> isDigit (CHR ''a'')" by (simp add: isDigit_def)
  then show ?thesis
    using c i sp assms(1)
    by (simp add: readAtom.simps Let_def acceptTok_head readArgument_def argument_def)
qed

lemma readAtom_strlen:
  assumes "a \<le> 255"
  shows "readAtom (Suc n) (str (StringLength a) @ r) = Some (Inr (StringLength a), r)"
proof -
  let ?s = "''strlen('' @ CHR ''a'' # digits a @ '')'' @ r"
  have i: "argumentIndex (CHR ''a'' # digits a @ '')'' @ r) = (Some a, '')'' @ r)"
    using argumentIndex_digits [OF assms, of "'')'' @ r"] by (simp add: isDigit_def)
  have "readStrlen (CHR ''a'' # digits a @ '')'' @ r) = (Inr (StringLength a), r)"
    using i accept_here [of "'')''" r] assms
    by (simp add: readStrlen_def readClose_def stringLength_def)
  moreover have "acceptTok ''strlen('' ?s = Some (CHR ''a'' # digits a @ '')'' @ r)"
    by (rule accept_here) simp_all
  moreover have "acceptTok ''('' ?s = None" by (simp add: acceptTok_head)
  moreover have "skipSpace ?s = ?s" "\<not> isDigit (CHR ''s'')"
    by (simp_all add: skipSpace_def isDigit_def)
  ultimately show ?thesis by (simp add: readAtom.simps Let_def)
qed

lemma readAtom_paren:
  assumes "readSum n (s @ '')'' @ r) = Some (Inr t, '')'' @ r)"
  shows "readAtom (Suc n) (''('' @ s @ '')'' @ r) = Some (Inr t, r)"
proof -
  have "acceptTok ''('' (''('' @ s @ '')'' @ r) = Some (s @ '')'' @ r)"
    "acceptTok '')'' ('')'' @ r) = Some r"
    by (rule accept_here; simp)+
  then show ?thesis
    using assms by (simp add: readAtom.simps Let_def skipSpace_def isDigit_def thenRead_def
        readClose_def)
qed

lemma readAtom_min:
  assumes "readSum n (s @ '','' @ u @ '')'' @ r) = Some (Inr a, '','' @ u @ '')'' @ r)"
    and "readSum n (u @ '')'' @ r) = Some (Inr b, '')'' @ r)"
  shows "readAtom (Suc n) (''min('' @ s @ '','' @ u @ '')'' @ r) = Some (Inr (Min a b), r)"
proof -
  let ?s = "''min('' @ s @ '','' @ u @ '')'' @ r"
  have "acceptTok ''min('' ?s = Some (s @ '','' @ u @ '')'' @ r)"
    "acceptTok '','' ('','' @ u @ '')'' @ r) = Some (u @ '')'' @ r)"
    "acceptTok '')'' ('')'' @ r) = Some r"
    by (rule accept_here; simp)+
  moreover have "acceptTok ''('' ?s = None" "acceptTok ''strlen('' ?s = None"
    by (simp_all add: acceptTok_head)
  moreover have "skipSpace ?s = ?s" "\<not> isDigit (CHR ''m'')"
    by (simp_all add: skipSpace_def isDigit_def)
  ultimately show ?thesis
    using assms by (simp add: readAtom.simps Let_def thenRead_def readClose_def)
qed

text \<open>
  A printed term is read back in front of anything that may follow it: as a sum, as a
  product when it is none of the additive ones, as an atom when it is one.
\<close>

fun isAtom :: "lib_term \<Rightarrow> bool" where
  "isAtom (Constant _) = True"
| "isAtom (Argument _) = True"
| "isAtom (StringLength _) = True"
| "isAtom (Min _ _) = True"
| "isAtom _ = False"

definition readable :: "lib_term \<Rightarrow> bool" where
  "readable t \<longleftrightarrow>
     (\<forall>r x n. after_sum r \<longrightarrow> sumLoop n t r = Some x \<longrightarrow> (\<exists>k. readSum k (str t @ r) = Some x)) \<and>
     (\<forall>r x n. after_factor r \<longrightarrow> \<not> isAdditive t \<longrightarrow> productLoop n t r = Some x \<longrightarrow>
        (\<exists>k. readProduct k (str t @ r) = Some x)) \<and>
     (\<forall>r. after_factor r \<longrightarrow> isAtom t \<longrightarrow> (\<exists>k. readAtom k (str t @ r) = Some (Inr t, r)))"

lemma readable_sumD:
  "readable t \<Longrightarrow> after_sum r \<Longrightarrow> sumLoop n t r = Some x \<Longrightarrow> \<exists>k. readSum k (str t @ r) = Some x"
  unfolding readable_def by blast

lemma readable_productD:
  "readable t \<Longrightarrow> after_factor r \<Longrightarrow> \<not> isAdditive t \<Longrightarrow> productLoop n t r = Some x \<Longrightarrow>
   \<exists>k. readProduct k (str t @ r) = Some x"
  unfolding readable_def by blast

lemma readable_paren:
  assumes "readable t"
  shows "\<exists>k. readAtom k (''('' @ str t @ '')'' @ r) = Some (Inr t, r)"
proof -
  have "\<exists>k. readSum k (str t @ '')'' @ r) = Some (Inr t, '')'' @ r)"
    by (rule readable_sumD [OF assms _ sumLoop_stop]) (simp_all add: follows_def)
  then show ?thesis using readAtom_paren by blast
qed

lemma readable_operand:
  assumes "readable t" "after_factor r" "needed \<or> isAtom t"
  shows "\<exists>k. readAtom k (parenthesised (str t) needed @ r) = Some (Inr t, r)"
  using assms readable_paren [OF assms(1), of r] by (auto simp: parenthesised_def readable_def)

lemma readable_factor:
  assumes "readable t" "after_factor r" "productLoop n t r = Some x"
  shows "\<exists>k. readProduct k (parenthesised (str t) (isAdditive t) @ r) = Some x"
proof (cases "isAdditive t")
  case True
  then show ?thesis
    using readable_operand [OF assms(1,2), of True] readProduct_compose assms(3) by metis
next
  case False
  then show ?thesis using readable_productD [OF assms(1,2) False assms(3)] by (simp add: parenthesised_def)
qed

text \<open>It is enough to read a term as a product.\<close>

lemma readable_product:
  assumes p: "\<And>r x n. after_factor r \<Longrightarrow> productLoop n t r = Some x \<Longrightarrow>
      \<exists>k. readProduct k (str t @ r) = Some x"
    and na: "\<not> isAtom t"
  shows "readable t"
proof -
  have "\<exists>k. readSum k (str t @ r) = Some x" if r: "after_sum r" "sumLoop n t r = Some x" for r x n
    using p [OF after_sum_factor [OF r(1)] productLoop_stop [OF r(1)]] readSum_compose r(2) by blast
  then show ?thesis using p na by (auto simp: readable_def)
qed

lemma readable_atom:
  assumes a: "\<And>r. after_factor r \<Longrightarrow> \<exists>k. readAtom k (str t @ r) = Some (Inr t, r)"
  shows "readable t"
proof -
  have p: "\<exists>k. readProduct k (str t @ r) = Some x"
    if r: "after_factor r" "productLoop n t r = Some x" for r x n
    using a [OF r(1)] readProduct_compose r(2) by blast
  have "\<exists>k. readSum k (str t @ r) = Some x" if r: "after_sum r" "sumLoop n t r = Some x" for r x n
    using p [OF after_sum_factor [OF r(1)] productLoop_stop [OF r(1)]] readSum_compose r(2) by blast
  then show ?thesis using p a by (auto simp: readable_def)
qed

text \<open>A term that is no product is read as a sum only.\<close>

lemma readable_additive:
  assumes "\<And>r x n. after_sum r \<Longrightarrow> sumLoop n t r = Some x \<Longrightarrow> \<exists>k. readSum k (str t @ r) = Some x"
    and "isAdditive t"
  shows "readable t"
proof -
  have "\<not> isAtom t" using assms(2) by (cases t) (auto simp: isAdditive_def)
  then show ?thesis using assms unfolding readable_def by blast
qed

lemma number_to_string:
  "0 \<le> v \<Longrightarrow> v \<le> int64_max \<Longrightarrow> after_factor r \<Longrightarrow> number (to_string v @ r) = (Some v, r)"
  using number_digits [of "nat v" r] follows_digit [of r] by (simp add: to_string_def)

lemma readable_Min:
  assumes "readable a" "readable b"
  shows "readable (Min a b)"
proof (rule readable_atom)
  fix r
  have "\<exists>n. readSum n (str a @ '','' @ str b @ '')'' @ r) = Some (Inr a, '','' @ str b @ '')'' @ r)"
    by (rule readable_sumD [OF assms(1) _ sumLoop_stop]) (simp_all add: follows_def)
  moreover have "\<exists>n. readSum n (str b @ '')'' @ r) = Some (Inr b, '')'' @ r)"
    by (rule readable_sumD [OF assms(2) _ sumLoop_stop]) (simp_all add: follows_def)
  ultimately obtain n m where
    "readSum n (str a @ '','' @ str b @ '')'' @ r) = Some (Inr a, '','' @ str b @ '')'' @ r)"
    "readSum m (str b @ '')'' @ r) = Some (Inr b, '')'' @ r)" by blast
  then have "readSum (max n m) (str a @ '','' @ str b @ '')'' @ r) =
      Some (Inr a, '','' @ str b @ '')'' @ r)"
    "readSum (max n m) (str b @ '')'' @ r) = Some (Inr b, '')'' @ r)"
    using read_mono(1) by (meson max.cobounded1 max.cobounded2)+
  from readAtom_min [OF this] show "\<exists>k. readAtom k (str (Min a b) @ r) = Some (Inr (Min a b), r)"
    by auto
qed

lemma readable_Product:
  assumes "readable a" "readable b" "\<not> isQuotient b"
  shows "readable (Product a b)"
proof (rule readable_product)
  have op: "(isAdditive b \<or> isProduct b) \<or> isAtom b"
    using assms(3) by (cases b) (auto simp: isAdditive_def)
  let ?b = "parenthesised (str b) (isAdditive b \<or> isProduct b)"
  fix r x n assume r: "after_factor r" "productLoop n (Product a b) r = Some x"
  obtain k where "readAtom k (?b @ r) = Some (Inr b, r)"
    using readable_operand [OF assms(2) r(1) op] by blast
  then obtain m where m: "productLoop m a (''*'' @ ?b @ r) = Some x"
    using productLoop_compose r(2) by blast
  have "\<exists>k. readProduct k (parenthesised (str a) (isAdditive a) @ ''*'' @ ?b @ r) = Some x"
    by (rule readable_factor [OF assms(1) _ m]) (simp add: follows_def)
  then show "\<exists>k. readProduct k (str (Product a b) @ r) = Some x" by simp
qed simp

lemma readable_Quotient:
  assumes "readable a" "0 < v" "v \<le> int64_max"
  shows "readable (Quotient a v)"
proof (rule readable_product)
  fix r x n assume r: "after_factor r" "productLoop n (Quotient a v) r = Some x"
  have "number (to_string v @ r) = (Some v, r)" using number_to_string assms(2,3) r(1) by simp
  moreover have "acceptTok ''/'' (''/'' @ to_string v @ r) = Some (to_string v @ r)"
    by (rule accept_here) simp_all
  ultimately have m: "productLoop (Suc n) a (''/'' @ to_string v @ r) = Some x"
    using r(2) assms(2) by (simp add: productLoop.simps acceptTok_head)
  have "\<exists>k. readProduct k (parenthesised (str a) (isAdditive a) @ ''/'' @ to_string v @ r) = Some x"
    by (rule readable_factor [OF assms(1) _ m]) (simp add: follows_def)
  then show "\<exists>k. readProduct k (str (Quotient a v) @ r) = Some x" by simp
qed simp

lemma readable_Sum:
  assumes "readable a" "readable b"
  shows "readable (Sum a b)"
proof (rule readable_additive)
  fix r x n assume r: "after_sum r" "sumLoop n (Sum a b) r = Some x"
  obtain k where "readProduct k (parenthesised (str b) (isAdditive b) @ r) = Some (Inr b, r)"
    using readable_factor [OF assms(2) after_sum_factor [OF r(1)] productLoop_stop [OF r(1)]] by blast
  then obtain m where m: "sumLoop m a (''+'' @ parenthesised (str b) (isAdditive b) @ r) = Some x"
    using sumLoop_compose r(2) by blast
  have "\<exists>k. readSum k (str a @ ''+'' @ parenthesised (str b) (isAdditive b) @ r) = Some x"
    by (rule readable_sumD [OF assms(1) _ m]) (simp add: follows_def)
  then show "\<exists>k. readSum k (str (Sum a b) @ r) = Some x" by simp
qed (simp add: isAdditive_def)

lemma readable_Difference:
  assumes "readable a" "0 \<le> v" "v \<le> int64_max"
  shows "readable (Difference a v)"
proof (rule readable_additive)
  fix r x n assume r: "after_sum r" "sumLoop n (Difference a v) r = Some x"
  have "number (to_string v @ r) = (Some v, r)"
    using number_to_string assms(2,3) after_sum_factor [OF r(1)] by simp
  moreover have "acceptTok ''-'' (''-'' @ to_string v @ r) = Some (to_string v @ r)"
    by (rule accept_here) simp_all
  ultimately have m: "sumLoop (Suc n) a (''-'' @ to_string v @ r) = Some x"
    using r(2) by (simp add: sumLoop.simps acceptTok_head)
  have "\<exists>k. readSum k (str a @ ''-'' @ to_string v @ r) = Some x"
    by (rule readable_sumD [OF assms(1) _ m]) (simp add: follows_def)
  then show "\<exists>k. readSum k (str (Difference a v) @ r) = Some x" by simp
qed (simp add: isAdditive_def)

lemma readable_printable: "printable t \<Longrightarrow> readable t"
proof (induction t)
  case (Constant v)
  then show ?case by (intro readable_atom) (use readAtom_constant in auto)
next
  case (Argument a)
  then show ?case by (intro readable_atom) (use readAtom_argument [of a _ 0] in auto)
next
  case (StringLength a)
  then show ?case by (intro readable_atom) (use readAtom_strlen [of a 0] in auto)
qed (auto intro: readable_Min readable_Product readable_Quotient readable_Sum readable_Difference)

subsection \<open>Properties\<close>

text \<open>
  C34: \<open>LibTerm::parse\<close> terminates on every text with a term or an error: the model's fuel
  never runs out.
\<close>

theorem parse_total: "\<exists>r. parseTerm s = Some r"
proof -
  obtain r s' where "readSum (term_fuel s) s = Some (r, s')"
    using readSum_total [of s "term_fuel s"] by (auto simp: term_fuel_def)
  then show ?thesis by (simp add: parseTerm_def)
qed

text \<open>
  C27: printing and parsing round-trip. For every term whose constants are not negative and
  in which no product has a quotient as its right operand, \<open>parse\<close> reads back exactly
  the term that \<open>str\<close> printed.
\<close>

theorem parse_str:
  assumes "printable t"
  shows "parseTerm (str t) = Some (Inr t)"
proof -
  obtain k where "readSum k (str t @ []) = Some (Inr t, [])"
    using readable_sumD [OF readable_printable [OF assms], of "[]" 1 "(Inr t, [])"]
      sumLoop_stop [of "[]" 0 t] by (auto simp: follows_def)
  then have "readSum (term_fuel (str t)) (str t) = Some (Inr t, [])"
    using readSum_fuel by simp
  then show ?thesis by (simp add: parseTerm_def skipSpace_def)
qed

theorem parse_str_witness:
  "parseTerm (str (Min (Product (Sum (Argument 1) (Constant 1)) (Argument 2)) (StringLength 0))) =
   Some (Inr (Min (Product (Sum (Argument 1) (Constant 1)) (Argument 2)) (StringLength 0)))"
  by (rule parse_str) simp

text \<open>
  C39: the shape left out above is printed ambiguously. A product whose right operand is a
  quotient is printed without parentheses and read back as the quotient of the product, a
  different term with a different value, although the header says that \<open>parse\<close> reads an
  equal term.
\<close>

theorem str_product_of_quotient:
  "str (Product (Argument 0) (Quotient (Argument 1) 2)) = str (Quotient (Product (Argument 0) (Argument 1)) 2) \<and>
   parseTerm (str (Product (Argument 0) (Quotient (Argument 1) 2))) =
     Some (Inr (Quotient (Product (Argument 0) (Argument 1)) 2)) \<and>
   Quotient (Product (Argument 0) (Argument 1)) 2 \<noteq> Product (Argument 0) (Quotient (Argument 1) 2)"
proof -
  have eq: "str (Product (Argument 0) (Quotient (Argument 1) 2)) =
      str (Quotient (Product (Argument 0) (Argument 1)) 2)"
    by (simp add: isAdditive_def parenthesised_def)
  have "readable (Quotient (Product (Argument 0) (Argument 1)) 2)"
    by (intro readable_printable) simp
  then obtain k where "readSum k (str (Quotient (Product (Argument 0) (Argument 1)) 2) @ []) =
      Some (Inr (Quotient (Product (Argument 0) (Argument 1)) 2), [])"
    using readable_sumD [of "Quotient (Product (Argument 0) (Argument 1)) 2" "[]" 1]
      sumLoop_stop [of "[]" 0 "Quotient (Product (Argument 0) (Argument 1)) 2"]
    by (auto simp: follows_def)
  then have "readSum (term_fuel (str (Quotient (Product (Argument 0) (Argument 1)) 2)))
      (str (Quotient (Product (Argument 0) (Argument 1)) 2)) =
      Some (Inr (Quotient (Product (Argument 0) (Argument 1)) 2), [])"
    using readSum_fuel by simp
  then show ?thesis by (simp only: eq) (simp add: parseTerm_def skipSpace_def)
qed

end
