(* ===== verification/Lib_Spec.thy ===== *)
theory Lib_Spec
  imports Lib_Parse
begin

text \<open>
  The table of the C library's functions (\<open>include/weavec/Core/LibrarySpec.h\<close> and the
  parser and lookup of \<open>lib/Core/LibrarySpec.cpp\<close>): the rows, the logical lines of the
  text, the recursive-descent parser of a row with its error messages, the checks of a row,
  the index of aliases, and the lookup of a callee.

  The parser's \<open>pos\<close> is the text that is left of the line. A parsing step returns the
  message of \<open>fail\<close> with what is left at that point, or its value with what is left after
  it; the line number of a message is computed from it where the code computes it. Message
  texts are the code's.
\<close>

subsection \<open>Rows\<close>

record lib_disjoint =
  djFirst :: nat
  djSecond :: nat
  djLength :: lib_term

datatype format_kind = Printf | Scanf

record lib_format =
  fKind :: format_kind
  fFormat :: nat
  fFirst :: nat
  fVaList :: bool

datatype param_type = TypeInt | TypePointer | TypeFunction | TypeOther
datatype access = AccessNone | AccessRead | AccessWrite | AccessReadWrite
datatype null_kind = NullForbidden | NullAllowed | NullAllowedIfZero
datatype effect = Borrow | Release | Realloc

record lib_param =
  pType :: param_type
  pAccess :: access
  pBytes :: "lib_term option"
  pCount :: "lib_term option"
  pString :: bool
  pScan :: "lib_term option"
  pNull :: null_kind
  pZeroTerm :: "lib_term option"
  pEffect :: effect

record lib_chk =
  cName :: string
  cArgumentOf :: "int list"
  cSizeArgument :: int

datatype result_kind = ResultVoid | ResultInt | ResultPointer

record lib_entry =
  eName :: string
  eChk :: "lib_chk list"
  eParams :: "lib_param list"
  eVariadic :: bool
  eResult :: result_kind
  eValue :: "lib_term option"
  eDisjoint :: "lib_disjoint list"
  eWide :: bool
  eFormat :: "lib_format option"
  eWrapper :: "string option"
  eLine :: nat

definition emptyParam :: lib_param where
  "emptyParam = \<lparr>pType = TypeInt, pAccess = AccessNone, pBytes = None, pCount = None,
     pString = False, pScan = None, pNull = NullForbidden, pZeroTerm = None, pEffect = Borrow\<rparr>"

definition emptyEntry :: lib_entry where
  "emptyEntry = \<lparr>eName = [], eChk = [], eParams = [], eVariadic = False, eResult = ResultVoid,
     eValue = None, eDisjoint = [], eWide = False, eFormat = None, eWrapper = None, eLine = 0\<rparr>"

definition param :: "lib_entry \<Rightarrow> nat \<Rightarrow> lib_param option" where
  "param e index = (if index < length (eParams e) then Some (eParams e ! index) else None)"

subsection \<open>Matches\<close>

record lib_match =
  mEntry :: "lib_entry option"
  mAlias :: "lib_chk option"

definition rowArgument :: "lib_match \<Rightarrow> nat \<Rightarrow> int" where
  "rowArgument m callArg =
     (case mAlias m of
        None \<Rightarrow> int callArg
      | Some alias \<Rightarrow>
          let mp = cArgumentOf alias
          in if callArg < length mp then mp ! callArg
             else if (case mEntry m of None \<Rightarrow> True | Some e \<Rightarrow> \<not> eVariadic e) \<or> mp = [] \<or> last mp < 0
             then -1
             else last mp + int (callArg - length mp) + 1)"

fun indexOf :: "int \<Rightarrow> int list \<Rightarrow> nat option" where
  "indexOf x [] = None"
| "indexOf x (y # ys) = (if y = x then Some 0 else map_option Suc (indexOf x ys))"

definition callArgument :: "lib_match \<Rightarrow> nat \<Rightarrow> int" where
  "callArgument m rowArg =
     (case mAlias m of
        None \<Rightarrow> int rowArg
      | Some alias \<Rightarrow>
          let mp = cArgumentOf alias
          in case indexOf (int rowArg) mp of
               Some i \<Rightarrow> int i
             | None \<Rightarrow>
                 if (case mEntry m of None \<Rightarrow> True | Some e \<Rightarrow> \<not> eVariadic e) \<or> mp = [] \<or>
                    last mp < 0 \<or> int rowArg \<le> last mp
                 then -1
                 else int (length mp) - 1 + (int rowArg - last mp))"

definition sizeArgument :: "lib_match \<Rightarrow> int" where
  "sizeArgument m = (case mAlias m of None \<Rightarrow> -1 | Some alias \<Rightarrow> cSizeArgument alias)"

subsection \<open>Logical lines\<close>

record logical_line =
  lText :: string
  lLines :: "nat list"

abbreviation hash :: char where "hash \<equiv> CHR ''#''"
abbreviation backslash :: char where "backslash \<equiv> CHR 0x5C"
abbreviation newline :: char where "newline \<equiv> CHR 0x0A"
abbreviation tab :: char where "tab \<equiv> CHR 0x09"
abbreviation carriage :: char where "carriage \<equiv> CHR 0x0D"

text \<open>A physical line without its comment and the blanks before it.\<close>

definition physicalText :: "string \<Rightarrow> string" where
  "physicalText line =
     rev (dropWhile (\<lambda>c. c = CHR '' '' \<or> c = tab \<or> c = carriage)
       (rev (takeWhile (\<lambda>c. c \<noteq> hash) line)))"

lemma tl_dropWhile_length:
  "dropWhile P s \<noteq> [] \<Longrightarrow> length (dropWhile P s) - Suc 0 < length s"
  using length_dropWhile_le [of P s] by (cases "dropWhile P s") auto

text \<open>
  The loop over the physical lines: \<open>current\<close> is the logical line being joined, \<open>n\<close> the
  number of the next physical line. It also runs once for an empty last line.
\<close>

function linesLoop :: "nat \<Rightarrow> logical_line \<Rightarrow> string \<Rightarrow> logical_line list" where
  "linesLoop n current text =
     (let line = takeWhile (\<lambda>c. c \<noteq> newline) text;
          rest = dropWhile (\<lambda>c. c \<noteq> newline) text;
          physical = physicalText line;
          continues = (physical \<noteq> [] \<and> last physical = backslash);
          body = (if continues then butlast physical else physical);
          joined = \<lparr>lText = lText current @ map (\<lambda>c. if c = tab then CHR '' '' else c) body,
                    lLines = lLines current @ replicate (length body) n\<rparr>;
          next = (if continues
                  then \<lparr>lText = lText joined @ '' '', lLines = lLines joined @ [n]\<rparr>
                  else \<lparr>lText = [], lLines = []\<rparr>);
          out = (if continues then [] else [joined])
      in if rest = [] then
           out @ (if lText next \<noteq> [] then [next] else [])
         else out @ linesLoop (n + 1) next (tl rest))"
  by pat_completeness auto
termination
  by (relation "measure (\<lambda>(_, _, s). length s)")
    (simp_all add: tl_dropWhile_length del: dropWhile_eq_Nil_conv)

declare linesLoop.simps [simp del]

definition logicalLines :: "string \<Rightarrow> logical_line list" where
  "logicalLines text = linesLoop 1 \<lparr>lText = [], lLines = []\<rparr> text"

subsection \<open>Parsing steps\<close>

type_synonym 'a step = "(string \<times> string) + ('a \<times> string)"

definition andThen :: "'a step \<Rightarrow> ('a \<Rightarrow> string \<Rightarrow> 'b step) \<Rightarrow> 'b step" where
  "andThen r f = (case r of Inl e \<Rightarrow> Inl e | Inr (x, s) \<Rightarrow> f x s)"

abbreviation quote :: char where "quote \<equiv> CHR 0x27"
abbreviation ellipsis :: string where "ellipsis \<equiv> [CHR 0xE2, CHR 0x80, CHR 0xA6]"

definition quoted :: "string \<Rightarrow> string" where "quoted s = [quote] @ s @ [quote]"

definition acceptChar :: "char \<Rightarrow> string \<Rightarrow> string option" where
  "acceptChar c s =
     (case skipSpace s of [] \<Rightarrow> None | d # s' \<Rightarrow> if d \<noteq> c then None else Some s')"

definition expect :: "char \<Rightarrow> string \<Rightarrow> string \<Rightarrow> unit step" where
  "expect c context s =
     (case acceptChar c s of
        Some s' \<Rightarrow> Inr ((), s')
      | None \<Rightarrow> Inl (''expected '' @ quoted [c] @ '' '' @ context, skipSpace s))"

definition isWordChar :: "char \<Rightarrow> bool" where
  "isWordChar c \<longleftrightarrow> isIdentifierChar c \<or> c = CHR ''-''"

definition word :: "string \<Rightarrow> string \<times> string" where
  "word s = (let s' = skipSpace s in (takeWhile isWordChar s', dropWhile isWordChar s'))"

definition name :: "string \<Rightarrow> string \<Rightarrow> string step" where
  "name what s =
     (let text = fst (word s); s' = snd (word s)
      in if isIdentifier text then Inr (text, s')
         else Inl (''expected '' @ what @ (if text = [] then [] else '', found '' @ quoted text), s'))"

fun indexLoop :: "nat \<Rightarrow> string \<Rightarrow> nat \<times> string" where
  "indexLoop v [] = (v, [])"
| "indexLoop v (c # s) =
     (if isDigit c \<and> v < 1000 then indexLoop (v * 10 + (of_char c - 48)) s else (v, c # s))"

definition index :: "string \<Rightarrow> string \<Rightarrow> nat step" where
  "index what s =
     (let s' = skipSpace s; (v, t) = indexLoop 0 s'
      in if length t = length s' then Inl (''expected '' @ what, t)
         else if v > 255 then Inl (what @ '' out of range'', t)
         else Inr (v, t))"

fun termMessage :: "term_error \<Rightarrow> string" where
  "termMessage ExpectedTerm = ''expected a term''"
| "termMessage IntegerOutOfRange = ''integer out of range in a term''"
| "termMessage ExpectedCloseInTerm = ''expected '' @ quoted '')'' @ '' in a term''"
| "termMessage ExpectedStrlen = ''expected '' @ quoted ''strlen(aN)''"
| "termMessage ExpectedCommaInMin = ''expected '' @ quoted '','' @ '' in '' @ quoted (''min('' @ ellipsis @ '')'')"
| "termMessage ExpectedCloseAfterMin = ''expected '' @ quoted '')'' @ '' after '' @ quoted (''min('' @ ellipsis)"
| "termMessage ArgumentOutOfRange = ''argument index out of range in a term''"
| "termMessage ExpectedIntegerAfterMinus = ''expected an integer after '' @ quoted ''-'' @ '' in a term''"
| "termMessage ExpectedPositiveAfterSlash = ''expected a positive integer after '' @ quoted ''/'' @ '' in a term''"

text \<open>\<open>TermReader::read\<close> with the fuel that is enough.\<close>

definition readTerm :: "string \<Rightarrow> term_result" where
  "readTerm s = (case readSum (term_fuel s) s of Some r \<Rightarrow> r | None \<Rightarrow> (Inl ExpectedTerm, s))"

definition specTerm :: "string \<Rightarrow> string \<Rightarrow> lib_term step" where
  "specTerm place s =
     (case readTerm s of
        (Inl e, s') \<Rightarrow> Inl (termMessage e @ '' in '' @ quoted (place @ ''('' @ ellipsis @ '')''), s')
      | (Inr t, s') \<Rightarrow> Inr (t, s'))"

definition parenthesisedTerm :: "string \<Rightarrow> string \<Rightarrow> lib_term step" where
  "parenthesisedTerm flag s =
     andThen (expect (CHR ''('') (''after '' @ quoted flag) s) (\<lambda>_ s1.
     andThen (specTerm flag s1) (\<lambda>t s2.
     andThen (expect (CHR '')'') (''after the term of '' @ quoted flag) s2) (\<lambda>_ s3.
     Inr (t, s3))))"

subsection \<open>Parameters\<close>

text \<open>The flag a word names, in the order the code compares them.\<close>

datatype flag = FBytes | FCount | FStr | FScan | FNullOk | FNullIfZero | FRelease | FRealloc

definition flagOf :: "string \<Rightarrow> flag option" where
  "flagOf w =
     (if w = ''bytes'' then Some FBytes
      else if w = ''count'' then Some FCount
      else if w = ''str'' then Some FStr
      else if w = ''scan'' then Some FScan
      else if w = ''null-ok'' then Some FNullOk
      else if w = ''null-if-zero'' then Some FNullIfZero
      else if w = ''release'' then Some FRelease
      else if w = ''realloc'' then Some FRealloc
      else None)"

text \<open>
  One flag of a pointer parameter, after its colon: the flags seen before and the parameter
  so far, updated.
\<close>

definition parseFlag :: "string list \<Rightarrow> lib_param \<Rightarrow> string \<Rightarrow> (string list \<times> lib_param) step" where
  "parseFlag seen p s =
     (let w = fst (word s); s1 = snd (word s); seen' = w # seen
      in if w \<in> set seen then Inl (''duplicate flag '' @ quoted w, s1)
         else
           case flagOf w of
             Some FBytes \<Rightarrow>
               andThen (parenthesisedTerm w s1) (\<lambda>t s2. Inr ((seen', p\<lparr>pBytes := Some t\<rparr>), s2))
           | Some FCount \<Rightarrow>
               andThen (parenthesisedTerm w s1) (\<lambda>t s2. Inr ((seen', p\<lparr>pCount := Some t\<rparr>), s2))
           | Some FStr \<Rightarrow> Inr ((seen', p\<lparr>pString := True\<rparr>), s1)
           | Some FScan \<Rightarrow>
               (if skipSpace s1 \<noteq> [] \<and> hd (skipSpace s1) = CHR ''('' then
                  andThen (parenthesisedTerm w s1) (\<lambda>t s2. Inr ((seen', p\<lparr>pScan := Some t\<rparr>), s2))
                else Inr ((seen', p\<lparr>pScan := Some (Constant 1)\<rparr>), skipSpace s1))
           | Some FNullOk \<Rightarrow> Inr ((seen', p\<lparr>pNull := NullAllowed\<rparr>), s1)
           | Some FNullIfZero \<Rightarrow>
               andThen (parenthesisedTerm w s1) (\<lambda>t s2.
                 Inr ((seen', p\<lparr>pNull := NullAllowedIfZero, pZeroTerm := Some t\<rparr>), s2))
           | Some FRelease \<Rightarrow> Inr ((seen', p\<lparr>pEffect := Release\<rparr>), s1)
           | Some FRealloc \<Rightarrow> Inr ((seen', p\<lparr>pEffect := Realloc\<rparr>), s1)
           | None \<Rightarrow> Inl (''unknown parameter flag '' @ quoted w, s1))"

lemma acceptChar_length: "acceptChar c s = Some s' \<Longrightarrow> length s' < length s"
  using skipSpace_length [of s] by (auto simp: acceptChar_def split: list.splits if_splits)

lemma word_length: "length (snd (word s)) \<le> length s"
  using skipSpace_length [of s] length_dropWhile_le [of isWordChar "skipSpace s"]
  by (simp add: word_def Let_def)

lemma expect_length: "expect c context s = Inr (u, s') \<Longrightarrow> length s' < length s"
  by (auto simp: expect_def split: option.splits dest: acceptChar_length)

lemma andThen_Inr:
  "andThen r f = Inr (x, s) \<longleftrightarrow> (\<exists>y t. r = Inr (y, t) \<and> f y t = Inr (x, s))"
  by (auto simp: andThen_def split: sum.splits)

lemma specTerm_length: "specTerm place s = Inr (t, s') \<Longrightarrow> length s' < length s"
  using readSum_total [of s "term_fuel s"]
  by (auto simp: specTerm_def readTerm_def term_fuel_def split: option.splits prod.splits sum.splits
      dest: read_shorter(1))

lemma parenthesisedTerm_length: "parenthesisedTerm flag s = Inr (t, s') \<Longrightarrow> length s' < length s"
  by (auto simp: parenthesisedTerm_def andThen_Inr dest!: expect_length specTerm_length)

lemma parseFlag_length:
  assumes "parseFlag seen p s = Inr (x, s')"
  shows "length s' \<le> length s"
proof -
  define s1 where "s1 = snd (word s)"
  have s1: "length s1 \<le> length s" "length (skipSpace s1) \<le> length s1"
    using word_length [of s] skipSpace_length [of s1] by (simp_all add: s1_def)
  have "length s' \<le> length s1"
    using assms s1(2) parenthesisedTerm_length [of "fst (word s)" s1]
    unfolding parseFlag_def Let_def s1_def [symmetric]
    by (auto simp: andThen_Inr less_imp_le split: if_splits option.splits flag.splits)
  then show ?thesis using s1 by simp
qed

function parseFlags :: "string list \<Rightarrow> lib_param \<Rightarrow> string \<Rightarrow> (string list \<times> lib_param) step" where
  "parseFlags seen p s =
     (case acceptChar (CHR '':'') s of
        None \<Rightarrow> Inr ((seen, p), skipSpace s)
      | Some s1 \<Rightarrow>
          (case parseFlag seen p s1 of
             Inl e \<Rightarrow> Inl e
           | Inr ((seen', p'), s2) \<Rightarrow> parseFlags seen' p' s2))"
  by pat_completeness auto
termination
  by (relation "measure (\<lambda>(_, _, s). length s)")
    (auto dest!: acceptChar_length parseFlag_length)

declare parseFlags.simps [simp del]

definition accessOf :: "string \<Rightarrow> access option" where
  "accessOf head =
     (if head = ''r'' then Some AccessRead
      else if head = ''w'' then Some AccessWrite
      else if head = ''rw'' then Some AccessReadWrite
      else if head = ''none'' then Some AccessNone
      else None)"

definition parseParam :: "string \<Rightarrow> lib_param step" where
  "parseParam s =
     (let head = fst (word s); s1 = snd (word s)
      in if head = ''int'' then Inr (emptyParam\<lparr>pType := TypeInt\<rparr>, s1)
         else if head = ''other'' then Inr (emptyParam\<lparr>pType := TypeOther\<rparr>, s1)
         else if head = ''fn'' then Inr (emptyParam\<lparr>pType := TypeFunction\<rparr>, s1)
         else
           case accessOf head of
             None \<Rightarrow> Inl (''expected a parameter, found '' @ quoted head, s1)
           | Some acc \<Rightarrow>
               andThen (parseFlags [] (emptyParam\<lparr>pType := TypePointer, pAccess := acc\<rparr>) s1) (\<lambda>(seen, p) s2.
                 if ''null-ok'' \<in> set seen \<and> ''null-if-zero'' \<in> set seen then
                   Inl (quoted ''null-ok'' @ '' and '' @ quoted ''null-if-zero'' @ '' exclude each other'', s2)
                 else if pBytes p \<noteq> None \<and> pCount p \<noteq> None then
                   Inl (quoted ''bytes'' @ '' and '' @ quoted ''count'' @ '' exclude each other'', s2)
                 else if pString p \<and> pAccess p \<noteq> AccessRead \<and> pAccess p \<noteq> AccessReadWrite then
                   Inl (quoted ''str'' @ '' needs '' @ quoted ''r'' @ '' or '' @ quoted ''rw'', s2)
                 else if pScan p \<noteq> None \<and> pAccess p \<noteq> AccessRead then
                   Inl (quoted ''scan'' @ '' needs '' @ quoted ''r'', s2)
                 else Inr (p, s2)))"

definition parseResult :: "lib_entry \<Rightarrow> string \<Rightarrow> lib_entry step" where
  "parseResult e s =
     (let kind = fst (word s); s1 = snd (word s)
      in if kind = ''void'' then Inr (e\<lparr>eResult := ResultVoid\<rparr>, s1)
         else if kind = ''ptr'' then Inr (e\<lparr>eResult := ResultPointer\<rparr>, s1)
         else if kind = ''int'' then
           (case acceptChar (CHR '':'') s1 of
              None \<Rightarrow> Inr (e\<lparr>eResult := ResultInt\<rparr>, skipSpace s1)
            | Some s2 \<Rightarrow>
                let w = fst (word s2); s3 = snd (word s2)
                in if w \<noteq> ''value'' then
                     Inl (''expected '' @ quoted (''value('' @ ellipsis @ '')'') @ '' after '' @ quoted ''int:'', s3)
                   else andThen (parenthesisedTerm ''value'' s3) (\<lambda>t s4.
                          Inr (e\<lparr>eResult := ResultInt, eValue := Some t\<rparr>, s4)))
         else Inl (''expected '' @ quoted ''void'' @ '', '' @ quoted ''int'' @ '' or '' @ quoted ''ptr'' @
                   '', found '' @ quoted kind, s1))"

subsection \<open>Clauses\<close>

datatype clause = CWide | CDisjoint | CPrintf | CScanf | CWrapper | CChk

definition clauseOf :: "string \<Rightarrow> clause option" where
  "clauseOf w =
     (if w = ''wide'' then Some CWide
      else if w = ''disjoint'' then Some CDisjoint
      else if w = ''printf'' then Some CPrintf
      else if w = ''scanf'' then Some CScanf
      else if w = ''wrapper'' then Some CWrapper
      else if w = ''chk'' then Some CChk
      else None)"

definition parseDisjoint :: "lib_entry \<Rightarrow> string \<Rightarrow> lib_entry step" where
  "parseDisjoint e s =
     andThen (expect (CHR ''('') (''after '' @ quoted ''disjoint'') s) (\<lambda>_ s1.
     andThen (index ''an argument index'' s1) (\<lambda>first s2.
     andThen (expect (CHR '','') (''in '' @ quoted ''disjoint'') s2) (\<lambda>_ s3.
     andThen (index ''an argument index'' s3) (\<lambda>second s4.
     andThen (expect (CHR '','') (''in '' @ quoted ''disjoint'') s4) (\<lambda>_ s5.
     andThen (specTerm ''disjoint'' s5) (\<lambda>len s6.
     andThen (expect (CHR '')'') (''after '' @ quoted (''disjoint('' @ ellipsis)) s6) (\<lambda>_ s7.
     Inr (e\<lparr>eDisjoint := eDisjoint e @ [\<lparr>djFirst = first, djSecond = second, djLength = len\<rparr>]\<rparr>, s7))))))))"

definition parseFormat :: "lib_entry \<Rightarrow> string \<Rightarrow> format_kind \<Rightarrow> string \<Rightarrow> lib_entry step" where
  "parseFormat e w kind s =
     (if eFormat e \<noteq> None then Inl (''a row has at most one format clause'', s)
      else
        andThen (expect (CHR ''('') (''after '' @ quoted w) s) (\<lambda>_ s1.
        andThen (index (''the format'' @ [quote] @ ''s index'') s1) (\<lambda>format s2.
        andThen (expect (CHR '','') (''in '' @ quoted w) s2) (\<lambda>_ s3.
        andThen (index (''the first argument'' @ [quote] @ ''s index'') s3) (\<lambda>first s4.
        andThen (expect (CHR '')'') (''after '' @ quoted (w @ ''('' @ ellipsis)) s4) (\<lambda>_ s5.
        Inr (e\<lparr>eFormat := Some \<lparr>fKind = kind, fFormat = format, fFirst = first,
                                  fVaList = (\<not> eVariadic e)\<rparr>\<rparr>, s5)))))))"

definition parseWrapper :: "lib_entry \<Rightarrow> string \<Rightarrow> lib_entry step" where
  "parseWrapper e s =
     (if eWrapper e \<noteq> None then Inl (''duplicate clause '' @ quoted ''wrapper'', s)
      else
        andThen (expect (CHR ''('') (''after '' @ quoted ''wrapper'') s) (\<lambda>_ s1.
        andThen (name ''a wrapper name'' s1) (\<lambda>wrapped s2.
        andThen (expect (CHR '')'') ''after the wrapper name'' s2) (\<lambda>_ s3.
        Inr (e\<lparr>eWrapper := Some wrapped\<rparr>, s3)))))"

text \<open>One argument of a fortified alias.\<close>

definition aliasArgument :: "lib_chk \<Rightarrow> string \<Rightarrow> lib_chk step" where
  "aliasArgument chk s =
     (case acceptTok ''size'' s of
        Some s1 \<Rightarrow>
          if cSizeArgument chk \<ge> 0 then
            Inl (''an alias has at most one '' @ quoted ''size'' @ '' argument'', s1)
          else Inr (chk\<lparr>cSizeArgument := int (length (cArgumentOf chk)),
                        cArgumentOf := cArgumentOf chk @ [-1]\<rparr>, s1)
      | None \<Rightarrow>
          (case acceptChar (CHR ''_'') s of
             Some s1 \<Rightarrow> Inr (chk\<lparr>cArgumentOf := cArgumentOf chk @ [-1]\<rparr>, s1)
           | None \<Rightarrow>
               andThen (index (''a row argument index, '' @ quoted ''_'' @ '' or '' @ quoted ''size'') s)
                 (\<lambda>row s1.
                   if row > 127 then Inl (''alias argument index out of range'', s1)
                   else Inr (chk\<lparr>cArgumentOf := cArgumentOf chk @ [int row]\<rparr>, s1))))"

lemma indexLoop_length: "length (snd (indexLoop v s)) \<le> length s"
  by (induction v s rule: indexLoop.induct) auto

lemma index_length: "index what s = Inr (v, s') \<Longrightarrow> length s' < length s"
  using skipSpace_length [of s] indexLoop_length [of 0 "skipSpace s"]
  by (auto simp: index_def Let_def split: prod.splits if_splits)

lemma aliasArgument_length: "aliasArgument chk s = Inr (c, s') \<Longrightarrow> length s' < length s"
  by (auto simp: aliasArgument_def andThen_Inr split: option.splits if_splits
      dest!: acceptTok_length acceptChar_length index_length)

function aliasArguments :: "lib_chk \<Rightarrow> string \<Rightarrow> lib_chk step" where
  "aliasArguments chk s =
     (case aliasArgument chk s of
        Inl e \<Rightarrow> Inl e
      | Inr (chk', s1) \<Rightarrow>
          (case acceptChar (CHR '','') s1 of
             Some s2 \<Rightarrow> aliasArguments chk' s2
           | None \<Rightarrow> Inr (chk', skipSpace s1)))"
  by pat_completeness auto
termination
  by (relation "measure (\<lambda>(_, s). length s)")
    (auto dest!: acceptChar_length aliasArgument_length)

declare aliasArguments.simps [simp del]

definition parseChk :: "lib_entry \<Rightarrow> string \<Rightarrow> lib_entry step" where
  "parseChk e s =
     andThen (expect (CHR ''('') (''after '' @ quoted ''chk'') s) (\<lambda>_ s1.
     andThen (name ''an alias name'' s1) (\<lambda>alias s2.
     andThen (expect (CHR '':'') ''after the alias name'' s2) (\<lambda>_ s3.
     andThen (aliasArguments \<lparr>cName = alias, cArgumentOf = [], cSizeArgument = -1\<rparr> s3) (\<lambda>chk s4.
     andThen (expect (CHR '')'') (''after the alias'' @ [quote] @ ''s arguments'') s4) (\<lambda>_ s5.
     Inr (e\<lparr>eChk := eChk e @ [chk]\<rparr>, s5))))))"

definition parseClause :: "lib_entry \<Rightarrow> string \<Rightarrow> string \<Rightarrow> lib_entry step" where
  "parseClause e w s =
     (case clauseOf w of
        Some CWide \<Rightarrow>
          if eWide e then Inl (''duplicate clause '' @ quoted ''wide'', s)
          else Inr (e\<lparr>eWide := True\<rparr>, s)
      | Some CDisjoint \<Rightarrow> parseDisjoint e s
      | Some CPrintf \<Rightarrow> parseFormat e w Printf s
      | Some CScanf \<Rightarrow> parseFormat e w Scanf s
      | Some CWrapper \<Rightarrow> parseWrapper e s
      | Some CChk \<Rightarrow> parseChk e s
      | None \<Rightarrow> Inl (''unknown clause '' @ quoted w, s))"

subsection \<open>Validation\<close>

text \<open>The message of the first check that fails, or \<open>None\<close>.\<close>

definition orElse :: "'a option \<Rightarrow> 'a option \<Rightarrow> 'a option" where
  "orElse a b = (case a of None \<Rightarrow> b | Some x \<Rightarrow> Some x)"

definition pastParameters :: "nat \<Rightarrow> string \<Rightarrow> string" where
  "pastParameters a place = ''argument a'' @ digits a @ '' of '' @ place @ '' is past the row'' @
     [quote] @ ''s parameters''"

fun validateTerm :: "lib_entry \<Rightarrow> string \<Rightarrow> lib_term \<Rightarrow> string option" where
  "validateTerm e place (Constant _) = None"
| "validateTerm e place (Argument a) =
     (if a \<ge> length (eParams e) then Some (pastParameters a place) else None)"
| "validateTerm e place (StringLength a) =
     (if a \<ge> length (eParams e) then Some (pastParameters a place)
      else if pType (eParams e ! a) \<noteq> TypePointer
      then Some (''strlen(a'' @ digits a @ '') of '' @ place @ '' names a non-pointer'')
      else None)"
| "validateTerm e place (Product l r) = orElse (validateTerm e place l) (validateTerm e place r)"
| "validateTerm e place (Sum l r) = orElse (validateTerm e place l) (validateTerm e place r)"
| "validateTerm e place (Difference l _) = validateTerm e place l"
| "validateTerm e place (Min l r) = orElse (validateTerm e place l) (validateTerm e place r)"
| "validateTerm e place (Quotient l _) = validateTerm e place l"

definition validateOptional :: "lib_entry \<Rightarrow> string \<Rightarrow> lib_term option \<Rightarrow> string option" where
  "validateOptional e place t = (case t of None \<Rightarrow> None | Some v \<Rightarrow> validateTerm e place v)"

fun firstError :: "('a \<Rightarrow> string option) \<Rightarrow> 'a list \<Rightarrow> string option" where
  "firstError f [] = None"
| "firstError f (x # xs) = orElse (f x) (firstError f xs)"

definition validateParam :: "lib_entry \<Rightarrow> nat \<Rightarrow> string option" where
  "validateParam e i =
     (let p = eParams e ! i; place = ''parameter '' @ digits i
      in orElse (validateOptional e place (pBytes p))
        (orElse (validateOptional e place (pCount p))
        (orElse (validateOptional e place (pZeroTerm p))
        (orElse (validateOptional e place (pScan p))
        (if pCount p \<noteq> None \<and> \<not> eWide e then Some (quoted ''count'' @ '' needs a wide row'') else None)))))"

definition validateDisjoint :: "lib_entry \<Rightarrow> lib_disjoint \<Rightarrow> string option" where
  "validateDisjoint e d =
     (if djFirst d \<ge> length (eParams e) \<or> djSecond d \<ge> length (eParams e)
      then Some (quoted ''disjoint'' @ '' names an argument past the row'' @ [quote] @ ''s parameters'')
      else validateTerm e (quoted ''disjoint'') (djLength d))"

definition validateFormat :: "lib_entry \<Rightarrow> string option" where
  "validateFormat e =
     (case eFormat e of
        None \<Rightarrow> None
      | Some f \<Rightarrow>
          if fFormat f \<ge> length (eParams e) \<or> (\<not> eVariadic e \<and> fFirst f \<ge> length (eParams e))
          then Some ''the format clause names an argument past the parameters'' else None)"

definition validateScan :: "lib_entry \<Rightarrow> string option" where
  "validateScan e =
     (if list_ex (\<lambda>p. pScan p \<noteq> None) (eParams e) then
        if eResult e = ResultVoid then Some (quoted ''scan'' @ '' needs a result'')
        else if eWrapper e \<noteq> None then Some (quoted ''scan'' @ '' excludes '' @ quoted ''wrapper'')
        else None
      else None)"

definition validateWrapper :: "lib_entry \<Rightarrow> string option" where
  "validateWrapper e =
     (case eWrapper e of
        None \<Rightarrow> None
      | Some w \<Rightarrow> if w \<noteq> eName e
                  then Some (quoted (''wrapper('' @ w @ '')'') @ '' must name the row'') else None)"

definition validateChk :: "lib_entry \<Rightarrow> lib_chk \<Rightarrow> string option" where
  "validateChk e chk =
     firstError (\<lambda>row.
         if row \<ge> 0 \<and> \<not> eVariadic e \<and> row \<ge> int (length (eParams e))
         then Some (''alias '' @ quoted (cName chk) @ '' names an argument past the row'' @ [quote] @
                    ''s parameters'')
         else None) (cArgumentOf chk)"

definition validateEntry :: "lib_entry \<Rightarrow> string option" where
  "validateEntry e =
     orElse (firstError (validateParam e) [0..<length (eParams e)])
    (orElse (validateOptional e ''the result'' (eValue e))
    (orElse (firstError (validateDisjoint e) (eDisjoint e))
    (orElse (validateFormat e)
    (orElse (validateScan e)
    (orElse (validateWrapper e)
    (firstError (validateChk e) (eChk e)))))))"

subsection \<open>Entries\<close>

lemma parseFlags_length: "parseFlags seen p s = Inr (x, s') \<Longrightarrow> length s' \<le> length s"
proof (induction seen p s rule: parseFlags.induct)
  case (1 seen p s)
  then show ?case
    using skipSpace_length [of s]
    by (subst (asm) (2) parseFlags.simps)
      (fastforce split: option.splits sum.splits prod.splits
        dest!: acceptChar_length parseFlag_length)
qed

lemma parseParam_length: "parseParam s = Inr (p, s') \<Longrightarrow> length s' \<le> length s"
  using word_length [of s]
  by (auto simp: parseParam_def Let_def andThen_Inr split: if_splits option.splits
      dest!: parseFlags_length)

text \<open>The parameters after the opening parenthesis; a variadic row's ellipsis ends them.\<close>

function parseParams :: "lib_entry \<Rightarrow> string \<Rightarrow> lib_entry step" where
  "parseParams e s =
     (case acceptTok ''...'' s of
        Some s1 \<Rightarrow> Inr (e\<lparr>eVariadic := True\<rparr>, s1)
      | None \<Rightarrow>
          (case parseParam s of
             Inl err \<Rightarrow> Inl err
           | Inr (p, s1) \<Rightarrow>
               let e' = e\<lparr>eParams := eParams e @ [p]\<rparr>
               in case acceptChar (CHR '','') s1 of
                    Some s2 \<Rightarrow> parseParams e' s2
                  | None \<Rightarrow> Inr (e', skipSpace s1)))"
  by pat_completeness auto
termination
  by (relation "measure (\<lambda>(_, s). length s)")
    (auto dest!: acceptChar_length parseParam_length)

declare parseParams.simps [simp del]

definition atEnd :: "string \<Rightarrow> bool" where "atEnd s \<longleftrightarrow> skipSpace s = []"

lemma word_shorter: "fst (word s) \<noteq> [] \<Longrightarrow> length (snd (word s)) < length s"
proof -
  assume ne: "fst (word s) \<noteq> []"
  have "length (takeWhile isWordChar (skipSpace s)) + length (dropWhile isWordChar (skipSpace s)) =
      length (skipSpace s)"
    by (metis length_append takeWhile_dropWhile_id)
  moreover have "0 < length (takeWhile isWordChar (skipSpace s))"
    using ne unfolding word_def Let_def fst_conv length_greater_0_conv .
  ultimately show ?thesis
    using skipSpace_length [of s] unfolding word_def Let_def snd_conv by linarith
qed

lemma name_length: "name what s = Inr (w, s') \<Longrightarrow> length s' \<le> length s"
  using word_length [of s] by (auto simp: name_def Let_def split: if_splits)

lemma aliasArguments_length: "aliasArguments chk s = Inr (c, s') \<Longrightarrow> length s' \<le> length s"
proof (induction chk s rule: aliasArguments.induct)
  case (1 chk s)
  show ?case
  proof (cases "aliasArgument chk s")
    case (Inr r)
    obtain chk' s1 where r: "r = (chk', s1)" by fastforce
    have s1: "length s1 < length s" using aliasArgument_length Inr r by blast
    show ?thesis
    proof (cases "acceptChar (CHR '','') s1")
      case None
      then show ?thesis
        using 1(2) Inr r s1 skipSpace_length [of s1] by (simp add: aliasArguments.simps [of chk s])
    next
      case (Some s2)
      then have "aliasArguments chk' s2 = Inr (c, s')"
        using 1(2) Inr r by (simp add: aliasArguments.simps [of chk s])
      then show ?thesis
        using 1(1) [OF Inr r [symmetric] Some] acceptChar_length [OF Some] s1 by simp
    qed
  qed (use 1(2) in \<open>simp add: aliasArguments.simps [of chk s]\<close>)
qed

lemma parseClause_length:
  assumes "parseClause e w s = Inr (e', s')"
  shows "length s' \<le> length s"
proof -
  have "parseDisjoint e s = Inr (e', s') \<Longrightarrow> length s' \<le> length s"
    by (auto simp: parseDisjoint_def andThen_Inr dest!: expect_length index_length specTerm_length)
  moreover have "parseFormat e w k s = Inr (e', s') \<Longrightarrow> length s' \<le> length s" for k
    by (auto simp: parseFormat_def andThen_Inr split: if_splits dest!: expect_length index_length)
  moreover have "parseWrapper e s = Inr (e', s') \<Longrightarrow> length s' \<le> length s"
    by (auto simp: parseWrapper_def andThen_Inr split: if_splits dest!: expect_length name_length)
  moreover have "parseChk e s = Inr (e', s') \<Longrightarrow> length s' \<le> length s"
    by (auto simp: parseChk_def andThen_Inr dest!: expect_length name_length aliasArguments_length)
  ultimately show ?thesis
    using assms by (auto simp: parseClause_def split: option.splits clause.splits if_splits)
qed

text \<open>The clauses up to the semicolon.\<close>

function parseClauses :: "lib_entry \<Rightarrow> string \<Rightarrow> lib_entry step" where
  "parseClauses e s =
     (case acceptChar (CHR '';'') s of
        Some s1 \<Rightarrow> Inr (e, s1)
      | None \<Rightarrow>
          if atEnd s then Inl (''expected '' @ quoted '';'' @ '' at the end of the entry'', skipSpace s)
          else if fst (word s) = [] then Inl (''expected a clause or '' @ quoted '';'', snd (word s))
          else (case parseClause e (fst (word s)) (snd (word s)) of
                  Inl err \<Rightarrow> Inl err
                | Inr (e', s1) \<Rightarrow> parseClauses e' s1))"
  by pat_completeness auto
termination
  by (relation "measure (\<lambda>(_, s). length s)")
    (auto dest!: parseClause_length word_shorter)

declare parseClauses.simps [simp del]

definition expectArrow :: "string \<Rightarrow> unit step" where
  "expectArrow s =
     (case acceptTok ''->'' s of
        None \<Rightarrow> Inl (''expected '' @ quoted ''->'' @ '' after the parameters'', skipSpace s)
      | Some s' \<Rightarrow> Inr ((), s'))"

definition endEntry :: "lib_entry \<Rightarrow> string \<Rightarrow> lib_entry step" where
  "endEntry e s =
     (if \<not> atEnd s then Inl (''unexpected text after '' @ quoted '';'', skipSpace s)
      else case validateEntry e of
             Some why \<Rightarrow> Inl (why, skipSpace s)
           | None \<Rightarrow> Inr (e, skipSpace s))"

definition parseParameterList :: "lib_entry \<Rightarrow> string \<Rightarrow> lib_entry step" where
  "parseParameterList e s =
     (case acceptChar (CHR '')'') s of
        Some s' \<Rightarrow> Inr (e, s')
      | None \<Rightarrow>
          andThen (parseParams e s) (\<lambda>e s1.
          andThen (expect (CHR '')'') ''after the parameters'' s1) (\<lambda>_ s2.
          Inr (e, s2))))"

definition parseEntry :: "nat \<Rightarrow> string \<Rightarrow> string \<Rightarrow> lib_entry step" where
  "parseEntry lineNumber rowName s =
     andThen (expect (CHR ''('') ''after the function name'' s) (\<lambda>_ s1.
     andThen (parseParameterList (emptyEntry\<lparr>eLine := lineNumber, eName := rowName\<rparr>) s1) (\<lambda>e s2.
     andThen (expectArrow s2) (\<lambda>_ s3.
     andThen (parseResult e s3) (\<lambda>e s4.
     andThen (parseClauses e s4) (\<lambda>e s5.
     endEntry e s5)))))"

subsection \<open>The table\<close>

text \<open>
  \<open>byName\<close> is a multimap whose equal keys keep their order of insertion, \<open>byAlias\<close> a map
  to a row and an index into its aliases; both are kept as the pairs inserted.
\<close>

record lib_spec =
  rows :: "lib_entry list"
  byName :: "(string \<times> nat) list"
  byAlias :: "(string \<times> nat \<times> nat) list"

definition emptySpec :: lib_spec where
  "emptySpec = \<lparr>rows = [], byName = [], byAlias = []\<rparr>"

text \<open>The message of \<open>fail\<close>: the physical line of the position, and the entry's name.\<close>

definition failMessage :: "logical_line option \<Rightarrow> string \<Rightarrow> string \<Rightarrow> string \<Rightarrow> string" where
  "failMessage line entryName rest why =
     (let n = (case line of
                 None \<Rightarrow> 0
               | Some l \<Rightarrow>
                   if lLines l = [] then 0
                   else lLines l ! min (length (lText l) - length rest) (length (lLines l) - 1))
      in ''LibrarySpec.txt:'' @ digits n @ '': '' @
         (if entryName \<noteq> [] then quoted entryName @ '': '' else []) @ why)"

definition addEntry :: "logical_line \<Rightarrow> lib_spec \<Rightarrow> string + lib_spec" where
  "addEntry line spec =
     (case name ''a function name'' (lText line) of
        Inl (why, rest) \<Rightarrow> Inl (failMessage (Some line) [] rest why)
      | Inr (rowName, s) \<Rightarrow>
          (case parseEntry (if lLines line = [] then 0 else hd (lLines line)) rowName s of
             Inl (why, rest) \<Rightarrow> Inl (failMessage (Some line) rowName rest why)
           | Inr (e, _) \<Rightarrow>
               Inr (spec\<lparr>byName := byName spec @ [(eName e, length (rows spec))],
                         rows := rows spec @ [e]\<rparr>)))"

fun addEntries :: "logical_line list \<Rightarrow> lib_spec \<Rightarrow> string + lib_spec" where
  "addEntries [] spec = Inr spec"
| "addEntries (line # lines) spec =
     (if atEnd (lText line) then addEntries lines spec
      else case addEntry line spec of Inl m \<Rightarrow> Inl m | Inr spec' \<Rightarrow> addEntries lines spec')"

definition addAlias :: "nat \<Rightarrow> nat \<Rightarrow> lib_spec \<Rightarrow> string + lib_spec" where
  "addAlias row alias spec =
     (let n = cName (eChk (rows spec ! row) ! alias)
      in if n \<in> fst ` set (byName spec) \<or> n \<in> fst ` set (byAlias spec)
         then Inl (failMessage None (eName (rows spec ! row)) []
                     (''alias '' @ quoted n @ '' is already a row or an alias''))
         else Inr (spec\<lparr>byAlias := byAlias spec @ [(n, row, alias)]\<rparr>))"

fun addAliases :: "(nat \<times> nat) list \<Rightarrow> lib_spec \<Rightarrow> string + lib_spec" where
  "addAliases [] spec = Inr spec"
| "addAliases ((row, alias) # as) spec =
     (case addAlias row alias spec of Inl m \<Rightarrow> Inl m | Inr spec' \<Rightarrow> addAliases as spec')"

definition aliasIndices :: "lib_entry list \<Rightarrow> (nat \<times> nat) list" where
  "aliasIndices rs = concat (map (\<lambda>row. map (Pair row) [0..<length (eChk (rs ! row))]) [0..<length rs])"

definition parseSpec :: "string \<Rightarrow> string + lib_spec" where
  "parseSpec s =
     (case addEntries (logicalLines s) emptySpec of
        Inl m \<Rightarrow> Inl m
      | Inr spec \<Rightarrow> addAliases (aliasIndices (rows spec)) spec)"

text \<open>\<open>LibrarySpec::shipped\<close>: the embedded table, empty when it does not parse.\<close>

definition shipped :: "string \<Rightarrow> lib_spec" where
  "shipped shippedText = (case parseSpec shippedText of Inl _ \<Rightarrow> emptySpec | Inr spec \<Rightarrow> spec)"

subsection \<open>Lookup\<close>

definition equalRange :: "lib_spec \<Rightarrow> string \<Rightarrow> nat list" where
  "equalRange spec n = map snd (filter (\<lambda>p. fst p = n) (byName spec))"

definition findRow :: "lib_spec \<Rightarrow> string \<Rightarrow> lib_entry option" where
  "findRow spec n = (case equalRange spec n of [] \<Rightarrow> None | i # _ \<Rightarrow> Some (rows spec ! i))"

definition fits :: "lib_entry \<Rightarrow> nat \<Rightarrow> bool" where
  "fits e arguments =
     (if eVariadic e then arguments \<ge> length (eParams e) else arguments = length (eParams e))"

text \<open>One round of the loop of \<open>lookup\<close>: \<open>None\<close> goes on to the next.\<close>

definition lookupName :: "lib_spec \<Rightarrow> string \<Rightarrow> nat option \<Rightarrow> lib_match option" where
  "lookupName spec n arguments =
     (case map_of (byAlias spec) n of
        Some (row, alias) \<Rightarrow>
          Some \<lparr>mEntry = Some (rows spec ! row), mAlias = Some (eChk (rows spec ! row) ! alias)\<rparr>
      | None \<Rightarrow>
          (case equalRange spec n of
             [] \<Rightarrow> None
           | first # others \<Rightarrow>
               (case (case arguments of None \<Rightarrow> None
                      | Some k \<Rightarrow> find (\<lambda>i. fits (rows spec ! i) k) (first # others)) of
                  Some i \<Rightarrow> Some \<lparr>mEntry = Some (rows spec ! i), mAlias = None\<rparr>
                | None \<Rightarrow> Some \<lparr>mEntry = Some (rows spec ! first), mAlias = None\<rparr>)))"

definition builtinPrefix :: string where "builtinPrefix = ''__builtin_''"

definition lookup :: "lib_spec \<Rightarrow> string \<Rightarrow> nat option \<Rightarrow> lib_match option" where
  "lookup spec callee arguments =
     (case lookupName spec callee arguments of
        Some m \<Rightarrow> Some m
      | None \<Rightarrow>
          if take (length builtinPrefix) callee = builtinPrefix
          then lookupName spec (drop (length builtinPrefix) callee) arguments
          else None)"

end
