(* ===== verification/Lib_Table.thy ===== *)
theory Lib_Table
  imports Lib_Spec Lib_Eval
begin

text \<open>
  What the parsed table promises its clients, the guard pass and the driver: every row only
  names arguments it has, the aliases are unique and no row's name, a lookup finds a row
  exactly when the callee names one, and the argument maps of a fortified alias are inverse.
\<close>

subsection \<open>Well-formed rows and tables\<close>

fun term_args :: "lib_term \<Rightarrow> nat set" where
  "term_args (Constant _) = {}"
| "term_args (Argument a) = {a}"
| "term_args (StringLength a) = {a}"
| "term_args (Product l r) = term_args l \<union> term_args r"
| "term_args (Sum l r) = term_args l \<union> term_args r"
| "term_args (Difference l _) = term_args l"
| "term_args (Min l r) = term_args l \<union> term_args r"
| "term_args (Quotient l _) = term_args l"

fun term_strings :: "lib_term \<Rightarrow> nat set" where
  "term_strings (StringLength a) = {a}"
| "term_strings (Product l r) = term_strings l \<union> term_strings r"
| "term_strings (Sum l r) = term_strings l \<union> term_strings r"
| "term_strings (Difference l _) = term_strings l"
| "term_strings (Min l r) = term_strings l \<union> term_strings r"
| "term_strings (Quotient l _) = term_strings l"
| "term_strings _ = {}"

definition term_fits :: "lib_entry \<Rightarrow> lib_term \<Rightarrow> bool" where
  "term_fits e t \<longleftrightarrow> (\<forall>a \<in> term_args t. a < length (eParams e)) \<and>
     (\<forall>a \<in> term_strings t. pType (eParams e ! a) = TypePointer)"

definition param_terms :: "lib_param \<Rightarrow> lib_term set" where
  "param_terms p = set_option (pBytes p) \<union> set_option (pCount p) \<union> set_option (pZeroTerm p) \<union>
     set_option (pScan p)"

definition row_wf :: "lib_entry \<Rightarrow> bool" where
  "row_wf e \<longleftrightarrow>
     (\<forall>p \<in> set (eParams e). (\<forall>t \<in> param_terms p. term_fits e t) \<and> (pCount p \<noteq> None \<longrightarrow> eWide e)) \<and>
     (\<forall>t \<in> set_option (eValue e). term_fits e t) \<and>
     (\<forall>d \<in> set (eDisjoint e). djFirst d < length (eParams e) \<and> djSecond d < length (eParams e) \<and>
        term_fits e (djLength d)) \<and>
     (\<forall>f \<in> set_option (eFormat e). fFormat f < length (eParams e) \<and>
        (eVariadic e \<or> fFirst f < length (eParams e))) \<and>
     ((\<exists>p \<in> set (eParams e). pScan p \<noteq> None) \<longrightarrow> eResult e \<noteq> ResultVoid \<and> eWrapper e = None) \<and>
     (\<forall>w \<in> set_option (eWrapper e). w = eName e) \<and>
     (\<forall>c \<in> set (eChk e). \<forall>r \<in> set (cArgumentOf c). 0 \<le> r \<longrightarrow> eVariadic e \<or> r < int (length (eParams e)))"

definition alias_names :: "lib_spec \<Rightarrow> string set" where
  "alias_names spec = {cName c | c e. e \<in> set (rows spec) \<and> c \<in> set (eChk e)}"

definition row_names :: "lib_spec \<Rightarrow> string set" where
  "row_names spec = eName ` set (rows spec)"

definition names_indexed :: "lib_spec \<Rightarrow> bool" where
  "names_indexed spec \<longleftrightarrow>
     byName spec = map (\<lambda>i. (eName (rows spec ! i), i)) [0..<length (rows spec)]"

definition aliases_indexed :: "lib_spec \<Rightarrow> (nat \<times> nat) list \<Rightarrow> bool" where
  "aliases_indexed spec idx \<longleftrightarrow>
     byAlias spec = map (\<lambda>(r, a). (cName (eChk (rows spec ! r) ! a), r, a)) idx \<and>
     distinct (map fst (byAlias spec)) \<and> fst ` set (byAlias spec) \<inter> fst ` set (byName spec) = {}"

definition spec_wf :: "lib_spec \<Rightarrow> bool" where
  "spec_wf spec \<longleftrightarrow> (\<forall>e \<in> set (rows spec). row_wf e) \<and> names_indexed spec \<and>
     aliases_indexed spec (aliasIndices (rows spec))"

subsection \<open>Lemmas: validation\<close>

lemma orElse_None [simp]: "orElse a b = None \<longleftrightarrow> a = None \<and> b = None"
  by (auto simp: orElse_def split: option.splits)

lemma firstError_None [simp]: "firstError f xs = None \<longleftrightarrow> (\<forall>x \<in> set xs. f x = None)"
  by (induction xs) auto

lemma term_strings_args: "term_strings t \<subseteq> term_args t"
  by (induction t) auto

lemma validateTerm_fits: "validateTerm e place t = None \<longleftrightarrow> term_fits e t"
  by (induction t) (auto simp: term_fits_def not_le)

lemma validateOptional_fits:
  "validateOptional e place t = None \<longleftrightarrow> (\<forall>v \<in> set_option t. term_fits e v)"
  by (auto simp: validateOptional_def validateTerm_fits split: option.splits)

lemma validateEntry_row_wf: "validateEntry e = None \<longleftrightarrow> row_wf e"
proof -
  have p: "(\<forall>i \<in> set [0..<length (eParams e)]. validateParam e i = None) \<longleftrightarrow>
      (\<forall>p \<in> set (eParams e). (\<forall>t \<in> param_terms p. term_fits e t) \<and> (pCount p \<noteq> None \<longrightarrow> eWide e))"
  proof -
    have "validateParam e i = None \<longleftrightarrow> (\<forall>t \<in> param_terms (eParams e ! i). term_fits e t) \<and>
        (pCount (eParams e ! i) \<noteq> None \<longrightarrow> eWide e)" for i
      unfolding validateParam_def Let_def orElse_None validateOptional_fits param_terms_def by auto
    then show ?thesis by (auto simp: all_set_conv_all_nth)
  qed
  have d: "validateDisjoint e d = None \<longleftrightarrow> djFirst d < length (eParams e) \<and>
      djSecond d < length (eParams e) \<and> term_fits e (djLength d)" for d
    by (auto simp: validateDisjoint_def validateTerm_fits)
  have c: "validateChk e c = None \<longleftrightarrow>
      (\<forall>r \<in> set (cArgumentOf c). 0 \<le> r \<longrightarrow> eVariadic e \<or> r < int (length (eParams e)))" for c
    by (auto simp: validateChk_def)
  have f: "validateFormat e = None \<longleftrightarrow> (\<forall>f \<in> set_option (eFormat e). fFormat f < length (eParams e) \<and>
        (eVariadic e \<or> fFirst f < length (eParams e)))"
    by (auto simp: validateFormat_def split: option.splits)
  have s: "validateScan e = None \<longleftrightarrow>
      ((\<exists>p \<in> set (eParams e). pScan p \<noteq> None) \<longrightarrow> eResult e \<noteq> ResultVoid \<and> eWrapper e = None)"
    by (auto simp: validateScan_def list_ex_iff)
  have w: "validateWrapper e = None \<longleftrightarrow> (\<forall>w \<in> set_option (eWrapper e). w = eName e)"
    by (auto simp: validateWrapper_def split: option.splits)
  show ?thesis
    unfolding validateEntry_def row_wf_def orElse_None firstError_None p d c f s w
      validateOptional_fits by blast
qed

subsection \<open>Lemmas: the parsed table\<close>

lemma parseEntry_wf: "parseEntry n w s = Inr (e, s') \<Longrightarrow> row_wf e"
  by (auto simp: parseEntry_def andThen_Inr endEntry_def validateEntry_row_wf
      split: option.splits if_splits)

lemma addEntry_keeps:
  assumes "addEntry line spec = Inr spec'" "\<forall>e \<in> set (rows spec). row_wf e" "names_indexed spec"
  shows "(\<forall>e \<in> set (rows spec'). row_wf e) \<and> names_indexed spec' \<and> byAlias spec' = byAlias spec"
  using assms
  by (auto simp: addEntry_def names_indexed_def nth_append split: sum.splits prod.splits
      dest!: parseEntry_wf)

lemma addEntries_keeps:
  assumes "addEntries lines spec = Inr spec'" "\<forall>e \<in> set (rows spec). row_wf e" "names_indexed spec"
  shows "(\<forall>e \<in> set (rows spec'). row_wf e) \<and> names_indexed spec' \<and> byAlias spec' = byAlias spec"
  using assms
proof (induction lines arbitrary: spec)
  case (Cons line lines)
  show ?case
  proof (cases "atEnd (lText line)")
    case True
    then show ?thesis using Cons by simp
  next
    case False
    then obtain t where t: "addEntry line spec = Inr t" "addEntries lines t = Inr spec'"
      using Cons.prems(1) by (auto split: sum.splits)
    then show ?thesis
      using Cons.IH [OF t(2)] addEntry_keeps [OF t(1) Cons.prems(2,3)] by simp
  qed
qed simp

lemma addAlias_keeps:
  assumes "addAlias r a spec = Inr spec'" "aliases_indexed spec idx"
  shows "rows spec' = rows spec \<and> byName spec' = byName spec \<and> aliases_indexed spec' (idx @ [(r, a)])"
proof -
  define n where "n = cName (eChk (rows spec ! r) ! a)"
  have n: "n \<notin> fst ` set (byName spec)" "n \<notin> fst ` set (byAlias spec)"
    and s': "spec' = spec\<lparr>byAlias := byAlias spec @ [(n, r, a)]\<rparr>"
    using assms(1) by (auto simp: addAlias_def Let_def n_def split: if_splits)
  have eq: "byAlias spec = map (\<lambda>(r, a). (cName (eChk (rows spec ! r) ! a), r, a)) idx"
    using assms(2) unfolding aliases_indexed_def by blast
  have "distinct (map fst (byAlias spec))" "fst ` set (byAlias spec) \<inter> fst ` set (byName spec) = {}"
    using assms(2) unfolding aliases_indexed_def by blast+
  then have "distinct (map fst (byAlias spec'))" "fst ` set (byAlias spec') \<inter> fst ` set (byName spec') = {}"
    using n by (simp_all add: s')
  moreover have "byAlias spec' = map (\<lambda>(r, a). (cName (eChk (rows spec' ! r) ! a), r, a)) (idx @ [(r, a)])"
    by (simp add: s' eq n_def)
  moreover have "rows spec' = rows spec" "byName spec' = byName spec" by (simp_all add: s')
  ultimately show ?thesis unfolding aliases_indexed_def by blast
qed

lemma addAliases_keeps:
  assumes "addAliases as spec = Inr spec'" "aliases_indexed spec idx"
  shows "rows spec' = rows spec \<and> byName spec' = byName spec \<and> aliases_indexed spec' (idx @ as)"
  using assms
proof (induction as arbitrary: spec idx)
  case (Cons x as)
  obtain r a where x: "x = (r, a)" by fastforce
  then obtain t where t: "addAlias r a spec = Inr t" "addAliases as t = Inr spec'"
    using Cons.prems(1) by (auto split: sum.splits)
  have k: "rows t = rows spec \<and> byName t = byName spec \<and> aliases_indexed t (idx @ [(r, a)])"
    by (rule addAlias_keeps [OF t(1) Cons.prems(2)])
  have "rows spec' = rows t \<and> byName spec' = byName t \<and> aliases_indexed spec' ((idx @ [(r, a)]) @ as)"
    using Cons.IH [OF t(2)] k by blast
  then show ?case using k x by simp
qed simp

lemma parseSpec_spec_wf: "parseSpec s = Inr spec \<Longrightarrow> spec_wf spec"
proof -
  assume "parseSpec s = Inr spec"
  then obtain t where t: "addEntries (logicalLines s) emptySpec = Inr t"
    "addAliases (aliasIndices (rows t)) t = Inr spec"
    by (auto simp: parseSpec_def split: sum.splits)
  have "(\<forall>e \<in> set (rows t). row_wf e) \<and> names_indexed t \<and> byAlias t = []"
    using addEntries_keeps [OF t(1)] by (simp add: emptySpec_def names_indexed_def)
  moreover from this have "aliases_indexed t []" by (simp add: aliases_indexed_def)
  from addAliases_keeps [OF t(2) this]
  have "rows spec = rows t \<and> byName spec = byName t \<and> aliases_indexed spec (aliasIndices (rows t))"
    by simp
  ultimately show ?thesis by (auto simp: spec_wf_def names_indexed_def)
qed

lemma set_aliasIndices:
  "set (aliasIndices rs) = {(r, a). r < length rs \<and> a < length (eChk (rs ! r))}"
  by (auto simp: aliasIndices_def)

lemma byAlias_names:
  assumes "spec_wf spec"
  shows "fst ` set (byAlias spec) = alias_names spec"
proof -
  have "byAlias spec = map (\<lambda>(r, a). (cName (eChk (rows spec ! r) ! a), r, a)) (aliasIndices (rows spec))"
    using assms by (simp add: spec_wf_def aliases_indexed_def)
  then have "fst ` set (byAlias spec) = {cName (eChk (rows spec ! r) ! a) | r a.
      r < length (rows spec) \<and> a < length (eChk (rows spec ! r))}"
    by (force simp: set_aliasIndices)
  also have "\<dots> = alias_names spec"
    unfolding alias_names_def by (auto simp: in_set_conv_nth)
  finally show ?thesis .
qed

lemma byName_names: "names_indexed spec \<Longrightarrow> fst ` set (byName spec) = row_names spec"
  unfolding names_indexed_def row_names_def by (force simp: in_set_conv_nth image_iff)

lemma equalRange_rows:
  assumes "names_indexed spec"
  shows "equalRange spec n = filter (\<lambda>i. eName (rows spec ! i) = n) [0..<length (rows spec)]"
  using assms by (simp add: equalRange_def names_indexed_def filter_map o_def)

subsection \<open>Lemmas: lookup\<close>

lemma lookupName_None:
  assumes wf: "spec_wf spec"
  shows "lookupName spec n k = None \<longleftrightarrow> n \<notin> alias_names spec \<and> n \<notin> row_names spec"
proof -
  have a: "map_of (byAlias spec) n = None \<longleftrightarrow> n \<notin> alias_names spec"
    by (simp add: map_of_eq_None_iff byAlias_names [OF wf])
  have "equalRange spec n = [] \<longleftrightarrow> n \<notin> row_names spec"
    using wf unfolding spec_wf_def row_names_def
    by (fastforce simp: equalRange_rows filter_empty_conv in_set_conv_nth)
  then show ?thesis
    using a by (auto simp: lookupName_def split: option.splits list.splits prod.splits)
qed

lemma lookupName_alias:
  assumes wf: "spec_wf spec" and r: "r < length (rows spec)" "a < length (eChk (rows spec ! r))"
  shows "lookupName spec (cName (eChk (rows spec ! r) ! a)) k =
    Some \<lparr>mEntry = Some (rows spec ! r), mAlias = Some (eChk (rows spec ! r) ! a)\<rparr>"
proof -
  have idx: "byAlias spec = map (\<lambda>(r, a). (cName (eChk (rows spec ! r) ! a), r, a)) (aliasIndices (rows spec))"
    and d: "distinct (map fst (byAlias spec))"
    using wf unfolding spec_wf_def aliases_indexed_def by blast+
  have "(r, a) \<in> set (aliasIndices (rows spec))" using r by (simp add: set_aliasIndices)
  then have "(cName (eChk (rows spec ! r) ! a), r, a) \<in> set (byAlias spec)"
    unfolding idx set_map by (rule rev_image_eqI) simp
  then have "map_of (byAlias spec) (cName (eChk (rows spec ! r) ! a)) = Some (r, a)"
    using d by simp
  then show ?thesis by (simp add: lookupName_def)
qed

text \<open>The row a name and an arity choose: the first overload that fits, else the first.\<close>

definition first_overload :: "lib_entry list \<Rightarrow> string \<Rightarrow> nat option \<Rightarrow> lib_entry option" where
  "first_overload rs n k =
     (let named = filter (\<lambda>e. eName e = n) rs
      in case (case k of None \<Rightarrow> None | Some j \<Rightarrow> find (\<lambda>e. fits e j) named) of
           Some e \<Rightarrow> Some e
         | None \<Rightarrow> (case named of [] \<Rightarrow> None | e # _ \<Rightarrow> Some e))"

lemma find_map: "find P (map f xs) = map_option f (find (P \<circ> f) xs)"
  by (induction xs) auto

lemma lookupName_row:
  assumes wf: "spec_wf spec" and n: "n \<in> row_names spec"
  shows "lookupName spec n k =
    Some \<lparr>mEntry = first_overload (rows spec) n k, mAlias = None\<rparr>"
proof -
  have disj: "fst ` set (byAlias spec) \<inter> fst ` set (byName spec) = {}" and ni: "names_indexed spec"
    using wf unfolding spec_wf_def aliases_indexed_def by blast+
  then have "n \<notin> fst ` set (byAlias spec)" using n byName_names [OF ni] by blast
  then have none: "map_of (byAlias spec) n = None" by (simp add: map_of_eq_None_iff)
  have rng: "map ((!) (rows spec)) (equalRange spec n) = filter (\<lambda>e. eName e = n) (rows spec)"
    unfolding equalRange_rows [OF ni]
    by (subst (3) map_nth [symmetric], subst filter_map) (simp add: o_def)
  obtain i js where i: "equalRange spec n = i # js"
    using lookupName_None [OF wf, of n k] n none by (cases "equalRange spec n") (auto simp: lookupName_def)
  have named: "filter (\<lambda>e. eName e = n) (rows spec) = rows spec ! i # map ((!) (rows spec)) js"
    using rng i by simp
  have "find (\<lambda>e. fits e j) (filter (\<lambda>e. eName e = n) (rows spec)) =
      map_option ((!) (rows spec)) (find (\<lambda>i. fits (rows spec ! i) j) (i # js))" for j
    using find_map [of "\<lambda>e. fits e j" "(!) (rows spec)" "i # js"] by (simp add: named o_def)
  then show ?thesis
    using none i named
    by (auto simp: lookupName_def first_overload_def Let_def simp del: find.simps split: option.splits)
qed

lemma lookup_names_nothing:
  assumes wf: "spec_wf spec"
  shows "lookup spec n k = None \<longleftrightarrow>
    (\<forall>m. (n = m \<or> n = builtinPrefix @ m) \<longrightarrow> m \<notin> alias_names spec \<and> m \<notin> row_names spec)"
proof -
  have "lookup spec n k = None \<longleftrightarrow> lookupName spec n k = None \<and>
      (take (length builtinPrefix) n = builtinPrefix \<longrightarrow>
       lookupName spec (drop (length builtinPrefix) n) k = None)"
    by (cases "lookupName spec n k") (simp_all add: lookup_def)
  also have "\<dots> \<longleftrightarrow> lookupName spec n k = None \<and>
      (\<forall>m. n = builtinPrefix @ m \<longrightarrow> lookupName spec m k = None)"
    by (metis append_eq_conv_conj append_take_drop_id)
  finally show ?thesis unfolding lookupName_None [OF wf] by blast
qed

lemma lookup_first: "lookupName spec n k = Some m \<Longrightarrow> lookup spec n k = Some m"
  by (simp add: lookup_def)

subsection \<open>Lemmas: the arguments of an alias\<close>

lemma indexOf_Some: "indexOf x xs = Some i \<Longrightarrow> i < length xs \<and> xs ! i = x"
  by (induction xs arbitrary: i) (auto split: if_splits)

lemma indexOf_nth: "distinct (filter (\<lambda>y. 0 \<le> y) xs) \<Longrightarrow> i < length xs \<Longrightarrow> 0 \<le> xs ! i \<Longrightarrow>
    indexOf (xs ! i) xs = Some i"
proof (induction xs arbitrary: i)
  case (Cons y ys)
  show ?case
  proof (cases i)
    case (Suc j)
    have "ys ! j \<in> set (filter (\<lambda>y. 0 \<le> y) ys)" using Cons.prems Suc by simp
    then have "y \<noteq> ys ! j" using Cons.prems(1) by (auto split: if_splits)
    then show ?thesis using Cons Suc by (auto split: if_splits)
  qed simp
qed simp

lemma rowArgument_callArgument:
  assumes "callArgument m r = int c"
  shows "rowArgument m c = int r"
proof (cases "mAlias m")
  case None
  then show ?thesis using assms by (simp add: callArgument_def rowArgument_def)
next
  case (Some al)
  show ?thesis
  proof (cases "indexOf (int r) (cArgumentOf al)")
    case None
    then have "\<not> ((case mEntry m of None \<Rightarrow> True | Some e \<Rightarrow> \<not> eVariadic e) \<or> cArgumentOf al = [] \<or>
        last (cArgumentOf al) < 0)" "int r > last (cArgumentOf al)"
      "int c = int (length (cArgumentOf al)) - 1 + (int r - last (cArgumentOf al))"
      using assms Some by (auto simp: callArgument_def Let_def split: if_splits)
    then show ?thesis
      using Some by (auto simp: rowArgument_def Let_def)
  next
    case (Some i)
    then show ?thesis
      using assms \<open>mAlias m = Some al\<close> indexOf_Some [OF Some]
      by (simp add: callArgument_def rowArgument_def Let_def)
  qed
qed

lemma callArgument_rowArgument:
  assumes "mAlias m = Some al" "distinct (filter (\<lambda>y. 0 \<le> y) (cArgumentOf al))"
    and "c < length (cArgumentOf al)" "rowArgument m c = int r"
  shows "callArgument m r = int c"
proof -
  have "cArgumentOf al ! c = int r" using assms by (simp add: rowArgument_def)
  then have "indexOf (int r) (cArgumentOf al) = Some c"
    using indexOf_nth [OF assms(2,3)] by simp
  then show ?thesis using assms(1) by (simp add: callArgument_def)
qed

subsection \<open>Properties\<close>


lemma sample_table:
  "parseSpec (''f (r:bytes(a1), int) -> void chk(__f_chk:0,1,size);'') =
   Inr \<lparr>rows = [\<lparr>eName = ''f'',
       eChk = [\<lparr>cName = ''__f_chk'', cArgumentOf = [0, 1, -1], cSizeArgument = 2\<rparr>],
       eParams = [emptyParam\<lparr>pType := TypePointer, pAccess := AccessRead, pBytes := Some (Argument 1)\<rparr>,
         emptyParam],
       eVariadic = False, eResult = ResultVoid, eValue = None, eDisjoint = [], eWide = False,
       eFormat = None, eWrapper = None, eLine = 1\<rparr>],
     byName = [(''f'', 0)], byAlias = [(''__f_chk'', 0, 0)]\<rparr>"
  by code_simp


text \<open>
  Lookup resolves a callee as the table says. A fortified alias gives its own row and
  alias; a row's name gives the first overload whose arity fits the call, else the first
  overload; a name gives nothing exactly when neither it nor what follows a
  \<open>__builtin_\<close> prefix is a row or an alias.
\<close>

theorem lookup_exact:
  assumes "parseSpec s = Inr spec"
  shows "(\<forall>r < length (rows spec). \<forall>a < length (eChk (rows spec ! r)).
      lookup spec (cName (eChk (rows spec ! r) ! a)) k =
        Some \<lparr>mEntry = Some (rows spec ! r), mAlias = Some (eChk (rows spec ! r) ! a)\<rparr>) \<and>
    (\<forall>n \<in> row_names spec.
      lookup spec n k = Some \<lparr>mEntry = first_overload (rows spec) n k, mAlias = None\<rparr>) \<and>
    (lookup spec n k = None \<longleftrightarrow>
      (\<forall>m. (n = m \<or> n = ''__builtin_'' @ m) \<longrightarrow> m \<notin> alias_names spec \<and> m \<notin> row_names spec))"
proof -
  have wf: "spec_wf spec" by (rule parseSpec_spec_wf [OF assms])
  show ?thesis
    using lookup_first lookupName_alias [OF wf] lookupName_row [OF wf]
      lookup_names_nothing [OF wf, unfolded builtinPrefix_def]
    by blast
qed

theorem lookup_exact_witness:
  "\<exists>spec. parseSpec (''f (r:bytes(a1), int) -> void chk(__f_chk:0,1,size);'') = Inr spec \<and>
     (\<forall>n \<in> row_names spec.
        lookup spec n (Some 2) = Some \<lparr>mEntry = first_overload (rows spec) n (Some 2), mAlias = None\<rparr>)"
  using lookup_exact [OF sample_table, of "Some 2"] sample_table by blast

text \<open>
  The argument maps of a match are inverse: the call argument that carries a row's
  argument is one that becomes it, also past the alias's list of a variadic row, and where
  the alias maps no row argument twice the call argument is the only one.
\<close>

theorem arguments_inverse:
  "(callArgument m r = int c \<longrightarrow> rowArgument m c = int r) \<and>
   (\<forall>al. mAlias m = Some al \<longrightarrow> distinct (filter (\<lambda>y. 0 \<le> y) (cArgumentOf al)) \<longrightarrow>
      c < length (cArgumentOf al) \<longrightarrow> rowArgument m c = int r \<longrightarrow> callArgument m r = int c)"
  using rowArgument_callArgument callArgument_rowArgument by blast

theorem arguments_inverse_witness:
  "rowArgument \<lparr>mEntry = Some (emptyEntry\<lparr>eVariadic := True\<rparr>),
      mAlias = Some \<lparr>cName = ''__sprintf_chk'', cArgumentOf = [0, -1, -1, 1], cSizeArgument = 2\<rparr>\<rparr> 5 = 3"
proof -
  have "callArgument \<lparr>mEntry = Some (emptyEntry\<lparr>eVariadic := True\<rparr>),
      mAlias = Some \<lparr>cName = ''__sprintf_chk'', cArgumentOf = [0, -1, -1, 1], cSizeArgument = 2\<rparr>\<rparr> 3 = int 5"
    by (simp add: callArgument_def Let_def)
  then show ?thesis using arguments_inverse [THEN conjunct1, rule_format] by fastforce
qed

end
