(* ===== verification/Library_Calls.thy ===== *)
theory Library_Calls
  imports Lib_Table Strings
begin

text \<open>
  \<open>lib/Frontend/GuardLibrary.cpp\<close>: the guards of a library call from its row. A call is
  seen when it runs: its arguments have values, a term of the row is the number the emitted
  code computes, and what is emitted is the list of the guards that run, in order. LLVM's
  builder folds operations on constants, which decides between a guard and a range; so a value
  says whether it is a constant.
\<close>

subsection \<open>A call\<close>

text \<open>
  An integer argument has a width in bits and an unsigned value; a pointer has an address,
  the length of the string literal it names, if it does, whether it is in address space 0, and
  whether it is a constant whose test against null the builder folds.
\<close>

datatype call_arg =
    IntArg (iaBits: nat) (iaValue: int) (iaConstant: bool)
  | PtrArg (paAddress: u64) (paLiteral: "nat option") (paSpace0: bool) (paFolds: bool)
  | OtherArg

record lib_call =
  lcMatch :: lib_match
  lcEntry :: lib_entry
  lcArgs :: "call_arg list"
  lcWchar :: u64
  lcFieldLimit :: "call_arg \<Rightarrow> u64 option"
  lcStrlen :: "u64 \<Rightarrow> u64 \<Rightarrow> u64"
  lcWcslen :: "u64 \<Rightarrow> u64 \<Rightarrow> u64"

datatype lib_guard =
    GuardAt u64 u64 bool
  | RangeAt u64 u64 bool
  | StringAt u64 u64 bool
  | WideStringAt u64 u64 bool
  | LimitAt u64 u64 u64
  | DisjointAt u64 u64 u64

type_synonym ir_number = "u64 \<times> bool"

definition cNameOf :: "string \<Rightarrow> string" where
  "cNameOf nm =
     (let nm = (case nm of c # cs \<Rightarrow>
                  if c = CHR 0x01 then (case cs of d # ds \<Rightarrow> if d = CHR ''_'' then ds else cs | [] \<Rightarrow> cs) else nm
                | [] \<Rightarrow> [])
      in takeWhile (\<lambda>c. c \<noteq> CHR ''$'') nm)"

definition argument :: "lib_call \<Rightarrow> nat \<Rightarrow> call_arg option" where
  "argument lc ix =
     (let at = callArgument (lcMatch lc) ix
      in if at < 0 \<or> nat at \<ge> length (lcArgs lc) then None else Some (lcArgs lc ! nat at))"

definition sextOrTrunc :: "nat \<Rightarrow> int \<Rightarrow> u64" where
  "sextOrTrunc bits v = word_of_int (if v \<ge> 2 ^ (bits - 1) then v - 2 ^ bits else v)"

definition isWrite :: "Lib_Spec.access \<Rightarrow> bool" where
  "isWrite a \<longleftrightarrow> a = AccessWrite \<or> a = AccessReadWrite"

definition wrapperTakesLimit :: "lib_call \<Rightarrow> bool" where
  "wrapperTakesLimit lc = list_ex (\<lambda>chk. cSizeArgument chk \<ge> 0) (eChk (lcEntry lc))"

text \<open>The first written pointer of the row decides.\<close>

definition firstWritten :: "lib_call \<Rightarrow> nat option" where
  "firstWritten lc = find (\<lambda>i. pType (eParams (lcEntry lc) ! i) = TypePointer \<and> isWrite (pAccess (eParams (lcEntry lc) ! i)))
     [0..<length (eParams (lcEntry lc))]"

definition writtenField :: "lib_call \<Rightarrow> u64 option" where
  "writtenField lc =
     (if eWide (lcEntry lc) \<or> eWrapper (lcEntry lc) = None \<or> \<not> wrapperTakesLimit lc then None
      else case firstWritten lc of
             None \<Rightarrow> None
           | Some ix \<Rightarrow>
               (case argument lc ix of
                  Some (PtrArg a l sp fo) \<Rightarrow> lcFieldLimit lc (PtrArg a l sp fo)
                | _ \<Rightarrow> None))"

definition statedSize :: "lib_call \<Rightarrow> u64 option" where
  "statedSize lc =
     (let at = sizeArgument (lcMatch lc)
      in if at < 0 \<or> nat at \<ge> length (lcArgs lc) then None
         else case lcArgs lc ! nat at of
                IntArg bits v const \<Rightarrow>
                  if const \<and> v = 2 ^ bits - 1 then None
                  else Some (if eWide (lcEntry lc) then word_of_int v * lcWchar lc else word_of_int v)
              | _ \<Rightarrow> None)"

definition objectSize :: "lib_call \<Rightarrow> u64 option" where
  "objectSize lc =
     (case (writtenField lc, statedSize lc) of
        (Some f, Some s) \<Rightarrow> Some (min f s)
      | (Some f, None) \<Rightarrow> Some f
      | (None, s) \<Rightarrow> s)"

definition nullOk :: "lib_call \<Rightarrow> nat \<Rightarrow> bool" where
  "nullOk lc ix \<longleftrightarrow> ix < length (eParams (lcEntry lc)) \<and> pNull (eParams (lcEntry lc) ! ix) \<noteq> NullForbidden"

text \<open>The checked length of a string: a literal's is known, a wide string is scanned by the runtime.\<close>

definition checkedLength :: "lib_call \<Rightarrow> call_arg \<Rightarrow> ir_number option \<Rightarrow> bool \<Rightarrow> lib_guard list \<times> ir_number" where
  "checkedLength lc pointer bound nullable =
     (if \<not> eWide (lcEntry lc) \<and> paLiteral pointer \<noteq> None
      then let len = word_of_nat (the (paLiteral pointer))
           in ([], (case bound of Some (b, True) \<Rightarrow> min len b | _ \<Rightarrow> len), True)
      else
        let b = (case bound of Some (b, _) \<Rightarrow> b | None \<Rightarrow> - 1); a = paAddress pointer
        in if eWide (lcEntry lc) then ([WideStringAt a b nullable], lcWcslen lc a b, False)
           else ([StringAt a b nullable], lcStrlen lc a b, False))"

subsection \<open>Terms\<close>

definition clampConstant :: "int \<Rightarrow> u64" where
  "clampConstant v = word_of_int (max v 0)"

text \<open>\<open>umul_with_overflow\<close> and \<open>uadd_with_overflow\<close> with the select of the largest number.\<close>

definition saturatingMul :: "u64 \<Rightarrow> u64 \<Rightarrow> u64" where
  "saturatingMul a b = (if unat a * unat b \<ge> 2 ^ 64 then - 1 else a * b)"

definition saturatingAdd :: "u64 \<Rightarrow> u64 \<Rightarrow> u64" where
  "saturatingAdd a b = (if unat a + unat b \<ge> 2 ^ 64 then - 1 else a + b)"

fun libEvaluate :: "lib_call \<Rightarrow> lib_term \<Rightarrow> ir_number option \<Rightarrow> lib_guard list \<times> ir_number option" where
  "libEvaluate lc (Constant v) bound = ([], Some (clampConstant v, True))"
| "libEvaluate lc (Argument a) bound =
     (case argument lc a of
        Some (IntArg bits v const) \<Rightarrow> ([], Some (sextOrTrunc bits v, const))
      | _ \<Rightarrow> ([], None))"
| "libEvaluate lc (StringLength a) bound =
     (case argument lc a of
        Some (PtrArg p l sp fo) \<Rightarrow>
          (case checkedLength lc (PtrArg p l sp fo) bound (nullOk lc a) of (gs, n) \<Rightarrow> (gs, Some n))
      | _ \<Rightarrow> ([], None))"
| "libEvaluate lc (Product l r) bound =
     (case libEvaluate lc l bound of (gl, x) \<Rightarrow>
        (case libEvaluate lc r bound of (gr, y) \<Rightarrow>
           (gl @ gr, case (x, y) of
                       (Some (a, _), Some (b, _)) \<Rightarrow> Some (saturatingMul a b, False)
                     | _ \<Rightarrow> None)))"
| "libEvaluate lc (Sum l r) bound =
     (case libEvaluate lc l bound of (gl, x) \<Rightarrow>
        (case libEvaluate lc r bound of (gr, y) \<Rightarrow>
           (gl @ gr, case (x, y) of
                       (Some (a, _), Some (b, _)) \<Rightarrow> Some (saturatingAdd a b, False)
                     | _ \<Rightarrow> None)))"
| "libEvaluate lc (Difference l v) bound =
     (case libEvaluate lc l bound of (gl, x) \<Rightarrow>
        (gl, case x of
               None \<Rightarrow> None
             | Some (a, const) \<Rightarrow> Some (if a < clampConstant v then 0 else a - clampConstant v, const)))"
| "libEvaluate lc (Min l r) bound =
     (case libEvaluate lc l bound of (gl, x) \<Rightarrow>
        (case x of
           None \<Rightarrow> (gl, None)
         | Some (a, const) \<Rightarrow>
             (case libEvaluate lc r (Some (a, const)) of (gr, y) \<Rightarrow>
                (gl @ gr, case y of None \<Rightarrow> None | Some (b, _) \<Rightarrow> Some (min a b, False)))))"
| "libEvaluate lc (Quotient l v) bound =
     (case libEvaluate lc l bound of (gl, x) \<Rightarrow>
        (gl, case x of
               None \<Rightarrow> None
             | Some (a, const) \<Rightarrow> if v \<le> 0 then None else Some (a div word_of_int v, const)))"

subsection \<open>Arguments\<close>

definition guardBytes :: "u64 \<Rightarrow> ir_number \<Rightarrow> bool \<Rightarrow> lib_guard list" where
  "guardBytes p bytes write =
     (if snd bytes then (if fst bytes = 0 then [] else [GuardAt p (fst bytes) write])
      else [RangeAt p (fst bytes) write])"

definition checkLimit :: "u64 \<Rightarrow> u64 \<Rightarrow> u64 \<Rightarrow> lib_guard list" where
  "checkLimit p bytes limit = (if bytes > limit then [LimitAt p bytes limit] else [])"

definition termOf :: "lib_param \<Rightarrow> lib_term option" where
  "termOf pa = (if pBytes pa \<noteq> None then pBytes pa else pCount pa)"

text \<open>A null the call accepts needs no bytes; the select is a constant when the test and the bytes are.\<close>

definition unlessNull :: "lib_param \<Rightarrow> call_arg \<Rightarrow> ir_number \<Rightarrow> ir_number" where
  "unlessNull pa pointer bytes =
     (if pNull pa = NullAllowed
      then (if paAddress pointer = 0 then 0 else fst bytes, paFolds pointer \<and> snd bytes) else bytes)"

definition usablePointer :: "lib_call \<Rightarrow> nat \<Rightarrow> call_arg option" where
  "usablePointer lc ix =
     (case argument lc ix of
        Some (PtrArg p l True fo) \<Rightarrow> Some (PtrArg p l True fo)
      | _ \<Rightarrow> None)"

definition guardScanStart :: "lib_call \<Rightarrow> nat \<Rightarrow> call_arg \<Rightarrow> lib_guard list" where
  "guardScanStart lc ix pointer =
     (let pa = eParams (lcEntry lc) ! ix; p = paAddress pointer
      in case termOf pa of
           None \<Rightarrow> guardBytes p (unlessNull pa pointer (1, True)) False
         | Some t \<Rightarrow>
             (case libEvaluate lc t None of
                (gs, None) \<Rightarrow> gs
              | (gs, Some (n, _)) \<Rightarrow> gs @ guardBytes p (unlessNull pa pointer (min n 1, False)) False))"

text \<open>The result of the call, for what a search read.\<close>

datatype call_result = IntResult u64 | PtrResult u64

definition scanTail :: "lib_call \<Rightarrow> lib_param \<Rightarrow> u64 \<Rightarrow> u64 \<Rightarrow> u64 \<Rightarrow> lib_guard list" where
  "scanTail lc pa p stop element =
     (case libEvaluate lc (the (pScan pa)) None of
        (gs, None) \<Rightarrow> gs
      | (gs, Some (tail, _)) \<Rightarrow> gs @ [RangeAt p (stop + tail * element) False])"

definition guardScan :: "lib_call \<Rightarrow> call_result \<Rightarrow> nat \<Rightarrow> lib_guard list" where
  "guardScan lc result ix =
     (let pa = eParams (lcEntry lc) ! ix; pointer = the (argument lc ix); p = paAddress pointer;
          element = (if eWide (lcEntry lc) then lcWchar lc else 1)
      in case result of
           IntResult n \<Rightarrow> scanTail lc pa p (n * element) element
         | PtrResult r \<Rightarrow>
             if r \<noteq> 0 then scanTail lc pa p (r - p) element
             else case termOf pa of
                    None \<Rightarrow> fst (checkedLength lc pointer None False)
                  | Some t \<Rightarrow>
                      (case libEvaluate lc t None of
                         (gs, None) \<Rightarrow> gs
                       | (gs, Some (n, _)) \<Rightarrow>
                           gs @ [RangeAt p (if pBytes pa \<noteq> None then n else n * element) False]))"

text \<open>\<open>min(t, strlen(a<self>) + 1)\<close>: the bound of a bounded scan of the string itself.\<close>

fun selfBounded :: "nat \<Rightarrow> lib_term \<Rightarrow> lib_term option" where
  "selfBounded ix (Min l r) = (if r = Sum (StringLength ix) (Constant 1) then Some l else None)"
| "selfBounded ix _ = None"

definition bytesOf :: "lib_call \<Rightarrow> lib_param \<Rightarrow> lib_guard list \<times> ir_number option" where
  "bytesOf lc pa =
     (case termOf pa of
        Some t \<Rightarrow>
          if pBytes pa = None \<and> eWide (lcEntry lc)
          then libEvaluate lc (Product t (Constant (uint (lcWchar lc)))) None
          else libEvaluate lc t None
      | None \<Rightarrow> ([], if pString pa then None else Some (1, True)))"

text \<open>One argument: its guards, and the limit that is left for the arguments after it.\<close>

definition guardArgument :: "lib_call \<Rightarrow> nat \<Rightarrow> u64 option \<Rightarrow> lib_guard list \<times> u64 option" where
  "guardArgument lc ix limit =
     (let pa = eParams (lcEntry lc) ! ix
      in if pType pa \<noteq> TypePointer \<or> pAccess pa = AccessNone then ([], limit)
         else if pScan pa \<noteq> None then
           (case usablePointer lc ix of
              Some pointer \<Rightarrow>
                if \<not> eWide (lcEntry lc) \<and> paLiteral pointer \<noteq> None then ([], limit)
                else (guardScanStart lc ix pointer, limit)
            | None \<Rightarrow> ([], limit))
         else if pEffect pa = Release \<or> pEffect pa = Realloc then ([], limit)
         else
           case usablePointer lc ix of
             None \<Rightarrow> ([], limit)
           | Some pointer \<Rightarrow>
               let write = isWrite (pAccess pa); p = paAddress pointer;
                   str = (if pString pa then fst (checkedLength lc pointer None (nullOk lc ix)) else [])
               in case Option.bind (termOf pa) (selfBounded ix) of
                    Some t \<Rightarrow>
                      (case libEvaluate lc t None of
                         (gs, None) \<Rightarrow> (str @ gs, limit)
                       | (gs, Some b) \<Rightarrow> (str @ gs @ fst (checkedLength lc pointer (Some b) (nullOk lc ix)), limit))
                  | None \<Rightarrow>
                      (case bytesOf lc pa of
                         (gs, None) \<Rightarrow> (str @ gs, limit)
                       | (gs, Some bytes) \<Rightarrow>
                           let bytes = unlessNull pa pointer bytes; gs = str @ gs @ guardBytes p bytes write
                           in case limit of
                                Some m \<Rightarrow> if write then (gs @ checkLimit p (fst bytes) m, None) else (gs, limit)
                              | None \<Rightarrow> (gs, None)))"

fun guardEach :: "lib_call \<Rightarrow> nat list \<Rightarrow> u64 option \<Rightarrow> lib_guard list" where
  "guardEach lc [] limit = []"
| "guardEach lc (i # is') limit = (case guardArgument lc i limit of (gs, limit') \<Rightarrow> gs @ guardEach lc is' limit')"

definition guardDisjoint :: "lib_call \<Rightarrow> lib_disjoint \<Rightarrow> lib_guard list" where
  "guardDisjoint lc dj =
     (case (argument lc (djFirst dj), argument lc (djSecond dj)) of
        (Some (PtrArg p _ _ _), Some (PtrArg q _ _ _)) \<Rightarrow>
          (case libEvaluate lc (djLength dj) None of
             (gs, None) \<Rightarrow> gs
           | (gs, Some (n, _)) \<Rightarrow> gs @ [DisjointAt p q n])
      | _ \<Rightarrow> [])"

definition scansOf :: "lib_call \<Rightarrow> nat list" where
  "scansOf lc = filter (\<lambda>i. let pa = eParams (lcEntry lc) ! i
       in pType pa = TypePointer \<and> pAccess pa \<noteq> AccessNone \<and> pScan pa \<noteq> None \<and>
          (case usablePointer lc i of None \<Rightarrow> False | Some q \<Rightarrow> eWide (lcEntry lc) \<or> paLiteral q = None))
     [0..<length (eParams (lcEntry lc))]"

text \<open>
  \<open>guardArguments\<close>: the guards before the call, and those after it. Each scan's is inserted right
  after the call, so before the one inserted last.
\<close>

definition guardArguments :: "lib_call \<Rightarrow> call_result \<Rightarrow> lib_guard list \<times> lib_guard list" where
  "guardArguments lc result =
     (guardEach lc [0..<length (eParams (lcEntry lc))] (objectSize lc) @
        concat (map (guardDisjoint lc) (eDisjoint (lcEntry lc))),
      concat (map (guardScan lc result) (rev (scansOf lc))))"

subsection \<open>Formats\<close>

text \<open>
  One conversion of a format: how many \<open>*\<close> took an argument before it, its constant width and
  precision, and the rest \<open>guardFormat\<close> reads of it.
\<close>

record conversion =
  cvSuppressed :: bool
  cvStars :: nat
  cvWidth :: "u64 option"
  cvPrecision :: "u64 option"
  cvDynamic :: bool
  cvWide :: bool
  cvChar :: char

datatype conversion_result = Stop | Skip string | Conversion conversion string

definition isFormatDigit :: "char \<Rightarrow> bool" where
  "isFormatDigit c \<longleftrightarrow> of_char c \<ge> (48 :: nat) \<and> of_char c \<le> (57 :: nat)"

definition formatNumber :: "string \<Rightarrow> u64" where
  "formatNumber ds = fold (\<lambda>d n. n * 10 + (of_char d - 48)) ds 0"

definition startsWithChar :: "char \<Rightarrow> string \<Rightarrow> bool" where
  "startsWithChar c text = (text \<noteq> [] \<and> hd text = c)"

definition formatFlags :: string where "formatFlags = ''-+ #0'' @ [CHR 0x27]"
definition lengthModifiers :: string where "lengthModifiers = ''hljztLqI''"

text \<open>The width: the arguments taken, the number, the text after it; none when a \<open>$\<close> ends the format.\<close>

definition readWidth :: "string \<Rightarrow> (nat \<times> u64 option \<times> string) option" where
  "readWidth text =
     (if startsWithChar (CHR ''*'') text then Some (1, None, tl text)
      else
        let ds = takeWhile isFormatDigit text; rest = dropWhile isFormatDigit text
        in if startsWithChar (CHR ''$'') rest then None
           else Some (0, if ds \<noteq> [] then Some (formatNumber ds) else None, rest))"

definition readPrecision :: "bool \<Rightarrow> string \<Rightarrow> nat \<times> u64 option \<times> bool \<times> string" where
  "readPrecision scanf text =
     (if \<not> scanf \<and> startsWithChar (CHR ''.'') text then
        if startsWithChar (CHR ''*'') (tl text) then (1, None, True, tl (tl text))
        else (0, Some (formatNumber (takeWhile isFormatDigit (tl text))), False, dropWhile isFormatDigit (tl text))
      else (0, None, False, text))"

definition afterConversion :: "bool \<Rightarrow> string \<Rightarrow> string" where
  "afterConversion scanf text =
     (if scanf \<and> hd text = CHR ''['' then drop 1 (dropWhile (\<lambda>c. c \<noteq> CHR '']'') (tl text)) else tl text)"

text \<open>The text after a \<open>%\<close>.\<close>

definition readConversion :: "bool \<Rightarrow> string \<Rightarrow> conversion_result" where
  "readConversion scanf text =
     (if startsWithChar (CHR ''%'') text then Skip (tl text)
      else
        let suppressed = (scanf \<and> startsWithChar (CHR ''*'') text);
            text = (if suppressed then tl text else text);
            text = dropWhile (\<lambda>c. c \<in> set formatFlags) text
        in case readWidth text of
             None \<Rightarrow> Stop
           | Some (stars, width, text) \<Rightarrow>
               (case readPrecision scanf text of
                  (stars2, precision, dynamic, text) \<Rightarrow>
                    let wide = CHR ''l'' \<in> set (takeWhile (\<lambda>c. c \<in> set lengthModifiers) text);
                        text = dropWhile (\<lambda>c. c \<in> set lengthModifiers) text
                    in if text = [] then Stop
                       else Conversion \<lparr>cvSuppressed = suppressed, cvStars = stars + stars2, cvWidth = width,
                              cvPrecision = precision, cvDynamic = dynamic, cvWide = wide, cvChar = hd text\<rparr>
                              (afterConversion scanf text)))"

lemma afterConversion_length: "ts \<noteq> [] \<Longrightarrow> length (afterConversion scanf ts) < length ts"
  using length_dropWhile_le [of "\<lambda>c. c \<noteq> CHR '']''" "tl ts"] by (cases ts) (auto simp: afterConversion_def)

lemma readWidth_length: "readWidth ts = Some (s, w, rest) \<Longrightarrow> length rest \<le> length ts"
  using length_dropWhile_le [of isFormatDigit ts] by (auto simp: readWidth_def Let_def split: if_splits)

lemma readPrecision_length: "readPrecision scanf ts = (s, w, d, rest) \<Longrightarrow> length rest \<le> length ts"
  using length_dropWhile_le [of isFormatDigit "tl ts"]
  by (cases ts) (auto simp: readPrecision_def startsWithChar_def split: if_splits)

lemma readConversion_length:
  "readConversion scanf ts = Conversion cv rest \<Longrightarrow> length rest < length ts"
  "readConversion scanf ts = Skip rest \<Longrightarrow> length rest < length ts"
proof -
  assume c: "readConversion scanf ts = Conversion cv rest"
  define t1 where "t1 = dropWhile (\<lambda>c. c \<in> set formatFlags) (if scanf \<and> startsWithChar (CHR ''*'') ts then tl ts else ts)"
  have t1: "length t1 \<le> length ts"
    unfolding t1_def by (rule order_trans [OF length_dropWhile_le]) simp
  obtain s w t2 where w: "readWidth t1 = Some (s, w, t2)"
    using c by (cases "readWidth t1") (auto simp: readConversion_def Let_def t1_def split: if_splits)
  obtain m pr dy t3 where pr: "readPrecision scanf t2 = (m, pr, dy, t3)" by (metis prod_cases4)
  define t4 where "t4 = dropWhile (\<lambda>c. c \<in> set lengthModifiers) t3"
  have "t4 \<noteq> [] \<and> rest = afterConversion scanf t4"
    using c w pr by (auto simp: readConversion_def Let_def t1_def t4_def split: if_splits)
  then have "length rest < length t4" using afterConversion_length by blast
  also have "length t4 \<le> length t3" unfolding t4_def by (rule length_dropWhile_le)
  finally show "length rest < length ts"
    using readWidth_length [OF w] readPrecision_length [OF pr] t1 by simp
next
  assume "readConversion scanf ts = Skip rest"
  then show "length rest < length ts"
    by (cases ts) (auto simp: readConversion_def startsWithChar_def Let_def split: if_splits option.splits prod.splits)
qed

function formatLoop :: "bool \<Rightarrow> string \<Rightarrow> conversion list" where
  "formatLoop scanf [] = []"
| "formatLoop scanf (c # cs) =
     (if c \<noteq> CHR ''%'' then formatLoop scanf cs
      else case readConversion scanf cs of
             Stop \<Rightarrow> []
           | Skip rest \<Rightarrow> formatLoop scanf rest
           | Conversion cv rest \<Rightarrow> cv # formatLoop scanf rest)"
  by pat_completeness auto
termination
  by (relation "measure (\<lambda>(_, text). length text)")
    (auto dest: readConversion_length)

text \<open>The guards of one conversion's argument; \<open>at\<close> is the next argument of the call.\<close>

definition guardConversion :: "lib_call \<Rightarrow> bool \<Rightarrow> conversion \<Rightarrow> call_arg \<Rightarrow> lib_guard list" where
  "guardConversion lc scanf cv pointer =
     (case pointer of
        PtrArg p l sp fo \<Rightarrow>
          if cvChar cv = CHR ''n'' then guardBytes p (1, True) True
          else if cvWide cv then []
          else if \<not> scanf \<and> cvChar cv = CHR ''s'' \<and> \<not> cvDynamic cv
          then fst (checkedLength lc pointer (map_option (\<lambda>n. (n, True)) (cvPrecision cv)) True)
          else if scanf \<and> (cvChar cv = CHR ''s'' \<or> cvChar cv = CHR ''['') \<and> cvWidth cv \<noteq> None
          then guardBytes p (the (cvWidth cv) + 1, True) True
          else if scanf \<and> cvChar cv = CHR ''c''
          then guardBytes p (case cvWidth cv of Some w \<Rightarrow> w | None \<Rightarrow> 1, True) True
          else []
      | _ \<Rightarrow> [])"

fun guardConversions :: "lib_call \<Rightarrow> bool \<Rightarrow> conversion list \<Rightarrow> nat \<Rightarrow> lib_guard list" where
  "guardConversions lc scanf [] at = []"
| "guardConversions lc scanf (cv # cvs) at =
     (let at = min (length (lcArgs lc)) (at + cvStars cv)
      in if cvSuppressed cv then guardConversions lc scanf cvs at
         else if at < length (lcArgs lc)
         then guardConversion lc scanf cv (lcArgs lc ! at) @ guardConversions lc scanf cvs (at + 1)
         else guardConversions lc scanf cvs at)"

text \<open>\<open>text\<close> is the constant format, if it is one.\<close>

definition guardFormat :: "lib_call \<Rightarrow> string option \<Rightarrow> lib_format \<Rightarrow> lib_guard list" where
  "guardFormat lc fmtText fmt =
     (if argument lc (fFormat fmt) = None then []
      else case fmtText of
             None \<Rightarrow> []
           | Some tx \<Rightarrow>
               let first = callArgument (lcMatch lc) (fFirst fmt)
               in if first < 0 then []
                  else guardConversions lc (fKind fmt = Scanf) (formatLoop (fKind fmt = Scanf) tx) (nat first))"

subsection \<open>Which way a call goes\<close>

definition smallTerm :: "lib_call \<Rightarrow> lib_term \<Rightarrow> bool" where
  "smallTerm lc t =
     (case t of
        Constant v \<Rightarrow> v \<ge> 0 \<and> v \<le> 113
      | Argument a \<Rightarrow> (case argument lc a of Some (IntArg _ v True) \<Rightarrow> v \<le> 113 | _ \<Rightarrow> False)
      | _ \<Rightarrow> False)"

fun cheapLoop :: "lib_call \<Rightarrow> nat list \<Rightarrow> bool \<Rightarrow> bool" where
  "cheapLoop lc [] checked = checked"
| "cheapLoop lc (i # is') checked =
     (let pa = eParams (lcEntry lc) ! i
      in if pType pa \<noteq> TypePointer \<or> pAccess pa = AccessNone then cheapLoop lc is' checked
         else if pAccess pa \<noteq> AccessRead then False
         else if (case argument lc i of Some (PtrArg _ (Some _) _ _) \<Rightarrow> True | _ \<Rightarrow> False) then cheapLoop lc is' True
         else case termOf pa of
                None \<Rightarrow> False
              | Some t \<Rightarrow> if eWide (lcEntry lc) \<or> \<not> smallTerm lc t then False else cheapLoop lc is' True)"

definition cheapToGuard :: "lib_call \<Rightarrow> bool" where
  "cheapToGuard lc =
     (if eFormat (lcEntry lc) \<noteq> None \<and> eWrapper (lcEntry lc) \<noteq> None then False
      else cheapLoop lc [0..<length (eParams (lcEntry lc))] False)"

datatype new_arg = SameArg call_arg | LimitArg u64 | SiteArg

definition redirectArgs :: "lib_call \<Rightarrow> new_arg list option" where
  "redirectArgs lc =
     (let e = lcEntry lc; named = length (eParams e)
      in if eWrapper e = None \<or> list_ex (\<lambda>i. argument lc i = None) [0..<named] then None
         else
           let args = map (\<lambda>i. SameArg (the (argument lc i))) [0..<named];
               limit = (if wrapperTakesLimit lc
                        then [LimitArg (case objectSize lc of Some n \<Rightarrow> n | None \<Rightarrow> - 1)] else [])
           in if eVariadic e then
                let last' = (if named = 0 then - 1 else callArgument (lcMatch lc) (named - 1))
                in if named \<noteq> 0 \<and> last' < 0 then None
                   else Some ([SiteArg] @ limit @ args @ map SameArg (drop (nat (last' + 1)) (lcArgs lc)))
              else Some (args @ limit @ [SiteArg]))"

definition computesItsValue :: "lib_entry \<Rightarrow> bool" where
  "computesItsValue e \<longleftrightarrow>
     eValue e \<noteq> None \<and> \<not> eWide e \<and> \<not> eVariadic e \<and> eFormat e = None \<and> eWrapper e = None \<and> eDisjoint e = [] \<and>
     list_all (\<lambda>pa. pType pa \<noteq> TypePointer \<or>
       ((pAccess pa = AccessRead \<or> pAccess pa = AccessNone) \<and> pEffect pa = Borrow)) (eParams e)"

definition onlyReads :: "lib_entry \<Rightarrow> bool" where
  "onlyReads e \<longleftrightarrow> eFormat e = None \<and>
     list_all (\<lambda>pa. pType pa \<noteq> TypePointer \<or> pAccess pa = AccessRead \<or> pAccess pa = AccessNone) (eParams e)"

definition guardsAnArgument :: "lib_entry \<Rightarrow> bool" where
  "guardsAnArgument e \<longleftrightarrow>
     list_ex (\<lambda>pa. pType pa = TypePointer \<and> pAccess pa \<noteq> AccessNone \<and> pEffect pa \<noteq> Release \<and> pEffect pa \<noteq> Realloc)
       (eParams e)"

definition guardFirstBytes :: "lib_call \<Rightarrow> lib_guard list" where
  "guardFirstBytes lc = concat (map (\<lambda>i.
     let pa = eParams (lcEntry lc) ! i
     in case argument lc i of
          Some (PtrArg p None sp fo) \<Rightarrow>
            if pString pa \<and> \<not> eWide (lcEntry lc) \<and> pNull pa = NullForbidden then guardBytes p (1, True) False else []
        | _ \<Rightarrow> []) [0..<length (eParams (lcEntry lc))])"

definition checkField :: "lib_call \<Rightarrow> lib_guard list" where
  "checkField lc =
     (case writtenField lc of
        None \<Rightarrow> []
      | Some limit \<Rightarrow>
          (case firstWritten lc of
             None \<Rightarrow> []
           | Some i \<Rightarrow>
               (case termOf (eParams (lcEntry lc) ! i) of
                  None \<Rightarrow> []
                | Some t \<Rightarrow>
                    (case (libEvaluate lc t None, argument lc i) of
                       ((gs, Some (n, _)), Some q) \<Rightarrow> gs @ checkLimit (paAddress q) n limit
                     | ((gs, _), _) \<Rightarrow> gs))))"

text \<open>
  What one call of \<open>guardLibraryCalls\<close> becomes: the guards before it, those after it, and
  whether it is redirected to its wrapper or replaced by its value. \<open>isDecl\<close> says that the
  callee has no body, \<open>resultI64\<close> that the call's result is a 64-bit integer.
\<close>

datatype call_fate = Unchanged | Guards "lib_guard list" "lib_guard list" | Redirected "lib_guard list" "new_arg list" | Value "lib_guard list" u64

definition guardCall :: "bool \<Rightarrow> bool \<Rightarrow> bool \<Rightarrow> string option \<Rightarrow> call_result \<Rightarrow> lib_call \<Rightarrow> call_fate" where
  "guardCall late isDecl resultI64 fmtText result lc =
     (let e = lcEntry lc; deferred = (eWrapper e \<noteq> None \<and> onlyReads e)
      in if \<not> isDecl then (if late then Unchanged else Guards (checkField lc) [])
         else if deferred \<and> \<not> late then Guards (guardFirstBytes lc) []
         else if deferred \<noteq> late then Unchanged
         else if late then
           (if cheapToGuard lc then (case guardArguments lc result of (b, a) \<Rightarrow> Guards b a)
            else case redirectArgs lc of None \<Rightarrow> Unchanged | Some args \<Rightarrow> Redirected [] args)
         else
           let fmt = (case eFormat e of
                        Some f \<Rightarrow> if \<not> fVaList f \<and> eWrapper e = None then guardFormat lc fmtText f else []
                      | None \<Rightarrow> [])
           in case (if cheapToGuard lc then None else redirectArgs lc) of
                Some args \<Rightarrow> Redirected fmt args
              | None \<Rightarrow>
                  (case (if mAlias (lcMatch lc) = None \<and> computesItsValue e \<and> resultI64
                         then libEvaluate lc (the (eValue e)) None else ([], None)) of
                     (gs, Some (n, _)) \<Rightarrow> Value (fmt @ gs) n
                   | (gs, None) \<Rightarrow> (case guardArguments lc result of (b, a) \<Rightarrow> Guards (fmt @ gs @ b) a)))"

text \<open>
  The calls of a function: those of a declaration, or of an always-inlined definition before the
  optimizer, outside annotated ranges, whose name the table knows. The attributes of the callee and of
  the position are LLVM's.
\<close>

record call_site =
  csName :: string
  csDeclaration :: bool
  csAlwaysInline :: bool
  csIntrinsic :: bool
  csRuntimeName :: bool
  csUnsafe :: bool
  csFormat :: "string option"
  csI64 :: bool
  csResult :: call_result
  csArgs :: "call_arg list"
  csWchar :: u64
  csFieldLimit :: "call_arg \<Rightarrow> u64 option"
  csStrlen :: "u64 \<Rightarrow> u64 \<Rightarrow> u64"
  csWcslen :: "u64 \<Rightarrow> u64 \<Rightarrow> u64"

definition isLibraryCall :: "bool \<Rightarrow> call_site \<Rightarrow> bool" where
  "isLibraryCall late cs \<longleftrightarrow>
     (csDeclaration cs \<or> (\<not> late \<and> csAlwaysInline cs)) \<and> \<not> csIntrinsic cs \<and> \<not> csRuntimeName cs"

definition dropInline :: "string \<Rightarrow> string" where
  "dropInline nm =
     (if length nm \<ge> 7 \<and> drop (length nm - 7) nm = ''.inline'' then take (length nm - 7) nm else nm)"

definition guardSite :: "lib_spec \<Rightarrow> bool \<Rightarrow> call_site \<Rightarrow> call_fate" where
  "guardSite spec late cs =
     (if \<not> isLibraryCall late cs \<or> csUnsafe cs then Unchanged
      else case lookup spec (dropInline (cNameOf (csName cs))) (Some (length (csArgs cs))) of
             None \<Rightarrow> Unchanged
           | Some m \<Rightarrow>
               (case mEntry m of
                  None \<Rightarrow> Unchanged
                | Some e \<Rightarrow>
                    guardCall late (csDeclaration cs) (csI64 cs) (csFormat cs) (csResult cs)
                      \<lparr>lcMatch = m, lcEntry = e, lcArgs = csArgs cs, lcWchar = csWchar cs,
                       lcFieldLimit = csFieldLimit cs, lcStrlen = csStrlen cs, lcWcslen = csWcslen cs\<rparr>))"

definition guardLibraryCalls :: "lib_spec \<Rightarrow> bool \<Rightarrow> call_site list \<Rightarrow> call_fate list" where
  "guardLibraryCalls spec late calls = map (guardSite spec late) calls"

subsection \<open>Lemmas: terms\<close>

abbreviation u64_max :: int where "u64_max \<equiv> 2 ^ 64 - 1"

text \<open>Which leaves a call has, and what the scans of the runtime give for its strings.\<close>

definition call_values :: "lib_call \<Rightarrow> lib_values \<Rightarrow> bool" where
  "call_values lc vs \<longleftrightarrow>
     (\<forall>i v. leaf (vArgument vs) i = Some v \<longrightarrow>
        (\<exists>bits n const. argument lc i = Some (IntArg bits n const) \<and> v = uint (sextOrTrunc bits n))) \<and>
     (\<forall>i v. leaf (vStringLength vs) i = Some v \<longrightarrow>
        (\<exists>p l sp fo. argument lc i = Some (PtrArg p l sp fo) \<and> 0 \<le> v \<and> v \<le> u64_max \<and>
           (\<forall>n. l = Some n \<longrightarrow> v = int n) \<and>
           (\<forall>b > 0. uint (if eWide (lcEntry lc) then lcWcslen lc p b else lcStrlen lc p b) = min (uint b) v)))"

fun no_scan :: "lib_term \<Rightarrow> bool" where
  "no_scan (Constant _) = True"
| "no_scan (Argument _) = True"
| "no_scan (StringLength _) = False"
| "no_scan (Product l r) = (no_scan l \<and> no_scan r)"
| "no_scan (Sum l r) = (no_scan l \<and> no_scan r)"
| "no_scan (Difference l _) = no_scan l"
| "no_scan (Min l r) = (no_scan l \<and> no_scan r)"
| "no_scan (Quotient l _) = no_scan l"

text \<open>
  A scan that a \<open>min\<close> bounds is cut at the bound: nothing may be taken from its length, or it
  be divided, before the \<open>min\<close>.
\<close>

fun scans_ok :: "bool \<Rightarrow> lib_term \<Rightarrow> bool" where
  "scans_ok bounded (Constant _) = True"
| "scans_ok bounded (Argument _) = True"
| "scans_ok bounded (StringLength _) = True"
| "scans_ok bounded (Product l r) = (scans_ok bounded l \<and> scans_ok bounded r)"
| "scans_ok bounded (Sum l r) = (scans_ok bounded l \<and> scans_ok bounded r)"
| "scans_ok bounded (Difference l _) = (scans_ok bounded l \<and> (bounded \<longrightarrow> no_scan l))"
| "scans_ok bounded (Min l r) = (scans_ok bounded l \<and> scans_ok True r)"
| "scans_ok bounded (Quotient l _) = (scans_ok bounded l \<and> (bounded \<longrightarrow> no_scan l))"

text \<open>Nothing is negative, and what a number is taken from, or divided by one, fits in 64 bits.\<close>

fun values_fit :: "lib_values \<Rightarrow> lib_term \<Rightarrow> bool" where
  "values_fit vs (Constant v) = (0 \<le> v \<and> v \<le> u64_max)"
| "values_fit vs (Argument _) = True"
| "values_fit vs (StringLength _) = True"
| "values_fit vs (Product l r) = (values_fit vs l \<and> values_fit vs r)"
| "values_fit vs (Sum l r) = (values_fit vs l \<and> values_fit vs r)"
| "values_fit vs (Difference l v) =
     (values_fit vs l \<and> 0 \<le> v \<and> (\<forall>x \<in> set_option (math_value vs l). v \<le> x \<and> x \<le> u64_max))"
| "values_fit vs (Min l r) = (values_fit vs l \<and> values_fit vs r)"
| "values_fit vs (Quotient l v) =
     (values_fit vs l \<and> v \<le> u64_max \<and> (\<forall>x \<in> set_option (math_value vs l). x \<le> u64_max))"

lemma no_scan_bound: "no_scan t \<Longrightarrow> libEvaluate lc t b = libEvaluate lc t None"
proof (induction t arbitrary: b)
  case (Min l r)
  have l: "libEvaluate lc l b = libEvaluate lc l None" using Min by simp
  have r: "libEvaluate lc r (Some y) = libEvaluate lc r None" for y using Min by simp
  show ?case by (simp only: libEvaluate.simps l r)
next
  case (Product l r)
  have "libEvaluate lc l b = libEvaluate lc l None" "libEvaluate lc r b = libEvaluate lc r None" using Product by simp_all
  then show ?case by (simp only: libEvaluate.simps)
next
  case (Sum l r)
  have "libEvaluate lc l b = libEvaluate lc l None" "libEvaluate lc r b = libEvaluate lc r None" using Sum by simp_all
  then show ?case by (simp only: libEvaluate.simps)
next
  case (Difference l v)
  have "libEvaluate lc l b = libEvaluate lc l None" using Difference by simp
  then show ?case by (simp only: libEvaluate.simps)
next
  case (Quotient l v)
  have "libEvaluate lc l b = libEvaluate lc l None" using Quotient by simp
  then show ?case by (simp only: libEvaluate.simps)
qed simp_all

lemma scans_ok_unbounded: "scans_ok bounded t \<Longrightarrow> scans_ok False t"
  by (induction t) auto

lemma uint_le_max [simp]: "uint (n :: u64) \<le> u64_max"
  using uint_bounded [of n] by simp

lemma uint_minus_one [simp]: "uint (- 1 :: u64) = 18446744073709551615"
  by (simp add: unsigned_minus_1_eq_mask mask_eq_exp_minus_1)

lemma u64_int_le: "2 ^ 64 \<le> n \<Longrightarrow> 2 ^ 64 \<le> int n"
  by simp

lemma u64_int_less: "\<not> 2 ^ 64 \<le> n \<Longrightarrow> int n < 2 ^ 64"
  by simp

lemma uint_saturatingAdd: "uint (saturatingAdd a b) = min u64_max (uint a + uint b)"
proof -
  have i: "uint a + uint b = int (unat a + unat b)" by simp
  show ?thesis
  proof (cases "2 ^ 64 \<le> unat a + unat b")
    case True
    then have "2 ^ 64 \<le> uint a + uint b" unfolding i by (rule u64_int_le)
    then show ?thesis using True by (simp add: saturatingAdd_def)
  next
    case False
    then have lt: "uint a + uint b < 2 ^ 64" unfolding i by (rule u64_int_less)
    then show ?thesis using False by (simp add: saturatingAdd_def uint_plus_if')
  qed
qed

lemma uint_saturatingMul: "uint (saturatingMul a b) = min u64_max (uint a * uint b)"
proof -
  have i: "uint a * uint b = int (unat a * unat b)" by simp
  show ?thesis
  proof (cases "2 ^ 64 \<le> unat a * unat b")
    case True
    then have "2 ^ 64 \<le> uint a * uint b" unfolding i by (rule u64_int_le)
    then show ?thesis using True by (simp add: saturatingMul_def)
  next
    case False
    then have lt: "uint a * uint b < 2 ^ 64" unfolding i by (rule u64_int_less)
    then show ?thesis using False by (simp add: saturatingMul_def uint_word_ariths)
  qed
qed

lemma min_both:
  fixes a x :: int
  shows "min b a = min b x \<longleftrightarrow> a = x \<or> (b \<le> a \<and> b \<le> x)"
  by (auto simp: min_def)

lemma min_add:
  fixes a x c y :: int
  assumes "min b a = min b x" "min b c = min b y" "0 \<le> a" "0 \<le> c" "0 \<le> x" "0 \<le> y"
  shows "min b (a + c) = min b (x + y)"
  using assms unfolding min_both by linarith

lemma min_mult:
  fixes a x c y :: int
  assumes ax: "min b a = min b x" and cy: "min b c = min b y"
    and pos: "0 \<le> a" "0 \<le> c" "0 \<le> x" "0 \<le> y" "0 \<le> b"
  shows "min b (a * c) = min b (x * y)"
proof -
  have big: "b \<le> s * t" if "b \<le> s" "1 \<le> t" for s t :: int
    using mult_mono [of b s 1 t] that pos(5) by simp
  have big': "b \<le> s * t" if "b \<le> t" "1 \<le> s" for s t :: int
    using big [of t s] that by (simp add: mult.commute)
  consider "a = x" "c = y" | "b \<le> a" "b \<le> x" "c = y" | "a = x" "b \<le> c" "b \<le> y" | "b \<le> a" "b \<le> x" "b \<le> c" "b \<le> y"
    using ax cy unfolding min_both by blast
  then show ?thesis
  proof cases
    case 2
    then show ?thesis using big [of a c] big [of x c] pos by (cases "c = 0") (auto simp: min_both)
  next
    case 3
    then show ?thesis using big' [of c a] big' [of y a] pos by (cases "a = 0") (auto simp: min_both)
  next
    case 4
    then show ?thesis using big [of a c] big [of x y] pos
      by (cases "b = 0") (auto simp: min_both)
  qed simp
qed

text \<open>What an emitted value has to agree on: everything up to the bound of the scans.\<close>

definition upTo :: "ir_number option \<Rightarrow> int" where
  "upTo bound = (case bound of None \<Rightarrow> u64_max | Some (b, _) \<Rightarrow> uint b)"

lemma upTo_bounds: "0 \<le> upTo bound" "upTo bound \<le> u64_max"
  using uint_le_max by (auto simp: upTo_def split: option.splits)

lemma min_upTo_max: "min (upTo bound) (min u64_max x) = min (upTo bound) x"
  using upTo_bounds(2) [of bound] by linarith

lemma math_value_nonneg:
  assumes "call_values lc vs" "values_fit vs t" "math_value vs t = Some x"
  shows "0 \<le> x"
  using assms(2,3)
proof (induction t arbitrary: x)
  case (Argument a)
  then show ?case using assms(1) by (fastforce simp: call_values_def)
next
  case (StringLength a)
  then show ?case using assms(1) by (fastforce simp: call_values_def)
next
  case (Quotient l v)
  then show ?case by (auto split: if_splits simp: pos_imp_zdiv_nonneg_iff)
next
  case (Product l r)
  then show ?case by (auto split: option.splits)
next
  case (Sum l r)
  then show ?case by (auto split: option.splits)
next
  case (Min l r)
  then show ?case by (auto split: option.splits)
qed auto

lemma uint_min: "uint (min a b) = min (uint a) (uint b)"
  by (auto simp: min_def word_le_def)

lemma checkedLength_value:
  assumes "argument lc a = Some (PtrArg p l sp fo)" "0 \<le> v" "v \<le> u64_max" "\<forall>n. l = Some n \<longrightarrow> v = int n"
    "\<forall>b > 0. uint (if eWide (lcEntry lc) then lcWcslen lc p b else lcStrlen lc p b) = min (uint b) v"
    "checkedLength lc (PtrArg p l sp fo) bound nullable = (gs, n, c)"
  shows "min (upTo bound) (uint n) = min (upTo bound) v"
proof (cases "\<not> eWide (lcEntry lc) \<and> l \<noteq> None")
  case True
  then obtain k where k: "l = Some k" by blast
  then have v: "v = int k" using assms(4) by simp
  then have "uint (word_of_nat k :: u64) = v" using assms(3) by (simp add: unsigned_of_nat take_bit_eq_mod)
  then show ?thesis using assms(6) True k
    by (auto simp: checkedLength_def Let_def upTo_def uint_min split: option.splits bool.splits)
next
  case False
  define b where "b = (case bound of Some (b, _) \<Rightarrow> b | None \<Rightarrow> - 1)"
  have n: "n = (if eWide (lcEntry lc) then lcWcslen lc p b else lcStrlen lc p b)"
    using assms(6) False by (auto simp: checkedLength_def Let_def b_def split: if_splits)
  have b: "upTo bound = uint b" by (auto simp: upTo_def b_def split: option.splits)
  show ?thesis
  proof (cases "b = 0")
    case True
    then show ?thesis using b assms(2) by simp
  next
    case False
    then have "uint n = min (uint b) v" using assms(5) n word_neq_0_conv by blast
    then show ?thesis unfolding b by simp
  qed
qed

lemma uint_clampConstant: "0 \<le> v \<Longrightarrow> v \<le> u64_max \<Longrightarrow> uint (clampConstant v) = v"
  by (simp add: clampConstant_def uint_word_of_int)

lemma exact_operand:
  assumes "bound \<noteq> None \<longrightarrow> no_scan l" "y \<le> u64_max"
    "\<exists>gs n c. libEvaluate lc l None = (gs, Some (n, c)) \<and> min u64_max (uint n) = min u64_max y"
  shows "\<exists>gs n c. libEvaluate lc l bound = (gs, Some (n, c)) \<and> uint n = y"
proof -
  have "libEvaluate lc l bound = libEvaluate lc l None" 
    using assms(1) no_scan_bound [of l lc bound] by (cases "bound = None") simp_all
  moreover have "uint n = y" if "min u64_max (uint n) = min u64_max y" for n :: u64
    using that assms(2) uint_le_max [of n] unfolding min_both by linarith
  ultimately show ?thesis using assms(3) by auto
qed

lemma libEvaluate_value:
  assumes cv: "call_values lc vs"
  shows "values_fit vs t \<Longrightarrow> scans_ok (bound \<noteq> None) t \<Longrightarrow> math_value vs t = Some x \<Longrightarrow>
    \<exists>gs n c. libEvaluate lc t bound = (gs, Some (n, c)) \<and> min (upTo bound) (uint n) = min (upTo bound) x"
proof (induction t arbitrary: bound x)
  case (Constant v)
  then show ?case by (auto simp: clampConstant_def take_bit_eq_mod uint_word_of_int)
next
  case (Argument a)
  then show ?case using cv by (fastforce simp: call_values_def)
next
  case (StringLength a)
  then obtain p l sp fo where a: "argument lc a = Some (PtrArg p l sp fo)" "0 \<le> x" "x \<le> u64_max"
      "\<forall>n. l = Some n \<longrightarrow> x = int n"
      "\<forall>b > 0. uint (if eWide (lcEntry lc) then lcWcslen lc p b else lcStrlen lc p b) = min (uint b) x"
    using cv unfolding call_values_def by (metis math_value.simps(3))
  obtain gs n c where "checkedLength lc (PtrArg p l sp fo) bound (nullOk lc a) = (gs, n, c)" by (metis prod_cases3)
  then show ?case using checkedLength_value [OF a] a(1) by auto
next
  case (Product l r)
  then obtain y z where yz: "math_value vs l = Some y" "math_value vs r = Some z" "x = y * z" by (auto split: option.splits)
  obtain gl n c where l: "libEvaluate lc l bound = (gl, Some (n, c))" "min (upTo bound) (uint n) = min (upTo bound) y"
    using Product.IH(1) [of bound y] Product.prems yz(1) by auto
  obtain gr m d where r: "libEvaluate lc r bound = (gr, Some (m, d))" "min (upTo bound) (uint m) = min (upTo bound) z"
    using Product.IH(2) [of bound z] Product.prems yz(2) by auto
  have "min (upTo bound) (uint n * uint m) = min (upTo bound) (y * z)"
    using Product.prems(1) by (intro min_mult l(2) r(2) upTo_bounds math_value_nonneg [OF cv _ yz(1)] math_value_nonneg [OF cv _ yz(2)]) simp_all
  then have "min (upTo bound) (uint (saturatingMul n m)) = min (upTo bound) (y * z)"
    by (simp only: uint_saturatingMul min_upTo_max)
  then show ?case using l(1) r(1) yz(3) by auto
next
  case (Sum l r)
  then obtain y z where yz: "math_value vs l = Some y" "math_value vs r = Some z" "x = y + z" by (auto split: option.splits)
  obtain gl n c where l: "libEvaluate lc l bound = (gl, Some (n, c))" "min (upTo bound) (uint n) = min (upTo bound) y"
    using Sum.IH(1) [of bound y] Sum.prems yz(1) by auto
  obtain gr m d where r: "libEvaluate lc r bound = (gr, Some (m, d))" "min (upTo bound) (uint m) = min (upTo bound) z"
    using Sum.IH(2) [of bound z] Sum.prems yz(2) by auto
  have "0 \<le> y" "0 \<le> z" using math_value_nonneg [OF cv] yz Sum.prems(1) by auto
  then have "min (upTo bound) (uint n + uint m) = min (upTo bound) (y + z)"
    by (intro min_add l(2) r(2)) simp_all
  then have "min (upTo bound) (uint (saturatingAdd n m)) = min (upTo bound) (y + z)"
    by (simp only: uint_saturatingAdd min_upTo_max)
  then show ?case using l(1) r(1) yz(3) by auto
next
  case (Difference l v)
  then obtain y where y: "math_value vs l = Some y" "x = y - v" "0 \<le> v" "v \<le> y" "y \<le> u64_max" by auto
  have "\<exists>gs n c. libEvaluate lc l None = (gs, Some (n, c)) \<and> min u64_max (uint n) = min u64_max y"
    using Difference.IH [of None y] Difference.prems(1,2) y(1) scans_ok_unbounded by (auto simp: upTo_def)
  then obtain gl n c where l: "libEvaluate lc l bound = (gl, Some (n, c))" "uint n = y"
    using exact_operand [of bound l y lc] Difference.prems(2) y(5) by auto
  have v: "uint (clampConstant v) = v" using y(3-5) by (simp add: uint_clampConstant)
  have "uint (if n < clampConstant v then 0 else n - clampConstant v) = y - v"
    using y(3,4) l(2) v by (auto simp: word_less_def uint_sub_if')
  then show ?case using l(1) y(2) by simp
next
  case (Min l r)
  then obtain y z where yz: "math_value vs l = Some y" "math_value vs r = Some z" "x = min y z" by (auto split: option.splits)
  obtain gl n c where l: "libEvaluate lc l bound = (gl, Some (n, c))" "min (upTo bound) (uint n) = min (upTo bound) y"
    using Min.IH(1) [of bound y] Min.prems yz(1) by auto
  obtain gr m d where r: "libEvaluate lc r (Some (n, c)) = (gr, Some (m, d))" "min (uint n) (uint m) = min (uint n) z"
    using Min.IH(2) [of "Some (n, c)" z] Min.prems yz(2) by (auto simp: upTo_def)
  have "min (upTo bound) (min (uint n) (uint m)) = min (upTo bound) (min y z)"
    unfolding r(2) using l(2) by (metis min.assoc)
  then show ?case using l(1) r(1) yz(3) by (auto simp: uint_min)
next
  case (Quotient l v)
  then obtain y where y: "math_value vs l = Some y" "x = y div v" "0 < v" "v \<le> u64_max" "y \<le> u64_max"
    by (auto split: if_splits)
  have "\<exists>gs n c. libEvaluate lc l None = (gs, Some (n, c)) \<and> min u64_max (uint n) = min u64_max y"
    using Quotient.IH [of None y] Quotient.prems(1,2) y(1) scans_ok_unbounded by (auto simp: upTo_def)
  then obtain gl n c where l: "libEvaluate lc l bound = (gl, Some (n, c))" "uint n = y"
    using exact_operand [of bound l y lc] Quotient.prems(2) y(5) by auto
  have v: "uint (word_of_int v :: u64) = v" using y(3,4) by (simp add: uint_word_of_int)
  have "uint (n div word_of_int v) = y div v" using l(2) v by (simp add: uint_div_distrib)
  then show ?case using l(1) y(2,3) by simp
qed

text \<open>
  A call of a narrow row whose strings a scan measures: the leaves are the integer arguments and the
  lengths of the strings.
\<close>

definition integer_leaves :: "lib_call \<Rightarrow> lib_values \<Rightarrow> bool" where
  "integer_leaves lc vs \<longleftrightarrow>
     (\<forall>i v. leaf (vArgument vs) i = Some v \<longrightarrow>
        (\<exists>bits n const. argument lc i = Some (IntArg bits n const) \<and> v = uint (sextOrTrunc bits n)))"

definition string_leaves :: "(u64 \<Rightarrow> nat \<Rightarrow> bool) \<Rightarrow> lib_call \<Rightarrow> lib_values \<Rightarrow> bool" where
  "string_leaves isLength lc vs \<longleftrightarrow>
     (\<forall>i v. leaf (vStringLength vs) i = Some v \<longrightarrow>
        (\<exists>p l sp fo. argument lc i = Some (PtrArg p l sp fo) \<and> 0 \<le> v \<and> isLength p (nat v) \<and>
           (\<forall>n. l = Some n \<longrightarrow> v = int n)))"

context string_scan
begin

lemma call_values_scan:
  assumes "lcStrlen lc = scan" "\<not> eWide (lcEntry lc)" "integer_leaves lc vs" "string_leaves isLength lc vs"
  shows "call_values lc vs"
  unfolding call_values_def
proof (intro conjI allI impI)
  fix i v
  assume "leaf (vArgument vs) i = Some v"
  then show "\<exists>bits n const. argument lc i = Some (IntArg bits n const) \<and> v = uint (sextOrTrunc bits n)"
    using assms(3) unfolding integer_leaves_def by blast
next
  fix i v
  assume "leaf (vStringLength vs) i = Some v"
  then obtain p l sp fo where p: "argument lc i = Some (PtrArg p l sp fo)" "0 \<le> v" "isLength p (nat v)" "\<forall>n. l = Some n \<longrightarrow> v = int n"
    using assms(4) unfolding string_leaves_def by blast
  have "v \<le> u64_max" using length_small [OF p(3)] p(2) by simp
  moreover have "uint (lcStrlen lc p b) = min (uint b) v" if "0 < b" for b
    using scan_uint [OF p(3) that] p(2) assms(1) by simp
  ultimately show "\<exists>p l sp fo. argument lc i = Some (PtrArg p l sp fo) \<and> 0 \<le> v \<and> v \<le> u64_max \<and> (\<forall>n. l = Some n \<longrightarrow> v = int n) \<and>
      (\<forall>b > 0. uint (if eWide (lcEntry lc) then lcWcslen lc p b else lcStrlen lc p b) = min (uint b) v)"
    using p assms(2) by auto
qed

lemma libEvaluate_scan:
  assumes "lcStrlen lc = scan" "\<not> eWide (lcEntry lc)" "integer_leaves lc vs" "string_leaves isLength lc vs"
    "values_fit vs t" "scans_ok False t" "math_value vs t = Some x"
  shows "\<exists>gs n c. libEvaluate lc t None = (gs, Some (n, c)) \<and> uint n = min u64_max x"
proof -
  obtain gs n c where "libEvaluate lc t None = (gs, Some (n, c))" "min u64_max (uint n) = min u64_max x"
    using libEvaluate_value [OF call_values_scan [OF assms(1-4)] assms(5) _ assms(7), of None] assms(6)
    by (auto simp: upTo_def)
  moreover have "min u64_max (uint n) = uint n" by (rule min_absorb2) (rule uint_le_max)
  ultimately show ?thesis by metis
qed

end

text \<open>Where \<open>LibTerm::evaluate\<close> knows the value, the emitted code computes the same.\<close>

lemma evaluators_agree:
  assumes "call_values lc vs" "values_fit vs t" "scans_ok False t" "leaves_in_range vs" "consts_in_range t"
    "evaluate vs t = Known x"
  shows "\<exists>gs n c. libEvaluate lc t None = (gs, Some (n, c)) \<and> uint n = x"
proof -
  have x: "math_value vs t = Some x" "in_int64 x" using evaluate_math [OF assms(4-6)] by auto
  then have "x \<le> u64_max" by (simp add: in_int64_def)
  then show ?thesis
    using libEvaluate_value [OF assms(1,2) _ x(1), of None] assms(3) exact_operand [of None t x lc] by (auto simp: upTo_def)
qed

subsection \<open>Lemmas: formats\<close>

text \<open>
  A format as its author means it: plain text, \<open>%%\<close>, and conversions with their flags, width,
  precision, length modifiers, letter and, for a set of \<open>scanf\<close>, its characters.
\<close>

datatype amount = NoAmount | StarAmount | NumberAmount nat

record format_spec =
  fsSuppressed :: bool
  fsFlags :: string
  fsWidth :: amount
  fsPrecision :: "amount option"
  fsModifiers :: string
  fsChar :: char
  fsSet :: string

datatype format_piece = Plain string | Percent | Spec format_spec

fun amountText :: "amount \<Rightarrow> string" where
  "amountText NoAmount = []"
| "amountText StarAmount = ''*''"
| "amountText (NumberAmount n) = digits n"

definition specText :: "format_spec \<Rightarrow> string" where
  "specText fs = (if fsSuppressed fs then ''*'' else []) @ fsFlags fs @ amountText (fsWidth fs) @
     (case fsPrecision fs of None \<Rightarrow> [] | Some a \<Rightarrow> CHR ''.'' # amountText a) @ fsModifiers fs @
     fsChar fs # (if fsChar fs = CHR ''['' then fsSet fs @ '']'' else [])"

fun pieceText :: "format_piece \<Rightarrow> string" where
  "pieceText (Plain s) = s"
| "pieceText Percent = ''%%''"
| "pieceText (Spec fs) = CHR ''%'' # specText fs"

fun stars :: "amount \<Rightarrow> nat" where
  "stars StarAmount = 1"
| "stars _ = 0"

fun amountNumber :: "amount \<Rightarrow> u64 option" where
  "amountNumber (NumberAmount n) = Some (word_of_nat n)"
| "amountNumber _ = None"

definition specMeaning :: "format_spec \<Rightarrow> conversion" where
  "specMeaning fs = \<lparr>cvSuppressed = fsSuppressed fs,
     cvStars = stars (fsWidth fs) + (case fsPrecision fs of None \<Rightarrow> 0 | Some a \<Rightarrow> stars a),
     cvWidth = amountNumber (fsWidth fs),
     cvPrecision = (case fsPrecision fs of None \<Rightarrow> None | Some NoAmount \<Rightarrow> Some 0 | Some a \<Rightarrow> amountNumber a),
     cvDynamic = (fsPrecision fs = Some StarAmount),
     cvWide = (CHR ''l'' \<in> set (fsModifiers fs)), cvChar = fsChar fs\<rparr>"

fun pieceMeaning :: "format_piece \<Rightarrow> conversion list" where
  "pieceMeaning (Spec fs) = [specMeaning fs]"
| "pieceMeaning _ = []"

definition conversionChars :: string where "conversionChars = ''diouxXeEfFgGaAcsCSpn[''"

definition fspec_wf :: "bool \<Rightarrow> format_spec \<Rightarrow> bool" where
  "fspec_wf scanf fs \<longleftrightarrow> set (fsFlags fs) \<subseteq> set formatFlags \<and> set (fsModifiers fs) \<subseteq> set lengthModifiers \<and>
     fsChar fs \<in> set conversionChars \<and> fsWidth fs \<noteq> NumberAmount 0 \<and>
     (if scanf then fsWidth fs \<noteq> StarAmount \<and> fsPrecision fs = None \<and> CHR '']'' \<notin> set (fsSet fs)
      else \<not> fsSuppressed fs \<and> fsChar fs \<noteq> CHR ''['')"

fun piece_wf :: "bool \<Rightarrow> format_piece \<Rightarrow> bool" where
  "piece_wf scanf (Plain s) = (CHR ''%'' \<notin> set s)"
| "piece_wf scanf Percent = True"
| "piece_wf scanf (Spec fs) = fspec_wf scanf fs"

lemma isFormatDigit_char: "(n :: nat) < 10 \<Longrightarrow> isFormatDigit (char_of (48 + n))"
  by (auto simp: isFormatDigit_def)

lemma digits_format: "list_all isFormatDigit (digits n)"
proof (induction n rule: digits.induct)
  case (1 n)
  then show ?case by (subst digits.simps) (simp add: isFormatDigit_char)
qed

lemma digits_nonempty: "digits n \<noteq> []"
  by (subst digits.simps) simp

lemma formatNumber_snoc: "formatNumber (ds @ [d]) = formatNumber ds * 10 + (of_char d - 48)"
  by (simp add: formatNumber_def)

lemma formatNumber_digits: "formatNumber (digits n) = word_of_nat n"
proof (induction n rule: digits.induct)
  case (1 n)
  have d: "(of_char (char_of (48 + n mod 10) :: char) :: u64) - 48 = word_of_nat (n mod 10)"
    by (subst of_nat_of_char [symmetric]) simp
  show ?case
  proof (cases "n < 10")
    case True
    then show ?thesis using d by (subst digits.simps) (simp add: formatNumber_def)
  next
    case False
    have "(word_of_nat n :: u64) = word_of_nat (n div 10 * 10 + n mod 10)" by simp
    also have "\<dots> = word_of_nat (n div 10) * 10 + word_of_nat (n mod 10)" by (simp only: of_nat_add of_nat_mult of_nat_numeral)
    finally show ?thesis using 1 False d by (subst digits.simps) (simp add: formatNumber_snoc)
  qed
qed

lemma digits_head_nonzero: "0 < n \<Longrightarrow> hd (digits n) \<noteq> CHR ''0''"
proof (induction n rule: digits.induct)
  case (1 n)
  show ?case
  proof (cases "n < 10")
    case True
    then show ?thesis using 1(2) by (subst digits.simps) (simp add: char_of_eq_iff take_bit_eq_mod)
  next
    case False
    then show ?thesis using 1 digits_nonempty by (subst digits.simps) (simp add: hd_append)
  qed
qed

lemma span_append:
  assumes "list_all P xs" "ys \<noteq> []" "\<not> P (hd ys)"
  shows "takeWhile P (xs @ ys) = xs" "dropWhile P (xs @ ys) = ys"
  using assms by (cases ys; simp add: list_all_iff)+

lemma conversion_chars:
  "list_all (\<lambda>c. c \<noteq> CHR ''%'' \<and> c \<noteq> CHR ''*'' \<and> c \<noteq> CHR ''$'' \<and> c \<notin> set formatFlags \<and> \<not> isFormatDigit c)
     (CHR ''.'' # lengthModifiers @ conversionChars)"
  "list_all (\<lambda>c. c \<noteq> CHR ''.'') (lengthModifiers @ conversionChars)"
  "list_all (\<lambda>c. c \<notin> set lengthModifiers) conversionChars"
  by code_simp+

text \<open>The texts left of a conversion's before its letter, its modifiers, its precision and its width.\<close>

definition atLetter :: "format_spec \<Rightarrow> string \<Rightarrow> string" where
  "atLetter fs rest = fsChar fs # (if fsChar fs = CHR ''['' then fsSet fs @ '']'' else []) @ rest"

definition atModifiers :: "format_spec \<Rightarrow> string \<Rightarrow> string" where
  "atModifiers fs rest = fsModifiers fs @ atLetter fs rest"

definition atPrecision :: "format_spec \<Rightarrow> string \<Rightarrow> string" where
  "atPrecision fs rest = (case fsPrecision fs of None \<Rightarrow> [] | Some a \<Rightarrow> CHR ''.'' # amountText a) @ atModifiers fs rest"

definition atWidth :: "format_spec \<Rightarrow> string \<Rightarrow> string" where
  "atWidth fs rest = amountText (fsWidth fs) @ atPrecision fs rest"

lemma specText_parts:
  "specText fs @ rest = (if fsSuppressed fs then ''*'' else []) @ fsFlags fs @ atWidth fs rest"
  by (simp add: specText_def atWidth_def atPrecision_def atModifiers_def atLetter_def)

lemma atModifiers_head:
  assumes "fspec_wf scanf fs"
  shows "atModifiers fs rest \<noteq> []" "hd (atModifiers fs rest) \<in> set (lengthModifiers @ conversionChars)"
  using assms by (cases "fsModifiers fs"; auto simp: atModifiers_def atLetter_def fspec_wf_def)+

lemma atPrecision_head:
  assumes "fspec_wf scanf fs"
  shows "atPrecision fs rest \<noteq> []" "hd (atPrecision fs rest) \<in> set (CHR ''.'' # lengthModifiers @ conversionChars)"
  using atModifiers_head [OF assms, of rest] by (auto simp: atPrecision_def split: option.splits)

lemma afterConversion_spec:
  assumes "fspec_wf scanf fs"
  shows "afterConversion scanf (atLetter fs rest) = rest"
proof (cases "fsChar fs = CHR ''[''")
  case True
  then have "list_all (\<lambda>c. c \<noteq> CHR '']'') (fsSet fs)" "scanf" using assms by (auto simp: fspec_wf_def list_all_iff split: if_splits)
  then show ?thesis using True span_append(2) [of "\<lambda>c. c \<noteq> CHR '']''" "fsSet fs" "CHR '']'' # rest"]
    by (simp add: afterConversion_def atLetter_def)
qed (simp add: afterConversion_def atLetter_def)

lemma readModifiers_spec:
  assumes "fspec_wf scanf fs"
  shows "takeWhile (\<lambda>c. c \<in> set lengthModifiers) (atModifiers fs rest) = fsModifiers fs"
    "dropWhile (\<lambda>c. c \<in> set lengthModifiers) (atModifiers fs rest) = atLetter fs rest"
proof -
  have "list_all (\<lambda>c. c \<in> set lengthModifiers) (fsModifiers fs)" "atLetter fs rest \<noteq> []"
    "hd (atLetter fs rest) \<notin> set lengthModifiers"
    using assms conversion_chars(3) by (auto simp: fspec_wf_def list_all_iff atLetter_def)
  note span = span_append [of "\<lambda>c. c \<in> set lengthModifiers", OF this]
  show "takeWhile (\<lambda>c. c \<in> set lengthModifiers) (atModifiers fs rest) = fsModifiers fs"
    "dropWhile (\<lambda>c. c \<in> set lengthModifiers) (atModifiers fs rest) = atLetter fs rest"
    unfolding atModifiers_def by (rule span)+
qed

lemma number_spec:
  assumes "ys \<noteq> []" "\<not> isFormatDigit (hd ys)"
  shows "takeWhile isFormatDigit (digits n @ ys) = digits n" "dropWhile isFormatDigit (digits n @ ys) = ys"
    "takeWhile isFormatDigit ys = []" "dropWhile isFormatDigit ys = ys"
  using span_append [OF digits_format assms] span_append [of isFormatDigit "[]", OF _ assms] by auto

lemma digits_no_star: "\<not> startsWithChar (CHR ''*'') (digits n @ ys)"
proof -
  obtain c cs where "digits n = c # cs" using digits_nonempty by (cases "digits n") auto
  moreover have "\<not> isFormatDigit (CHR ''*'')" by code_simp
  ultimately show ?thesis using digits_format [of n] by (auto simp: startsWithChar_def)
qed

lemma readPrecision_spec:
  assumes wf: "fspec_wf scanf fs"
  shows "readPrecision scanf (atPrecision fs rest) =
    ((case fsPrecision fs of None \<Rightarrow> 0 | Some a \<Rightarrow> stars a),
     cvPrecision (specMeaning fs), cvDynamic (specMeaning fs), atModifiers fs rest)"
proof -
  define ys where "ys = atModifiers fs rest"
  have ys: "ys \<noteq> []" "hd ys \<noteq> CHR ''.''" "hd ys \<noteq> CHR ''*''" "\<not> isFormatDigit (hd ys)"
    using atModifiers_head [OF wf, of rest] conversion_chars(1,2) unfolding ys_def list_all_iff by auto
  show ?thesis
  proof (cases "fsPrecision fs")
    case None
    then show ?thesis using ys(1,2) by (simp add: readPrecision_def atPrecision_def specMeaning_def startsWithChar_def flip: ys_def)
  next
    case (Some a)
    then have "\<not> scanf" using wf by (auto simp: fspec_wf_def)
    then show ?thesis using Some ys digits_no_star number_spec [OF ys(1,4)] formatNumber_digits
      by (cases a) (auto simp: readPrecision_def atPrecision_def specMeaning_def startsWithChar_def formatNumber_def
          simp flip: ys_def simp del: dropWhile_append takeWhile_append)
  qed
qed

lemma readWidth_spec:
  assumes wf: "fspec_wf scanf fs"
  shows "readWidth (atWidth fs rest) = Some (stars (fsWidth fs), cvWidth (specMeaning fs), atPrecision fs rest)"
proof -
  define ys where "ys = atPrecision fs rest"
  have ys: "ys \<noteq> []" "hd ys \<noteq> CHR ''$''" "hd ys \<noteq> CHR ''*''" "\<not> isFormatDigit (hd ys)"
    using atPrecision_head(1) [OF wf, of rest] bspec [OF conversion_chars(1) [unfolded list_all_iff] atPrecision_head(2) [OF wf, of rest]]
    unfolding ys_def by blast+
  show ?thesis
    using ys digits_no_star number_spec [OF ys(1,4)] formatNumber_digits digits_nonempty
    by (cases "fsWidth fs") (auto simp: readWidth_def atWidth_def specMeaning_def startsWithChar_def
        simp flip: ys_def simp del: dropWhile_append takeWhile_append)
qed

lemma atWidth_head:
  assumes wf: "fspec_wf scanf fs"
  shows "atWidth fs rest \<noteq> []" "hd (atWidth fs rest) \<notin> set formatFlags" "hd (atWidth fs rest) \<noteq> CHR ''%''"
    "scanf \<Longrightarrow> hd (atWidth fs rest) \<noteq> CHR ''*''"
proof -
  have dg: "c \<notin> set formatFlags \<and> c \<noteq> CHR ''%'' \<and> c \<noteq> CHR ''*''" if "isFormatDigit c" "c \<noteq> CHR ''0''" for c
    using that by (auto simp: formatFlags_def isFormatDigit_def)
  have hd: "hd (digits n) \<notin> set formatFlags \<and> hd (digits n) \<noteq> CHR ''%'' \<and> hd (digits n) \<noteq> CHR ''*''" if "n \<noteq> 0" for n
    using dg [of "hd (digits n)"] that digits_head_nonzero [of n] digits_format [of n] digits_nonempty [of n] by (cases "digits n") auto
  have star: "CHR ''*'' \<notin> set formatFlags" by code_simp
  show "atWidth fs rest \<noteq> []" "hd (atWidth fs rest) \<notin> set formatFlags" "hd (atWidth fs rest) \<noteq> CHR ''%''"
    "scanf \<Longrightarrow> hd (atWidth fs rest) \<noteq> CHR ''*''"
    using atPrecision_head [OF wf, of rest] conversion_chars(1) wf hd star digits_nonempty unfolding list_all_iff
    by (cases "fsWidth fs"; auto simp: atWidth_def fspec_wf_def hd_append)+
qed

lemma readConversion_spec:
  assumes wf: "fspec_wf scanf fs"
  shows "readConversion scanf (specText fs @ rest) = Conversion (specMeaning fs) rest"
proof -
  let ?t0 = "fsFlags fs @ atWidth fs rest"
  have flags: "list_all (\<lambda>c. c \<in> set formatFlags) (fsFlags fs)" using wf by (auto simp: fspec_wf_def list_all_iff)
  have drop: "dropWhile (\<lambda>c. c \<in> set formatFlags) ?t0 = atWidth fs rest"
    by (rule span_append(2) [OF flags atWidth_head(1,2) [OF wf]])
  have "CHR ''*'' \<notin> set formatFlags" "CHR ''%'' \<notin> set formatFlags" by code_simp+
  then have head: "?t0 \<noteq> []" "hd ?t0 \<noteq> CHR ''%''" "scanf \<Longrightarrow> hd ?t0 \<noteq> CHR ''*''"
    using flags atWidth_head [OF wf, of rest] by (cases "fsFlags fs"; auto)+
  have sup: "scanf \<and> startsWithChar (CHR ''*'') (specText fs @ rest) \<longleftrightarrow> fsSuppressed fs"
    "\<not> startsWithChar (CHR ''%'') (specText fs @ rest)"
    using head wf by (auto simp: specText_parts startsWithChar_def fspec_wf_def split: if_splits)
  have t0: "(if fsSuppressed fs then tl (specText fs @ rest) else specText fs @ rest) = ?t0"
    by (simp add: specText_parts)
  show ?thesis
    unfolding readConversion_def Let_def sup(1) if_not_P [OF sup(2)] t0 drop readWidth_spec [OF wf] option.case prod.case
      readPrecision_spec [OF wf] readModifiers_spec [OF wf] afterConversion_spec [OF wf]
    by (simp add: specMeaning_def atLetter_def)
qed

lemma formatLoop_plain: "CHR ''%'' \<notin> set s \<Longrightarrow> formatLoop scanf (s @ rest) = formatLoop scanf rest"
  by (induction s) auto

lemma formatLoop_piece:
  "piece_wf scanf pc \<Longrightarrow> formatLoop scanf (pieceText pc @ rest) = pieceMeaning pc @ formatLoop scanf rest"
  by (cases pc) (simp_all add: formatLoop_plain readConversion_spec, simp add: readConversion_def startsWithChar_def)

subsection \<open>Properties\<close>

text \<open>
  C23: The reader of constant formats reads them as C means them: the text of any sequence of
  plain pieces, \<open>%%\<close> and conversions, with any flags, widths, precisions and length modifiers, gives
  back exactly its conversions, in order, with their suppression, the arguments their stars
  take, their widths and precisions and their letters. (A \<open>scanf\<close> set may not hold a closing bracket.)
\<close>

theorem formatLoop_roundtrip:
  assumes "list_all (piece_wf scanf) pcs"
  shows "formatLoop scanf (concat (map pieceText pcs)) = concat (map pieceMeaning pcs)"
  using assms by (induction pcs) (simp_all add: formatLoop_piece)

theorem formatLoop_roundtrip_witness:
  "formatLoop False (''a: %-08.*lf%%'') =
     [\<lparr>cvSuppressed = False, cvStars = 1, cvWidth = Some 8, cvPrecision = None, cvDynamic = True,
       cvWide = True, cvChar = CHR ''f''\<rparr>]"
proof -
  let ?pcs = "[Plain ''a: '', Spec \<lparr>fsSuppressed = False, fsFlags = ''-0'', fsWidth = NumberAmount 8,
    fsPrecision = Some StarAmount, fsModifiers = ''l'', fsChar = CHR ''f'', fsSet = []\<rparr>, Percent]"
  have "list_all (piece_wf False) ?pcs"
    by (simp add: fspec_wf_def formatFlags_def lengthModifiers_def conversionChars_def)
  moreover have "digits 8 = ''8''" by code_simp
  ultimately show ?thesis using formatLoop_roundtrip [of False ?pcs]
    by (simp add: specText_def specMeaning_def del: formatLoop.simps)
qed

text \<open>
  A \<open>scanf\<close> set that holds a closing bracket first, as C allows, ends too early: the reader takes the
  per cent sign inside the set for a conversion of its own, with an argument of its own.
\<close>

lemma set_with_bracket_misread:
  "map cvChar (formatLoop True ''%5[]%c]'') = ''[c''"
  by code_simp

end
