(* ===== verification/Ledger.thy ===== *)
theory Ledger
  imports Prelude
begin

text \<open>
  \<open>EnforcementLedger.cpp\<close> and \<open>UnsafeRegions.cpp\<close>: the rows the pass keeps of what it decided
  and how \<open>finish\<close> settles them, the summary line, and the source ranges in which nothing
  is guarded. Counters of copies are 32-bit, as in the code; the JSON text and the files are left
  out.
\<close>

subsection \<open>Rows and copies\<close>

datatype ledger_outcome = Guarded | Proven | Unguarded

record ledger_row =
  rowFunction :: string
  rowFile :: string
  rowLine :: nat
  rowColumn :: nat
  rowOperation :: string
  rowBytes :: u64
  rowOutcome :: ledger_outcome
  rowReason :: string

record copies =
  copyStay :: u32
  copyRemoved :: u32
  copyReason :: string

record ledger =
  ledgerRows :: "ledger_row list"
  ledgerGuarded :: nat
  ledgerProven :: nat
  ledgerUnguarded :: nat
  ledgerCopies :: "copies list"

definition emptyLedger :: ledger where
  "emptyLedger = \<lparr>ledgerRows = [], ledgerGuarded = 0, ledgerProven = 0, ledgerUnguarded = 0, ledgerCopies = []\<rparr>"

definition addRow :: "ledger_row \<Rightarrow> ledger \<Rightarrow> nat \<times> ledger" where
  "addRow row l =
     (length (ledgerRows l),
      l\<lparr>ledgerRows := ledgerRows l @ [row],
        ledgerCopies := ledgerCopies l @ [\<lparr>copyStay = 0, copyRemoved = 0, copyReason = []\<rparr>]\<rparr>)"

definition copyRow :: "nat \<Rightarrow> bool \<Rightarrow> string \<Rightarrow> ledger \<Rightarrow> ledger" where
  "copyRow index stays reason l =
     (if index \<ge> length (ledgerCopies l) then l
      else
        let seen = ledgerCopies l ! index
        in l\<lparr>ledgerCopies := (ledgerCopies l)[index :=
               (if stays then seen\<lparr>copyStay := copyStay seen + 1\<rparr>
                else seen\<lparr>copyRemoved := copyRemoved seen + 1, copyReason := reason\<rparr>)]\<rparr>)"

definition settleRow :: "ledger_row \<Rightarrow> copies \<Rightarrow> ledger_row" where
  "settleRow row seen =
     (if rowOutcome row = Guarded \<and> copyStay seen = 0
      then row\<lparr>rowOutcome := Proven, rowReason := (if copyRemoved seen \<noteq> 0 then copyReason seen else ''optimized'')\<rparr>
      else row)"

definition countRow :: "ledger_row \<Rightarrow> ledger \<Rightarrow> ledger" where
  "countRow row l =
     (case rowOutcome row of
        Guarded \<Rightarrow> l\<lparr>ledgerGuarded := ledgerGuarded l + 1\<rparr>
      | Proven \<Rightarrow> l\<lparr>ledgerProven := ledgerProven l + 1\<rparr>
      | Unguarded \<Rightarrow> l\<lparr>ledgerUnguarded := ledgerUnguarded l + 1\<rparr>)"

definition finish :: "ledger \<Rightarrow> ledger" where
  "finish l =
     (let rows = map2 settleRow (ledgerRows l) (ledgerCopies l)
      in fold countRow rows (l\<lparr>ledgerRows := rows, ledgerGuarded := 0, ledgerProven := 0, ledgerUnguarded := 0\<rparr>))"

definition accesses :: "ledger \<Rightarrow> nat" where
  "accesses l = ledgerGuarded l + ledgerProven l + ledgerUnguarded l"

definition outcomeName :: "ledger_outcome \<Rightarrow> string" where
  "outcomeName outcome =
     (case outcome of Guarded \<Rightarrow> ''guarded'' | Proven \<Rightarrow> ''proven'' | Unguarded \<Rightarrow> ''unguarded'')"

text \<open>\<open>showNat\<close> is the decimal spelling of a number.\<close>

definition enforcementSummary :: "(nat \<Rightarrow> string) \<Rightarrow> ledger \<Rightarrow> string \<Rightarrow> string" where
  "enforcementSummary showNat l source =
     ''weavec: '' @ source @ '': '' @ showNat (accesses l) @ '' accesses: '' @ showNat (ledgerProven l) @
     '' proven, '' @ showNat (ledgerGuarded l) @ '' guarded, '' @ showNat (ledgerUnguarded l) @ '' unguarded''"

text \<open>\<open>ModuleContext::row\<close> and \<open>ModuleContext::copy\<close> of \<open>GuardPass.cpp\<close>: with no ledger nothing is kept.\<close>

definition moduleRow :: "ledger_row \<Rightarrow> ledger option \<Rightarrow> nat \<times> ledger option" where
  "moduleRow row l = (case l of None \<Rightarrow> (0, None) | Some l \<Rightarrow> (case addRow row l of (i, l') \<Rightarrow> (i, Some l')))"

definition moduleCopy :: "nat \<Rightarrow> bool \<Rightarrow> string \<Rightarrow> ledger option \<Rightarrow> ledger option" where
  "moduleCopy row stays reason l = map_option (copyRow row stays reason) l"

subsection \<open>Unsafe regions\<close>

record region =
  beginLine :: nat
  beginColumn :: nat
  endLine :: nat
  endColumn :: nat

type_synonym unsafe_regions = "string \<Rightarrow> region list option"

definition addRegion :: "string \<Rightarrow> region \<Rightarrow> unsafe_regions \<Rightarrow> unsafe_regions" where
  "addRegion file rg ranges = ranges(file \<mapsto> (case ranges file of None \<Rightarrow> [] | Some rs \<Rightarrow> rs) @ [rg])"

definition before :: "nat \<Rightarrow> nat \<Rightarrow> nat \<Rightarrow> nat \<Rightarrow> bool" where
  "before lineA columnA lineB columnB \<longleftrightarrow> lineA < lineB \<or> (lineA = lineB \<and> columnA < columnB)"

definition contains :: "unsafe_regions \<Rightarrow> string \<Rightarrow> nat \<Rightarrow> nat \<Rightarrow> bool" where
  "contains ranges file line column =
     (case ranges file of
        None \<Rightarrow> False
      | Some rs \<Rightarrow>
          line \<noteq> 0 \<and>
          list_ex (\<lambda>rg.
            if column = 0 then beginLine rg \<le> line \<and> line \<le> endLine rg
            else \<not> before line column (beginLine rg) (beginColumn rg) \<and>
                 \<not> before (endLine rg) (endColumn rg) line column) rs)"

text \<open>
  \<open>UnsafeVisitor::add\<close>: a source range whose two presumed locations (file, line, column) are
  valid and in one file; \<open>absolute\<close> makes the file name absolute.
\<close>

definition visitorAdd ::
  "(string \<Rightarrow> string) \<Rightarrow> (string \<times> nat \<times> nat) option \<Rightarrow> (string \<times> nat \<times> nat) option \<Rightarrow> unsafe_regions \<Rightarrow> unsafe_regions"
where
  "visitorAdd absolute from' to' out =
     (case (from', to') of
        (Some (fa, la, ca), Some (fb, lb, cb)) \<Rightarrow>
          if fa \<noteq> fb then out
          else addRegion (absolute fa) \<lparr>beginLine = la, beginColumn = ca, endLine = lb, endColumn = cb + 1\<rparr> out
      | _ \<Rightarrow> out)"

subsection \<open>The life of a ledger\<close>

datatype ledger_event = AddRow ledger_row | CopyRow nat bool string

fun runEvent :: "ledger_event \<Rightarrow> ledger \<Rightarrow> ledger" where
  "runEvent (AddRow row) l = snd (addRow row l)"
| "runEvent (CopyRow index stays reason) l = copyRow index stays reason l"

definition ledger_inv :: "ledger \<Rightarrow> bool" where
  "ledger_inv l \<longleftrightarrow> length (ledgerCopies l) = length (ledgerRows l)"

lemma ledger_inv_event: "ledger_inv l \<Longrightarrow> ledger_inv (runEvent ev l)"
  by (cases ev) (auto simp: ledger_inv_def addRow_def copyRow_def Let_def)

lemma ledger_inv_run: "ledger_inv l \<Longrightarrow> ledger_inv (fold runEvent evs l)"
  by (induction evs arbitrary: l) (simp_all add: ledger_inv_event)

text \<open>The copies of row \<open>i\<close> that stay, after it is added.\<close>

fun staysOf :: "nat \<Rightarrow> nat \<Rightarrow> ledger_event list \<Rightarrow> nat" where
  "staysOf i n [] = 0"
| "staysOf i n (AddRow row # evs) = staysOf i (Suc n) evs"
| "staysOf i n (CopyRow j stays reason # evs) = (if j = i \<and> i < n \<and> stays then 1 else 0) + staysOf i n evs"

lemma run_stays:
  "ledger_inv l \<Longrightarrow> i < length (ledgerRows (fold runEvent evs l)) \<Longrightarrow>
   copyStay (ledgerCopies (fold runEvent evs l) ! i) =
     (if i < length (ledgerRows l) then copyStay (ledgerCopies l ! i) else 0) +
       word_of_nat (staysOf i (length (ledgerRows l)) evs)"
proof (induction evs arbitrary: l)
  case (Cons ev evs)
  have inv: "ledger_inv (runEvent ev l)" using Cons.prems(1) by (rule ledger_inv_event)
  note IH = Cons.IH [OF inv]
  show ?case
  proof (cases ev)
    case (AddRow row)
    then show ?thesis
      using IH Cons.prems by (auto simp: addRow_def ledger_inv_def nth_append)
  next
    case (CopyRow j stays reason)
    then show ?thesis
      using IH Cons.prems by (auto simp: copyRow_def ledger_inv_def Let_def nth_list_update)
  qed
qed (simp add: ledger_inv_def)

lemma fold_count:
  "ledgerRows (fold countRow rows l) = ledgerRows l \<and> ledgerCopies (fold countRow rows l) = ledgerCopies l \<and>
   ledgerGuarded (fold countRow rows l) = ledgerGuarded l + length (filter (\<lambda>r. rowOutcome r = Guarded) rows) \<and>
   ledgerProven (fold countRow rows l) = ledgerProven l + length (filter (\<lambda>r. rowOutcome r = Proven) rows) \<and>
   ledgerUnguarded (fold countRow rows l) = ledgerUnguarded l + length (filter (\<lambda>r. rowOutcome r = Unguarded) rows)"
  by (induction rows arbitrary: l) (auto simp: countRow_def split: ledger_outcome.splits)

lemma outcome_partition:
  "length (filter (\<lambda>r. rowOutcome r = Guarded) rows) + length (filter (\<lambda>r. rowOutcome r = Proven) rows) +
   length (filter (\<lambda>r. rowOutcome r = Unguarded) rows) = length rows"
proof (induction rows)
  case (Cons r rows)
  then show ?case by (cases "rowOutcome r") auto
qed simp

lemmas finish_simps = finish_def Let_def fold_count

text \<open>
  C33: \<open>finish\<close> settles every row by its copies and counts each row once: a row whose guard
  was inserted ends as guarded exactly when some copy of the guard stays, as proven
  otherwise, an unguarded row stays unguarded, and the three counts add up to the rows. (The
  count of copies is 32 bits wide.)
\<close>

theorem finish_settles:
  assumes "l = fold runEvent evs emptyLedger" "\<forall>i < length (ledgerRows l). staysOf i 0 evs < 2 ^ 32"
  shows "length (ledgerRows (finish l)) = length (ledgerRows l) \<and> accesses (finish l) = length (ledgerRows l) \<and>
    ledgerGuarded (finish l) = length (filter (\<lambda>r. rowOutcome r = Guarded) (ledgerRows (finish l))) \<and>
    (\<forall>i < length (ledgerRows l). rowOutcome (ledgerRows (finish l) ! i) =
       (if rowOutcome (ledgerRows l ! i) = Guarded \<and> staysOf i 0 evs = 0 then Proven else rowOutcome (ledgerRows l ! i)))"
proof -
  have empty: "ledger_inv emptyLedger" by (simp add: ledger_inv_def emptyLedger_def)
  have inv: "length (ledgerCopies l) = length (ledgerRows l)"
    using ledger_inv_run [OF empty] assms(1) by (simp add: ledger_inv_def)
  let ?rows = "map2 settleRow (ledgerRows l) (ledgerCopies l)"
  have rows: "ledgerRows (finish l) = ?rows" by (simp add: finish_simps)
  have "rowOutcome (?rows ! i) =
      (if rowOutcome (ledgerRows l ! i) = Guarded \<and> staysOf i 0 evs = 0 then Proven else rowOutcome (ledgerRows l ! i))"
    if i: "i < length (ledgerRows l)" for i
  proof -
    have "copyStay (ledgerCopies l ! i) = word_of_nat (staysOf i 0 evs)"
      using run_stays [OF empty, of i evs] i assms(1) by (simp add: emptyLedger_def)
    then have "copyStay (ledgerCopies l ! i) = 0 \<longleftrightarrow> staysOf i 0 evs = 0"
      using assms(2) i by (fastforce simp: word_of_nat_eq_0_iff dest: dvd_imp_le)
    then show ?thesis using i inv by (simp add: settleRow_def)
  qed
  moreover have "accesses (finish l) = length (ledgerRows l)"
    using outcome_partition [of ?rows] inv by (simp add: accesses_def finish_simps)
  ultimately show ?thesis using rows inv by (simp add: finish_simps)
qed

definition sampleRow :: ledger_row where
  "sampleRow = \<lparr>rowFunction = ''f'', rowFile = ''f.c'', rowLine = 3, rowColumn = 5, rowOperation = ''load'',
     rowBytes = 4, rowOutcome = Guarded, rowReason = ''access''\<rparr>"

theorem finish_settles_witness:
  "map rowOutcome (ledgerRows (finish (fold runEvent
     [AddRow sampleRow, AddRow sampleRow, CopyRow 0 False ''dominated'', CopyRow 1 True ''access''] emptyLedger))) =
   [Proven, Guarded]"
proof -
  let ?evs = "[AddRow sampleRow, AddRow sampleRow, CopyRow 0 False ''dominated'', CopyRow 1 True ''access'']"
  let ?l = "fold runEvent ?evs emptyLedger"
  have rows: "ledgerRows ?l = [sampleRow, sampleRow]" by (simp add: addRow_def copyRow_def emptyLedger_def)
  have small: "\<forall>i < length (ledgerRows ?l). staysOf i 0 ?evs < 2 ^ 32" by (simp add: rows)
  note r = finish_settles [OF refl small]
  have "map rowOutcome (ledgerRows (finish ?l)) = map (\<lambda>i. rowOutcome (ledgerRows (finish ?l) ! i)) [0..<2]"
    using r rows by (intro nth_equalityI) auto
  also have "\<dots> = [Proven, Guarded]" using r unfolding rows by (simp add: upt_rec sampleRow_def)
  finally show ?thesis .
qed

text \<open>
  An annotated range makes exactly its positions unsafe: after \<open>UnsafeVisitor::add\<close> a position
  is unsafe when it was before or when it lies, in the order of the source, between the two ends
  of the new range in its file.
\<close>

theorem visitorAdd_exact:
  "contains (visitorAdd absolute (Some (f, la, ca)) (Some (f, lb, cb)) ranges) file line column \<longleftrightarrow>
     contains ranges file line column \<or>
     (file = absolute f \<and> line \<noteq> 0 \<and>
      (if column = 0 then la \<le> line \<and> line \<le> lb
       else (la < line \<or> la = line \<and> ca \<le> column) \<and> (line < lb \<or> line = lb \<and> column \<le> cb + 1)))"
  by (auto simp: visitorAdd_def addRegion_def contains_def before_def split: option.splits)

end
