(* ===== verification/Driver.thy ===== *)
theory Driver
  imports Prelude
begin

text \<open>
  \<open>lib/Frontend/Driver.cpp\<close>: WeaveC's flags, what a \<open>-cc1\<close> job configures, what the
  driver adds to Clang's command line, and the link lines. Clang's own driver and front end,
  the file system and the host are arguments: the facts of a target triple, the resource
  directory, which paths exist.
\<close>

subsection \<open>Flags\<close>

datatype checks = ChecksTrap | ChecksReport | ChecksVerify | ChecksNone

record driver_options =
  doEnabled :: bool
  doChecks :: checks
  doZeroInit :: "bool option"
  doAsanCompat :: bool
  doColors :: bool
  doLedger :: string
  doSummary :: "bool option"
  doRpath :: "string option"
  doSpellings :: "string list"

definition defaultOptions :: driver_options where
  "defaultOptions = \<lparr>doEnabled = True, doChecks = ChecksTrap, doZeroInit = None, doAsanCompat = True,
     doColors = True, doLedger = [], doSummary = None, doRpath = None, doSpellings = []\<rparr>"

definition enforces :: "driver_options \<Rightarrow> bool" where
  "enforces o' \<longleftrightarrow> doEnabled o' \<and> doChecks o' \<noteq> ChecksNone"

definition zeroInitializes :: "driver_options \<Rightarrow> bool" where
  "zeroInitializes o' \<longleftrightarrow> enforces o' \<and> (case doZeroInit o' of None \<Rightarrow> True | Some b \<Rightarrow> b)"

definition hasPrefix :: "string \<Rightarrow> string \<Rightarrow> bool" where
  "hasPrefix prefix s = (take (length prefix) s = prefix)"

definition splitEquals :: "string \<Rightarrow> string \<times> string" where
  "splitEquals arg = (takeWhile (\<lambda>c. c \<noteq> CHR ''='') arg, drop 1 (dropWhile (\<lambda>c. c \<noteq> CHR ''='') arg))"

definition invalidValue :: "string \<Rightarrow> string \<Rightarrow> string \<Rightarrow> string" where
  "invalidValue arg value expected =
     ''invalid value '' @ [CHR 0x27] @ value @ [CHR 0x27] @ '' in '' @ [CHR 0x27] @ arg @ [CHR 0x27] @
     ''; expected '' @ expected"

definition missingValue :: "string \<Rightarrow> string" where
  "missingValue flag = ''missing value for '' @ [CHR 0x27] @ flag @ [CHR 0x27]"

text \<open>Not one of WeaveC's flags, or applied, with what is wrong with it, if anything.\<close>

type_synonym consumed = "(string option \<times> driver_options) option"

definition recorded :: "string \<Rightarrow> driver_options \<Rightarrow> driver_options" where
  "recorded arg o' = o'\<lparr>doSpellings := doSpellings o' @ [arg]\<rparr>"

definition checksOf :: "string \<Rightarrow> checks option" where
  "checksOf value =
     (if value = ''trap'' then Some ChecksTrap
      else if value = ''report'' then Some ChecksReport
      else if value = ''verify'' then Some ChecksVerify
      else if value = ''none'' then Some ChecksNone
      else None)"

definition consumeValueFlag :: "driver_options \<Rightarrow> string \<Rightarrow> consumed" where
  "consumeValueFlag o' arg =
     (let (flag, value) = splitEquals arg
      in if flag \<notin> {''-fweavec-checks'', ''-fweavec-ledger''} then None
         else if flag = arg \<or> value = [] then Some (Some (missingValue flag), o')
         else if flag = ''-fweavec-checks'' then
           (case checksOf value of
              Some c \<Rightarrow> Some (None, recorded arg (o'\<lparr>doChecks := c\<rparr>))
            | None \<Rightarrow> Some (Some (invalidValue arg value ''trap, report, verify or none''), recorded arg o'))
         else Some (None, recorded arg (o'\<lparr>doLedger := value\<rparr>)))"

definition consumeNamed :: "driver_options \<Rightarrow> string \<Rightarrow> bool \<Rightarrow> string \<Rightarrow> consumed" where
  "consumeNamed o' arg value name =
     (if name = ''weavec'' then Some (None, recorded arg (o'\<lparr>doEnabled := value\<rparr>))
      else if name = ''weavec-asan-compat'' then Some (None, recorded arg (o'\<lparr>doAsanCompat := value\<rparr>))
      else if name = ''weavec-colors'' then Some (None, recorded arg (o'\<lparr>doColors := value\<rparr>))
      else if name = ''weavec-zero-init'' then Some (None, recorded arg (o'\<lparr>doZeroInit := Some value\<rparr>))
      else if name = ''weavec-summary'' then Some (None, recorded arg (o'\<lparr>doSummary := Some value\<rparr>))
      else if \<not> hasPrefix ''weavec'' name then None
      else Some (Some (''unknown WeaveC flag '' @ [CHR 0x27] @ arg @ [CHR 0x27]), o'))"

definition consume :: "driver_options \<Rightarrow> string \<Rightarrow> consumed" where
  "consume o' arg =
     (case consumeValueFlag o' arg of
        Some r \<Rightarrow> Some r
      | None \<Rightarrow>
          if arg = ''-fno-weavec-rpath'' then Some (None, o'\<lparr>doRpath := Some []\<rparr>)
          else if hasPrefix ''-fweavec-rpath'' arg then
            (let dir = drop (length ''-fweavec-rpath'') arg
             in if \<not> hasPrefix ''='' dir \<or> drop 1 dir = []
                then Some (Some (missingValue ''-fweavec-rpath''), o')
                else Some (None, o'\<lparr>doRpath := Some (drop 1 dir)\<rparr>))
          else if hasPrefix ''-fno-'' arg then consumeNamed o' arg False (drop 5 arg)
          else if hasPrefix ''-f'' arg then consumeNamed o' arg True (drop 2 arg)
          else None)"

text \<open>The loops of \<open>runCc1Job\<close> and \<open>runDriver\<close> over their arguments: the first error ends them.\<close>

fun consumeArgs :: "driver_options \<Rightarrow> string list \<Rightarrow> string + (driver_options \<times> string list)" where
  "consumeArgs o' [] = Inr (o', [])"
| "consumeArgs o' (arg # args) =
     (case consume o' arg of
        Some (Some e, _) \<Rightarrow> Inl e
      | Some (None, o'') \<Rightarrow> consumeArgs o'' args
      | None \<Rightarrow> (case consumeArgs o' args of Inl e \<Rightarrow> Inl e | Inr (o'', rest) \<Rightarrow> Inr (o'', arg # rest)))"

subsection \<open>What a -cc1 job runs\<close>

datatype action_kind =
    EmitAssembly | EmitBC | EmitLLVM | EmitLLVMOnly | EmitCodeGenOnly | EmitObj | GeneratePCH | InitOnly
  | ParseSyntaxOnly | PrintPreprocessedInput | RunPreprocessorOnly | DumpTokens | ASTDump | DumpCompilerOptions
  | GenerateModule | GenerateModuleInterface | GenerateReducedModuleInterface | GenerateHeaderUnit | ModuleFileInfo
  | VerifyPCH | ASTDeclList | ASTPrint | ASTView | DumpRawTokens | TemplightDump | PrintPreamble
  | PrintDependencyDirectives | OtherAction

text \<open>Clang's action of the same name, or none.\<close>

definition createAction :: "action_kind \<Rightarrow> action_kind option" where
  "createAction action = (if action = OtherAction then None else Some action)"

definition isCodeGenAction :: "action_kind \<Rightarrow> bool" where
  "isCodeGenAction action \<longleftrightarrow>
     action \<in> {EmitAssembly, EmitBC, EmitLLVM, EmitLLVMOnly, EmitCodeGenOnly, EmitObj}"

datatype guard_mode = ModeTrap | ModeReport | ModeVerify

definition guardMode :: "checks \<Rightarrow> guard_mode" where
  "guardMode c = (case c of ChecksReport \<Rightarrow> ModeReport | ChecksVerify \<Rightarrow> ModeVerify | _ \<Rightarrow> ModeTrap)"

definition checksName :: "checks \<Rightarrow> string" where
  "checksName c = (case c of ChecksTrap \<Rightarrow> ''trap'' | ChecksReport \<Rightarrow> ''report'' | ChecksVerify \<Rightarrow> ''verify'' | ChecksNone \<Rightarrow> ''none'')"

datatype sanitizer = SanArrayBounds | SanAddress | SanKernelAddress | SanHWAddress | SanOther

record compiler_config =
  ccZeroInit :: bool
  ccZeroInitMaxSize :: nat
  ccUseAfterScope :: bool
  ccSanitize :: "sanitizer set"
  ccRecover :: "sanitizer set"
  ccDebugInfo :: bool
  ccLocTracking :: bool
  ccColumnInfo :: bool
  ccMode :: "guard_mode option"
  ccColors :: bool
  ccMacros :: "string list"
  ccUndefs :: "string list"
  ccLlvmArgs :: "string list"

abbreviation (input) ZeroInitMaxSize :: nat where "ZeroInitMaxSize \<equiv> 4096"

definition configureEnforcement :: "driver_options \<Rightarrow> compiler_config \<Rightarrow> compiler_config" where
  "configureEnforcement o' cc =
     (let cc = (if zeroInitializes o'
                then cc\<lparr>ccZeroInit := True,
                        ccZeroInitMaxSize := (if ccZeroInitMaxSize cc = 0 then ZeroInitMaxSize else ccZeroInitMaxSize cc)\<rparr>
                else cc);
          cc = cc\<lparr>ccUseAfterScope := True\<rparr>;
          cc = (if ccSanitize cc = {}
                then cc\<lparr>ccSanitize := {SanArrayBounds},
                        ccRecover := (if doChecks o' = ChecksReport then insert SanArrayBounds (ccRecover cc) else ccRecover cc)\<rparr>
                else cc);
          cc = (if \<not> ccDebugInfo cc then cc\<lparr>ccDebugInfo := True, ccLocTracking := True, ccColumnInfo := True\<rparr> else cc)
      in cc\<lparr>ccMode := Some (guardMode (doChecks o')), ccColors := doColors o'\<rparr>)"

definition applyAsanCompat :: "bool \<Rightarrow> driver_options \<Rightarrow> compiler_config \<Rightarrow> bool \<times> compiler_config" where
  "applyAsanCompat darwin o' cc =
     (if \<not> enforces o' \<or> \<not> doAsanCompat o' \<or> ccSanitize cc \<inter> {SanAddress, SanKernelAddress, SanHWAddress} \<noteq> {}
      then (False, cc)
      else
        let cc = cc\<lparr>ccSanitize := insert SanAddress (ccSanitize cc)\<rparr>;
            chosen = list_ex (hasPrefix ''_FORTIFY_SOURCE'') (ccMacros cc)
        in (True, if darwin \<and> \<not> chosen then cc\<lparr>ccUndefs := ccUndefs cc @ [''_FORTIFY_SOURCE'']\<rparr> else cc))"

text \<open>What the job does: an error, Clang's action alone, or the action with the guard pass and the resets.\<close>

record language =
  lgCPlusPlus :: bool
  lgObjC :: bool
  lgOpenCL :: bool
  lgCUDA :: bool

datatype cc1_run =
    Cc1Error string
  | Cc1Unknown
  | Cc1Plain compiler_config
  | Cc1Guarded compiler_config (collects: bool) (resetsAsan: bool) (writesLedger: bool)

text \<open>\<open>ppOnly\<close> is Clang's \<open>usesPreprocessorOnly\<close> of the action.\<close>

definition llvmArguments :: "bool \<Rightarrow> driver_options \<Rightarrow> compiler_config \<Rightarrow> compiler_config" where
  "llvmArguments aarch64 o' cc =
     (if doEnabled o' \<and> doChecks o' \<noteq> ChecksNone \<and> aarch64
      then cc\<lparr>ccLlvmArgs := ''-aarch64-enable-ccmp=false'' # ccLlvmArgs cc\<rparr> else cc)"

definition runCc1Job :: "(action_kind \<Rightarrow> bool) \<Rightarrow> bool \<Rightarrow> bool \<Rightarrow> language \<Rightarrow> action_kind \<Rightarrow> compiler_config \<Rightarrow> string list \<Rightarrow> cc1_run" where
  "runCc1Job ppOnly aarch64 darwin lang action cc argv =
     (case consumeArgs defaultOptions argv of
        Inl e \<Rightarrow> Cc1Error e
      | Inr (o', _) \<Rightarrow>
          let cc = llvmArguments aarch64 o' cc
          in if createAction action = None then Cc1Unknown
          else if \<not> doEnabled o' \<or> lgCPlusPlus lang \<or> lgObjC lang \<or> lgOpenCL lang \<or> lgCUDA lang then Cc1Plain cc
          else if ppOnly action then Cc1Plain (snd (applyAsanCompat darwin o' cc))
          else
            let codegen = isCodeGenAction action;
                guards = enforces o' \<and> codegen;
                cc = (if guards then configureEnforcement o' cc else cc);
                (asan, cc) = applyAsanCompat darwin o' cc
            in Cc1Guarded cc guards (asan \<and> codegen) (guards \<and> doLedger o' \<noteq> []))"

subsection \<open>What the driver reads of a command line\<close>

definition pathExtension :: "string \<Rightarrow> string" where
  "pathExtension path =
     (let name = rev (takeWhile (\<lambda>c. c \<noteq> CHR ''/'') (rev path))
      in if name = ''.'' \<or> name = ''..'' \<or> CHR ''.'' \<notin> set name then []
         else CHR ''.'' # rev (takeWhile (\<lambda>c. c \<noteq> CHR ''.'') (rev name)))"

text \<open>\<open>isSource\<close>: Clang knows the extension as that of a source file.\<close>

definition looksLikeSource :: "(string \<Rightarrow> bool) \<Rightarrow> string \<Rightarrow> bool" where
  "looksLikeSource isSource arg =
     (if hasPrefix ''-'' arg then False
      else let ext = pathExtension arg in if ext = [] then False else isSource (drop 1 ext))"

definition looksLikeAssembly :: "string \<Rightarrow> bool" where
  "looksLikeAssembly arg =
     (if hasPrefix ''-'' arg then False
      else let ext = pathExtension arg in ext = ''.s'' \<or> ext = ''.S'' \<or> ext = ''.sx'')"

record target =
  tgArch64 :: bool
  tgDarwin :: bool
  tgLinux :: bool
  tgGnu :: bool
  tgAndroid :: bool

fun splitCommas :: "string \<Rightarrow> string list" where
  "splitCommas [] = [[]]"
| "splitCommas (c # cs) =
     (if c = CHR '','' then [] # splitCommas cs
      else case splitCommas cs of [] \<Rightarrow> [[c]] | w # ws \<Rightarrow> (c # w) # ws)"

definition allocatorSanitizers :: "string list" where
  "allocatorSanitizers = [''address'', ''hwaddress'', ''memory'', ''thread'', ''leak'', ''kernel-address'']"

text \<open>The scan of \<open>runtimeObstacle\<close> over the arguments after the first: a reason, or the triple.\<close>

fun obstacleScan :: "string \<Rightarrow> string list \<Rightarrow> string + string" where
  "obstacleScan triple [] = Inr triple"
| "obstacleScan triple (arg # args) =
     (if arg = ''-ffreestanding'' then Inl ''-ffreestanding has no hosted C library''
      else if arg \<in> {''-nostdlib'', ''-nodefaultlibs'', ''-nolibc''} then Inl (arg @ '' links no C library'')
      else
        case (if hasPrefix ''-fsanitize='' arg
              then find (\<lambda>k. k \<in> set allocatorSanitizers) (splitCommas (drop (length ''-fsanitize='') arg)) else None) of
          Some kind \<Rightarrow> Inl (''-fsanitize='' @ kind @ '' replaces the allocator'')
        | None \<Rightarrow>
            if hasPrefix ''--target='' arg then obstacleScan (drop (length ''--target='') arg) args
            else if arg = ''-target'' \<or> arg = ''--target''
            then (case args of [] \<Rightarrow> Inr triple | t # args' \<Rightarrow> obstacleScan t args')
            else obstacleScan triple args)"

definition runtimeObstacle :: "(string \<Rightarrow> target) \<Rightarrow> string \<Rightarrow> string list \<Rightarrow> string" where
  "runtimeObstacle targetOf defaultTriple args =
     (case obstacleScan defaultTriple (drop 1 args) of
        Inl reason \<Rightarrow> reason
      | Inr triple \<Rightarrow>
          let t = targetOf triple
          in if \<not> tgArch64 t \<or> \<not> (tgDarwin t \<or> tgLinux t)
             then ''the runtime supports 64-bit Darwin and Linux targets'' else [])"

fun fortifyScan :: "string \<Rightarrow> bool \<Rightarrow> string list \<Rightarrow> (string \<times> bool) option" where
  "fortifyScan triple optimizes [] = Some (triple, optimizes)"
| "fortifyScan triple optimizes (arg # args) =
     (if hasPrefix ''-D_FORTIFY_SOURCE'' arg \<or> hasPrefix ''-U_FORTIFY_SOURCE'' arg \<or>
         ((arg = ''-D'' \<or> arg = ''-U'') \<and> args \<noteq> [] \<and> hasPrefix ''_FORTIFY_SOURCE'' (hd args)) then None
      else
        let optimizes = (if hasPrefix ''-O'' arg then arg \<noteq> ''-O0'' else optimizes)
        in if hasPrefix ''--target='' arg then fortifyScan (drop (length ''--target='') arg) optimizes args
           else if arg = ''-target'' \<or> arg = ''--target''
           then (case args of [] \<Rightarrow> Some (triple, optimizes) | t # args' \<Rightarrow> fortifyScan t optimizes args')
           else fortifyScan triple optimizes args)"

definition wantsFortification :: "(string \<Rightarrow> target) \<Rightarrow> string \<Rightarrow> string list \<Rightarrow> bool" where
  "wantsFortification targetOf defaultTriple args =
     (case fortifyScan defaultTriple False (drop 1 args) of
        None \<Rightarrow> False
      | Some (triple, optimizes) \<Rightarrow> optimizes \<and> tgLinux (targetOf triple) \<and> tgGnu (targetOf triple))"

definition linksStatically :: "string list \<Rightarrow> bool" where
  "linksStatically args \<longleftrightarrow> list_ex (\<lambda>t. t = ''-static'' \<or> t = ''-static-pie'') (drop 1 args)"

subsection \<open>The link line\<close>

text \<open>\<open>addRuntimeLibraries\<close>: the line of one link job.\<close>

definition isLibrary :: "string \<Rightarrow> bool" where
  "isLibrary arg \<longleftrightarrow> hasPrefix ''-l'' arg \<and> arg \<noteq> ''-lto_library''"

definition ltrimDash :: "string \<Rightarrow> string" where
  "ltrimDash = dropWhile (\<lambda>c. c = CHR ''-'')"

definition wholeAfter :: "string list \<Rightarrow> bool \<Rightarrow> bool" where
  "wholeAfter args whole =
     fold (\<lambda>arg w. if ltrimDash arg = ''whole-archive'' \<or> ltrimDash arg = ''no-whole-archive''
                   then ltrimDash arg = ''whole-archive'' else w) args whole"

definition runtimeArgs :: "target \<Rightarrow> bool \<Rightarrow> string \<Rightarrow> string \<Rightarrow> string \<Rightarrow> string list \<Rightarrow> string list" where
  "runtimeArgs t archive runtime rpath fallback old =
     (let whole = wholeAfter (takeWhile (\<lambda>a. \<not> isLibrary a) old) False;
          loadsAll = ''-all_load'' \<in> set old
      in [runtime] @
         (if \<not> archive \<and> rpath \<noteq> [] then [''-rpath'', rpath] else []) @
         (if fallback \<noteq> [] \<and> \<not> loadsAll
          then (if whole then [''--no-whole-archive''] else []) @ [fallback] @ (if whole then [''--whole-archive''] else [])
          else []) @
         (if tgLinux t \<and> \<not> tgAndroid t then [''-lpthread''] else []))"

definition linkLine :: "target \<Rightarrow> bool \<Rightarrow> string \<Rightarrow> string \<Rightarrow> string \<Rightarrow> string list \<Rightarrow> string list" where
  "linkLine t archive runtime rpath fallback old =
     (if ''-r'' \<in> set old then old
      else takeWhile (\<lambda>a. \<not> isLibrary a) old @ runtimeArgs t archive runtime rpath fallback old @
           dropWhile (\<lambda>a. \<not> isLibrary a) old)"

datatype job_kind = LinkJob | PreprocessJob | PrecompileJob | OtherJob

record job =
  jobKind :: job_kind
  jobArgs :: "string list"
  jobInputsC :: "bool list"

text \<open>
  \<open>addRuntimeLibraries\<close>: nothing when the link does not target the host; \<open>findLibrary\<close> is
  \<open>findRuntimeLibrary\<close>, empty when there is none; \<open>defaultPath\<close> is \<open>defaultRpath\<close> of its directory.
\<close>

definition addRuntimeLibraries ::
  "(string \<Rightarrow> string) \<Rightarrow> (string \<Rightarrow> string) \<Rightarrow> bool \<Rightarrow> target \<Rightarrow> driver_options \<Rightarrow> bool \<Rightarrow> job list \<Rightarrow> job list option"
where
  "addRuntimeLibraries findLibrary defaultPath hostTarget t o' linkStatic jobs =
     (if \<not> hostTarget then Some jobs
      else
        let archive = linkStatic \<and> \<not> tgDarwin t;
            name = (if tgDarwin t then ''libweavec_rt.dylib'' else if archive then ''libweavec_rt.a'' else ''libweavec_rt.so'');
            runtime = findLibrary name
        in if runtime = [] then None
           else
             let rpath = (case doRpath o' of Some r \<Rightarrow> r | None \<Rightarrow> defaultPath runtime);
                 fallback = (if archive then [] else findLibrary ''libweavec_rt.a'')
             in Some (map (\<lambda>j. if jobKind j = LinkJob
                               then j\<lparr>jobArgs := linkLine t archive runtime rpath fallback (jobArgs j)\<rparr> else j) jobs))"

definition countLedgers :: "job list \<Rightarrow> nat" where
  "countLedgers jobs = length (filter (\<lambda>j.
     \<not> (jobArgs j = [] \<or> hd (jobArgs j) \<noteq> ''-cc1'' \<or> jobKind j = PreprocessJob \<or> jobKind j = PrecompileJob) \<and>
     list_ex id (jobInputsC j)) jobs)"

text \<open>\<open>replaceMissingLtoLibrary\<close>, one line: \<open>exists'\<close> is the file system's.\<close>

fun dropMissingLto :: "(string \<Rightarrow> bool) \<Rightarrow> string list \<Rightarrow> string list" where
  "dropMissingLto exists' (a # b # rest) =
     (if a = ''-lto_library'' \<and> \<not> exists' b then dropMissingLto exists' rest else a # dropMissingLto exists' (b # rest))"
| "dropMissingLto exists' args = args"

definition replaceMissingLtoLibrary :: "(string \<Rightarrow> bool) \<Rightarrow> job list \<Rightarrow> job list" where
  "replaceMissingLtoLibrary exists' jobs =
     map (\<lambda>j. if jobKind j = LinkJob then j\<lparr>jobArgs := dropMissingLto exists' (jobArgs j)\<rparr> else j) jobs"

subsection \<open>The driver\<close>

record driver_scan =
  dsOptions :: driver_options
  dsArgs :: "string list"
  dsVersion :: bool
  dsJobsOnly :: bool
  dsSysroot :: bool
  dsSource :: bool
  dsAssembles :: bool

datatype scan_result = ScanError string | ScanHelp | ScanDone driver_scan

definition hasSuffix :: "string \<Rightarrow> string \<Rightarrow> bool" where
  "hasSuffix suffix s = hasPrefix (rev suffix) (rev s)"

definition noteArgument :: "(string \<Rightarrow> bool) \<Rightarrow> string \<Rightarrow> driver_scan \<Rightarrow> driver_scan" where
  "noteArgument isSource arg st =
     (let last' = last (dsArgs st)
      in st\<lparr>dsVersion := dsVersion st \<or> arg = ''--version'',
            dsJobsOnly := dsJobsOnly st \<or> arg = ''-###'',
            dsSysroot := dsSysroot st \<or> hasPrefix ''-isysroot'' arg \<or> hasPrefix ''--sysroot'' arg,
            dsAssembles := dsAssembles st \<or> looksLikeAssembly arg \<or> hasPrefix ''-save-temps'' arg \<or>
              (last' = ''-x'' \<and> hasPrefix ''assembler'' arg) \<or> hasPrefix ''-xassembler'' arg,
            dsSource := dsSource st \<or> looksLikeSource isSource arg \<or> (arg = ''-'' \<and> last' \<noteq> ''-o''),
            dsArgs := dsArgs st @ [arg]\<rparr>)"

fun scanArgs :: "(string \<Rightarrow> bool) \<Rightarrow> driver_scan \<Rightarrow> string list \<Rightarrow> scan_result" where
  "scanArgs isSource st [] = ScanDone st"
| "scanArgs isSource st (arg # args) =
     (case consume (dsOptions st) arg of
        Some (Some e, _) \<Rightarrow> ScanError e
      | Some (None, o') \<Rightarrow> scanArgs isSource (st\<lparr>dsOptions := o'\<rparr>) args
      | None \<Rightarrow> if arg = ''--help-weavec'' then ScanHelp else scanArgs isSource (noteArgument isSource arg st) args)"

definition scanStart :: "string \<Rightarrow> driver_scan" where
  "scanStart argv0 = \<lparr>dsOptions = defaultOptions, dsArgs = [argv0], dsVersion = False, dsJobsOnly = False,
     dsSysroot = False, dsSource = False, dsAssembles = False\<rparr>"

text \<open>The options after the obstacle is known, and why the runtime is off, if it is.\<close>

definition withObstacle :: "(string \<Rightarrow> target) \<Rightarrow> string \<Rightarrow> string list \<Rightarrow> driver_options \<Rightarrow> driver_options \<times> string" where
  "withObstacle targetOf defaultTriple clangArgs o' =
     (if enforces o'
      then let off = runtimeObstacle targetOf defaultTriple clangArgs
           in if off \<noteq> [] then (recorded ''-fweavec-checks=none'' (o'\<lparr>doChecks := ChecksNone\<rparr>), off) else (o', [])
      else (o', []))"

text \<open>What is added to the arguments for Clang; \<open>includeDir\<close> and \<open>sysroot\<close> are empty when there is none.\<close>

definition addedForSource :: "(string \<Rightarrow> target) \<Rightarrow> string \<Rightarrow> string \<Rightarrow> driver_options \<Rightarrow> string list \<Rightarrow> string list" where
  "addedForSource targetOf defaultTriple includeDir o' clangArgs =
     (let flags = concat (map (\<lambda>flag. [''-Xclang'', flag]) (doSpellings o'));
          more = (if doEnabled o'
                  then (if includeDir \<noteq> [] then [''-isystem'', includeDir] else []) @ [''-D__WEAVEC__=1'']
                  else []);
          fort = (if doEnabled o' \<and> enforces o' \<and> wantsFortification targetOf defaultTriple (clangArgs @ flags @ more)
                  then [''-D_FORTIFY_SOURCE=3''] else [])
      in flags @ more @ fort)"

definition clangArguments ::
  "(string \<Rightarrow> target) \<Rightarrow> string \<Rightarrow> string \<Rightarrow> string \<Rightarrow> driver_scan \<Rightarrow> driver_options \<Rightarrow> string list"
where
  "clangArguments targetOf defaultTriple includeDir sysroot st o' =
     (let args = dsArgs st;
          args = args @ (if dsAssembles st \<and> \<not> list_ex (hasSuffix ''integrated-as'') args then [''-fno-integrated-as''] else []);
          args = args @ (if dsSource st then addedForSource targetOf defaultTriple includeDir o' args else [])
      in args @ (if \<not> dsSysroot st \<and> sysroot \<noteq> [] then [''-isysroot'', sysroot] else []))"

datatype driver_start =
    StartCc1 "string list"
  | StartError string
  | StartHelp
  | StartCompile driver_options "string list" string

text \<open>\<open>runDriver\<close> up to Clang's compilation: the options, Clang's arguments, and why the runtime is off.\<close>

definition runDriver ::
  "(string \<Rightarrow> bool) \<Rightarrow> (string \<Rightarrow> target) \<Rightarrow> string \<Rightarrow> string \<Rightarrow> string \<Rightarrow> string list \<Rightarrow> driver_start"
where
  "runDriver isSource targetOf defaultTriple includeDir sysroot argv =
     (let args = drop 1 argv
      in if args \<noteq> [] \<and> hd args = ''-cc1'' then StartCc1 (drop 1 args)
         else if args \<noteq> [] \<and> hasPrefix ''-cc1'' (hd args)
         then StartError ([CHR 0x27] @ hd args @ [CHR 0x27] @
                '' is Clang'' @ [CHR 0x27] @ ''s tool, which weavec-cc does not include; assembly sources are assembled by the system assembler'')
         else
           case scanArgs isSource (scanStart (hd argv)) args of
             ScanError e \<Rightarrow> StartError e
           | ScanHelp \<Rightarrow> StartHelp
           | ScanDone st \<Rightarrow>
               (case withObstacle targetOf defaultTriple (dsArgs st) (dsOptions st) of
                  (o', off) \<Rightarrow> StartCompile o' (clangArguments targetOf defaultTriple includeDir sysroot st o') off))"

text \<open>The jobs, after Clang has built them: the refusal of several ledgers in one file, and the link lines.\<close>

definition prepareJobs ::
  "(string \<Rightarrow> bool) \<Rightarrow> (string \<Rightarrow> bool) \<Rightarrow> (string \<Rightarrow> string) \<Rightarrow> (string \<Rightarrow> string) \<Rightarrow> bool \<Rightarrow> target \<Rightarrow> driver_options \<Rightarrow> string list \<Rightarrow> job list \<Rightarrow> job list option"
where
  "prepareJobs isDirectory exists' findLibrary defaultPath hostTarget t o' clangArgs jobs =
     (if enforces o' \<and> doLedger o' \<noteq> [] \<and> \<not> isDirectory (doLedger o') \<and> countLedgers jobs > 1 then None
      else map_option (replaceMissingLtoLibrary exists')
        (if enforces o' then addRuntimeLibraries findLibrary defaultPath hostTarget t o' (linksStatically clangArgs) jobs
         else Some jobs))"

text \<open>The run of the jobs: the first that fails ends it, a negative code counts as 1.\<close>

fun runJobs :: "(job \<Rightarrow> int) \<Rightarrow> job list \<Rightarrow> int" where
  "runJobs execute [] = 0"
| "runJobs execute (j # jobs) =
     (let rc = execute j in if rc \<noteq> 0 then (if rc < 0 then 1 else rc) else runJobs execute jobs)"

subsection \<open>Flags mean the same in every job\<close>

text \<open>The options but for the rpath, which only the link reads.\<close>

abbreviation compileOptions :: "driver_options \<Rightarrow> driver_options" where
  "compileOptions o' \<equiv> o'\<lparr>doRpath := None\<rparr>"

definition replays :: "string \<Rightarrow> driver_options \<Rightarrow> driver_options \<Rightarrow> bool" where
  "replays arg o' o'' \<longleftrightarrow>
     (doSpellings o'' = doSpellings o' @ [arg] \<and> consume (compileOptions o') arg = Some (None, compileOptions o'')) \<or>
     (doSpellings o'' = doSpellings o' \<and> compileOptions o'' = compileOptions o')"

text \<open>A flag is consumed, or not, whatever the options are, and does the same to them.\<close>

lemma consumeValueFlag_replays:
  "consumeValueFlag o' arg = Some (None, o'') \<Longrightarrow>
   doSpellings o'' = doSpellings o' @ [arg] \<and> consumeValueFlag (compileOptions o') arg = Some (None, compileOptions o'')"
  by (auto simp: consumeValueFlag_def recorded_def Let_def split: prod.splits if_splits option.splits)

lemma consumeNamed_replays:
  "consumeNamed o' arg v n = Some (None, o'') \<Longrightarrow>
   doSpellings o'' = doSpellings o' @ [arg] \<and> consumeNamed (compileOptions o') arg v n = Some (None, compileOptions o'')"
  by (auto simp: consumeNamed_def recorded_def split: if_splits)

lemma consumeValueFlag_None: "consumeValueFlag o' arg = None \<longleftrightarrow> consumeValueFlag o'' arg = None"
  by (auto simp: consumeValueFlag_def Let_def split: prod.splits if_splits option.splits)

lemma consume_replays:
  assumes c: "consume o' arg = Some (None, o'')"
  shows "replays arg o' o''"
proof (cases "consumeValueFlag o' arg")
  case None
  have none: "consumeValueFlag (compileOptions o') arg = None"
    using consumeValueFlag_None [of o' arg "compileOptions o'"] None by simp
  consider (rpath) "arg = ''-fno-weavec-rpath'' \<or> hasPrefix ''-fweavec-rpath'' arg"
    | (no) "\<not> (arg = ''-fno-weavec-rpath'' \<or> hasPrefix ''-fweavec-rpath'' arg)" "hasPrefix ''-fno-'' arg"
    | (yes) "\<not> (arg = ''-fno-weavec-rpath'' \<or> hasPrefix ''-fweavec-rpath'' arg)" "\<not> hasPrefix ''-fno-'' arg" by blast
  then show ?thesis
  proof cases
    case rpath
    then show ?thesis using c None by (auto simp: consume_def replays_def Let_def split: if_splits)
  next
    case no
    then have "consumeNamed o' arg False (drop 5 arg) = Some (None, o'')" using c None by (simp add: consume_def)
    from consumeNamed_replays [OF this] no none show ?thesis by (simp add: replays_def consume_def)
  next
    case yes
    then have "consumeNamed o' arg True (drop 2 arg) = Some (None, o'')" "hasPrefix ''-f'' arg"
      using c None by (simp_all add: consume_def split: if_splits)
    from consumeNamed_replays [OF this(1)] this(2) yes none show ?thesis by (simp add: replays_def consume_def)
  qed
next
  case (Some r)
  then have "consumeValueFlag o' arg = Some (None, o'')" using c by (simp add: consume_def)
  from consumeValueFlag_replays [OF this] show ?thesis by (simp add: replays_def consume_def)
qed

lemma consume_None: "consume o' arg = None \<longleftrightarrow> consume o'' arg = None"
proof (cases "consumeValueFlag o' arg")
  case None
  moreover from None have "consumeValueFlag o'' arg = None" by (subst consumeValueFlag_None)
  ultimately show ?thesis by (simp add: consume_def Let_def consumeNamed_def)
next
  case (Some r)
  then have "consumeValueFlag o'' arg \<noteq> None" by (subst consumeValueFlag_None [of _ _ o']) simp
  then show ?thesis using Some by (auto simp: consume_def)
qed

lemma consumeArgs_append:
  "consumeArgs o' (xs @ ys) =
     (case consumeArgs o' xs of Inl e \<Rightarrow> Inl e
      | Inr (o1, rest) \<Rightarrow> (case consumeArgs o1 ys of Inl e \<Rightarrow> Inl e | Inr (o2, rest') \<Rightarrow> Inr (o2, rest @ rest')))"
  by (induction xs arbitrary: o') (auto split: option.splits sum.splits prod.splits)

text \<open>Options that replaying their own spellings gives back.\<close>

definition faithful :: "driver_options \<Rightarrow> bool" where
  "faithful o' \<longleftrightarrow> consumeArgs defaultOptions (doSpellings o') = Inr (compileOptions o', [])"

lemma faithful_default: "faithful defaultOptions"
  by (simp add: faithful_def defaultOptions_def)

lemma faithful_replays: "faithful o' \<Longrightarrow> replays arg o' o'' \<Longrightarrow> faithful o''"
  by (auto simp: faithful_def replays_def consumeArgs_append)

lemma scanArgs_faithful:
  "scanArgs isSource st args = ScanDone st' \<Longrightarrow> faithful (dsOptions st) \<Longrightarrow> faithful (dsOptions st')"
proof (induction args arbitrary: st)
  case (Cons arg args)
  show ?case
  proof (cases "consume (dsOptions st) arg")
    case None
    then show ?thesis
      using Cons by (auto simp: noteArgument_def Let_def split: if_splits)
  next
    case (Some r)
    then obtain o' where o': "consume (dsOptions st) arg = Some (None, o')"
      "scanArgs isSource (st\<lparr>dsOptions := o'\<rparr>) args = ScanDone st'"
      using Cons.prems(1) by (auto split: prod.splits option.splits)
    then show ?thesis using Cons.IH [OF o'(2)] faithful_replays [OF Cons.prems(2) consume_replays [OF o'(1)]] by simp
  qed
qed simp

lemma withObstacle_faithful:
  assumes "faithful o'" "withObstacle targetOf triple args o' = (o'', off)"
  shows "faithful o''"
proof -
  have "consume o' ''-fweavec-checks=none'' = Some (None, recorded ''-fweavec-checks=none'' (o'\<lparr>doChecks := ChecksNone\<rparr>))"
    by (simp add: consume_def consumeValueFlag_def splitEquals_def checksOf_def)
  from faithful_replays [OF assms(1) consume_replays [OF this]] show ?thesis
    using assms by (auto simp: withObstacle_def Let_def split: if_splits)
qed

text \<open>A -cc1 line holds Clang's arguments beside the flags; they do not change what the flags mean.\<close>

lemma consumeArgs_filter:
  "consumeArgs o' (filter (\<lambda>a. consume defaultOptions a \<noteq> None) args) = Inr (o'', rest) \<Longrightarrow>
   \<exists>rest'. consumeArgs o' args = Inr (o'', rest')"
proof (induction args arbitrary: o' rest)
  case (Cons a args)
  show ?case
  proof (cases "consume o' a")
    case None
    then have "consume defaultOptions a = None" using consume_None by blast
    then show ?thesis using Cons None by fastforce
  next
    case (Some r)
    then have "consume defaultOptions a \<noteq> None" using consume_None [of o' a defaultOptions] by simp
    then show ?thesis using Cons Some by (auto split: option.splits prod.splits)
  qed
qed simp


definition linuxTarget :: target where
  "linuxTarget = \<lparr>tgArch64 = True, tgDarwin = False, tgLinux = True, tgGnu = True, tgAndroid = False\<rparr>"

definition plainConfig :: compiler_config where
  "plainConfig = \<lparr>ccZeroInit = False, ccZeroInitMaxSize = 0, ccUseAfterScope = False, ccSanitize = {}, ccRecover = {},
     ccDebugInfo = False, ccLocTracking = False, ccColumnInfo = False, ccMode = None, ccColors = False, ccMacros = [], ccUndefs = [], ccLlvmArgs = []\<rparr>"

definition plainC :: language where
  "plainC = \<lparr>lgCPlusPlus = False, lgObjC = False, lgOpenCL = False, lgCUDA = False\<rparr>"


subsection \<open>The runtime on the link line\<close>

lemma wholeAfter_append: "wholeAfter (xs @ ys) w = wholeAfter ys (wholeAfter xs w)"
  by (simp add: wholeAfter_def)

lemma wholeAfter_flags [simp]:
  "wholeAfter [] w = w" "wholeAfter (''--whole-archive'' # xs) w = wholeAfter xs True"
  "wholeAfter (''--no-whole-archive'' # xs) w = wholeAfter xs False"
  "wholeAfter (''-rpath'' # xs) w = wholeAfter xs w" "wholeAfter (''-lpthread'' # xs) w = wholeAfter xs w"
  by (simp_all add: wholeAfter_def ltrimDash_def)

definition plainArg :: "string \<Rightarrow> bool" where
  "plainArg a \<longleftrightarrow> \<not> isLibrary a \<and> ltrimDash a \<noteq> ''whole-archive'' \<and> ltrimDash a \<noteq> ''no-whole-archive''"

lemma wholeAfter_plain: "plainArg a \<Longrightarrow> wholeAfter (a # xs) w = wholeAfter xs w"
  by (simp add: wholeAfter_def plainArg_def)



end
