(* ===== verification/Alloc_Classes.thy ===== *)
theory Alloc_Classes
  imports Shadow
begin

text \<open>
  The size classes of \<open>runtime/weavec_alloc.c\<close>: which class a request takes, the table of
  classes with the multiplier that replaces the division by a class's size, and the slot of an address.
  Class sizes are natural numbers: the largest is \<open>2 ^ 30\<close>, so the 32-bit fields of the table hold them.
\<close>

subsection \<open>Classes\<close>

abbreviation WeavecRtClassCount :: nat where "WeavecRtClassCount \<equiv> 100"
abbreviation WeavecRtRegionCount :: nat where "WeavecRtRegionCount \<equiv> 160"
abbreviation WeavecRtSmallClasses :: nat where "WeavecRtSmallClasses \<equiv> 8"
abbreviation WeavecRtMaxClassShift :: nat where "WeavecRtMaxClassShift \<equiv> 30"

text \<open>\<open>63 - __builtin_clzll(n)\<close> for a number that is not zero.\<close>

fun ilog2 :: "nat \<Rightarrow> nat" where
  "ilog2 n = (if n \<le> 1 then 0 else Suc (ilog2 (n div 2)))"

declare ilog2.simps [simp del]

text \<open>The sum and the difference wrap in 64 bits, the quotient is cut to 32.\<close>

definition classFor :: "u64 \<Rightarrow> nat" where
  "classFor sz =
     (let need = sz + 1
      in if need \<le> 128 then unat (ucast ((need - 1) div 16) :: u32)
         else if need > 2 ^ WeavecRtMaxClassShift then WeavecRtClassCount
         else
           let k = ilog2 (unat (need - 1)) - 2;
               m = unat (drop_bit k (need - 1)) + 1
           in WeavecRtSmallClasses + 4 * (k - 5) + (m - 5))"

definition powerClass :: "u64 \<Rightarrow> nat" where
  "powerClass bytes = classFor (bytes - 1)"

record slot_class =
  clSize :: nat
  clMagic :: nat
  clShift :: nat
  clCapacity :: nat

fun normalizeClass :: "nat \<Rightarrow> nat \<Rightarrow> nat \<times> nat" where
  "normalizeClass m k = (if m mod 2 = 0 \<and> m > 1 then normalizeClass (m div 2) (Suc k) else (m, k))"

declare normalizeClass.simps [simp del]

definition classGeometry :: "nat \<Rightarrow> nat \<times> nat" where
  "classGeometry index' =
     (if index' < WeavecRtSmallClasses then normalizeClass (index' + 1) 4
      else normalizeClass (5 + (index' - WeavecRtSmallClasses) mod 4) (5 + (index' - WeavecRtSmallClasses) div 4))"

definition classEntry :: "nat \<Rightarrow> slot_class" where
  "classEntry index' =
     (case classGeometry index' of (m, k) \<Rightarrow>
        \<lparr>clSize = m * 2 ^ k, clMagic = (if m = 1 then 0 else (2 ^ 32 + m - 1) div m), clShift = k, clCapacity = 0\<rparr>)"

text \<open>The loop of \<open>buildClasses\<close>: it stops at a class larger than a quarter of its region.\<close>

function buildFrom :: "nat \<Rightarrow> nat \<Rightarrow> slot_class list" where
  "buildFrom shift index' =
     (if index' < WeavecRtClassCount \<and> clSize (classEntry index') \<le> 2 ^ (shift - 2)
      then (classEntry index')\<lparr>clCapacity := 2 ^ shift div clSize (classEntry index')\<rparr> # buildFrom shift (Suc index')
      else [])"
  by pat_completeness auto
termination
  by (relation "measure (\<lambda>(_, i). WeavecRtClassCount - i)") auto

declare buildFrom.simps [simp del]

definition buildClasses :: "nat \<Rightarrow> slot_class list" where
  "buildClasses shift = buildFrom shift 0"

text \<open>The table \<open>reserve\<close> leaves: the classes, and the one slot of a spare that is never allocated.\<close>

definition spareEntry :: "nat \<Rightarrow> slot_class" where
  "spareEntry shift = \<lparr>clSize = 2 ^ (shift - 1), clMagic = 0, clShift = shift, clCapacity = 0\<rparr>"

definition initialTable :: "nat \<Rightarrow> nat \<Rightarrow> slot_class" where
  "initialTable shift region =
     (if region < length (buildClasses shift) then buildClasses shift ! region else spareEntry shift)"

subsection \<open>The slot of an address\<close>

text \<open>The multiplication is in 64 bits, its upper half the index.\<close>

definition slotIndex :: "slot_class \<Rightarrow> nat \<Rightarrow> nat" where
  "slotIndex entry within =
     (let units = within div 2 ^ clShift entry
      in (if clMagic entry = 0 then units else (units * clMagic entry) mod 2 ^ 64 div 2 ^ 32) mod 2 ^ 32)"

subsection \<open>Lemmas: logarithms and geometry\<close>

lemma ilog2_bounds: "0 < n \<Longrightarrow> 2 ^ ilog2 n \<le> n \<and> n < 2 ^ Suc (ilog2 n)"
proof (induction n rule: ilog2.induct)
  case (1 n)
  show ?case
  proof (cases "n \<le> 1")
    case False
    then have "2 ^ ilog2 (n div 2) \<le> n div 2 \<and> n div 2 < 2 ^ Suc (ilog2 (n div 2))"
      using 1 by simp
    moreover have "ilog2 n = Suc (ilog2 (n div 2))" using False by (subst ilog2.simps) simp
    ultimately show ?thesis by (auto simp: less_mult_imp_div_less)
  qed (use 1 in \<open>simp add: ilog2.simps [of n]\<close>)
qed

lemma ilog2_eq: "2 ^ k \<le> n \<Longrightarrow> n < 2 ^ Suc k \<Longrightarrow> ilog2 n = k"
proof -
  assume a: "2 ^ k \<le> n" "n < 2 ^ Suc k"
  then have "0 < n" using less_le_trans [of 0 "2 ^ k" n] by simp
  note b = ilog2_bounds [OF this]
  have "(2 :: nat) ^ k < 2 ^ Suc (ilog2 n)" "(2 :: nat) ^ ilog2 n < 2 ^ Suc k" using a b by linarith+
  then have "k < Suc (ilog2 n)" "ilog2 n < Suc k" by (simp_all only: power_strict_increasing_iff one_less_numeral_iff semiring_norm)
  then show ?thesis by simp
qed

lemma normalize_parts:
  assumes "normalizeClass m k = (m', k')" "0 < m" "m \<le> 8"
  shows "m' * 2 ^ k' = m * 2 ^ k \<and> m' \<in> {1, 3, 5, 7} \<and> k \<le> k'"
proof -
  have "m = 1 \<or> m = 2 \<or> m = 3 \<or> m = 4 \<or> m = 5 \<or> m = 6 \<or> m = 7 \<or> m = 8" using assms(2,3) by arith
  then show ?thesis using assms(1) by (auto simp: normalizeClass.simps)
qed

definition classSize :: "nat \<Rightarrow> nat" where
  "classSize c = (if c < 8 then (c + 1) * 16 else (5 + (c - 8) mod 4) * 2 ^ (5 + (c - 8) div 4))"

lemma class_shape:
  obtains m k where "m \<in> {1, 3, 5, 7}" "4 \<le> k" "clSize (classEntry c) = m * 2 ^ k" "clSize (classEntry c) = classSize c"
    "clShift (classEntry c) = k" "clMagic (classEntry c) = (if m = 1 then 0 else (2 ^ 32 + m - 1) div m)"
proof -
  obtain m k where g: "classGeometry c = (m, k)" by (cases "classGeometry c")
  show thesis
  proof (cases "c < 8")
    case True
    then have n: "normalizeClass (c + 1) 4 = (m, k)" using g by (simp add: classGeometry_def)
    have p: "m * 2 ^ k = (c + 1) * 2 ^ 4 \<and> m \<in> {1, 3, 5, 7} \<and> 4 \<le> k" by (rule normalize_parts [OF n]) (use True in simp_all)
    show thesis by (rule that [of m k]) (use p True g in \<open>simp_all add: classEntry_def classSize_def\<close>)
  next
    case False
    then have n: "normalizeClass (5 + (c - 8) mod 4) (5 + (c - 8) div 4) = (m, k)" using g by (simp add: classGeometry_def)
    have "(c - 8) mod 4 < 4" by simp
    then have "5 + (c - 8) mod 4 \<le> 8" by linarith
    then have p: "m * 2 ^ k = (5 + (c - 8) mod 4) * 2 ^ (5 + (c - 8) div 4) \<and> m \<in> {1, 3, 5, 7} \<and> 5 + (c - 8) div 4 \<le> k"
      by (intro normalize_parts [OF n]) simp_all
    show thesis by (rule that [of m k]) (use p False g in \<open>simp_all add: classEntry_def classSize_def\<close>)
  qed
qed

lemma clSize_classSize: "clSize (classEntry c) = classSize c"
  by (rule class_shape [of c]) simp

lemma classSize_pos: "16 \<le> classSize c"
proof (cases "c < 8")
  case False
  have "(5 :: nat) * 2 ^ 5 \<le> (5 + (c - 8) mod 4) * 2 ^ (5 + (c - 8) div 4)"
    by (intro mult_le_mono power_increasing) simp_all
  then show ?thesis using False by (simp add: classSize_def)
qed (simp add: classSize_def)

lemma classSize_above: "r < 4 \<Longrightarrow> classSize (8 + (4 * j + r)) = (5 + r) * 2 ^ (5 + j)"
  by (simp add: classSize_def)

lemma classSize_step: "classSize c < classSize (Suc c)"
proof (cases "c < 8")
  case True
  then consider "c < 7" | "c = 7" by linarith
  then show ?thesis by cases (simp_all add: classSize_def)
next
  case False
  define j r where "j = (c - 8) div 4" and "r = (c - 8) mod 4"
  have c: "c = 8 + (4 * j + r)" "r < 4" using False by (simp_all add: j_def r_def)
  show ?thesis
  proof (cases "r = 3")
    case True
    then have "Suc c = 8 + (4 * Suc j + 0)" using c by simp
    then show ?thesis using classSize_above [of 0 "Suc j"] classSize_above [of 3 j] c True by (simp add: power_add)
  next
    case False
    then have "Suc c = 8 + (4 * j + Suc r)" "Suc r < 4" using c by simp_all
    then show ?thesis using classSize_above [of "Suc r" j] classSize_above [of r j] c by simp
  qed
qed

lemma classSize_mono: "c < c' \<Longrightarrow> classSize c < classSize c'"
  using lift_Suc_mono_less [of classSize c c'] classSize_step by blast

lemma classSize_last: "classSize 99 = 2 ^ 30"
  by (simp add: classSize_def)

lemma classSize_le: "c < WeavecRtClassCount \<Longrightarrow> classSize c \<le> 2 ^ 30"
  using classSize_mono [of c 99] classSize_last by (cases "c = 99") auto

text \<open>What the class above the small ones is.\<close>

lemma classFor_large:
  assumes n: "128 \<le> unat sz" "unat sz < 2 ^ 30"
  obtains k q where "5 \<le> k" "4 \<le> q" "q < 8" "q = unat sz div 2 ^ k" "classFor sz = 8 + 4 * (k - 5) + (q - 4)"
proof -
  let ?l = "ilog2 (unat sz)"
  have b: "2 ^ ?l \<le> unat sz" "unat sz < 2 ^ Suc ?l" using ilog2_bounds [of "unat sz"] n(1) by auto
  have l: "7 \<le> ?l"
  proof (rule ccontr)
    assume "\<not> 7 \<le> ?l"
    then have "(2 :: nat) ^ Suc ?l \<le> 2 ^ 7" by (intro power_increasing) simp_all
    then show False using b(2) n(1) by simp
  qed
  define k where "k = ?l - 2"
  have k: "?l = k + 2" "5 \<le> k" using l by (simp_all add: k_def)
  define q where "q = unat sz div 2 ^ k"
  have q: "4 \<le> q" "q < 8"
    using b unfolding q_def k(1) by (simp_all add: less_eq_div_iff_mult_less_eq less_mult_imp_div_less)
  have sz1: "unat (sz + 1) = unat sz + 1" using n(2) by (simp add: unat_word_ariths)
  then have "\<not> sz + 1 \<le> 128" "\<not> sz + 1 > 2 ^ 30" using n by (simp_all add: word_le_nat_alt word_less_nat_alt)
  moreover have "unat (drop_bit k sz) = q" by (simp add: q_def word_nat)
  ultimately have "classFor sz = 8 + 4 * (k - 5) + (q - 4)"
    using q by (simp add: classFor_def Let_def k_def [symmetric])
  then show thesis using that k(2) q q_def by blast
qed

lemma classFor_small:
  assumes "unat sz < 128"
  shows "classFor sz = unat sz div 16"
proof -
  have "unat (sz + 1) = unat sz + 1" using assms by (simp add: unat_word_ariths)
  then have "sz + 1 \<le> 128" using assms by (simp add: word_le_nat_alt)
  moreover have "unat (ucast (sz div 16) :: u32) = unat sz div 16"
    using assms by (simp add: unsigned_ucast_eq take_bit_nat_eq_self unat_div less_mult_imp_div_less)
  ultimately show ?thesis by (simp add: classFor_def Let_def)
qed

lemma classFor_bounds:
  assumes "unat sz < 2 ^ 30"
  shows "classFor sz < WeavecRtClassCount \<and> unat sz < classSize (classFor sz) \<and>
    (0 < classFor sz \<longrightarrow> classSize (classFor sz - 1) \<le> unat sz)"
proof (cases "unat sz < 128")
  case True
  note c = classFor_small [OF this]
  have "unat sz div 16 < 8" using True by (simp add: less_mult_imp_div_less)
  moreover have "unat sz < (unat sz div 16 + 1) * 16" "unat sz div 16 * 16 \<le> unat sz" by simp_all
  ultimately show ?thesis by (simp add: c classSize_def)
next
  case False
  then have ge: "128 \<le> unat sz" by simp
  obtain k q where kq: "5 \<le> k" "4 \<le> q" "q < 8" "q = unat sz div 2 ^ k" "classFor sz = 8 + 4 * (k - 5) + (q - 4)"
    by (rule classFor_large [OF ge assms])
  have low: "q * 2 ^ k \<le> unat sz" unfolding kq(4) by simp
  have up: "unat sz < (q + 1) * 2 ^ k" unfolding kq(4) using dividend_less_div_times [of "2 ^ k" "unat sz"] by simp
  have kk: "k < 28"
  proof (rule ccontr)
    assume "\<not> k < 28"
    then have "(4 :: nat) * 2 ^ 28 \<le> q * 2 ^ k" using kq(2) by (intro mult_le_mono power_increasing) simp_all
    then show False using low assms by simp
  qed
  have cs: "classSize (classFor sz) = (q + 1) * 2 ^ k"
    using classSize_above [of "q - 4" "k - 5"] kq(1-3,5) by (simp add: add.assoc)
  have prev: "classSize (classFor sz - 1) = q * 2 ^ k"
  proof -
    consider "q = 4" "k = 5" | "q = 4" "5 < k" | "4 < q" using kq(1,2) by linarith
    then show ?thesis
    proof cases
      case 1
      then show ?thesis using kq(5) by (simp add: classSize_def)
    next
      case 2
      define j where "j = k - 6"
      have k: "k = j + 6" using 2 by (simp add: j_def)
      have "classFor sz - 1 = 8 + (4 * j + 3)" using kq(5) 2 k by simp
      moreover have "(4 * j + 3) mod 4 = 3" "(4 * j + 3) div 4 = j" by presburger+
      ultimately show ?thesis using 2 k by (simp add: classSize_def power_add)
    next
      case 3
      define j where "j = k - 5"
      have k: "k = j + 5" using kq(1) by (simp add: j_def)
      define i where "i = q - 5"
      have q: "q = i + 5" "i < 3" using 3 kq(3) by (simp_all add: i_def)
      have "classFor sz - 1 = 8 + (4 * j + i)" using kq(5) k q by simp
      moreover have "(4 * j + i) mod 4 = i" "(4 * j + i) div 4 = j" using q(2) by simp_all
      ultimately show ?thesis using k q by (simp add: classSize_def add.commute)
    qed
  qed
  have "classFor sz < WeavecRtClassCount" using kq kk by simp
  then show ?thesis using cs prev low up by simp
qed

lemma classFor_none: "2 ^ 30 \<le> unat sz \<Longrightarrow> WeavecRtClassCount \<le> classFor sz"
proof (cases "sz = - 1")
  case True
  then show ?thesis by (simp add: classFor_def)
next
  case False
  assume big: "2 ^ 30 \<le> unat sz"
  have "unat sz \<noteq> unat (- 1 :: u64)" using False word_unat_eq_iff by blast
  then have "unat sz + 1 < 2 ^ 64" using unsigned_less [of sz, where 'a = nat]
    by (simp add: unsigned_minus_1_eq_mask mask_eq_exp_minus_1)
  then have "unat (sz + 1) = unat sz + 1" by (simp add: unat_word_ariths)
  then have "\<not> sz + 1 \<le> 128" "sz + 1 > 2 ^ 30" using big by (simp_all add: word_le_nat_alt word_less_nat_alt)
  then show ?thesis by (simp add: classFor_def)
qed

subsection \<open>Lemmas: the multiplier\<close>

text \<open>Multiplying by a rounded-up reciprocal divides while the error stays below the divisor.\<close>

lemma reciprocal_div:
  fixes u m :: nat
  assumes m: "0 < m" and r: "r < m" and eq: "magic * m = 2 ^ 32 + r" and u: "u * r < 2 ^ 32"
  shows "u * magic div 2 ^ 32 = u div m"
proof (rule div_nat_eqI)
  have "u div m * m \<le> u" by simp
  then have "u div m * m * 2 ^ 32 \<le> u * 2 ^ 32" by (rule mult_le_mono1)
  also have "\<dots> \<le> u * (magic * m)" by (simp add: eq)
  finally have "(u div m * 2 ^ 32) * m \<le> (u * magic) * m" by (simp add: ac_simps)
  then show "2 ^ 32 * (u div m) \<le> u * magic" using m by (simp add: ac_simps)
  have "u < (u div m + 1) * m" using dividend_less_div_times [OF m, of u] by simp
  then have "u + 1 \<le> (u div m + 1) * m" by simp
  then have "(u + 1) * 2 ^ 32 \<le> (u div m + 1) * m * 2 ^ 32" by (rule mult_le_mono1)
  moreover have "u * (magic * m) < (u + 1) * 2 ^ 32" unfolding eq using u by (simp add: algebra_simps)
  ultimately have "u * (magic * m) < (u div m + 1) * m * 2 ^ 32" by (rule order_less_le_trans [rotated])
  then have "(u * magic) * m < (2 ^ 32 * Suc (u div m)) * m" by (simp only: ac_simps Suc_eq_plus1)
  then show "u * magic < 2 ^ 32 * Suc (u div m)" by (simp only: mult_less_cancel2)
qed

lemma magic_error:
  assumes "m \<in> {3, 5, 7 :: nat}"
  obtains r where "r < m" "(2 ^ 32 + m - 1) div m * m = 2 ^ 32 + r"
  using assms that by auto

lemma slotIndex_div:
  assumes "within < 2 ^ 31"
  shows "slotIndex (classEntry c) within = within div classSize c"
proof -
  obtain m k where mk: "m \<in> {1, 3, 5, 7}" "4 \<le> k" "clSize (classEntry c) = m * 2 ^ k" "clSize (classEntry c) = classSize c"
    "clShift (classEntry c) = k" "clMagic (classEntry c) = (if m = 1 then 0 else (2 ^ 32 + m - 1) div m)"
    by (rule class_shape)
  define u where "u = within div 2 ^ k"
  have "(2 :: nat) ^ 4 \<le> 2 ^ k" using mk(2) by (intro power_increasing) simp_all
  then have "u \<le> within div 16" unfolding u_def by (intro div_le_mono2) simp_all
  then have u: "u < 2 ^ 27" using assms by (simp add: less_mult_imp_div_less order_le_less_trans)
  have size: "within div classSize c = u div m"
    using mk(3,4) by (simp add: u_def mult.commute [of m] flip: div_mult2_eq)
  show ?thesis
  proof (cases "m = 1")
    case True
    then show ?thesis using mk(5,6) u size by (simp add: slotIndex_def u_def [symmetric])
  next
    case False
    then have m: "m \<in> {3, 5, 7}" using mk(1) by blast
    then obtain r where r: "r < m" "(2 ^ 32 + m - 1) div m * m = 2 ^ 32 + r" using magic_error by blast
    define magic where "magic = (2 ^ 32 + m - 1) div m"
    have "magic * m < 2 ^ 33" using r m unfolding magic_def by auto
    moreover have "magic \<le> magic * m" using m by auto
    ultimately have mg: "magic < 2 ^ 33" "magic \<noteq> 0" using r(2) unfolding magic_def [symmetric]
      by (linarith, intro notI, simp)
    have "u * magic < 2 ^ 27 * 2 ^ 33" using u mg(1) by (intro mult_strict_mono) simp_all
    moreover have "u * r < 2 ^ 32" using mult_strict_mono [of u "2 ^ 27" r 7] u r(1) m by auto
    then have "u * magic div 2 ^ 32 = u div m"
      using reciprocal_div [of m r magic u] r m unfolding magic_def by auto
    moreover have "u div m < 2 ^ 32" by (rule order_le_less_trans [OF div_le_dividend]) (use u in simp)
    moreover have "clMagic (classEntry c) = magic" using False mk(6) by (simp add: magic_def)
    ultimately show ?thesis
      using mk(5) size mg(2) by (simp add: slotIndex_def u_def [symmetric])
  qed
qed

subsection \<open>Lemmas: the table\<close>

lemma buildFrom_nth:
  "i < length (buildFrom shift index') \<Longrightarrow>
   index' + i < WeavecRtClassCount \<and> classSize (index' + i) \<le> 2 ^ (shift - 2) \<and>
   buildFrom shift index' ! i = (classEntry (index' + i))\<lparr>clCapacity := 2 ^ shift div classSize (index' + i)\<rparr>"
proof (induction shift index' arbitrary: i rule: buildFrom.induct)
  case (1 shift index' i)
  have c: "index' < WeavecRtClassCount \<and> clSize (classEntry index') \<le> 2 ^ (shift - 2)"
    using 1(2) buildFrom.simps [of shift index'] by (metis less_nat_zero_code list.size(3))
  note ih = 1(1) [OF c, of "i - 1"]
  have b: "buildFrom shift index' = (classEntry index')\<lparr>clCapacity := 2 ^ shift div clSize (classEntry index')\<rparr> #
      buildFrom shift (Suc index')" using c by (subst buildFrom.simps) simp
  show ?case using ih 1(2) b c by (cases i) (simp_all add: clSize_classSize)
qed

lemma buildFrom_length:
  "classSize n \<le> 2 ^ (shift - 2) \<Longrightarrow> n < WeavecRtClassCount \<Longrightarrow> index' \<le> n \<Longrightarrow> n < index' + length (buildFrom shift index')"
proof (induction shift index' rule: buildFrom.induct)
  case (1 shift index')
  have "classSize index' \<le> classSize n" using 1(4) classSize_mono [of index' n] by (cases "index' = n") auto
  then have c: "index' < WeavecRtClassCount \<and> clSize (classEntry index') \<le> 2 ^ (shift - 2)"
    using 1(2-4) by (simp add: clSize_classSize)
  then have "length (buildFrom shift index') = Suc (length (buildFrom shift (Suc index')))" by (subst buildFrom.simps) simp
  then show ?case using 1(1) [OF c 1(2,3)] 1(4) by (cases "index' = n") auto
qed

lemma buildClasses_nth:
  assumes "c < length (buildClasses shift)"
  shows "c < WeavecRtClassCount" "buildClasses shift ! c = (classEntry c)\<lparr>clCapacity := 2 ^ shift div classSize c\<rparr>"
    "classSize c \<le> 2 ^ (shift - 2)"
  using buildFrom_nth [of c shift 0] assms by (simp_all add: buildClasses_def)

lemma buildClasses_has:
  "classSize c \<le> 2 ^ (shift - 2) \<Longrightarrow> c < WeavecRtClassCount \<Longrightarrow> c < length (buildClasses shift)"
  using buildFrom_length [of c shift 0] by (simp add: buildClasses_def)

lemma buildClasses_length: "length (buildClasses shift) \<le> WeavecRtClassCount"
proof (rule ccontr)
  assume "\<not> length (buildClasses shift) \<le> WeavecRtClassCount"
  then show False using buildClasses_nth(1) [of WeavecRtClassCount shift] by simp
qed

text \<open>What every region of a table has: the classes' and, once a class takes one, a spare's.\<close>

definition entry_ok :: "nat \<Rightarrow> slot_class \<Rightarrow> bool" where
  "entry_ok shift entry \<longleftrightarrow>
     (\<exists>c < WeavecRtClassCount. entry = (classEntry c)\<lparr>clCapacity := 2 ^ shift div classSize c\<rparr> \<and> classSize c \<le> 2 ^ (shift - 2))"

lemma entry_ok_facts:
  assumes "entry_ok shift entry" "shift \<le> 31"
  shows "16 \<le> clSize entry" "16 dvd clSize entry" "clSize entry \<le> 2 ^ 29" "clCapacity entry = 2 ^ shift div clSize entry"
    "within < 2 ^ shift \<Longrightarrow> slotIndex entry within = within div clSize entry"
proof -
  obtain c where c: "entry = (classEntry c)\<lparr>clCapacity := 2 ^ shift div classSize c\<rparr>" "classSize c \<le> 2 ^ (shift - 2)"
    using assms(1) by (auto simp: entry_ok_def)
  show "16 \<le> clSize entry" using c classSize_pos by (simp add: clSize_classSize)
  show "clCapacity entry = 2 ^ shift div clSize entry" using c by (simp add: clSize_classSize)
  have "(2 :: nat) ^ (shift - 2) \<le> 2 ^ 29" using assms(2) by (intro power_increasing) simp_all
  then show "clSize entry \<le> 2 ^ 29" using c by (simp add: clSize_classSize)
  obtain m k where mk: "4 \<le> k" "clSize (classEntry c) = m * 2 ^ k" by (rule class_shape [of c])
  have "(2 :: nat) ^ 4 dvd 2 ^ k" using mk(1) by (rule le_imp_power_dvd)
  then show "16 dvd clSize entry" using c mk(2) by simp
  show "slotIndex entry within = within div clSize entry" if w: "within < 2 ^ shift"
  proof -
    have "(2 :: nat) ^ shift \<le> 2 ^ 31" using assms(2) by (intro power_increasing) simp_all
    then have "slotIndex (classEntry c) within = within div classSize c" using w by (intro slotIndex_div) linarith
    moreover have "slotIndex entry within = slotIndex (classEntry c) within" using c by (simp add: slotIndex_def Let_def)
    ultimately show ?thesis using c by (simp add: clSize_classSize)
  qed
qed

lemma initialTable_ok: "c < length (buildClasses shift) \<Longrightarrow> entry_ok shift (initialTable shift c)"
  using buildClasses_nth [of c shift] by (auto simp: initialTable_def entry_ok_def)

subsection \<open>Properties\<close>

text \<open>
  C35: A request takes the smallest class whose slots are strictly larger than it, so that at least one byte
  after the object belongs to no object; a request of 2^30 bytes or more, the largest 64-bit number
  included, takes none.
\<close>

theorem classFor_smallest:
  "(unat sz < 2 ^ 30 \<longrightarrow>
      classFor sz < WeavecRtClassCount \<and> unat sz < clSize (classEntry (classFor sz)) \<and>
      (\<forall>c. unat sz < clSize (classEntry c) \<longrightarrow> classFor sz \<le> c)) \<and>
   (2 ^ 30 \<le> unat sz \<longrightarrow> WeavecRtClassCount \<le> classFor sz)"
proof -
  have "classFor sz \<le> c" if s: "unat sz < 2 ^ 30" and c: "unat sz < classSize c" for c
  proof (rule ccontr)
    assume "\<not> classFor sz \<le> c"
    then have "c = classFor sz - 1 \<or> c < classFor sz - 1" by linarith
    then have "classSize c \<le> classSize (classFor sz - 1)"
      using classSize_mono [of c "classFor sz - 1"] by auto
    then show False using classFor_bounds [OF s] c \<open>\<not> classFor sz \<le> c\<close> by linarith
  qed
  then show ?thesis using classFor_bounds [of sz] classFor_none [of sz] by (simp add: clSize_classSize)
qed

theorem classFor_smallest_witness: "classFor 128 = 8 \<and> clSize (classEntry 8) = 160 \<and> 100 \<le> classFor (- 1)"
proof -
  have "classFor 128 \<le> 8" using classFor_smallest [of 128] by (auto simp: clSize_classSize classSize_def)
  moreover have "unat (128 :: u64) < classSize (classFor 128)" using classFor_smallest [of 128] by (simp add: clSize_classSize)
  then have "\<not> classFor 128 < 8" using classSize_mono [of "classFor 128" 8] by (auto simp: classSize_def split: if_splits)
  ultimately show ?thesis using classFor_smallest [of "- 1"]
    by (simp add: clSize_classSize classSize_def unsigned_minus_1_eq_mask mask_eq_exp_minus_1)
qed

text \<open>
  C36: The slot of an offset in a region, computed with a multiplication by a 32-bit reciprocal, is the
  quotient of the offset and the class's size, for every class and every offset of a region of up to 2 GiB.
\<close>

theorem slotIndex_exact:
  assumes "shift \<le> 31" "c < length (buildClasses shift)" "within < 2 ^ shift"
  shows "slotIndex (buildClasses shift ! c) within = within div clSize (buildClasses shift ! c)"
proof -
  have "entry_ok shift (buildClasses shift ! c)" using initialTable_ok [OF assms(2)] assms(2) by (simp add: initialTable_def)
  then show ?thesis by (rule entry_ok_facts(5) [OF _ assms(1,3)])
qed

theorem slotIndex_exact_witness: "slotIndex (buildClasses 31 ! 2) 2147483647 = 44739242"
proof -
  have "2 < length (buildClasses 31)" by (rule buildClasses_has) (simp_all add: classSize_def)
  then show ?thesis
    using slotIndex_exact [of 31 2 2147483647] buildClasses_nth(2) [of 2 31]
    by (simp add: clSize_classSize classSize_def)
qed

end
