(* ===== verification/Alloc_State.thy ===== *)
theory Alloc_State
  imports Alloc_Classes Shadow_Write
begin

text \<open>
  The state of the heap of \<open>runtime/weavec_alloc.c\<close> and its slots: the slot words, the regions, the
  threads' caches, the quarantine, the spare regions. A call into the allocator is one step: the code
  takes a region's lock around each change of its lists, and a thread's cache is its own.

  Indices of slots and regions and the bytes of a region are natural numbers, which the table bounds; slot
  words, addresses and the shared counters are words. What the system answers is an argument: whether
  memory could be made accessible or mapped, the clock, the words the scan of the process found.
\<close>

subsection \<open>Slot words and cached slots\<close>

abbreviation WeavecRtNever :: u32 where "WeavecRtNever \<equiv> 0"
abbreviation WeavecRtLive :: u32 where "WeavecRtLive \<equiv> 1"
abbreviation WeavecRtFree :: u32 where "WeavecRtFree \<equiv> 2"
abbreviation WeavecRtDead :: u32 where "WeavecRtDead \<equiv> 3"
text \<open>\<open>CachedDead\<close> is \<open>2 ^ 30 - 1\<close>.\<close>

abbreviation CachedDead :: nat where "CachedDead \<equiv> 0x3FFFFFFF"

definition weavecRtWordValue :: "u32 \<Rightarrow> nat" where
  "weavecRtWordValue word = unat (drop_bit 2 word)"

definition wordState :: "u32 \<Rightarrow> u32" where
  "wordState word = word AND 3"

definition slotWord :: "nat \<Rightarrow> u32 \<Rightarrow> u32" where
  "slotWord v st = push_bit 2 (word_of_nat v) OR st"

text \<open>The top bit keeps a sweep that reads the cache from taking an entry for a pointer.\<close>

definition slotEntry :: "nat \<Rightarrow> nat \<Rightarrow> bool \<Rightarrow> u64" where
  "slotEntry region slot used =
     push_bit 63 1 OR push_bit 32 (word_of_nat region) OR push_bit 1 (word_of_nat slot) OR (if used then 1 else 0)"

definition entryRegion :: "u64 \<Rightarrow> nat" where
  "entryRegion entry = unat (drop_bit 32 entry AND 0xFF)"

definition entrySlot :: "u64 \<Rightarrow> nat" where
  "entrySlot entry = unat (drop_bit 1 entry AND 0x7FFFFFFF)"

definition entryUsed :: "u64 \<Rightarrow> bool" where
  "entryUsed entry \<longleftrightarrow> entry AND 1 \<noteq> 0"

subsection \<open>The state\<close>

record region_state =
  rsBump :: nat
  rsFreeHead :: nat
  rsDeadHead :: nat
  rsDeadTail :: nat
  rsMarks :: "(nat \<Rightarrow> bool) option"
  rsCommitted :: nat
  rsMetaCommitted :: nat

text \<open>The slots of a cache are in the order of its array.\<close>

record thread_cache =
  tcAlloc :: "nat \<Rightarrow> u64 list"
  tcRelease :: "nat \<Rightarrow> u64 list"
  tcLimit :: "nat \<Rightarrow> nat"
  tcLiveDelta :: int
  tcDepth :: nat
  tcLocks :: nat
  tcDeferred :: "u64 list"

datatype cache_value = NoCache | CacheGone | HasCache (theCache: thread_cache)

record huge_block =
  hbBase :: u64
  hbSize :: u64
  hbMap :: u64
  hbMapBytes :: u64
  hbDead :: nat
  hbMarked :: bool

abbreviation NoRegion :: nat where "NoRegion \<equiv> 0xFF"

record heap =
  hpBase :: u64
  hpBytes :: u64
  hpShift :: nat
  hpClasses :: nat
  hpRegions :: nat
  hpTable :: "nat \<Rightarrow> slot_class"
  hpWords :: "nat \<Rightarrow> nat \<Rightarrow> u32"
  hpRegion :: "nat \<Rightarrow> region_state"
  regionNext :: "nat \<Rightarrow> nat"
  regionClass :: "nat \<Rightarrow> nat"
  classActive :: "nat \<Rightarrow> nat"
  classGained :: "nat \<Rightarrow> u64"
  cacheKeyReady :: bool
  cachedClasses :: nat
  cacheOf :: "nat \<Rightarrow> cache_value"
  caches :: "nat list"
  hugeBlocks :: "huge_block list"
  hugeCapacity :: nat
  hugeLow :: u64
  hugeHigh :: u64
  hugeDeadCount :: nat
  hugeDeadBytes :: u64
  hugeReleases :: nat
  pageBytes :: nat
  quarantineBudget :: u64
  quarantineBytes :: u64
  retainedBytes :: u64
  liveBytes :: u64
  peakLive :: u64
  peakQuarantine :: u64
  lastSweepEnd :: u64
  lastSweepTook :: u64
  nextPacingCheck :: u64
  hpShadow :: shadow_t
  hpMem :: "u64 \<Rightarrow> byte"

text \<open>
  What the system answers during a call: \<open>mprotect\<close> of a range, \<open>mmap\<close> of a thread's cache, of a
  huge block, of the table of huge blocks and of the marks, the mapping afresh of shadow pages, the clock,
  whether the sweep has its lock, its own memory, stopped the threads and read every root, the words it
  found outside the heap, and what the next allocator says of a block that is none of this one's.
\<close>

record system =
  osProtect :: "u64 \<Rightarrow> nat \<Rightarrow> bool"
  osCache :: bool
  osHuge :: "u64 option"
  osTable :: bool
  osMarks :: "nat \<Rightarrow> bool"
  osFresh :: bool
  osShadowBase :: u64
  osNow :: u64
  osEnded :: u64
  osSweepLock :: bool
  osWorld :: bool
  osStopped :: bool
  osScanned :: bool
  osRoots :: "u64 list"
  osNextFree :: "u64 \<Rightarrow> bool"
  osNextRealloc :: "u64 \<Rightarrow> u64 \<Rightarrow> u64"
  osNextAlign :: "u64 \<Rightarrow> u64 \<Rightarrow> u64"
  osNextSize :: "u64 \<Rightarrow> u64"

abbreviation setRegion :: "nat \<Rightarrow> region_state \<Rightarrow> heap \<Rightarrow> heap" where
  "setRegion r st h \<equiv> h\<lparr>hpRegion := (hpRegion h)(r := st)\<rparr>"

definition storeWord :: "nat \<Rightarrow> nat \<Rightarrow> u32 \<Rightarrow> heap \<Rightarrow> heap" where
  "storeWord r i v h = h\<lparr>hpWords := (hpWords h)(r := (hpWords h r)(i := v))\<rparr>"

definition setCache :: "nat \<Rightarrow> thread_cache \<Rightarrow> heap \<Rightarrow> heap" where
  "setCache t tc h = h\<lparr>cacheOf := (cacheOf h)(t := HasCache tc)\<rparr>"

definition regionStart :: "heap \<Rightarrow> nat \<Rightarrow> u64" where
  "regionStart h region = hpBase h + push_bit (hpShift h) (word_of_nat region)"

definition shadowSet :: "u64 \<Rightarrow> u64 \<Rightarrow> byte \<Rightarrow> heap \<Rightarrow> heap" where
  "shadowSet base sz v h = h\<lparr>hpShadow := weavecRtShadowSet (hpShadow h) base sz v\<rparr>"

subsection \<open>The slot of an address\<close>

record slot_ref =
  srRegion :: nat
  srSlot :: nat
  srBase :: u64

definition inArena :: "heap \<Rightarrow> u64 \<Rightarrow> bool" where
  "inArena h address \<longleftrightarrow> address - hpBase h < hpBytes h"

definition slotOf :: "heap \<Rightarrow> u64 \<Rightarrow> slot_ref" where
  "slotOf h address =
     (let offset = address - hpBase h;
          region = unat (drop_bit (hpShift h) offset);
          entry = hpTable h region;
          slot = slotIndex entry (unat (offset AND (push_bit (hpShift h) 1 - 1)))
      in \<lparr>srRegion = region, srSlot = slot,
          srBase = regionStart h region + word_of_nat slot * word_of_nat (clSize entry)\<rparr>)"

definition weavecRtColorOfHeap :: "heap \<Rightarrow> u64 \<Rightarrow> byte" where
  "weavecRtColorOfHeap h address =
     (if \<not> inArena h address then 0
      else let ref = slotOf h address in weavecRtColor (word_of_nat (srSlot ref) + word_of_nat (srRegion ref) * 41))"

definition wordOf :: "heap \<Rightarrow> slot_ref \<Rightarrow> u32" where
  "wordOf h ref = hpWords h (srRegion ref) (srSlot ref)"

subsection \<open>The shadow of a slot\<close>

abbreviation TailLimit :: nat where "TailLimit \<equiv> 64 * 1024"
abbreviation DataChunk :: nat where "DataChunk \<equiv> 2 ^ 20"
abbreviation MetaChunk :: nat where "MetaChunk \<equiv> 64 * 1024"

definition shadowLive :: "system \<Rightarrow> u64 \<Rightarrow> u64 \<Rightarrow> u64 \<Rightarrow> heap \<Rightarrow> heap" where
  "shadowLive os base sz slot h =
     (let used = (sz + 15) AND NOT 15;
          h = h\<lparr>hpShadow := weavecRtShadowObject (osShadowBase os) (word_of_nat (pageBytes h)) (osFresh os) (hpShadow h)
                  base sz WeavecRtShadowHeapTail (weavecRtColorOfHeap h base)\<rparr>
      in if slot > used
         then shadowSet (base + used) (if slot - used < word_of_nat TailLimit then slot - used else word_of_nat TailLimit)
                WeavecRtShadowHeapTail h
         else h)"

definition shadowDead :: "u64 \<Rightarrow> u64 \<Rightarrow> heap \<Rightarrow> heap" where
  "shadowDead base slot h = shadowSet base slot WeavecRtShadowHeapFreed h"

text \<open>\<open>zeroFill\<close>: fresh pages read as zero.\<close>

definition zeroFill :: "system \<Rightarrow> nat \<Rightarrow> (u64 \<Rightarrow> byte) \<Rightarrow> u64 \<Rightarrow> u64 \<Rightarrow> (u64 \<Rightarrow> byte)" where
  "zeroFill os page m base sz =
     (let p = word_of_nat page; first = (base + p - 1) AND NOT (p - 1); last' = (base + sz) AND NOT (p - 1)
      in if sz < 16 * p \<or> last' \<le> first \<or> \<not> osFresh os then memset m base 0 (unat sz)
         else
           let m = memset m first 0 (unat (last' - first));
               m = memset m base 0 (unat (first - base))
           in memset m last' 0 (unat (base + sz - last')))"

subsection \<open>Free slots\<close>

definition commit :: "system \<Rightarrow> nat \<Rightarrow> u64 \<Rightarrow> nat \<Rightarrow> nat \<Rightarrow> nat \<Rightarrow> nat \<Rightarrow> bool \<times> nat" where
  "commit os page start committed finish chunk limit =
     (if finish \<le> committed then (True, committed)
      else
        let chunk = max chunk page;
            target = min ((finish + chunk - 1) div chunk * chunk) limit
        in if osProtect os (start + word_of_nat committed) (target - committed) then (True, target) else (False, committed))"

text \<open>
  The address of a region's words is only looked at by \<open>mprotect\<close>: \<open>hpBase + hpBytes\<close> and
  four bytes a granule.
\<close>

definition wordsStart :: "heap \<Rightarrow> nat \<Rightarrow> u64" where
  "wordsStart h region = hpBase h + hpBytes h + push_bit (hpShift h - 2) (word_of_nat region)"

definition popFresh :: "system \<Rightarrow> nat \<Rightarrow> heap \<Rightarrow> (nat \<times> bool) option \<times> heap" where
  "popFresh os region h =
     (let entry = hpTable h region; st = hpRegion h region; limit = 2 ^ hpShift h; before = rsCommitted st; slot = rsBump st
      in if slot \<ge> clCapacity entry then (None, h)
         else
           case commit os (pageBytes h) (regionStart h region) before ((slot + 1) * clSize entry) DataChunk limit of
             (False, com) \<Rightarrow> (None, setRegion region (st\<lparr>rsCommitted := com\<rparr>) h)
           | (True, com) \<Rightarrow>
               (case commit os (pageBytes h) (wordsStart h region) (rsMetaCommitted st) ((slot + 1) * 4) MetaChunk (limit div 4) of
                  (False, mcom) \<Rightarrow> (None, setRegion region (st\<lparr>rsCommitted := com, rsMetaCommitted := mcom\<rparr>) h)
                | (True, mcom) \<Rightarrow>
                    let h = setRegion region (st\<lparr>rsCommitted := com, rsMetaCommitted := mcom, rsBump := slot + 1\<rparr>) h;
                        h = (if com > before
                             then shadowSet (regionStart h region + word_of_nat before)
                                    (if clSize entry \<le> TailLimit then word_of_nat (com - before) else word_of_nat TailLimit)
                                    WeavecRtShadowHeapTail h
                             else h);
                        h = (if before = 0
                             then shadowSet (regionStart h region - 16) 16 WeavecRtShadowHeapTail h
                             else h)
                    in (Some (slot, False), h)))"

definition popSlot :: "system \<Rightarrow> nat \<Rightarrow> heap \<Rightarrow> (nat \<times> bool) option \<times> heap" where
  "popSlot os region h =
     (let st = hpRegion h region
      in if rsFreeHead st \<noteq> 0 then
           let slot = rsFreeHead st - 1
           in (Some (slot, True), setRegion region (st\<lparr>rsFreeHead := weavecRtWordValue (hpWords h region slot)\<rparr>) h)
         else popFresh os region h)"

fun popRegion :: "system \<Rightarrow> nat \<Rightarrow> nat \<Rightarrow> heap \<Rightarrow> u64 list \<times> heap" where
  "popRegion os region 0 h = ([], h)"
| "popRegion os region (Suc want) h =
     (case popSlot os region h of
        (None, h) \<Rightarrow> ([], h)
      | (Some (slot, recycled), h) \<Rightarrow>
          (case popRegion os region want h of (es, h) \<Rightarrow> (slotEntry region slot recycled # es, h)))"

text \<open>
  The regions of a class are linked in the order it took them; \<open>NoRegion\<close> ends the list, after fewer than
  \<open>WeavecRtRegionCount\<close> links.
\<close>

fun lastRegion :: "nat \<Rightarrow> (nat \<Rightarrow> nat) \<Rightarrow> nat \<Rightarrow> nat" where
  "lastRegion 0 nxt r = r"
| "lastRegion (Suc n) nxt r = (if nxt r \<noteq> NoRegion then lastRegion n nxt (nxt r) else r)"

definition takeSpare :: "nat \<Rightarrow> heap \<Rightarrow> bool \<times> heap" where
  "takeSpare c h =
     (let region = hpRegions h
      in if region \<ge> WeavecRtRegionCount then (False, h)
         else
           let final = lastRegion WeavecRtRegionCount (regionNext h) c
           in (True, h\<lparr>hpTable := (hpTable h)(region := hpTable h c), regionClass := (regionClass h)(region := c),
                 hpRegions := region + 1, regionNext := (regionNext h)(final := region),
                 classActive := (classActive h)(c := region)\<rparr>))"

text \<open>The regions of a class one after the other.\<close>

fun popRegions :: "system \<Rightarrow> nat \<Rightarrow> nat \<Rightarrow> nat \<Rightarrow> nat \<Rightarrow> heap \<Rightarrow> u64 list \<times> heap" where
  "popRegions os 0 c region want h = ([], h)"
| "popRegions os (Suc n) c region want h =
     (if region = NoRegion then ([], h)
      else case popRegion os region want h of
             ([], h) \<Rightarrow> popRegions os n c (regionNext h region) want h
           | (e # es, h) \<Rightarrow> (e # es, h\<lparr>classActive := (classActive h)(c := region)\<rparr>))"

subsection \<open>The live heap\<close>

definition addLive :: "int \<Rightarrow> heap \<Rightarrow> heap" where
  "addLive bytes h =
     (let live = liveBytes h + word_of_int bytes
      in h\<lparr>liveBytes := live, peakLive := (if peakLive h <s live then live else peakLive h)\<rparr>)"

definition liveNow :: "heap \<Rightarrow> u64" where
  "liveNow h = (if 0 <s liveBytes h then liveBytes h else 0)"

definition makeLive :: "system \<Rightarrow> u64 \<Rightarrow> u64 \<Rightarrow> nat \<Rightarrow> heap \<Rightarrow> u64 \<times> heap" where
  "makeLive os taken sz slotBytes h =
     (let region = entryRegion taken; slot = entrySlot taken;
          base = regionStart h region + word_of_nat slot * word_of_nat slotBytes;
          h = storeWord region slot (push_bit 2 (ucast sz) OR WeavecRtLive) h;
          h = (if entryUsed taken \<and> sz \<noteq> 0 then h\<lparr>hpMem := zeroFill os (pageBytes h) (hpMem h) base sz\<rparr> else h)
      in (base, shadowLive os base sz (word_of_nat slotBytes) h))"

subsection \<open>Thread caches\<close>

abbreviation CachedClasses :: nat where "CachedClasses \<equiv> 40"
abbreviation CacheSlots :: nat where "CacheSlots \<equiv> 32"
abbreviation CacheBytes :: nat where "CacheBytes \<equiv> 32 * 1024"
abbreviation FoldBytes :: int where "FoldBytes \<equiv> 256 * 1024"

definition ownCache :: "heap \<Rightarrow> nat \<Rightarrow> thread_cache option" where
  "ownCache h t =
     (if \<not> cacheKeyReady h then None else case cacheOf h t of HasCache tc \<Rightarrow> Some tc | _ \<Rightarrow> None)"

definition cacheLimit :: "heap \<Rightarrow> nat \<Rightarrow> nat" where
  "cacheLimit h c = (let fit = CacheBytes div clSize (hpTable h c) in if fit = 0 then 1 else if fit < CacheSlots then fit else CacheSlots)"

definition makeCache :: "system \<Rightarrow> nat \<Rightarrow> heap \<Rightarrow> bool \<times> heap" where
  "makeCache os t h =
     (if \<not> osCache os then (False, h)
      else (True, (setCache t \<lparr>tcAlloc = (\<lambda>_. []), tcRelease = (\<lambda>_. []),
              tcLimit = (\<lambda>c. if c < cachedClasses h then cacheLimit h c else 0),
              tcLiveDelta = 0, tcDepth = 0, tcLocks = 0, tcDeferred = []\<rparr> h)\<lparr>caches := t # caches h\<rparr>))"

definition threadCache :: "system \<Rightarrow> nat \<Rightarrow> heap \<Rightarrow> bool \<times> heap" where
  "threadCache os t h =
     (if \<not> cacheKeyReady h then (False, h)
      else case cacheOf h t of HasCache _ \<Rightarrow> (True, h) | CacheGone \<Rightarrow> (False, h) | NoCache \<Rightarrow> makeCache os t h)"

definition cacheFor :: "system \<Rightarrow> nat \<Rightarrow> nat \<Rightarrow> heap \<Rightarrow> bool \<times> heap" where
  "cacheFor os t c h =
     (if c < cachedClasses h then
        (case threadCache os t h of (ok, h) \<Rightarrow> (ok \<and> tcDepth (theCache (cacheOf h t)) \<le> 1, h))
      else (False, h))"

definition foldLive :: "nat \<Rightarrow> heap \<Rightarrow> heap" where
  "foldLive t h =
     (let tc = theCache (cacheOf h t); h = (if tcLiveDelta tc \<noteq> 0 then addLive (tcLiveDelta tc) h else h)
      in setCache t (tc\<lparr>tcLiveDelta := 0\<rparr>) h)"

text \<open>A slot at the end of its region's quarantine.\<close>

definition queueDead :: "nat \<Rightarrow> nat \<Rightarrow> heap \<Rightarrow> heap" where
  "queueDead region slot h =
     (let st = hpRegion h region; h = storeWord region slot WeavecRtDead h
      in if rsDeadTail st \<noteq> 0
         then setRegion region (st\<lparr>rsDeadTail := slot + 1\<rparr>)
                (storeWord region (rsDeadTail st - 1) (slotWord (slot + 1) WeavecRtDead) h)
         else setRegion region (st\<lparr>rsDeadHead := slot + 1, rsDeadTail := slot + 1\<rparr>) h)"

definition claimedWord :: u32 where
  "claimedWord = slotWord CachedDead WeavecRtDead"

definition flushOne :: "nat \<Rightarrow> bool \<Rightarrow> u64 \<Rightarrow> heap \<times> nat \<Rightarrow> heap \<times> nat" where
  "flushOne c check entry hn =
     (case hn of (h, n) \<Rightarrow>
        let region = entryRegion entry; slot = entrySlot entry
        in if check \<and> (region \<ge> hpRegions h \<or> regionClass h region \<noteq> c \<or> slot \<ge> rsBump (hpRegion h region) \<or>
                       hpWords h region slot \<noteq> claimedWord)
           then (h, n) else (queueDead region slot h, n + 1))"

definition addQuarantine :: "nat \<Rightarrow> u64 \<Rightarrow> heap \<Rightarrow> heap" where
  "addQuarantine c bytes h =
     (let total = quarantineBytes h + bytes
      in h\<lparr>quarantineBytes := total, classGained := (classGained h)(c := classGained h c + bytes),
           peakQuarantine := (if total > peakQuarantine h then total else peakQuarantine h)\<rparr>)"

definition flushReleases :: "nat \<Rightarrow> nat \<Rightarrow> bool \<Rightarrow> heap \<Rightarrow> heap" where
  "flushReleases t c check h =
     (let tc = theCache (cacheOf h t)
      in case fold (flushOne c check) (tcRelease tc c) (h, 0) of
           (h, n) \<Rightarrow>
             let h = setCache t (tc\<lparr>tcRelease := (tcRelease tc)(c := [])\<rparr>) h;
                 bytes = word_of_nat n * word_of_nat (clSize (hpTable h c))
             in if bytes \<noteq> 0 then addQuarantine c bytes h else h)"

definition pushFree :: "nat \<Rightarrow> nat \<Rightarrow> heap \<Rightarrow> heap" where
  "pushFree region slot h =
     (let st = hpRegion h region
      in setRegion region (st\<lparr>rsFreeHead := slot + 1\<rparr>) (storeWord region slot (slotWord (rsFreeHead st) WeavecRtFree) h))"

definition returnOne :: "nat \<Rightarrow> bool \<Rightarrow> u64 \<Rightarrow> heap \<Rightarrow> heap" where
  "returnOne c check entry h =
     (let region = entryRegion entry; slot = entrySlot entry; st = wordState (hpWords h region slot)
      in if check \<and> (region \<ge> hpRegions h \<or> regionClass h region \<noteq> c \<or> slot \<ge> rsBump (hpRegion h region) \<or>
                     st = WeavecRtLive \<or> st = WeavecRtDead)
         then h else pushFree region slot h)"

definition returnSlots :: "nat \<Rightarrow> nat \<Rightarrow> bool \<Rightarrow> heap \<Rightarrow> heap" where
  "returnSlots t c check h =
     (let tc = theCache (cacheOf h t); h = fold (returnOne c check) (tcAlloc tc c) h
      in setCache t (tc\<lparr>tcAlloc := (tcAlloc tc)(c := [])\<rparr>) h)"

definition drainCache :: "nat \<Rightarrow> bool \<Rightarrow> heap \<Rightarrow> heap" where
  "drainCache t check h =
     foldLive t (fold (\<lambda>c h. returnSlots t c check (flushReleases t c check h)) [0..<cachedClasses h] h)"

definition dropCache :: "nat \<Rightarrow> heap \<Rightarrow> heap" where
  "dropCache t h =
     (case cacheOf h t of
        HasCache _ \<Rightarrow>
          let h = drainCache t False h in h\<lparr>cacheOf := (cacheOf h)(t := CacheGone), caches := remove1 t (caches h)\<rparr>
      | _ \<Rightarrow> h\<lparr>cacheOf := (cacheOf h)(t := CacheGone)\<rparr>)"

definition weavecRtFlushThread :: "nat \<Rightarrow> heap \<Rightarrow> heap" where
  "weavecRtFlushThread t h =
     (if \<not> cacheKeyReady h then h else case cacheOf h t of HasCache _ \<Rightarrow> drainCache t False h | _ \<Rightarrow> h)"

end
