(* ===== verification/Alloc_Lists.thy ===== *)
theory Alloc_Lists
  imports Alloc_State
begin

text \<open>
  Who holds a slot. Every slot a region has handed out is live, on the free list or in the quarantine of
  its region, in one thread's cache, or in the hand of the running call, and in one of them once. The lists
  go through the slot words: \<open>linked\<close> is a list from its head. \<open>region_ok\<close> is the invariant of one region, and the
  lemmas show what each change of a region keeps of it.
\<close>

subsection \<open>Slot words and entries as numbers\<close>

lemma unat_push:
  assumes "2 ^ n * v < 2 ^ LENGTH('a)"
  shows "unat (push_bit n (word_of_nat v :: 'a::len word)) = 2 ^ n * v"
proof -
  have "v \<le> 2 ^ n * v" by simp
  then have "v < 2 ^ LENGTH('a)" using assms by (rule order_le_less_trans)
  then have "unat (word_of_nat v :: 'a word) = v" by (simp add: unsigned_of_nat take_bit_nat_eq_self)
  then show ?thesis using assms by (subst unsigned_push_bit_eq) (simp add: push_bit_eq_mult take_bit_nat_eq_self mult.commute)
qed

lemma unat_slotWord:
  assumes "v < 2 ^ 30" "unat st < 4"
  shows "unat (slotWord v st) = 4 * v + unat st"
proof -
  have "unat (slotWord v st) = 2 ^ 2 * v OR unat st"
    using assms unat_push [of 2 v, where 'a = 32] by (simp only: slotWord_def unsigned_or_eq) simp
  also have "\<dots> = 2 ^ 2 * v + unat st" by (rule or_low_add) (use assms in simp)
  finally show ?thesis by simp
qed

lemma unat_wordState: "unat (wordState w) = unat w mod 4"
  using unat_take_bit_mod [of 2 w] and_mask_take_bit [of w 2] by (simp add: wordState_def)

lemma wordState_slotWord [simp]: "v < 2 ^ 30 \<Longrightarrow> unat st < 4 \<Longrightarrow> wordState (slotWord v st) = st"
  by (simp add: word_unat_eq_iff unat_wordState unat_slotWord)

lemma weavecRtWordValue_slotWord [simp]: "v < 2 ^ 30 \<Longrightarrow> unat st < 4 \<Longrightarrow> weavecRtWordValue (slotWord v st) = v"
  by (simp add: weavecRtWordValue_def unat_drop_bit_div unat_slotWord)

lemma slotWord_plain: "slotWord 0 st = st"
  by (simp add: slotWord_def)

lemma liveWord:
  assumes "unat sz < 2 ^ 30"
  shows "push_bit 2 (ucast sz) OR WeavecRtLive = slotWord (unat sz) WeavecRtLive"
proof -
  have "(ucast sz :: u32) = word_of_nat (unat sz)" by simp
  then show ?thesis by (simp only: slotWord_def)
qed

lemma slotEntry_nat:
  assumes "r < 256" "s < 2 ^ 31"
  shows "unat (slotEntry r s u) = 2 ^ 63 + (2 ^ 32 * r + (2 * s + (if u then 1 else 0)))"
proof -
  let ?b = "if u then 1 else 0 :: nat"
  have p: "unat (push_bit 63 1 :: u64) = 2 ^ 63 * 1" "unat (push_bit 32 (word_of_nat r) :: u64) = 2 ^ 32 * r"
    "unat (push_bit 1 (word_of_nat s) :: u64) = 2 ^ 1 * s" "unat (if u then 1 else 0 :: u64) = ?b"
    using unat_push [of 63 1, where 'a = 64] unat_push [of 32 r, where 'a = 64] unat_push [of 1 s, where 'a = 64] assms
    by simp_all
  have "unat (slotEntry r s u) = 2 ^ 63 * 1 OR (2 ^ 32 * r OR (2 ^ 1 * s OR ?b))"
    by (simp only: slotEntry_def unsigned_or_eq p or.assoc)
  also have "2 ^ 1 * s OR ?b = 2 ^ 1 * s + ?b" by (rule or_low_add) simp
  also have "2 ^ 32 * r OR (2 ^ 1 * s + ?b) = 2 ^ 32 * r + (2 ^ 1 * s + ?b)" by (rule or_low_add) (use assms in simp)
  also have "2 ^ 63 * 1 OR (2 ^ 32 * r + (2 ^ 1 * s + ?b)) = 2 ^ 63 * 1 + (2 ^ 32 * r + (2 ^ 1 * s + ?b))"
    by (rule or_low_add) (use assms in simp)
  finally show ?thesis by simp
qed

lemma entry_slotEntry [simp]:
  assumes "r < 256" "s < 2 ^ 31"
  shows "entryRegion (slotEntry r s u) = r" "entrySlot (slotEntry r s u) = s" "entryUsed (slotEntry r s u) = u"
proof -
  define b where "b = (if u then 1 else 0 :: nat)"
  have b: "b < 2" by (simp add: b_def)
  have N: "unat (slotEntry r s u) = 2 ^ 63 + (2 ^ 32 * r + (2 * s + b))" using slotEntry_nat [OF assms] by (simp add: b_def)
  have "(2 ^ 63 + (2 ^ 32 * r + (2 * s + b))) div 2 ^ 32 = 2 ^ 31 + r" using assms b by (intro div_nat_eqI) simp_all
  moreover have "(2 ^ 31 + r) mod 256 = r" using mod_mult_self2 [of r 256 8388608] assms(1) by (simp add: add.commute)
  ultimately show "entryRegion (slotEntry r s u) = r"
    using unat_take_bit_mod [of 8 "drop_bit 32 (slotEntry r s u)"] and_mask_take_bit [of "drop_bit 32 (slotEntry r s u)" 8] assms
    by (simp add: entryRegion_def unat_drop_bit_div N)
  have "(2 ^ 63 + (2 ^ 32 * r + (2 * s + b))) div 2 = 2 ^ 62 + 2 ^ 31 * r + s" using b by (intro div_nat_eqI) simp_all
  moreover have "(2 ^ 62 + 2 ^ 31 * r + s) mod 2 ^ 31 = s"
    using mod_mult_self2 [of s "2 ^ 31" "2 ^ 31 + r"] assms(2) by (simp add: algebra_simps)
  ultimately show "entrySlot (slotEntry r s u) = s"
    using unat_take_bit_mod [of 31 "drop_bit 1 (slotEntry r s u)"] and_mask_take_bit [of "drop_bit 1 (slotEntry r s u)" 31] assms
    by (simp add: entrySlot_def unat_drop_bit_div N)
  have "unat (slotEntry r s u AND 1) = unat (slotEntry r s u) mod 2"
    using unat_take_bit_mod [of 1 "slotEntry r s u"] and_mask_take_bit [of "slotEntry r s u" 1] by simp
  also have "\<dots> = (2 * (2 ^ 62 + 2 ^ 31 * r + s) + b) mod 2" by (simp add: N add.assoc)
  also have "\<dots> = b" using b by (simp only: mod_mult_self4 mod_less)
  finally show "entryUsed (slotEntry r s u) = u" by (simp add: entryUsed_def word_unat_eq_iff b_def)
qed

subsection \<open>Lists through the words\<close>

fun linked :: "(nat \<Rightarrow> u32) \<Rightarrow> u32 \<Rightarrow> nat \<Rightarrow> nat list \<Rightarrow> bool" where
  "linked w st x [] = (x = 0)"
| "linked w st x (i # is') = (x = Suc i \<and> wordState (w i) = st \<and> linked w st (weavecRtWordValue (w i)) is')"

lemma linked_cong: "(\<And>i. i \<in> set xs \<Longrightarrow> w i = w' i) \<Longrightarrow> linked w st x xs = linked w' st x xs"
  by (induction xs arbitrary: x) auto

lemma linked_update [simp]: "i \<notin> set xs \<Longrightarrow> linked (w(i := v)) st x xs = linked w st x xs"
  by (rule linked_cong) auto

lemma linked_states: "linked w st x xs \<Longrightarrow> i \<in> set xs \<Longrightarrow> wordState (w i) = st"
  by (induction xs arbitrary: x) auto

lemma linked_head: "linked w st x xs \<Longrightarrow> x \<noteq> 0 \<Longrightarrow> \<exists>ys. xs = (x - 1) # ys \<and> linked w st (weavecRtWordValue (w (x - 1))) ys"
  by (cases xs) auto

lemma linked_push:
  assumes "linked w st x xs" "i \<notin> set xs" "x < 2 ^ 30" "unat st < 4"
  shows "linked (w(i := slotWord x st)) st (Suc i) (i # xs)"
  using assms by simp

text \<open>An element at the end: the last word is linked to it.\<close>

lemma linked_append:
  assumes "linked w st x xs" "xs \<noteq> []" "i \<notin> set xs" "distinct xs" "Suc i < 2 ^ 30" "unat st < 4"
  shows "linked (w(i := slotWord 0 st, last xs := slotWord (Suc i) st)) st x (xs @ [i])"
  using assms
proof (induction xs arbitrary: x)
  case (Cons a ys)
  show ?case
  proof (cases "ys = []")
    case True
    then show ?thesis using Cons.prems by auto
  next
    case False
    then have "a \<noteq> last ys" "a \<noteq> i" using Cons.prems by (auto dest: last_in_set)
    then show ?thesis using Cons False by simp
  qed
qed simp

subsection \<open>Who holds a slot\<close>

text \<open>A slot without a place is live, or one its region has not reached.\<close>

datatype place = FreeList | DeadList | AllocCache nat nat | ReleaseCache nat nat | HandFree | HandDead

definition idle :: "place option \<Rightarrow> bool" where
  "idle p \<longleftrightarrow> (case p of Some (AllocCache t c) \<Rightarrow> True | Some HandFree \<Rightarrow> True | _ \<Rightarrow> False)"

definition claimed :: "place option \<Rightarrow> bool" where
  "claimed p \<longleftrightarrow> (case p of Some (ReleaseCache t c) \<Rightarrow> True | Some HandDead \<Rightarrow> True | _ \<Rightarrow> False)"

lemma idle_simps [simp]:
  "idle (Some (AllocCache t c))" "idle (Some HandFree)" "\<not> idle None" "\<not> idle (Some FreeList)" "\<not> idle (Some DeadList)"
  "\<not> idle (Some (ReleaseCache t c))" "\<not> idle (Some HandDead)"
  by (simp_all add: idle_def)

lemma claimed_simps [simp]:
  "claimed (Some (ReleaseCache t c))" "claimed (Some HandDead)" "\<not> claimed None" "\<not> claimed (Some FreeList)"
  "\<not> claimed (Some DeadList)" "\<not> claimed (Some (AllocCache t c))" "\<not> claimed (Some HandFree)"
  by (simp_all add: claimed_def)

lemma place_cases [case_names live free dead idle claimed]:
  obtains "p = None" | "p = Some FreeList" | "p = Some DeadList" | "idle p" | "claimed p"
  by (cases p; cases "the p") (auto simp: idle_def claimed_def)

lemma hand_some:
  "idle p \<Longrightarrow> p \<noteq> None \<and> p \<noteq> Some FreeList \<and> p \<noteq> Some DeadList \<and> \<not> claimed p"
  "claimed p \<Longrightarrow> p \<noteq> None \<and> p \<noteq> Some FreeList \<and> p \<noteq> Some DeadList \<and> \<not> idle p"
  by (auto simp: idle_def claimed_def split: option.splits place.splits)

text \<open>What the word of a slot says of its place.\<close>

definition word_ok :: "u32 \<Rightarrow> place option \<Rightarrow> bool" where
  "word_ok w p \<longleftrightarrow>
     (if p = None then wordState w = WeavecRtLive
      else if p = Some FreeList then wordState w = WeavecRtFree
      else if p = Some DeadList then wordState w = WeavecRtDead \<and> weavecRtWordValue w < CachedDead
      else if idle p then wordState w = WeavecRtFree \<or> wordState w = WeavecRtNever
      else w = claimedWord)"

definition slots_ok :: "slot_class \<Rightarrow> region_state \<Rightarrow> (nat \<Rightarrow> u32) \<Rightarrow> (nat \<Rightarrow> place option) \<Rightarrow> bool" where
  "slots_ok entry st w o' \<longleftrightarrow>
     rsBump st \<le> clCapacity entry \<and> clCapacity entry \<le> 2 ^ 27 \<and>
     (\<forall>s < rsBump st. word_ok (w s) (o' s)) \<and> (\<forall>s \<ge> rsBump st. o' s = None \<and> w s = WeavecRtNever)"

definition lists_ok :: "region_state \<Rightarrow> (nat \<Rightarrow> u32) \<Rightarrow> (nat \<Rightarrow> place option) \<Rightarrow> nat list \<Rightarrow> nat list \<Rightarrow> bool" where
  "lists_ok st w o' fl dl \<longleftrightarrow>
     linked w WeavecRtFree (rsFreeHead st) fl \<and> distinct fl \<and> {s. o' s = Some FreeList} = set fl \<and>
     linked w WeavecRtDead (rsDeadHead st) dl \<and> distinct dl \<and> {s. o' s = Some DeadList} = set dl \<and>
     rsDeadTail st = (if dl = [] then 0 else Suc (last dl))"

definition region_ok :: "slot_class \<Rightarrow> region_state \<Rightarrow> (nat \<Rightarrow> u32) \<Rightarrow> (nat \<Rightarrow> place option) \<Rightarrow> bool" where
  "region_ok entry st w o' \<longleftrightarrow> slots_ok entry st w o' \<and> (\<exists>fl dl. lists_ok st w o' fl dl)"

lemma region_okE:
  assumes "region_ok entry st w o'"
  obtains fl dl where "slots_ok entry st w o'" "lists_ok st w o' fl dl"
  using assms by (auto simp: region_ok_def)

lemma placed_bump: "slots_ok entry st w o' \<Longrightarrow> o' s \<noteq> None \<Longrightarrow> s < rsBump st \<and> s < 2 ^ 27"
  by (cases "s < rsBump st") (auto simp: slots_ok_def)

lemma claimedWord_state [simp]: "wordState claimedWord = WeavecRtDead" "weavecRtWordValue claimedWord = CachedDead"
  by (simp_all add: claimedWord_def)

lemma not_claimed:
  "wordState w \<noteq> WeavecRtDead \<Longrightarrow> w \<noteq> claimedWord" "weavecRtWordValue w \<noteq> CachedDead \<Longrightarrow> w \<noteq> claimedWord"
  using claimedWord_state by metis+

text \<open>The state of a word tells a place from its slot.\<close>

lemma word_states:
  assumes "word_ok w p"
  shows "wordState w = WeavecRtLive \<longleftrightarrow> p = None"
    "wordState w = WeavecRtDead \<longleftrightarrow> p = Some DeadList \<or> claimed p"
    "wordState w = WeavecRtDead \<and> weavecRtWordValue w \<noteq> CachedDead \<longleftrightarrow> p = Some DeadList"
    "claimed p \<longleftrightarrow> w = claimedWord"
proof -
  have "(wordState w = WeavecRtLive \<longleftrightarrow> p = None) \<and> (wordState w = WeavecRtDead \<longleftrightarrow> p = Some DeadList \<or> claimed p) \<and>
    (wordState w = WeavecRtDead \<and> weavecRtWordValue w \<noteq> CachedDead \<longleftrightarrow> p = Some DeadList) \<and> (claimed p \<longleftrightarrow> w = claimedWord)"
  proof (cases rule: place_cases [of p])
    case idle
    then have "wordState w = WeavecRtFree \<or> wordState w = WeavecRtNever" using assms hand_some(1) [of p] by (simp add: word_ok_def)
    then have "wordState w \<noteq> WeavecRtLive" "wordState w \<noteq> WeavecRtDead" by auto
    then show ?thesis using idle hand_some(1) [of p] not_claimed(1) [of w] by blast
  next
    case claimed
    then have "w = claimedWord" using assms hand_some(2) [of p] by (simp add: word_ok_def)
    then show ?thesis using claimed hand_some(2) [of p] by simp
  next
    case dead
    then have "wordState w = WeavecRtDead" "weavecRtWordValue w < CachedDead" using assms by (simp_all add: word_ok_def)
    then have "weavecRtWordValue w \<noteq> CachedDead" by (simp only: nat_neq_iff simp_thms)
    then show ?thesis using dead \<open>wordState w = WeavecRtDead\<close> not_claimed(2) [of w] by simp
  next
    case live
    then have "wordState w = WeavecRtLive" using assms by (simp add: word_ok_def)
    moreover from this have "w \<noteq> claimedWord" using not_claimed(1) [of w] by simp
    ultimately show ?thesis using live by simp
  next
    case free
    then have "wordState w = WeavecRtFree" using assms by (simp add: word_ok_def)
    moreover from this have "w \<noteq> claimedWord" using not_claimed(1) [of w] by simp
    ultimately show ?thesis using free by simp
  qed
  then show "wordState w = WeavecRtLive \<longleftrightarrow> p = None" "wordState w = WeavecRtDead \<longleftrightarrow> p = Some DeadList \<or> claimed p"
    "wordState w = WeavecRtDead \<and> weavecRtWordValue w \<noteq> CachedDead \<longleftrightarrow> p = Some DeadList"
    "claimed p \<longleftrightarrow> w = claimedWord" by blast+
qed

lemma slot_states:
  assumes so: "slots_ok entry st w o'"
  shows "wordState (w s) = WeavecRtLive \<longleftrightarrow> s < rsBump st \<and> o' s = None"
    "wordState (w s) = WeavecRtDead \<longleftrightarrow> o' s = Some DeadList \<or> claimed (o' s)"
    "wordState (w s) = WeavecRtDead \<and> weavecRtWordValue (w s) \<noteq> CachedDead \<longleftrightarrow> o' s = Some DeadList"
    "claimed (o' s) \<longleftrightarrow> w s = claimedWord"
proof -
  have never: "wordState WeavecRtNever = 0" by (simp add: wordState_def)
  have nc: "claimedWord \<noteq> 0" using not_claimed(1) [of 0] never by simp
  have a: "s < rsBump st \<and> word_ok (w s) (o' s) \<or> \<not> s < rsBump st \<and> o' s = None \<and> w s = 0"
    using so by (cases "s < rsBump st") (simp_all add: slots_ok_def)
  show "wordState (w s) = WeavecRtLive \<longleftrightarrow> s < rsBump st \<and> o' s = None" using a word_states(1) [of "w s" "o' s"] never by auto
  show "wordState (w s) = WeavecRtDead \<longleftrightarrow> o' s = Some DeadList \<or> claimed (o' s)" using a word_states(2) [of "w s" "o' s"] never by auto
  show "wordState (w s) = WeavecRtDead \<and> weavecRtWordValue (w s) \<noteq> CachedDead \<longleftrightarrow> o' s = Some DeadList"
    using a word_states(3) [of "w s" "o' s"] never by auto
  show "claimed (o' s) \<longleftrightarrow> w s = claimedWord" using a word_states(4) [of "w s" "o' s"] nc by auto
qed

lemma listed:
  assumes "lists_ok st w o' fl dl"
  shows "s \<in> set fl \<longleftrightarrow> o' s = Some FreeList" "s \<in> set dl \<longleftrightarrow> o' s = Some DeadList"
  using assms by (auto simp: lists_ok_def)

lemma slots_ok_update:
  assumes "slots_ok entry st w o'" "s < rsBump st" "word_ok v p"
  shows "slots_ok entry st (w(s := v)) (o'(s := p))"
  using assms by (auto simp: slots_ok_def)

lemma slots_ok_state: "rsBump st' = rsBump st \<Longrightarrow> slots_ok entry st' w o' = slots_ok entry st w o'"
  by (simp add: slots_ok_def)

subsection \<open>The changes of a region\<close>

text \<open>A slot that is on no list before nor after.\<close>

lemma region_off_lists:
  assumes ok: "region_ok entry st w o'" and s: "s < rsBump st" and p: "o' s \<noteq> Some FreeList" "o' s \<noteq> Some DeadList"
    and q: "q \<noteq> Some FreeList" "q \<noteq> Some DeadList" and v: "word_ok v q"
  shows "region_ok entry st (w(s := v)) (o'(s := q))"
proof -
  obtain fl dl where so: "slots_ok entry st w o'" and lo: "lists_ok st w o' fl dl" using ok by (rule region_okE)
  have "s \<notin> set fl" "s \<notin> set dl" using listed [OF lo] p by auto
  moreover have "{x. (o'(s := q)) x = Some FreeList} = {x. o' x = Some FreeList}"
    "{x. (o'(s := q)) x = Some DeadList} = {x. o' x = Some DeadList}" using p q by auto
  ultimately have "lists_ok st (w(s := v)) (o'(s := q)) fl dl" using lo unfolding lists_ok_def by simp
  then show ?thesis using slots_ok_update [OF so s v] by (auto simp: region_ok_def)
qed

text \<open>A slot that goes from one hand to another keeps its word.\<close>

lemma region_move:
  assumes ok: "region_ok entry st w o'" and p: "idle (o' s) \<and> idle q \<or> claimed (o' s) \<and> claimed q"
  shows "region_ok entry st w (o'(s := q))"
proof -
  have so: "slots_ok entry st w o'" using ok by (rule region_okE)
  have n: "o' s \<noteq> None" using p hand_some by blast
  then have "word_ok (w s) (o' s)" using so placed_bump [OF so n] by (simp add: slots_ok_def)
  then have "word_ok (w s) q" using p hand_some by (auto simp: word_ok_def split: if_splits)
  then show ?thesis using region_off_lists [OF ok, of s q "w s"] placed_bump [OF so n] p hand_some [of "o' s"] hand_some [of q] by auto
qed

lemma region_popFree:
  assumes ok: "region_ok entry st w o'" and f: "rsFreeHead st \<noteq> 0"
  shows "o' (rsFreeHead st - 1) = Some FreeList"
    "region_ok entry (st\<lparr>rsFreeHead := weavecRtWordValue (w (rsFreeHead st - 1))\<rparr>) w (o'(rsFreeHead st - 1 := Some HandFree))"
proof -
  let ?s = "rsFreeHead st - 1"
  obtain fl dl where so: "slots_ok entry st w o'" and lo: "lists_ok st w o' fl dl" using ok by (rule region_okE)
  obtain ys where ys: "fl = ?s # ys" "linked w WeavecRtFree (weavecRtWordValue (w ?s)) ys"
    using linked_head [of w WeavecRtFree "rsFreeHead st" fl] lo f by (auto simp: lists_ok_def)
  show p: "o' ?s = Some FreeList" using listed(1) [OF lo, of ?s] ys(1) by simp
  have b: "?s < rsBump st" using placed_bump [OF so] p by simp
  have "word_ok (w ?s) (Some HandFree)" using so b p by (auto simp: slots_ok_def word_ok_def)
  then have "slots_ok entry st (w(?s := w ?s)) (o'(?s := Some HandFree))" by (rule slots_ok_update [OF so b])
  moreover have "{x. (o'(?s := Some HandFree)) x = Some FreeList} = set fl - {?s}"
    "{x. (o'(?s := Some HandFree)) x = Some DeadList} = {x. o' x = Some DeadList}" using listed [OF lo] p by auto
  then have "lists_ok (st\<lparr>rsFreeHead := weavecRtWordValue (w ?s)\<rparr>) w (o'(?s := Some HandFree)) ys dl"
    using lo ys unfolding lists_ok_def by simp
  ultimately show "region_ok entry (st\<lparr>rsFreeHead := weavecRtWordValue (w ?s)\<rparr>) w (o'(?s := Some HandFree))"
    by (auto simp: region_ok_def slots_ok_def)
qed

lemma region_popFresh:
  assumes ok: "region_ok entry st w o'" and f: "rsBump st < clCapacity entry"
    and st': "rsBump st' = Suc (rsBump st)" "rsFreeHead st' = rsFreeHead st" "rsDeadHead st' = rsDeadHead st"
      "rsDeadTail st' = rsDeadTail st"
  shows "o' (rsBump st) = None" "region_ok entry st' w (o'(rsBump st := Some HandFree))"
proof -
  obtain fl dl where so: "slots_ok entry st w o'" and lo: "lists_ok st w o' fl dl" using ok by (rule region_okE)
  show n: "o' (rsBump st) = None" using so by (simp add: slots_ok_def)
  have "w (rsBump st) = 0" using so by (simp add: slots_ok_def)
  then have "word_ok (w (rsBump st)) (Some HandFree)" by (simp add: word_ok_def wordState_def)
  then have "slots_ok entry st' w (o'(rsBump st := Some HandFree))"
    using so f st'(1) by (auto simp: slots_ok_def less_Suc_eq)
  moreover have "{x. (o'(rsBump st := Some HandFree)) x = Some FreeList} = {x. o' x = Some FreeList}"
    "{x. (o'(rsBump st := Some HandFree)) x = Some DeadList} = {x. o' x = Some DeadList}" using n by auto
  then have "lists_ok st' w (o'(rsBump st := Some HandFree)) fl dl" using lo st' unfolding lists_ok_def by simp
  ultimately show "region_ok entry st' w (o'(rsBump st := Some HandFree))" by (auto simp: region_ok_def)
qed

lemma head_bound:
  assumes "slots_ok entry st w o'" "lists_ok st w o' fl dl"
  shows "rsFreeHead st \<le> 2 ^ 27"
proof (cases "rsFreeHead st = 0")
  case False
  then obtain ys where "fl = (rsFreeHead st - 1) # ys" using linked_head [of w WeavecRtFree "rsFreeHead st" fl] assms(2)
    by (auto simp: lists_ok_def)
  then have "o' (rsFreeHead st - 1) \<noteq> None" using listed(1) [OF assms(2), of "rsFreeHead st - 1"] by simp
  then show ?thesis using placed_bump [OF assms(1), of "rsFreeHead st - 1"] by linarith
qed simp

lemma region_pushFree:
  assumes ok: "region_ok entry st w o'" and p: "idle (o' s)"
  shows "region_ok entry (st\<lparr>rsFreeHead := s + 1\<rparr>) (w(s := slotWord (rsFreeHead st) WeavecRtFree)) (o'(s := Some FreeList))"
proof -
  let ?v = "slotWord (rsFreeHead st) WeavecRtFree"
  obtain fl dl where so: "slots_ok entry st w o'" and lo: "lists_ok st w o' fl dl" using ok by (rule region_okE)
  have n: "o' s \<noteq> None" using p hand_some by blast
  have hb: "rsFreeHead st < 2 ^ 30" using head_bound [OF so lo] by simp
  then have "word_ok ?v (Some FreeList)" by (simp add: word_ok_def)
  then have "slots_ok entry st (w(s := ?v)) (o'(s := Some FreeList))"
    using placed_bump [OF so n] by (intro slots_ok_update [OF so]) simp_all
  moreover have "s \<notin> set fl" "s \<notin> set dl" using listed [OF lo] hand_some(1) [OF p] by auto
  moreover have "{x. (o'(s := Some FreeList)) x = Some FreeList} = insert s (set fl)"
    "{x. (o'(s := Some FreeList)) x = Some DeadList} = set dl" using listed [OF lo] hand_some(1) [OF p] by auto
  ultimately show ?thesis using lo hb unfolding region_ok_def lists_ok_def slots_ok_def
    by (intro conjI exI [of _ "s # fl"] exI [of _ dl]) simp_all
qed

lemma region_queueDead:
  assumes ok: "region_ok entry st w o'" and p: "claimed (o' s)" and w1_def: "w1 = w(s := WeavecRtDead)"
  shows "region_ok entry (if rsDeadTail st \<noteq> 0 then st\<lparr>rsDeadTail := s + 1\<rparr> else st\<lparr>rsDeadHead := s + 1, rsDeadTail := s + 1\<rparr>)
      (if rsDeadTail st \<noteq> 0 then w1(rsDeadTail st - 1 := slotWord (s + 1) WeavecRtDead) else w1) (o'(s := Some DeadList))"
proof -
  obtain fl dl where so: "slots_ok entry st w o'" and lo: "lists_ok st w o' fl dl" using ok by (rule region_okE)
  have n: "o' s \<noteq> None" using p hand_some by blast
  note b = placed_bump [OF so n]
  note plain = slotWord_plain [of WeavecRtDead]
  have d: "wordState WeavecRtDead = WeavecRtDead" "weavecRtWordValue WeavecRtDead = 0"
    using wordState_slotWord [of 0 WeavecRtDead] weavecRtWordValue_slotWord [of 0 WeavecRtDead] by (simp_all add: plain)
  then have "word_ok WeavecRtDead (Some DeadList)" by (simp add: word_ok_def)
  then have s1: "slots_ok entry st w1 (o'(s := Some DeadList))" using b unfolding w1_def by (intro slots_ok_update [OF so]) simp_all
  have out: "s \<notin> set fl" "s \<notin> set dl" using listed [OF lo] hand_some(2) [OF p] by auto
  have sets: "{x. (o'(s := Some DeadList)) x = Some FreeList} = set fl"
    "{x. (o'(s := Some DeadList)) x = Some DeadList} = insert s (set dl)" using listed [OF lo] hand_some(2) [OF p] by auto
  show ?thesis
  proof (cases "dl = []")
    case True
    then have t: "rsDeadTail st = 0" using lo by (simp add: lists_ok_def)
    have "lists_ok (st\<lparr>rsDeadHead := s + 1, rsDeadTail := s + 1\<rparr>) w1 (o'(s := Some DeadList)) fl [s]"
      using lo out sets True unfolding lists_ok_def w1_def by (simp add: d)
    then show ?thesis using s1 t by (auto simp: region_ok_def slots_ok_def)
  next
    case False
    then have t: "rsDeadTail st = Suc (last dl)" using lo by (simp add: lists_ok_def)
    have l: "last dl \<in> set dl" using False by simp
    then have ol: "o' (last dl) = Some DeadList" using listed(2) [OF lo] by blast
    have lb: "last dl < rsBump st" using placed_bump [OF so, of "last dl"] ol by simp
    let ?w2 = "w1(last dl := slotWord (s + 1) WeavecRtDead)"
    have ls: "last dl \<noteq> s" "last dl \<notin> set fl" using l out listed(1) [OF lo, of "last dl"] ol by auto
    have "word_ok (slotWord (s + 1) WeavecRtDead) (Some DeadList)" using b by (simp add: word_ok_def)
    then have "slots_ok entry st ?w2 ((o'(s := Some DeadList))(last dl := Some DeadList))" by (rule slots_ok_update [OF s1 lb])
    moreover have "(o'(s := Some DeadList))(last dl := Some DeadList) = o'(s := Some DeadList)" using ol by auto
    moreover have "linked (w(s := slotWord 0 WeavecRtDead, last dl := slotWord (Suc s) WeavecRtDead)) WeavecRtDead
        (rsDeadHead st) (dl @ [s])"
      using lo False out b by (intro linked_append) (simp_all add: lists_ok_def)
    then have "linked ?w2 WeavecRtDead (rsDeadHead st) (dl @ [s])" by (simp add: w1_def plain)
    moreover have "linked ?w2 WeavecRtFree (rsFreeHead st) fl" using lo out ls by (simp add: lists_ok_def w1_def)
    ultimately have "slots_ok entry (st\<lparr>rsDeadTail := s + 1\<rparr>) ?w2 (o'(s := Some DeadList))"
      "lists_ok (st\<lparr>rsDeadTail := s + 1\<rparr>) ?w2 (o'(s := Some DeadList)) fl (dl @ [s])"
      using lo out sets by (simp_all add: lists_ok_def slots_ok_def)
    then show ?thesis using t unfolding region_ok_def by auto
  qed
qed

end
