(* ===== verification/Alloc_Huge.thy ===== *)
theory Alloc_Huge
  imports Alloc_State
begin

text \<open>
  The blocks of \<open>weavec_alloc.c\<close> that no class holds: each mapped on its own, in a table sorted by
  address that a binary search looks up. A released one keeps its place, without access, until a sweep finds
  no pointer to it.
\<close>

subsection \<open>The table\<close>

text \<open>The loop of \<open>hugeIndex\<close>: the number of blocks mapped at or below the address.\<close>

function hugeSearch :: "huge_block list \<Rightarrow> u64 \<Rightarrow> nat \<Rightarrow> nat \<Rightarrow> nat" where
  "hugeSearch bs address low high =
     (if low < high then
        let mid = low + (high - low) div 2
        in if hbMap (bs ! mid) \<le> address then hugeSearch bs address (mid + 1) high else hugeSearch bs address low mid
      else low)"
  by pat_completeness auto
termination
  by (relation "measure (\<lambda>(_, _, low, high). high - low)") auto

declare hugeSearch.simps [simp del]

definition hugeIndex :: "huge_block list \<Rightarrow> u64 \<Rightarrow> int" where
  "hugeIndex bs address = int (hugeSearch bs address 0 (length bs)) - 1"

definition maybeHuge :: "heap \<Rightarrow> u64 \<Rightarrow> bool" where
  "maybeHuge h address \<longleftrightarrow> address \<ge> hugeLow h \<and> address < hugeHigh h"

definition hugeFind :: "heap \<Rightarrow> u64 \<Rightarrow> huge_block option" where
  "hugeFind h address =
     (if \<not> maybeHuge h address then None
      else
        let i = hugeIndex (hugeBlocks h) address; b = hugeBlocks h ! nat i
        in if i \<ge> 0 \<and> address < hbMap b + hbMapBytes b then Some b else None)"

definition hugeInsert :: "huge_block \<Rightarrow> huge_block list \<Rightarrow> huge_block list" where
  "hugeInsert b bs = (let at = nat (hugeIndex bs (hbMap b) + 1) in take at bs @ b # drop at bs)"

subsection \<open>Allocation and release\<close>

definition hugeTooLarge :: "heap \<Rightarrow> u64 \<Rightarrow> u64 \<Rightarrow> bool" where
  "hugeTooLarge h sz alignment \<longleftrightarrow>
     sz > drop_bit 1 (- 1) - 2 * alignment - 2 * word_of_nat (pageBytes h) \<or>
     (weavecRtShadowReady (hpShadow h) \<and> shBits (hpShadow h) < 64 \<and> sz > push_bit (shBits (hpShadow h) - 2) 1)"

definition hugeAlloc :: "system \<Rightarrow> u64 \<Rightarrow> u64 \<Rightarrow> heap \<Rightarrow> u64 option \<times> heap" where
  "hugeAlloc os sz alignment h =
     (let page = word_of_nat (pageBytes h);
          alignment = (if alignment < page then page else alignment)
      in if hugeTooLarge h sz alignment then (None, h)
         else
           let bytes = (let n = (sz + page - 1) div page * page in if n = 0 then page else n);
               mapBytes = bytes + page + (if alignment > page then alignment else 0)
           in case osHuge os of
                None \<Rightarrow> (None, h)
              | Some mp \<Rightarrow>
                  let base = (mp + alignment - 1) AND NOT (alignment - 1)
                  in if length (hugeBlocks h) = hugeCapacity h \<and> \<not> osTable os then (None, h)
                     else
                       let h = (if length (hugeBlocks h) = hugeCapacity h
                                then h\<lparr>hugeCapacity := (if hugeCapacity h \<noteq> 0 then hugeCapacity h * 2 else 256)\<rparr> else h);
                           block = \<lparr>hbBase = base, hbSize = sz, hbMap = mp, hbMapBytes = mapBytes, hbDead = 0, hbMarked = False\<rparr>;
                           h = shadowLive os base sz bytes (h\<lparr>hugeBlocks := hugeInsert block (hugeBlocks h)\<rparr>)
                       in (Some base,
                           h\<lparr>hugeLow := (if mp < hugeLow h then mp else hugeLow h),
                             hugeHigh := (if mp + mapBytes > hugeHigh h then mp + mapBytes else hugeHigh h)\<rparr>))"

definition hugeFree :: "system \<Rightarrow> u64 \<Rightarrow> heap \<Rightarrow> bool \<times> heap" where
  "hugeFree os address h =
     (if \<not> maybeHuge h address then (False, h)
      else
        let i = hugeIndex (hugeBlocks h) address; b = hugeBlocks h ! nat i; limit = word_of_nat TailLimit
        in if i \<ge> 0 \<and> hbBase b = address \<and> hbDead b = 0 then
             let h = h\<lparr>hugeReleases := hugeReleases h + 1,
                       hugeBlocks := (hugeBlocks h)[nat i := b\<lparr>hbDead := hugeReleases h + 1\<rparr>]\<rparr>;
                 h = (if hbSize b > 2 * limit then
                        let h = shadowDead (hbBase b) limit h;
                            h = h\<lparr>hpShadow := weavecRtShadowClear (osShadowBase os) (word_of_nat (pageBytes h)) (osFresh os)
                                    (hpShadow h) (hbBase b + limit) (hbBase b + hbSize b - limit)\<rparr>
                        in shadowDead (hbBase b + hbSize b - limit) limit h
                      else shadowDead (hbBase b) (hbSize b) h)
             in (True, h\<lparr>hugeDeadCount := hugeDeadCount h + 1, hugeDeadBytes := hugeDeadBytes h + hbSize b\<rparr>)
           else (False, h))"

subsection \<open>Lemmas: the search\<close>

text \<open>The blocks in the table do not overlap and are in the order of their addresses.\<close>

definition huge_sorted :: "huge_block list \<Rightarrow> bool" where
  "huge_sorted bs \<longleftrightarrow> sorted_wrt (\<lambda>a b. unat (hbMap a) + unat (hbMapBytes a) \<le> unat (hbMap b)) bs \<and>
     (\<forall>b \<in> set bs. 0 < hbMapBytes b \<and> unat (hbMap b) + unat (hbMapBytes b) < 2 ^ 64)"

definition huge_holds :: "huge_block \<Rightarrow> u64 \<Rightarrow> bool" where
  "huge_holds b a \<longleftrightarrow> unat (hbMap b) \<le> unat a \<and> unat a < unat (hbMap b) + unat (hbMapBytes b)"

lemma huge_sorted_nth:
  assumes "huge_sorted bs" "i < j" "j < length bs"
  shows "unat (hbMap (bs ! i)) + unat (hbMapBytes (bs ! i)) \<le> unat (hbMap (bs ! j))" "hbMap (bs ! i) < hbMap (bs ! j)"
proof -
  show le: "unat (hbMap (bs ! i)) + unat (hbMapBytes (bs ! i)) \<le> unat (hbMap (bs ! j))"
    using assms unfolding huge_sorted_def by (auto dest: sorted_wrt_nth_less)
  have "0 < hbMapBytes (bs ! i)" using assms by (simp add: huge_sorted_def)
  then show "hbMap (bs ! i) < hbMap (bs ! j)" using le by (simp add: word_less_nat_alt)
qed

lemma hugeSearch_bounds:
  assumes "huge_sorted bs"
  shows "low \<le> high \<Longrightarrow> high \<le> length bs \<Longrightarrow> (\<And>i. i < low \<Longrightarrow> hbMap (bs ! i) \<le> a) \<Longrightarrow>
    (\<And>i. high \<le> i \<Longrightarrow> i < length bs \<Longrightarrow> a < hbMap (bs ! i)) \<Longrightarrow>
    hugeSearch bs a low high \<le> length bs \<and> (\<forall>i < length bs. hbMap (bs ! i) \<le> a \<longleftrightarrow> i < hugeSearch bs a low high)"
proof (induction "high - low" arbitrary: low high rule: less_induct)
  case less
  show ?case
  proof (cases "low < high")
    case True
    define mid where "mid = low + (high - low) div 2"
    have mid: "low \<le> mid" "mid < high" using True by (auto simp: mid_def)
    show ?thesis
    proof (cases "hbMap (bs ! mid) \<le> a")
      case le: True
      have "hugeSearch bs a low high = hugeSearch bs a (mid + 1) high"
        using True le by (subst hugeSearch.simps) (simp add: mid_def Let_def)
      moreover have "hbMap (bs ! i) \<le> a" if "i < mid + 1" for i
        using huge_sorted_nth(2) [OF assms, of i mid] le that mid(2) less(3) by (cases "i = mid") auto
      ultimately show ?thesis using less(1) [of high "mid + 1"] mid less(3,5) by auto
    next
      case gt: False
      have "hugeSearch bs a low high = hugeSearch bs a low mid"
        using True gt by (subst hugeSearch.simps) (simp add: mid_def Let_def)
      moreover have "a < hbMap (bs ! i)" if "mid \<le> i" "i < length bs" for i
        using huge_sorted_nth(2) [OF assms, of mid i] gt that by (cases "i = mid") auto
      ultimately show ?thesis using less(1) [of mid low] mid less(3,4) by auto
    qed
  next
    case False
    then have "hugeSearch bs a low high = low" "low = high" using less(2) by (subst hugeSearch.simps, simp_all)
    then show ?thesis using less(3-5) by (metis not_le)
  qed
qed

lemma hugeSearch_exact:
  assumes "huge_sorted bs"
  shows "hugeSearch bs a 0 (length bs) \<le> length bs"
    "i < length bs \<Longrightarrow> hbMap (bs ! i) \<le> a \<longleftrightarrow> i < hugeSearch bs a 0 (length bs)"
  using hugeSearch_bounds [OF assms, of 0 "length bs" a] by auto

text \<open>At most one block holds an address.\<close>

lemma huge_holds_unique:
  assumes "huge_sorted bs" "i < length bs" "j < length bs" "huge_holds (bs ! i) a" "huge_holds (bs ! j) a"
  shows "i = j"
proof (rule ccontr)
  assume "i \<noteq> j"
  then consider "i < j" | "j < i" by linarith
  then show False
    using huge_sorted_nth(1) [OF assms(1), of i j] huge_sorted_nth(1) [OF assms(1), of j i] assms(2-)
    by cases (auto simp: huge_holds_def)
qed

lemma huge_end:
  assumes "huge_sorted bs" "b \<in> set bs"
  shows "a < hbMap b + hbMapBytes b \<longleftrightarrow> unat a < unat (hbMap b) + unat (hbMapBytes b)"
  using assms by (simp add: huge_sorted_def word_less_nat_alt unat_word_ariths)

text \<open>The block the search gives is the one that holds the address, if one does.\<close>

lemma hugeIndex_holds:
  assumes "huge_sorted bs"
  shows "(0 \<le> hugeIndex bs a \<and> a < hbMap (bs ! nat (hugeIndex bs a)) + hbMapBytes (bs ! nat (hugeIndex bs a)) \<longrightarrow>
      nat (hugeIndex bs a) < length bs \<and> huge_holds (bs ! nat (hugeIndex bs a)) a) \<and>
    (i < length bs \<and> huge_holds (bs ! i) a \<longrightarrow> hugeIndex bs a = int i)"
proof -
  define n where "n = hugeSearch bs a 0 (length bs)"
  have n: "n \<le> length bs" "\<And>i. i < length bs \<Longrightarrow> hbMap (bs ! i) \<le> a \<longleftrightarrow> i < n"
    using hugeSearch_exact [OF assms, where a = a] by (auto simp: n_def)
  have idx: "hugeIndex bs a = int n - 1" by (simp add: hugeIndex_def n_def)
  have one: "nat (hugeIndex bs a) < length bs \<and> huge_holds (bs ! nat (hugeIndex bs a)) a"
    if "0 \<le> hugeIndex bs a" "a < hbMap (bs ! nat (hugeIndex bs a)) + hbMapBytes (bs ! nat (hugeIndex bs a))"
  proof -
    have l: "n - 1 < length bs" "n - 1 < n" "nat (hugeIndex bs a) = n - 1" using that(1) n(1) by (auto simp: idx)
    then have "hbMap (bs ! (n - 1)) \<le> a" using n(2) by blast
    then show ?thesis using that(2) l huge_end [OF assms, of "bs ! (n - 1)" a]
      by (simp add: huge_holds_def word_le_nat_alt)
  qed
  have "hugeIndex bs a = int i" if "i < length bs" "huge_holds (bs ! i) a"
  proof -
    have "i < n" using n(2) [OF that(1)] that(2) by (simp add: huge_holds_def word_le_nat_alt)
    moreover have "\<not> i < n - 1"
    proof
      assume lt: "i < n - 1"
      then have "unat (hbMap (bs ! i)) + unat (hbMapBytes (bs ! i)) \<le> unat (hbMap (bs ! (n - 1)))"
        using huge_sorted_nth(1) [OF assms, of i "n - 1"] n(1) by linarith
      moreover have "hbMap (bs ! (n - 1)) \<le> a" using n(2) [of "n - 1"] n(1) lt by linarith
      ultimately show False using that(2) by (simp add: huge_holds_def word_le_nat_alt)
    qed
    ultimately show ?thesis by (simp add: idx)
  qed
  then show ?thesis using one by blast
qed

lemma hugeInsert_sorted:
  assumes "huge_sorted bs" "0 < hbMapBytes b" "unat (hbMap b) + unat (hbMapBytes b) < 2 ^ 64"
    and apart: "\<And>c. c \<in> set bs \<Longrightarrow> unat (hbMap c) + unat (hbMapBytes c) \<le> unat (hbMap b) \<or>
      unat (hbMap b) + unat (hbMapBytes b) \<le> unat (hbMap c)"
  shows "huge_sorted (hugeInsert b bs)"
proof -
  define n where "n = hugeSearch bs (hbMap b) 0 (length bs)"
  have n: "n \<le> length bs" "\<And>i. i < length bs \<Longrightarrow> hbMap (bs ! i) \<le> hbMap b \<longleftrightarrow> i < n"
    using hugeSearch_exact [OF assms(1), where a = "hbMap b"] by (auto simp: n_def)
  have ins: "hugeInsert b bs = take n bs @ b # drop n bs" by (simp add: hugeInsert_def hugeIndex_def n_def Let_def)
  have before: "unat (hbMap c) + unat (hbMapBytes c) \<le> unat (hbMap b)" if c: "c \<in> set (take n bs)" for c
  proof -
    obtain i where i: "i < n" "c = bs ! i" using c n(1) by (auto simp: in_set_conv_nth)
    then have "unat (hbMap c) \<le> unat (hbMap b)" using n by (simp add: word_le_nat_alt)
    moreover have "0 < unat (hbMapBytes b)" using assms(2) by (simp add: word_less_nat_alt)
    ultimately show ?thesis using apart [of c] c by (auto dest: in_set_takeD)
  qed
  have after: "unat (hbMap b) + unat (hbMapBytes b) \<le> unat (hbMap c)" if c: "c \<in> set (drop n bs)" for c
  proof -
    obtain i where i: "n \<le> i" "i < length bs" "c = bs ! i" using c by (auto simp: in_set_conv_nth) (metis add.commute less_diff_conv le_add1)
    then have "\<not> unat (hbMap c) \<le> unat (hbMap b)" using n(2) by (simp add: word_le_nat_alt)
    then show ?thesis using apart [of c] c by (auto dest: in_set_dropD)
  qed
  have "sorted_wrt (\<lambda>a b. unat (hbMap a) + unat (hbMapBytes a) \<le> unat (hbMap b)) (take n bs @ drop n bs)"
    using assms(1) by (simp add: huge_sorted_def)
  then have "sorted_wrt (\<lambda>a b. unat (hbMap a) + unat (hbMapBytes a) \<le> unat (hbMap b)) (take n bs @ b # drop n bs)"
    using before after unfolding sorted_wrt_append by simp
  then show ?thesis using assms(1-3) unfolding ins huge_sorted_def
    by (auto dest: in_set_takeD in_set_dropD)
qed

text \<open>The bounds the quick rejection uses hold every block.\<close>

definition huge_wf :: "heap \<Rightarrow> bool" where
  "huge_wf h \<longleftrightarrow> huge_sorted (hugeBlocks h) \<and>
     (\<forall>b \<in> set (hugeBlocks h). unat (hugeLow h) \<le> unat (hbMap b) \<and> unat (hbMap b) + unat (hbMapBytes b) \<le> unat (hugeHigh h) \<and>
        hbMap b \<le> hbBase b \<and> unat (hbBase b) + unat (hbSize b) \<le> unat (hbMap b) + unat (hbMapBytes b) \<and>
        unat (hbBase b) < unat (hbMap b) + unat (hbMapBytes b)) \<and>
     hugeDeadCount h = length (filter (\<lambda>b. hbDead b \<noteq> 0) (hugeBlocks h))"

lemma hugeFind_holds:
  assumes "huge_wf h"
  shows "hugeFind h a = Some b \<longleftrightarrow> b \<in> set (hugeBlocks h) \<and> huge_holds b a"
proof -
  let ?i = "hugeIndex (hugeBlocks h) a"
  have s: "huge_sorted (hugeBlocks h)" using assms by (simp add: huge_wf_def)
  note idx = hugeIndex_holds [OF s, of a]
  show ?thesis
  proof
    assume f: "hugeFind h a = Some b"
    then have "0 \<le> ?i \<and> a < hbMap b + hbMapBytes b \<and> b = hugeBlocks h ! nat ?i"
      by (auto simp: hugeFind_def Let_def split: if_splits)
    then show "b \<in> set (hugeBlocks h) \<and> huge_holds b a" using idx by auto
  next
    assume b: "b \<in> set (hugeBlocks h) \<and> huge_holds b a"
    then obtain i where i: "i < length (hugeBlocks h)" "b = hugeBlocks h ! i" by (auto simp: in_set_conv_nth)
    then have "?i = int i" using idx b by blast
    moreover have "unat (hugeLow h) \<le> unat (hbMap b) \<and> unat (hbMap b) + unat (hbMapBytes b) \<le> unat (hugeHigh h)"
      using assms b by (simp add: huge_wf_def)
    then have "maybeHuge h a" using b by (auto simp: maybeHuge_def huge_holds_def word_le_nat_alt word_less_nat_alt)
    moreover have "a < hbMap b + hbMapBytes b" using huge_end [OF s] b by (simp add: huge_holds_def)
    ultimately show "hugeFind h a = Some b" using i by (simp add: hugeFind_def)
  qed
qed

end
