(* ===== verification/Alloc_Sweep.thy ===== *)
theory Alloc_Sweep
  imports Alloc_Huge
begin

text \<open>
  The quarantine of \<open>weavec_alloc.c\<close> and the allocator's side of the sweep: when a sweep is due, the
  marks, what a word of memory marks, the recycling of what nothing marked, and \<open>weavecRtSweep\<close> of
  \<open>weavec_sweep.c\<close> that puts them together. The scan of the process outside the heap is the list of
  words it found.
\<close>

subsection \<open>When a sweep is due\<close>

definition softBudget :: "heap \<Rightarrow> u64" where
  "softBudget h = (if quarantineBudget h > liveNow h div 4 then quarantineBudget h else liveNow h div 4)"

definition hardBudget :: "heap \<Rightarrow> u64" where
  "hardBudget h = (if 2 * quarantineBudget h > liveNow h div 2 then 2 * quarantineBudget h else liveNow h div 2)"

definition gainedBytes :: "heap \<Rightarrow> u64" where
  "gainedBytes h =
     (let held = quarantineBytes h + hugeDeadBytes h in if held > retainedBytes h then held - retainedBytes h else 0)"

definition overBudget :: "system \<Rightarrow> heap \<Rightarrow> bool \<times> heap" where
  "overBudget os h =
     (let gained = gainedBytes h; soft = softBudget h
      in if gained < soft \<or> gained < nextPacingCheck h then (False, h)
         else if gained \<ge> hardBudget h \<or> osNow os - lastSweepEnd h \<ge> 8 * lastSweepTook h then (True, h)
         else (False, h\<lparr>nextPacingCheck := gained + soft div 16\<rparr>))"

definition weavecRtSwept :: "u64 \<Rightarrow> u64 \<Rightarrow> bool \<Rightarrow> heap \<Rightarrow> heap" where
  "weavecRtSwept ended took marked h =
     h\<lparr>lastSweepEnd := ended, lastSweepTook := took,
       nextPacingCheck := (if marked then 0 else gainedBytes h + hardBudget h)\<rparr>"

subsection \<open>Marking\<close>

definition weavecRtSweepWanted :: "heap \<Rightarrow> bool" where
  "weavecRtSweepWanted h \<longleftrightarrow> quarantineBytes h \<noteq> 0 \<or> hugeDeadCount h \<noteq> 0"

fun prepareMarks :: "system \<Rightarrow> nat list \<Rightarrow> heap \<Rightarrow> bool \<times> heap" where
  "prepareMarks os [] h = (True, h)"
| "prepareMarks os (region # rs) h =
     (let st = hpRegion h region
      in if rsDeadHead st = 0 \<or> rsMarks st \<noteq> None then prepareMarks os rs h
         else if \<not> osMarks os region then (False, h)
         else prepareMarks os rs (setRegion region (st\<lparr>rsMarks := Some (\<lambda>_. False)\<rparr>) h))"

definition weavecRtPrepareMarks :: "system \<Rightarrow> heap \<Rightarrow> bool \<times> heap" where
  "weavecRtPrepareMarks os h = prepareMarks os [0..<hpRegions h] h"

definition markAddress :: "u64 \<Rightarrow> heap \<Rightarrow> heap" where
  "markAddress v h =
     (if v - hpBase h < hpBytes h then
        let quick = hpRegion h (unat (drop_bit (hpShift h) (v - hpBase h)))
        in if rsMarks quick = None \<or> rsDeadHead quick = 0 then h
           else
             let ref = slotOf h v; st = hpRegion h (srRegion ref)
             in if wordState (wordOf h ref) = WeavecRtDead
                then setRegion (srRegion ref) (st\<lparr>rsMarks := map_option (\<lambda>m. m(srSlot ref := True)) (rsMarks st)\<rparr>) h
                else h
      else if hugeDeadCount h \<noteq> 0 \<and> v \<ge> hugeLow h \<and> v < hugeHigh h then
        let i = hugeIndex (hugeBlocks h) v; b = hugeBlocks h ! nat i
        in if i \<ge> 0 \<and> hbDead b \<noteq> 0 \<and> v < hbMap b + hbMapBytes b
           then h\<lparr>hugeBlocks := (hugeBlocks h)[nat i := b\<lparr>hbMarked := True\<rparr>]\<rparr> else h
      else h)"

text \<open>The aligned words inside a range.\<close>

definition wordsIn :: "(u64 \<Rightarrow> byte) \<Rightarrow> u64 \<Rightarrow> u64 \<Rightarrow> u64 list" where
  "wordsIn m low high =
     (let word = (low + 7) AND NOT 7; finish = high AND NOT 7
      in map (\<lambda>i. load64 m (word + 8 * word_of_nat i)) [0..<(unat finish - unat word) div 8])"

definition weavecRtMarkWords :: "u64 \<Rightarrow> u64 \<Rightarrow> heap \<Rightarrow> heap" where
  "weavecRtMarkWords low high h = fold markAddress (wordsIn (hpMem h) low high) h"

definition markSlot :: "nat \<Rightarrow> nat \<Rightarrow> heap \<Rightarrow> heap" where
  "markSlot region slot h =
     (let word = hpWords h region slot; base = regionStart h region + word_of_nat slot * word_of_nat (clSize (hpTable h region))
      in if wordState word = WeavecRtLive then weavecRtMarkWords base (base + word_of_nat (weavecRtWordValue word)) h else h)"

definition weavecRtMarkSlots :: "nat \<Rightarrow> nat \<Rightarrow> nat \<Rightarrow> heap \<Rightarrow> heap" where
  "weavecRtMarkSlots region first final h = fold (markSlot region) [first..<final] h"

definition markHugeBlock :: "nat \<Rightarrow> heap \<Rightarrow> heap" where
  "markHugeBlock i h =
     (let b = hugeBlocks h ! i in if hbDead b = 0 then weavecRtMarkWords (hbBase b) (hbBase b + hbSize b) h else h)"

definition weavecRtMarkHuge :: "heap \<Rightarrow> heap" where
  "weavecRtMarkHuge h = fold markHugeBlock [0..<length (hugeBlocks h)] h"

definition weavecRtMarkHeap :: "heap \<Rightarrow> heap" where
  "weavecRtMarkHeap h =
     weavecRtMarkHuge (fold (\<lambda>r h. weavecRtMarkSlots r 0 (rsBump (hpRegion h r)) h) [0..<hpRegions h] h)"

subsection \<open>Recycling\<close>

record sweep_counts =
  scRetained :: nat
  scRetainedBytes :: u64
  scRecycled :: nat

text \<open>One slot: kept at the head of the quarantine, or put at the head of the free list.\<close>

definition recycleSlot :: "nat \<Rightarrow> bool \<Rightarrow> nat \<Rightarrow> heap \<times> nat \<times> sweep_counts \<Rightarrow> heap \<times> nat \<times> sweep_counts" where
  "recycleSlot region recycle slot acc =
     (case acc of (h, keptHead, counts) \<Rightarrow>
        let word = hpWords h region slot; st = hpRegion h region; sz = word_of_nat (clSize (hpTable h region))
        in if wordState word \<noteq> WeavecRtDead \<or> weavecRtWordValue word = CachedDead then (h, keptHead, counts)
           else if \<not> recycle \<or> (case rsMarks st of Some m \<Rightarrow> m slot | None \<Rightarrow> False) then
             (storeWord region slot (slotWord keptHead WeavecRtDead)
                (setRegion region (if keptHead = 0 then st\<lparr>rsDeadTail := slot + 1\<rparr> else st) h),
              slot + 1, counts\<lparr>scRetained := scRetained counts + 1, scRetainedBytes := scRetainedBytes counts + sz\<rparr>)
           else
             ((storeWord region slot (slotWord (rsFreeHead st) WeavecRtFree)
                (setRegion region (st\<lparr>rsFreeHead := slot + 1\<rparr>) h))\<lparr>quarantineBytes := quarantineBytes h - sz\<rparr>,
              keptHead, counts\<lparr>scRecycled := scRecycled counts + 1\<rparr>))"

definition recycleRegion :: "bool \<Rightarrow> nat \<Rightarrow> heap \<times> sweep_counts \<Rightarrow> heap \<times> sweep_counts" where
  "recycleRegion recycle region hc =
     (case hc of (h, counts) \<Rightarrow>
        if rsMarks (hpRegion h region) = None \<or> rsDeadHead (hpRegion h region) = 0 then (h, counts)
        else
          case fold (recycleSlot region recycle) (rev [0..<rsBump (hpRegion h region)]) (h, 0, counts) of
            (h, keptHead, counts) \<Rightarrow>
              let st = hpRegion h region;
                  st = (if keptHead = 0 then st\<lparr>rsDeadHead := 0, rsDeadTail := 0\<rparr> else st\<lparr>rsDeadHead := keptHead\<rparr>)
              in (setRegion region
                    (st\<lparr>rsMarks := map_option (\<lambda>m i. if i < (rsBump st + 63) div 64 * 64 then False else m i) (rsMarks st)\<rparr>) h,
                  counts))"

fun recycleHuge :: "system \<Rightarrow> bool \<Rightarrow> huge_block list \<Rightarrow> heap \<times> sweep_counts \<Rightarrow> huge_block list \<times> heap \<times> sweep_counts" where
  "recycleHuge os recycle [] hc = ([], hc)"
| "recycleHuge os recycle (b # bs) (h, counts) =
     (if hbDead b = 0 \<or> hbMarked b \<or> \<not> recycle then
        let counts = (if hbDead b \<noteq> 0
                      then counts\<lparr>scRetained := scRetained counts + 1, scRetainedBytes := scRetainedBytes counts + hbSize b\<rparr>
                      else counts)
        in case recycleHuge os recycle bs (h, counts) of (bs, hc) \<Rightarrow> (b\<lparr>hbMarked := False\<rparr> # bs, hc)
      else
        recycleHuge os recycle bs
          (h\<lparr>hpShadow := weavecRtShadowClear (osShadowBase os) (word_of_nat (pageBytes h)) (osFresh os) (hpShadow h)
                (hbBase b) (hbBase b + hbSize b + 16),
             hugeDeadBytes := hugeDeadBytes h - hbSize b, hugeDeadCount := hugeDeadCount h - 1\<rparr>,
           counts\<lparr>scRecycled := scRecycled counts + 1\<rparr>))"

definition weavecRtRecycle :: "system \<Rightarrow> bool \<Rightarrow> heap \<Rightarrow> heap \<times> sweep_counts" where
  "weavecRtRecycle os recycle h =
     (let h = h\<lparr>classGained := (\<lambda>c. if c < hpClasses h then 0 else classGained h c)\<rparr>
      in case fold (recycleRegion recycle) [0..<hpRegions h] (h, \<lparr>scRetained = 0, scRetainedBytes = 0, scRecycled = 0\<rparr>) of
           (h, counts) \<Rightarrow>
             (case recycleHuge os recycle (hugeBlocks h) (h, counts) of
                (bs, h, counts) \<Rightarrow>
                  (h\<lparr>hugeBlocks := bs, retainedBytes := quarantineBytes h + hugeDeadBytes h\<rparr>, counts)))"

subsection \<open>The sweep\<close>

definition weavecRtAllocatorNested :: "heap \<Rightarrow> nat \<Rightarrow> bool" where
  "weavecRtAllocatorNested h t \<longleftrightarrow> (case ownCache h t of None \<Rightarrow> False | Some tc \<Rightarrow> tcDepth tc > 1)"

definition markAll :: "system \<Rightarrow> heap \<Rightarrow> heap" where
  "markAll os h = weavecRtMarkHeap (fold markAddress (osRoots os) h)"

definition sweepStopped :: "system \<Rightarrow> heap \<Rightarrow> bool \<times> heap" where
  "sweepStopped os h =
     (if \<not> osStopped os then (False, h)
      else case weavecRtPrepareMarks os h of
             (False, h) \<Rightarrow> (False, h)
           | (True, h) \<Rightarrow> (True, fst (weavecRtRecycle os (osScanned os) (markAll os h))))"

definition weavecRtSweep :: "system \<Rightarrow> nat \<Rightarrow> heap \<Rightarrow> heap" where
  "weavecRtSweep os t h =
     (if weavecRtAllocatorNested h t then h
      else
        let h = weavecRtFlushThread t h
        in if \<not> weavecRtSweepWanted h \<or> \<not> osSweepLock os \<or> \<not> osWorld os then h
           else case sweepStopped os h of
                  (marked, h) \<Rightarrow> weavecRtSwept (osEnded os) (osEnded os - osNow os) marked h)"

end
