(* ===== verification/Alloc.thy ===== *)
theory Alloc
  imports Alloc_Sweep Guard_Runtime
begin

text \<open>
  The entry points of \<open>weavec_alloc.c\<close>: allocation through a thread's cache or a region, release through
  the cache or into the quarantine, reallocation, the lookup of a pointer, calls nested in a signal handler,
  and \<open>fork\<close>. A null pointer is address 0. A release of what is no live block ends the program: a
  fatal report is a value. \<open>None\<close> would be a call that does not return.
\<close>

subsection \<open>Slots of a class\<close>

partial_function (option) popClass :: "system \<Rightarrow> nat \<Rightarrow> nat \<Rightarrow> nat \<Rightarrow> bool \<Rightarrow> heap \<Rightarrow> (u64 list \<times> heap) option" where
  "popClass os t c want swept h =
     (case popRegion os (classActive h c) want h of (es, h) \<Rightarrow>
        if es \<noteq> [] then Some (es, h)
        else case popRegions os WeavecRtRegionCount c c want h of (es, h) \<Rightarrow>
          if es \<noteq> [] then Some (es, h)
          else if \<not> swept \<and> classGained h c \<ge> word_of_nat (clCapacity (hpTable h c)) * word_of_nat (clSize (hpTable h c)) div 4
          then popClass os t c want True (weavecRtSweep os t h)
          else case takeSpare c h of (spare, h) \<Rightarrow>
            if spare then popClass os t c want swept h
            else if swept then Some ([], h)
            else popClass os t c want True (weavecRtSweep os t h))"

definition takeSlot :: "system \<Rightarrow> nat \<Rightarrow> nat \<Rightarrow> u64 \<Rightarrow> heap \<Rightarrow> (u64 \<times> heap) option" where
  "takeSlot os t c sz h =
     (case popClass os t c 1 False h of
        None \<Rightarrow> None
      | Some ([], h) \<Rightarrow> Some (0, h)
      | Some (taken # _, h) \<Rightarrow>
          let slotBytes = clSize (hpTable h c) in Some (makeLive os taken sz slotBytes (addLive (int slotBytes) h)))"

text \<open>The cache's count of slots is the length of its list; it is filled so that the lowest address is taken first.\<close>

definition refill :: "system \<Rightarrow> nat \<Rightarrow> nat \<Rightarrow> heap \<Rightarrow> heap option" where
  "refill os t c h =
     (if tcAlloc (theCache (cacheOf h t)) c \<noteq> [] then Some h
      else case popClass os t c (tcLimit (theCache (cacheOf h t)) c) False h of
             None \<Rightarrow> None
           | Some (es, h) \<Rightarrow>
               let tc = theCache (cacheOf h t) in Some (setCache t (tc\<lparr>tcAlloc := (tcAlloc tc)(c := rev es)\<rparr>) h))"

definition takeCached :: "system \<Rightarrow> nat \<Rightarrow> nat \<Rightarrow> u64 \<Rightarrow> heap \<Rightarrow> u64 \<times> heap" where
  "takeCached os t c sz h =
     (let slotBytes = clSize (hpTable h c);
          tc = theCache (cacheOf h t);
          h = setCache t (tc\<lparr>tcLiveDelta := tcLiveDelta tc + int slotBytes\<rparr>) h;
          h = (if tcLiveDelta tc + int slotBytes \<ge> FoldBytes then foldLive t h else h);
          tc = theCache (cacheOf h t)
      in makeLive os (last (tcAlloc tc c)) sz slotBytes
           (setCache t (tc\<lparr>tcAlloc := (tcAlloc tc)(c := butlast (tcAlloc tc c))\<rparr>) h))"

definition cachedAlloc :: "system \<Rightarrow> nat \<Rightarrow> nat \<Rightarrow> u64 \<Rightarrow> heap \<Rightarrow> (u64 \<times> heap) option" where
  "cachedAlloc os t c sz h =
     (case refill os t c h of
        None \<Rightarrow> None
      | Some h \<Rightarrow>
          if tcAlloc (theCache (cacheOf h t)) c = [] then Some (0, h) else Some (takeCached os t c sz h))"

subsection \<open>The release of a slot\<close>

datatype fatal = InvalidRelease u64 string

definition claim :: "slot_ref \<Rightarrow> heap \<Rightarrow> heap" where
  "claim ref h = storeWord (srRegion ref) (srSlot ref) claimedWord h"

definition sweepIfDue :: "system \<Rightarrow> nat \<Rightarrow> heap \<Rightarrow> heap" where
  "sweepIfDue os t h = (case overBudget os h of (True, h) \<Rightarrow> weavecRtSweep os t h | (False, h) \<Rightarrow> h)"

text \<open>\<open>decommit\<close>: the whole pages of a large released slot go back to the system and read as zero.\<close>

definition decommit :: "system \<Rightarrow> nat \<Rightarrow> (u64 \<Rightarrow> byte) \<Rightarrow> u64 \<Rightarrow> u64 \<Rightarrow> (u64 \<Rightarrow> byte)" where
  "decommit os page m base bytes =
     (let p = word_of_nat page; first = (base + p - 1) AND NOT (p - 1); last' = (base + bytes) AND NOT (p - 1)
      in if last' \<le> first \<or> \<not> osFresh os then m else memset m first 0 (unat (last' - first)))"

abbreviation WeavecRtDecommitBytes :: nat where "WeavecRtDecommitBytes \<equiv> 64 * 1024"

definition retire :: "system \<Rightarrow> nat \<Rightarrow> slot_ref \<Rightarrow> heap \<Rightarrow> heap" where
  "retire os t ref h =
     (let sz = clSize (hpTable h (srRegion ref));
          h = shadowDead (srBase ref) (word_of_nat sz) h;
          h = (if sz \<ge> WeavecRtDecommitBytes
               then h\<lparr>hpMem := decommit os (pageBytes h) (hpMem h) (srBase ref) (word_of_nat sz)\<rparr> else h);
          h = queueDead (srRegion ref) (srSlot ref) h;
          h = addQuarantine (regionClass h (srRegion ref)) (word_of_nat sz) h
      in sweepIfDue os t (addLive (- int sz) h))"

definition cachedRelease :: "system \<Rightarrow> nat \<Rightarrow> nat \<Rightarrow> slot_ref \<Rightarrow> heap \<Rightarrow> heap" where
  "cachedRelease os t c ref h =
     (let slotBytes = clSize (hpTable h c);
          h = shadowDead (srBase ref) (word_of_nat slotBytes) h;
          tc = theCache (cacheOf h t);
          released = tcRelease tc c @ [slotEntry (srRegion ref) (srSlot ref) True];
          delta = tcLiveDelta tc - int slotBytes;
          h = setCache t (tc\<lparr>tcRelease := (tcRelease tc)(c := released), tcLiveDelta := delta\<rparr>) h;
          h = (if delta \<le> - FoldBytes then foldLive t h else h)
      in if length released = tcLimit tc c then sweepIfDue os t (flushReleases t c False h) else h)"

subsection \<open>Allocate and release\<close>

function alignBytes :: "nat \<Rightarrow> nat \<Rightarrow> nat" where
  "alignBytes sz bytes =
     (if 0 < bytes \<and> bytes \<le> sz \<and> bytes < 2 ^ WeavecRtMaxClassShift then alignBytes sz (2 * bytes) else bytes)"
  by pat_completeness auto
termination
  by (relation "measure (\<lambda>(_, bytes). 2 ^ WeavecRtMaxClassShift - bytes)") auto

declare alignBytes.simps [simp del]

text \<open>The class of a request; none for an alignment that is no power of two.\<close>

definition allocClass :: "u64 \<Rightarrow> u64 \<Rightarrow> nat option" where
  "allocClass sz alignment =
     (if alignment > 16 then
        if alignment AND (alignment - 1) \<noteq> 0 then None
        else let bytes = alignBytes (unat sz) (unat alignment)
             in Some (if bytes > unat sz then powerClass (word_of_nat bytes) else WeavecRtClassCount)
      else Some (classFor sz))"

definition allocate :: "system \<Rightarrow> nat \<Rightarrow> u64 \<Rightarrow> u64 \<Rightarrow> heap \<Rightarrow> (u64 \<times> heap) option" where
  "allocate os t sz alignment h =
     (if hpBytes h = 0 then
        let block = osNextAlign os (if alignment > 16 then alignment else 16) sz
        in Some (block, if block \<noteq> 0 then h\<lparr>hpMem := memset (hpMem h) block 0 (unat sz)\<rparr> else h)
      else case allocClass sz alignment of
             None \<Rightarrow> Some (0, h)
           | Some c \<Rightarrow>
               (case (if c < hpClasses h
                      then case cacheFor os t c h of (cached, h) \<Rightarrow>
                             if cached then cachedAlloc os t c sz h else takeSlot os t c sz h
                      else Some (0, h)) of
                  None \<Rightarrow> None
                | Some (block, h) \<Rightarrow>
                    if block \<noteq> 0 then Some (block, h)
                    else case hugeAlloc os sz alignment h of
                           (None, h) \<Rightarrow> Some (0, h)
                         | (Some b, h) \<Rightarrow> Some (b, h)))"

definition ownedSize :: "heap \<Rightarrow> u64 \<Rightarrow> u64 option" where
  "ownedSize h address =
     (if inArena h address then
        let ref = slotOf h address; word = wordOf h ref
        in if srBase ref \<noteq> address \<or> wordState word \<noteq> WeavecRtLive then None
           else Some (word_of_nat (weavecRtWordValue word))
      else case hugeFind h address of
             Some b \<Rightarrow> if hbBase b = address \<and> hbDead b = 0 then Some (hbSize b) else None
           | None \<Rightarrow> None)"

definition whyNotReleasable :: "heap \<Rightarrow> u64 \<Rightarrow> string" where
  "whyNotReleasable h address =
     (let st = wordState (wordOf h (slotOf h address))
      in if st = WeavecRtDead then ''the block was already released''
         else if st \<noteq> WeavecRtLive then ''no block is allocated there''
         else ''not the start of its block'')"

definition nextFree :: "system \<Rightarrow> u64 \<Rightarrow> heap \<Rightarrow> fatal + heap" where
  "nextFree os p h = (if osNextFree os p then Inr h else Inl (InvalidRelease p ''not a heap block''))"

definition release :: "system \<Rightarrow> nat \<Rightarrow> u64 \<Rightarrow> heap \<Rightarrow> fatal + heap" where
  "release os t p h =
     (if inArena h p then
        let ref = slotOf h p; word = wordOf h ref; c = regionClass h (srRegion ref)
        in if srBase ref \<noteq> p \<or> wordState word \<noteq> WeavecRtLive then Inl (InvalidRelease p (whyNotReleasable h p))
           else
             (case cacheFor os t c (claim ref h) of
                (cached, h) \<Rightarrow> Inr (if cached then cachedRelease os t c ref h else retire os t ref h))
      else case hugeFree os p h of
             (True, h) \<Rightarrow> Inr (sweepIfDue os t h)
           | (False, h) \<Rightarrow>
               (case hugeFind h p of
                  Some b \<Rightarrow> Inl (InvalidRelease p
                    (if hbDead b \<noteq> 0 then ''the block was already released'' else ''not the start of its block''))
                | None \<Rightarrow> nextFree os p h))"

subsection \<open>The entry points\<close>

text \<open>Inside the allocator, with one of its locks held.\<close>

definition holdsLock :: "heap \<Rightarrow> nat \<Rightarrow> bool" where
  "holdsLock h t \<longleftrightarrow> (case ownCache h t of None \<Rightarrow> False | Some tc \<Rightarrow> tcDepth tc \<noteq> 0 \<and> tcLocks tc \<noteq> 0)"

definition enter :: "nat \<Rightarrow> heap \<Rightarrow> heap" where
  "enter t h = (case ownCache h t of None \<Rightarrow> h | Some tc \<Rightarrow> setCache t (tc\<lparr>tcDepth := tcDepth tc + 1\<rparr>) h)"

text \<open>
  Leaving the outermost call makes the releases a signal handler could not, the last deferred first: each
  is a call of its own. \<open>entered\<close> says that the thread had a cache when it entered.
\<close>

fun freeDeferred :: "system \<Rightarrow> nat \<Rightarrow> u64 list \<Rightarrow> heap \<Rightarrow> fatal + heap" where
  "freeDeferred os t [] h = Inr h"
| "freeDeferred os t (p # ps) h =
     (let tc = theCache (cacheOf h t); h = setCache t (tc\<lparr>tcDeferred := rev ps, tcDepth := 1\<rparr>) h
      in case (if p = 0 then Inr h else release os t p h) of
           Inl f \<Rightarrow> Inl f
         | Inr h \<Rightarrow>
             let tc = theCache (cacheOf h t) in freeDeferred os t ps (setCache t (tc\<lparr>tcDepth := 0\<rparr>) h))"

definition leave :: "system \<Rightarrow> nat \<Rightarrow> bool \<Rightarrow> heap \<Rightarrow> fatal + heap" where
  "leave os t entered h =
     (if \<not> entered then Inr h
      else
        let tc = theCache (cacheOf h t); h = setCache t (tc\<lparr>tcDepth := tcDepth tc - 1\<rparr>) h
        in if tcDepth tc - 1 = 0 then freeDeferred os t (rev (tcDeferred tc)) h else Inr h)"

definition weavec_rt_alloc :: "system \<Rightarrow> nat \<Rightarrow> u64 \<Rightarrow> u64 \<Rightarrow> heap \<Rightarrow> (fatal + u64 \<times> heap) option" where
  "weavec_rt_alloc os t sz alignment h =
     (if holdsLock h t then Some (Inr (0, h))
      else case allocate os t sz alignment (enter t h) of
             None \<Rightarrow> None
           | Some (block, h') \<Rightarrow>
               Some (case leave os t (ownCache h t \<noteq> None) h' of Inl f \<Rightarrow> Inl f | Inr h' \<Rightarrow> Inr (block, h')))"

definition weavec_rt_free :: "system \<Rightarrow> nat \<Rightarrow> u64 \<Rightarrow> heap \<Rightarrow> fatal + heap" where
  "weavec_rt_free os t p h =
     (if p = 0 then Inr h
      else if holdsLock h t then
        let tc = theCache (cacheOf h t)
        in Inr (if length (tcDeferred tc) < 16 then setCache t (tc\<lparr>tcDeferred := tcDeferred tc @ [p]\<rparr>) h else h)
      else case release os t p (enter t h) of
             Inl f \<Rightarrow> Inl f
           | Inr h' \<Rightarrow> leave os t (ownCache h t \<noteq> None) h')"

definition memcpy :: "(u64 \<Rightarrow> byte) \<Rightarrow> u64 \<Rightarrow> u64 \<Rightarrow> nat \<Rightarrow> (u64 \<Rightarrow> byte)" where
  "memcpy m to from n = (\<lambda>a. if unat (a - to) < n then m (from + (a - to)) else m a)"

text \<open>A block that stays in its slot; the bytes it gains are zero.\<close>

definition resize :: "system \<Rightarrow> slot_ref \<Rightarrow> u64 \<Rightarrow> u64 \<Rightarrow> heap \<Rightarrow> heap" where
  "resize os ref old sz h =
     (let p = srBase ref;
          h = (if sz > old then h\<lparr>hpMem := memset (hpMem h) (p + old) 0 (unat (sz - old))\<rparr> else h);
          h = shadowLive os p sz (word_of_nat (clSize (hpTable h (srRegion ref)))) h
      in storeWord (srRegion ref) (srSlot ref) (push_bit 2 (ucast sz) OR WeavecRtLive) h)"

definition moveBlock :: "system \<Rightarrow> nat \<Rightarrow> u64 \<Rightarrow> u64 \<Rightarrow> u64 \<Rightarrow> heap \<Rightarrow> (fatal + u64 \<times> heap) option" where
  "moveBlock os t p old sz h =
     (case weavec_rt_alloc os t sz 0 h of
        None \<Rightarrow> None
      | Some (Inl f) \<Rightarrow> Some (Inl f)
      | Some (Inr (moved, h)) \<Rightarrow>
          if moved = 0 then Some (Inr (0, h))
          else
            let h = h\<lparr>hpMem := memcpy (hpMem h) moved p (unat (if old < sz then old else sz))\<rparr>
            in Some (case weavec_rt_free os t p h of Inl f \<Rightarrow> Inl f | Inr h \<Rightarrow> Inr (moved, h)))"

definition weavec_rt_realloc :: "system \<Rightarrow> nat \<Rightarrow> u64 \<Rightarrow> u64 \<Rightarrow> heap \<Rightarrow> (fatal + u64 \<times> heap) option" where
  "weavec_rt_realloc os t p sz h =
     (if p = 0 then weavec_rt_alloc os t sz 0 h
      else if inArena h p then
        let ref = slotOf h p; word = wordOf h ref; old = word_of_nat (weavecRtWordValue word)
        in if srBase ref \<noteq> p \<or> wordState word \<noteq> WeavecRtLive then Some (Inl (InvalidRelease p (whyNotReleasable h p)))
           else if classFor sz = regionClass h (srRegion ref) then Some (Inr (p, resize os ref old sz h))
           else moveBlock os t p old sz h
      else case ownedSize h p of
             Some old \<Rightarrow> moveBlock os t p old sz h
           | None \<Rightarrow>
               (case hugeFind h p of
                  Some _ \<Rightarrow> Some (Inl (InvalidRelease p ''not the start of a live block''))
                | None \<Rightarrow>
                    Some (if osNextFree os p then Inr (osNextRealloc os p sz, h)
                          else Inl (InvalidRelease p ''not a heap block''))))"

definition weavec_rt_size :: "system \<Rightarrow> heap \<Rightarrow> u64 \<Rightarrow> u64" where
  "weavec_rt_size os h p =
     (if p = 0 then 0
      else case ownedSize h p of
             Some sz \<Rightarrow> sz
           | None \<Rightarrow> if inArena h p \<or> hugeFind h p \<noteq> None then 0 else osNextSize os p)"

definition weavecRtHeapObjectAt :: "heap \<Rightarrow> u64 \<Rightarrow> heap_object" where
  "weavecRtHeapObjectAt h address =
     (if inArena h address then
        let ref = slotOf h address; word = wordOf h ref; live = (wordState word = WeavecRtLive)
        in \<lparr>hoFound = (wordState word \<noteq> WeavecRtNever), hoLive = live, hoBase = srBase ref,
            hoSize = (if live then word_of_nat (weavecRtWordValue word) else word_of_nat (clSize (hpTable h (srRegion ref))))\<rparr>
      else case hugeFind h address of
             Some b \<Rightarrow> \<lparr>hoFound = True, hoLive = (hbDead b = 0), hoBase = hbBase b, hoSize = hbSize b\<rparr>
           | None \<Rightarrow> \<lparr>hoFound = False, hoLive = False, hoBase = 0, hoSize = 0\<rparr>)"

subsection \<open>Fork\<close>

text \<open>In the child the caches of the other threads go back to the shared lists.\<close>

definition forkChild :: "nat \<Rightarrow> heap \<Rightarrow> heap" where
  "forkChild own h =
     (let hasOwn = (cacheKeyReady h \<and> own \<in> set (caches h))
      in (fold (\<lambda>t h. if hasOwn \<and> t = own then h
                     else let h = drainCache t True h in h\<lparr>cacheOf := (cacheOf h)(t := NoCache)\<rparr>) (caches h) h)
           \<lparr>caches := (if hasOwn then [own] else [])\<rparr>)"

end
