(* ===== verification/Alloc_Inv.thy ===== *)
theory Alloc_Inv
  imports Alloc_Lists Alloc
begin

text \<open>
  The invariant of the heap: the table of regions, the lists of every region and the threads' caches
  agree on who holds each slot. A ghost map gives the place of every slot; the lists of the caches are
  arguments, so that a call can move slots one by one. \<open>kept\<close> is what every call inside the allocator leaves
  alone: the live slots and their sizes, the bytes of memory, the nesting of the threads' calls.
\<close>

subsection \<open>The invariant\<close>

type_synonym owner = "nat \<Rightarrow> nat \<Rightarrow> place option"

definition held :: "owner \<Rightarrow> place \<Rightarrow> (nat \<times> nat) set" where
  "held own p = {(r, s). own r s = Some p}"

definition entryOf :: "u64 \<Rightarrow> nat \<times> nat" where
  "entryOf e = (entryRegion e, entrySlot e)"

definition region_fresh :: "region_state \<Rightarrow> bool" where
  "region_fresh st \<longleftrightarrow> rsBump st = 0 \<and> rsFreeHead st = 0 \<and> rsDeadHead st = 0 \<and> rsDeadTail st = 0"

text \<open>The regions: their table, the classes they serve, the order of a class's regions.\<close>

definition table_ok :: "heap \<Rightarrow> bool" where
  "table_ok h \<longleftrightarrow>
     (\<forall>r < hpRegions h. entry_ok (hpShift h) (hpTable h r) \<and> regionClass h r < hpClasses h \<and>
        hpTable h (regionClass h r) = hpTable h r) \<and>
     (\<forall>c < hpClasses h. clSize (hpTable h c) = classSize c)"

definition chains_ok :: "heap \<Rightarrow> bool" where
  "chains_ok h \<longleftrightarrow>
     (\<forall>r < hpRegions h. regionNext h r = NoRegion \<or>
        r < regionNext h r \<and> regionNext h r < hpRegions h \<and> regionClass h (regionNext h r) = regionClass h r) \<and>
     (\<forall>c < hpClasses h. regionClass h c = c \<and> classActive h c < hpRegions h \<and> regionClass h (classActive h c) = c) \<and>
     (\<forall>r. hpRegions h \<le> r \<longrightarrow> regionNext h r = NoRegion)"

definition arena_ok :: "heap \<Rightarrow> bool" where
  "arena_ok h \<longleftrightarrow>
     (hpShift h = 30 \<or> hpShift h = 31) \<and> hpBytes h = word_of_nat (160 * 2 ^ hpShift h) \<and>
     2 ^ hpShift h dvd unat (hpBase h) \<and> 0 < unat (hpBase h) \<and> unat (hpBase h) + 160 * 2 ^ hpShift h \<le> 2 ^ 63 \<and>
     0 < hpClasses h \<and> hpClasses h \<le> WeavecRtClassCount \<and> hpClasses h \<le> hpRegions h \<and> hpRegions h \<le> WeavecRtRegionCount \<and>
     cachedClasses h \<le> hpClasses h"

text \<open>A cache's list has the slots the thread holds for the class, once each, of regions of the class.\<close>

definition entries_ok :: "heap \<Rightarrow> (nat \<times> nat) set \<Rightarrow> nat \<Rightarrow> u64 list \<Rightarrow> bool" where
  "entries_ok h xs c es \<longleftrightarrow>
     distinct (map entryOf es) \<and> xs = entryOf ` set es \<and>
     (\<forall>e \<in> set es. entryRegion e < hpRegions h \<and> regionClass h (entryRegion e) = c)"

definition regions_ok :: "owner \<Rightarrow> heap \<Rightarrow> bool" where
  "regions_ok own h \<longleftrightarrow>
     (\<forall>r < hpRegions h. region_ok (hpTable h r) (hpRegion h r) (hpWords h r) (own r)) \<and>
     (\<forall>r \<ge> hpRegions h. own r = (\<lambda>_. None) \<and> hpWords h r = (\<lambda>_. WeavecRtNever) \<and> region_fresh (hpRegion h r))"

type_synonym entries = "nat \<Rightarrow> nat \<Rightarrow> u64 list"

definition heap_inv :: "owner \<Rightarrow> entries \<Rightarrow> entries \<Rightarrow> heap \<Rightarrow> bool" where
  "heap_inv own as rs h \<longleftrightarrow>
     arena_ok h \<and> table_ok h \<and> chains_ok h \<and> regions_ok own h \<and>
     (\<forall>t c. entries_ok h (held own (AllocCache t c)) c (as t c)) \<and>
     (\<forall>t c. entries_ok h (held own (ReleaseCache t c)) c (rs t c)) \<and>
     (\<forall>t c. cachedClasses h \<le> c \<longrightarrow> as t c = [] \<and> rs t c = [])"

definition allocs :: "heap \<Rightarrow> entries" where
  "allocs h t c = (case cacheOf h t of HasCache tc \<Rightarrow> tcAlloc tc c | _ \<Rightarrow> [])"

definition releases :: "heap \<Rightarrow> entries" where
  "releases h t c = (case cacheOf h t of HasCache tc \<Rightarrow> tcRelease tc c | _ \<Rightarrow> [])"

text \<open>Between the calls no slot is in a hand.\<close>

definition at_rest :: "owner \<Rightarrow> heap \<Rightarrow> bool" where
  "at_rest own h \<longleftrightarrow> heap_inv own (allocs h) (releases h) h"

subsection \<open>What a call leaves alone\<close>

definition liveMap :: "heap \<Rightarrow> nat \<times> nat \<Rightarrow> nat option" where
  "liveMap h = (\<lambda>(r, s). if wordState (hpWords h r s) = WeavecRtLive then Some (weavecRtWordValue (hpWords h r s)) else None)"

definition hugeLive :: "heap \<Rightarrow> (u64 \<times> u64 \<times> u64 \<times> u64) list" where
  "hugeLive h = map (\<lambda>b. (hbBase b, hbSize b, hbMap b, hbMapBytes b)) (filter (\<lambda>b. hbDead b = 0) (hugeBlocks h))"

definition nesting :: "thread_cache \<Rightarrow> nat \<times> nat \<times> u64 list \<times> (nat \<Rightarrow> nat)" where
  "nesting tc = (tcDepth tc, tcLocks tc, tcDeferred tc, tcLimit tc)"

text \<open>The cache of a thread that is in no call of the allocator.\<close>

definition quietCache :: "nat \<Rightarrow> thread_cache \<Rightarrow> bool" where
  "quietCache n tc \<longleftrightarrow> tcDepth tc = 0 \<and> tcLocks tc = 0 \<and> tcDeferred tc = [] \<and> (\<forall>c < n. tcLimit tc c \<noteq> 0)"

lemma quietCache_nesting: "nesting tc' = nesting tc \<Longrightarrow> quietCache n tc' = quietCache n tc"
  by (simp add: nesting_def quietCache_def)

text \<open>
  Beside the lists: no mark is set between sweeps, the huge blocks are sorted and outside the arena, the
  list of caches has the threads that have one.
\<close>

definition marks_clear :: "heap \<Rightarrow> bool" where
  "marks_clear h \<longleftrightarrow> (\<forall>r m. rsMarks (hpRegion h r) = Some m \<longrightarrow> (\<forall>s. \<not> m s))"

definition outside_arena :: "heap \<Rightarrow> huge_block \<Rightarrow> bool" where
  "outside_arena h b \<longleftrightarrow> unat (hbMap b) + unat (hbMapBytes b) \<le> unat (hpBase h) \<or> unat (hpBase h) + unat (hpBytes h) \<le> unat (hbMap b)"

definition threads_ok :: "heap \<Rightarrow> bool" where
  "threads_ok h \<longleftrightarrow> distinct (caches h) \<and> (\<forall>t. t \<in> set (caches h) \<longleftrightarrow> (\<exists>tc. cacheOf h t = HasCache tc))"

definition side_ok :: "heap \<Rightarrow> bool" where
  "side_ok h \<longleftrightarrow> marks_clear h \<and> huge_wf h \<and> (\<forall>b \<in> set (hugeBlocks h). outside_arena h b) \<and> threads_ok h"

definition framed :: "heap \<Rightarrow> heap \<Rightarrow> bool" where
  "framed h h' \<longleftrightarrow>
     hpBase h' = hpBase h \<and> hpBytes h' = hpBytes h \<and> hpShift h' = hpShift h \<and> hpClasses h' = hpClasses h \<and>
     cachedClasses h' = cachedClasses h \<and> cacheKeyReady h' = cacheKeyReady h \<and> pageBytes h' = pageBytes h \<and>
     hpRegions h \<le> hpRegions h' \<and>
     (\<forall>r < hpRegions h. hpTable h' r = hpTable h r \<and> regionClass h' r = regionClass h r) \<and>
     (\<forall>t tc. cacheOf h t = HasCache tc \<longrightarrow> (\<exists>tc'. cacheOf h' t = HasCache tc' \<and> nesting tc' = nesting tc)) \<and>
     (\<forall>t tc'. cacheOf h' t = HasCache tc' \<longrightarrow> (\<exists>tc. cacheOf h t = HasCache tc) \<or> quietCache (cachedClasses h) tc') \<and>
     (side_ok h \<longrightarrow> side_ok h')"

definition spans :: "heap \<Rightarrow> (u64 \<times> u64) set" where
  "spans h = (\<lambda>b. (hbMap b, hbMapBytes b)) ` set (hugeBlocks h)"

definition kept :: "heap \<Rightarrow> heap \<Rightarrow> bool" where
  "kept h h' \<longleftrightarrow> framed h h' \<and> liveMap h' = liveMap h \<and> hugeLive h' = hugeLive h \<and> hpMem h' = hpMem h \<and> spans h' \<subseteq> spans h"

lemma framed_refl [simp, intro]: "framed h h"
  by (simp add: framed_def)

lemma framed_trans [trans]:
  assumes "framed h h'" "framed h' h''"
  shows "framed h h''"
proof -
  have "\<exists>tc'. cacheOf h'' t = HasCache tc' \<and> nesting tc' = nesting tc" if "cacheOf h t = HasCache tc" for t tc
    using assms that unfolding framed_def by metis
  moreover have "(\<exists>tc. cacheOf h t = HasCache tc) \<or> quietCache (cachedClasses h) tc'" if c: "cacheOf h'' t = HasCache tc'" for t tc'
  proof (cases "\<exists>tc. cacheOf h' t = HasCache tc")
    case True
    then obtain tc where tc: "cacheOf h' t = HasCache tc" by blast
    then have "nesting tc' = nesting tc" using assms(2) c unfolding framed_def by (metis cache_value.inject)
    moreover have "(\<exists>tc. cacheOf h t = HasCache tc) \<or> quietCache (cachedClasses h) tc" using assms(1) tc unfolding framed_def by blast
    ultimately show ?thesis using quietCache_nesting by blast
  next
    case False
    have "cachedClasses h' = cachedClasses h" using assms(1) by (simp add: framed_def)
    then show ?thesis using assms(2) c False unfolding framed_def by metis
  qed
  ultimately show ?thesis using assms unfolding framed_def by auto
qed

lemma kept_refl [simp, intro]: "kept h h"
  by (simp add: kept_def)

lemma kept_trans [trans]: "kept h h' \<Longrightarrow> kept h' h'' \<Longrightarrow> kept h h''"
  by (auto simp: kept_def intro: framed_trans)

lemma kept_framed: "kept h h' \<Longrightarrow> framed h h'"
  by (simp add: kept_def)

text \<open>The geometry of a heap, as one value.\<close>

definition geom where
  "geom h = (hpBase h, hpBytes h, hpShift h, hpClasses h, hpRegions h, hpTable h, regionNext h, regionClass h, cachedClasses h)"

lemma geomD:
  assumes "geom h' = geom h"
  shows "hpBase h' = hpBase h" "hpBytes h' = hpBytes h" "hpShift h' = hpShift h" "hpClasses h' = hpClasses h"
    "hpRegions h' = hpRegions h" "hpTable h' = hpTable h" "regionNext h' = regionNext h" "regionClass h' = regionClass h"
    "cachedClasses h' = cachedClasses h"
  using assms by (simp_all add: geom_def)

definition hugePart where
  "hugePart h = (hugeBlocks h, hugeLow h, hugeHigh h, hugeDeadCount h)"

definition same_marks :: "heap \<Rightarrow> heap \<Rightarrow> bool" where
  "same_marks h h' \<longleftrightarrow> (\<forall>r. rsMarks (hpRegion h' r) = rsMarks (hpRegion h r))"

definition same_cache :: "cache_value \<Rightarrow> cache_value \<Rightarrow> bool" where
  "same_cache v v' \<longleftrightarrow> v' = v \<or> (\<exists>tc tc'. v = HasCache tc \<and> v' = HasCache tc' \<and> nesting tc' = nesting tc)"

lemma same_cache_refl [simp]: "same_cache v v"
  by (simp add: same_cache_def)

lemma same_marks_refl [simp]: "hpRegion h' = hpRegion h \<Longrightarrow> same_marks h h'"
  by (simp add: same_marks_def)

lemma framed_geom:
  assumes "geom h' = geom h" "cacheKeyReady h' = cacheKeyReady h" "pageBytes h' = pageBytes h" "hugePart h' = hugePart h"
    "same_marks h h'" "caches h' = caches h" "\<And>t. same_cache (cacheOf h t) (cacheOf h' t)"
  shows "framed h h'"
proof -
  have "marks_clear h' = marks_clear h" "huge_wf h' = huge_wf h" "hugeBlocks h' = hugeBlocks h"
    "outside_arena h' b = outside_arena h b" for b
    using assms(4,5) geomD [OF assms(1)] by (simp_all add: marks_clear_def same_marks_def huge_wf_def hugePart_def outside_arena_def)
  moreover have "(\<exists>tc. cacheOf h' t = HasCache tc) = (\<exists>tc. cacheOf h t = HasCache tc)" for t
    using assms(7) [of t] unfolding same_cache_def by metis
  then have "threads_ok h' = threads_ok h" using assms(6) by (simp add: threads_ok_def)
  ultimately have "side_ok h' = side_ok h" by (simp add: side_ok_def)
  moreover have "\<exists>tc'. cacheOf h' t = HasCache tc' \<and> nesting tc' = nesting tc" if "cacheOf h t = HasCache tc" for t tc
    using assms(7) [of t] that unfolding same_cache_def by (metis cache_value.inject)
  moreover have "\<exists>tc. cacheOf h t = HasCache tc" if "cacheOf h' t = HasCache tc'" for t tc'
    using assms(7) [of t] that unfolding same_cache_def by metis
  ultimately show ?thesis using assms(2,3) geomD [OF assms(1)] by (simp add: framed_def)
qed

lemma kept_geom:
  assumes "geom h' = geom h" "cacheKeyReady h' = cacheKeyReady h" "pageBytes h' = pageBytes h" "hpMem h' = hpMem h"
    "liveMap h' = liveMap h" "hugePart h' = hugePart h" "same_marks h h'" "caches h' = caches h"
    "\<And>t. same_cache (cacheOf h t) (cacheOf h' t)"
  shows "kept h h'"
  using assms(4-6) framed_geom [OF assms(1-3,6-9)] by (simp add: kept_def hugeLive_def hugePart_def spans_def)

lemma geom_ok:
  assumes "geom h' = geom h"
  shows "arena_ok h' = arena_ok h" "table_ok h' = table_ok h" "entries_ok h' xs c es = entries_ok h xs c es"
    "classActive h' = classActive h \<Longrightarrow> chains_ok h' = chains_ok h"
  using geomD [OF assms] by (simp_all add: arena_ok_def table_ok_def entries_ok_def chains_ok_def)

text \<open>A heap that differs in nothing the invariant reads.\<close>

lemma heap_inv_same:
  assumes "geom h' = geom h" "classActive h' = classActive h" "hpWords h' = hpWords h"
    "\<And>r. rsBump (hpRegion h' r) = rsBump (hpRegion h r) \<and> rsFreeHead (hpRegion h' r) = rsFreeHead (hpRegion h r) \<and>
       rsDeadHead (hpRegion h' r) = rsDeadHead (hpRegion h r) \<and> rsDeadTail (hpRegion h' r) = rsDeadTail (hpRegion h r)"
  shows "heap_inv own as rs h' = heap_inv own as rs h"
proof -
  have "region_ok e (hpRegion h' r) w o' = region_ok e (hpRegion h r) w o'" for e r w o'
    using assms(4) [of r] by (simp add: region_ok_def slots_ok_def lists_ok_def)
  moreover have "region_fresh (hpRegion h' r) = region_fresh (hpRegion h r)" for r
    using assms(4) [of r] by (simp add: region_fresh_def)
  ultimately have "regions_ok own h' = regions_ok own h" using assms(3) geomD [OF assms(1)] by (simp add: regions_ok_def)
  then show ?thesis using geom_ok [OF assms(1)] assms(2) geomD(9) [OF assms(1)] by (simp add: heap_inv_def)
qed

subsection \<open>Changes of one region\<close>

definition give :: "owner \<Rightarrow> nat \<Rightarrow> nat \<Rightarrow> place option \<Rightarrow> owner" where
  "give own r s q = own(r := (own r)(s := q))"

lemma give_apply [simp]: "give own r s q r = (own r)(s := q)" "r' \<noteq> r \<Longrightarrow> give own r s q r' = own r'"
  by (simp_all add: give_def)

lemma held_give: "held (give own r s q) p = (if q = Some p then insert (r, s) (held own p) else held own p - {(r, s)})"
  by (auto simp: held_def give_def split: if_splits)

lemma held_not: "own r s \<noteq> Some p \<Longrightarrow> held own p - {(r, s)} = held own p"
  by (auto simp: held_def)

text \<open>One slot of one region changes its place; the caches' lists change with it.\<close>

lemma heap_inv_give:
  assumes inv: "heap_inv own as rs h" and r: "r < hpRegions h"
    and g: "geom h' = geom h" "classActive h' = classActive h"
    and same: "\<And>q. q \<noteq> r \<Longrightarrow> hpRegion h' q = hpRegion h q \<and> hpWords h' q = hpWords h q"
    and ok: "region_ok (hpTable h r) (hpRegion h' r) (hpWords h' r) ((own r)(s := p))"
    and as: "\<And>t c. entries_ok h (held (give own r s p) (AllocCache t c)) c (as' t c)"
    and rs: "\<And>t c. entries_ok h (held (give own r s p) (ReleaseCache t c)) c (rs' t c)"
    and no: "\<And>t c. cachedClasses h \<le> c \<Longrightarrow> as' t c = [] \<and> rs' t c = []"
  shows "heap_inv (give own r s p) as' rs' h'"
proof -
  have old: "arena_ok h" "table_ok h" "chains_ok h" "regions_ok own h" using inv by (simp_all add: heap_inv_def)
  have "regions_ok (give own r s p) h'"
    unfolding regions_ok_def
  proof (intro conjI allI impI)
    fix q
    assume q: "q < hpRegions h'"
    then show "region_ok (hpTable h' q) (hpRegion h' q) (hpWords h' q) (give own r s p q)"
      using old(4) ok same [of q] geomD [OF g(1)] by (cases "q = r") (simp_all add: regions_ok_def)
  next
    fix q
    assume "hpRegions h' \<le> q"
    then have "q \<noteq> r" "hpRegions h \<le> q" using r geomD [OF g(1)] by auto
    then show "give own r s p q = (\<lambda>_. None)" "hpWords h' q = (\<lambda>_. WeavecRtNever)" "region_fresh (hpRegion h' q)"
      using old(4) same [of q] by (simp_all add: regions_ok_def)
  qed
  then show ?thesis using old geom_ok [OF g(1)] g(2) as rs no geomD(9) [OF g(1)] by (simp add: heap_inv_def)
qed

definition cached :: "place option \<Rightarrow> bool" where
  "cached p \<longleftrightarrow> (\<exists>t c. p = Some (AllocCache t c) \<or> p = Some (ReleaseCache t c))"

lemma cached_simps [simp]:
  "\<not> cached None" "\<not> cached (Some FreeList)" "\<not> cached (Some DeadList)" "\<not> cached (Some HandFree)" "\<not> cached (Some HandDead)"
  by (simp_all add: cached_def)

lemma heap_inv_give_plain:
  assumes inv: "heap_inv own as rs h" and r: "r < hpRegions h"
    and g: "geom h' = geom h" "classActive h' = classActive h"
    and same: "\<And>q. q \<noteq> r \<Longrightarrow> hpRegion h' q = hpRegion h q \<and> hpWords h' q = hpWords h q"
    and ok: "region_ok (hpTable h r) (hpRegion h' r) (hpWords h' r) ((own r)(s := p))"
    and nc: "\<not> cached (own r s)" "\<not> cached p"
  shows "heap_inv (give own r s p) as rs h'"
proof (rule heap_inv_give [OF inv r g same ok])
  fix t c
  have "p \<noteq> Some (AllocCache t c)" "p \<noteq> Some (ReleaseCache t c)" "own r s \<noteq> Some (AllocCache t c)" "own r s \<noteq> Some (ReleaseCache t c)"
    using nc by (auto simp: cached_def)
  then have "held (give own r s p) (AllocCache t c) = held own (AllocCache t c)"
    "held (give own r s p) (ReleaseCache t c) = held own (ReleaseCache t c)" by (simp_all add: held_give held_not)
  then show "entries_ok h (held (give own r s p) (AllocCache t c)) c (as t c)"
    "entries_ok h (held (give own r s p) (ReleaseCache t c)) c (rs t c)" using inv by (simp_all add: heap_inv_def)
  show "cachedClasses h \<le> c \<Longrightarrow> as t c = [] \<and> rs t c = []" using inv by (simp add: heap_inv_def)
qed simp

lemma heap_inv_region: "heap_inv own as rs h \<Longrightarrow> r < hpRegions h \<Longrightarrow> region_ok (hpTable h r) (hpRegion h r) (hpWords h r) (own r)"
  by (simp add: heap_inv_def regions_ok_def)

lemma heap_inv_slots: "heap_inv own as rs h \<Longrightarrow> r < hpRegions h \<Longrightarrow> slots_ok (hpTable h r) (hpRegion h r) (hpWords h r) (own r)"
  by (drule (1) heap_inv_region) (simp add: region_ok_def)

lemma placed_region: "heap_inv own as rs h \<Longrightarrow> own r s \<noteq> None \<Longrightarrow> r < hpRegions h"
  by (rule ccontr) (simp add: heap_inv_def regions_ok_def)

lemma region_number: "heap_inv own as rs h \<Longrightarrow> r < hpRegions h \<Longrightarrow> r < 160"
  by (simp add: heap_inv_def arena_ok_def)

lemma geom_update [simp]: "geom (hpRegion_update f h) = geom h" "geom (hpMem_update g h) = geom h" "geom (hpShadow_update k h) = geom h"
  by (simp_all add: geom_def)

lemma geom_steps [simp]: "geom (storeWord r i v h) = geom h" "geom (shadowSet b n x h) = geom h"
  "geom (setCache t tc h) = geom h" "geom (addLive d h) = geom h" "geom (addQuarantine c q h) = geom h"
  by (simp_all add: geom_def storeWord_def shadowSet_def setCache_def addLive_def addQuarantine_def Let_def)

lemma active_simps [simp]: "classActive (storeWord r i v h) = classActive h" "classActive (shadowSet b n x h) = classActive h"
  "classActive (setCache t tc h) = classActive h" "classActive (addLive d h) = classActive h"
  "classActive (addQuarantine c q h) = classActive h"
  by (simp_all add: storeWord_def shadowSet_def setCache_def addLive_def addQuarantine_def Let_def)

lemma words_simps [simp]: "hpWords (storeWord r i v h) = (hpWords h)(r := (hpWords h r)(i := v))" "hpWords (shadowSet b n x h) = hpWords h"
  "hpWords (setCache t tc h) = hpWords h" "hpWords (addLive d h) = hpWords h" "hpWords (addQuarantine c q h) = hpWords h"
  by (simp_all add: storeWord_def shadowSet_def setCache_def addLive_def addQuarantine_def Let_def)

lemma region_simps [simp]: "hpRegion (storeWord r i v h) = hpRegion h" "hpRegion (shadowSet b n x h) = hpRegion h"
  "hpRegion (setCache t tc h) = hpRegion h" "hpRegion (addLive d h) = hpRegion h" "hpRegion (addQuarantine c q h) = hpRegion h"
  by (simp_all add: storeWord_def shadowSet_def setCache_def addLive_def addQuarantine_def Let_def)

lemma cacheOf_simps [simp]: "cacheOf (storeWord r i v h) = cacheOf h" "cacheOf (shadowSet b n x h) = cacheOf h"
  "cacheOf (setCache t tc h) = (cacheOf h)(t := HasCache tc)" "cacheOf (addLive d h) = cacheOf h"
  "cacheOf (addQuarantine c q h) = cacheOf h"
  by (simp_all add: storeWord_def shadowSet_def setCache_def addLive_def addQuarantine_def Let_def)

lemma hugePart_simps [simp]: "hugePart (hpRegion_update f h) = hugePart h" "hugePart (hpMem_update g h) = hugePart h"
  "hugePart (hpShadow_update k h) = hugePart h" "hugePart (storeWord r i v h) = hugePart h" "hugePart (shadowSet b n x h) = hugePart h"
  "hugePart (setCache t tc h) = hugePart h" "hugePart (addLive d h) = hugePart h"
  "hugePart (addQuarantine c q h) = hugePart h"
  by (simp_all add: hugePart_def storeWord_def shadowSet_def setCache_def addLive_def addQuarantine_def Let_def)

lemma caches_simps [simp]: "caches (storeWord r i v h) = caches h" "caches (shadowSet b n x h) = caches h"
  "caches (setCache t tc h) = caches h" "caches (addLive d h) = caches h" "caches (addQuarantine c q h) = caches h"
  by (simp_all add: storeWord_def shadowSet_def setCache_def addLive_def addQuarantine_def Let_def)

lemma other_simps [simp]:
  "hpMem (storeWord r i v h) = hpMem h" "hpMem (shadowSet b n x h) = hpMem h"
  "hpMem (setCache t tc h) = hpMem h" "hpMem (addLive d h) = hpMem h" "hpMem (addQuarantine c q h) = hpMem h"
  "cacheKeyReady (storeWord r i v h) = cacheKeyReady h" "cacheKeyReady (shadowSet b n x h) = cacheKeyReady h"
  "cacheKeyReady (setCache t tc h) = cacheKeyReady h" "cacheKeyReady (addLive d h) = cacheKeyReady h"
  "cacheKeyReady (addQuarantine c q h) = cacheKeyReady h"
  "pageBytes (storeWord r i v h) = pageBytes h" "pageBytes (shadowSet b n x h) = pageBytes h"
  "pageBytes (setCache t tc h) = pageBytes h" "pageBytes (addLive d h) = pageBytes h" "pageBytes (addQuarantine c q h) = pageBytes h"
  by (simp_all add: storeWord_def shadowSet_def setCache_def addLive_def addQuarantine_def Let_def)

lemma geom_simps [simp]:
  "hpBase (storeWord r i v h) = hpBase h" "hpBase (shadowSet b n x h) = hpBase h" "hpBase (setCache t tc h) = hpBase h"
  "hpShift (storeWord r i v h) = hpShift h" "hpShift (shadowSet b n x h) = hpShift h" "hpShift (setCache t tc h) = hpShift h"
  "hpTable (storeWord r i v h) = hpTable h" "hpTable (shadowSet b n x h) = hpTable h" "hpTable (setCache t tc h) = hpTable h"
  "hpRegions (storeWord r i v h) = hpRegions h" "hpRegions (shadowSet b n x h) = hpRegions h" "hpRegions (setCache t tc h) = hpRegions h"
  "regionClass (storeWord r i v h) = regionClass h" "regionClass (shadowSet b n x h) = regionClass h"
  "regionClass (setCache t tc h) = regionClass h"
  "hpTable (addLive d h) = hpTable h" "hpTable (addQuarantine c q h) = hpTable h"
  "hpRegions (addLive d h) = hpRegions h" "hpRegions (addQuarantine c q h) = hpRegions h"
  "cachedClasses (storeWord r i v h) = cachedClasses h" "cachedClasses (setCache t tc h) = cachedClasses h"
  "cachedClasses (addLive d h) = cachedClasses h" "cachedClasses (addQuarantine c q h) = cachedClasses h"
  "regionClass (addLive d h) = regionClass h" "regionClass (addQuarantine c q h) = regionClass h"
  by (simp_all add: storeWord_def shadowSet_def setCache_def addLive_def addQuarantine_def Let_def)

subsection \<open>Slots taken from the regions\<close>

text \<open>What a heap has after slots were popped: the words are the old ones.\<close>

definition popped :: "heap \<Rightarrow> heap \<Rightarrow> bool" where
  "popped h h' \<longleftrightarrow> geom h' = geom h \<and> cacheKeyReady h' = cacheKeyReady h \<and> pageBytes h' = pageBytes h \<and>
     hpMem h' = hpMem h \<and> hpWords h' = hpWords h \<and> hugePart h' = hugePart h \<and> cacheOf h' = cacheOf h \<and>
     caches h' = caches h \<and> same_marks h h'"

lemma popped_refl [simp]: "popped h h" by (simp add: popped_def)

lemma popped_trans [trans]: "popped h h' \<Longrightarrow> popped h' h'' \<Longrightarrow> popped h h''" by (simp add: popped_def same_marks_def)

lemma liveMap_words: "hpWords h' = hpWords h \<Longrightarrow> liveMap h' = liveMap h"
  by (simp add: liveMap_def fun_eq_iff)

lemma popped_live: "popped h h' \<Longrightarrow> liveMap h' = liveMap h"
  by (rule liveMap_words) (simp add: popped_def)

lemma popped_kept: "popped h h' \<Longrightarrow> kept h h'"
  by (rule kept_geom) (simp_all add: popped_def liveMap_words [of h' h])

lemma popSlot_inv:
  assumes inv: "heap_inv own as rs h" and r: "r < hpRegions h" and pop: "popSlot os r h = (res, h')"
  shows "popped h h' \<and> classActive h' = classActive h \<and>
    (case res of None \<Rightarrow> heap_inv own as rs h'
     | Some (s, u) \<Rightarrow> (own r s = None \<and> wordState (hpWords h r s) = WeavecRtNever \<or> own r s = Some FreeList) \<and>
         s < 2 ^ 27 \<and> heap_inv (give own r s (Some HandFree)) as rs h')"
proof (cases "rsFreeHead (hpRegion h r) \<noteq> 0")
  case True
  let ?st = "hpRegion h r" let ?s = "rsFreeHead (hpRegion h r) - 1"
  have res: "res = Some (?s, True)" "h' = setRegion r (?st\<lparr>rsFreeHead := weavecRtWordValue (hpWords h r ?s)\<rparr>) h"
    using pop True by (simp_all add: popSlot_def Let_def)
  note f = region_popFree [OF heap_inv_region [OF inv r] True]
  have "?s < 2 ^ 27" using placed_bump [OF heap_inv_slots [OF inv r], of ?s] f(1) by simp
  moreover have "heap_inv (give own r ?s (Some HandFree)) as rs h'"
    by (rule heap_inv_give_plain [OF inv r]) (use f res in simp_all)
  ultimately show ?thesis using res f(1) by (simp add: popped_def same_marks_def)
next
  case False
  let ?st = "hpRegion h r"
  have fresh: "popFresh os r h = (res, h')" using pop False by (simp add: popSlot_def)
  have so: "slots_ok (hpTable h r) ?st (hpWords h r) (own r)" by (rule heap_inv_slots [OF inv r])
  have same: "heap_inv own as rs (setRegion r (?st\<lparr>rsCommitted := a, rsMetaCommitted := b\<rparr>) h)"
    "heap_inv own as rs (setRegion r (?st\<lparr>rsCommitted := a\<rparr>) h)" for a b
    using inv by (subst heap_inv_same [of _ h]; simp)+
  show ?thesis
  proof (cases res)
    case None
    then have "h' = h \<or> (\<exists>a. h' = setRegion r (?st\<lparr>rsCommitted := a\<rparr>) h) \<or>
        (\<exists>a b. h' = setRegion r (?st\<lparr>rsCommitted := a, rsMetaCommitted := b\<rparr>) h)"
      using fresh by (auto simp: popFresh_def Let_def split: if_splits prod.splits bool.splits)
    then show ?thesis using None inv same by (auto simp: popped_def same_marks_def)
  next
    case (Some su)
    then obtain a b where su: "su = (rsBump ?st, False)" "rsBump ?st < clCapacity (hpTable h r)"
      and h': "hpRegion h' = (hpRegion h)(r := ?st\<lparr>rsCommitted := a, rsMetaCommitted := b, rsBump := rsBump ?st + 1\<rparr>)"
        "popped h h'" "classActive h' = classActive h"
      using fresh by (auto simp: popFresh_def Let_def popped_def same_marks_def split: if_splits prod.splits bool.splits)
    have w: "hpWords h' = hpWords h" "geom h' = geom h" using h'(2) by (simp_all add: popped_def)
    note f = region_popFresh [OF heap_inv_region [OF inv r] su(2), of "hpRegion h' r"]
    have "hpWords h r (rsBump ?st) = 0" "rsBump ?st < 2 ^ 27" using so su(2) by (simp_all add: slots_ok_def)
    moreover have "heap_inv (give own r (rsBump ?st) (Some HandFree)) as rs h'"
      by (rule heap_inv_give_plain [OF inv r]) (use f w h' in simp_all)
    ultimately show ?thesis using Some su(1) f(1) h' by (simp add: wordState_def)
  qed
qed

text \<open>The slots in a hand, as entries of regions of one class.\<close>

definition in_hand :: "heap \<Rightarrow> owner \<Rightarrow> nat \<Rightarrow> u64 list \<Rightarrow> bool" where
  "in_hand h own c es \<longleftrightarrow> entries_ok h (held own HandFree) c es"

lemma entryOf_slotEntry: "r < 160 \<Longrightarrow> s < 2 ^ 27 \<Longrightarrow> entryOf (slotEntry r s u) = (r, s)"
  by (simp add: entryOf_def)

lemma popRegion_inv:
  assumes "heap_inv own as rs h" "r < hpRegions h" "regionClass h r = c" "popRegion os r want h = (es, h')"
  shows "\<exists>own'. heap_inv own' as rs h' \<and> popped h h' \<and> classActive h' = classActive h \<and>
    distinct (map entryOf es) \<and> held own' HandFree = held own HandFree \<union> entryOf ` set es \<and>
    held own HandFree \<inter> entryOf ` set es = {} \<and> held own' HandDead = held own HandDead \<and>
    (\<forall>e \<in> set es. entryRegion e = r)"
  using assms
proof (induction want arbitrary: own h es)
  case 0
  then show ?case by auto
next
  case (Suc want)
  obtain res h1 where pop: "popSlot os r h = (res, h1)" by (cases "popSlot os r h")
  note p = popSlot_inv [OF Suc.prems(1,2) pop]
  show ?case
  proof (cases res)
    case None
    then show ?thesis using Suc.prems p pop by (intro exI [of _ own]) auto
  next
    case (Some su)
    obtain s u where su: "su = (s, u)" by (cases su)
    obtain es' where rest: "popRegion os r want h1 = (es', h')" "es = slotEntry r s u # es'"
      using Suc.prems(4) pop Some su by (auto split: prod.splits)
    let ?own = "give own r s (Some HandFree)"
    have i1: "heap_inv ?own as rs h1" "popped h h1" "classActive h1 = classActive h" "s < 2 ^ 27"
      and o: "own r s = None \<and> wordState (hpWords h r s) = WeavecRtNever \<or> own r s = Some FreeList"
      using p Some su by auto
    have "hpRegions h1 = hpRegions h" "regionClass h1 = regionClass h" using i1(2) by (auto simp: popped_def dest: geomD)
    then obtain own' where own': "heap_inv own' as rs h'" "popped h1 h'" "classActive h' = classActive h1"
      "distinct (map entryOf es')" "held own' HandFree = held ?own HandFree \<union> entryOf ` set es'"
      "held ?own HandFree \<inter> entryOf ` set es' = {}" "held own' HandDead = held ?own HandDead"
      "\<forall>e \<in> set es'. entryRegion e = r"
      using Suc.IH [OF i1(1), of es'] Suc.prems(2,3) rest(1) by auto
    have e: "entryOf (slotEntry r s u) = (r, s)" using region_number [OF Suc.prems(1,2)] i1(4) by (rule entryOf_slotEntry)
    have "(r, s) \<notin> held own HandFree" "own r s \<noteq> Some HandDead" using o by (auto simp: held_def)
    moreover have "entryRegion (slotEntry r s u) = r" using e by (simp add: entryOf_def)
    ultimately show ?thesis
      using own' e i1(3) popped_trans [OF i1(2) own'(2)] rest(2)
      by (intro exI [of _ own']) (auto simp: held_give held_not)
  qed
qed

lemma held_not_live: "heap_inv own as rs h \<Longrightarrow> own r s \<noteq> None \<Longrightarrow> liveMap h (r, s) = None"
  using slot_states(1) [OF heap_inv_slots [of own as rs h r], of s] placed_region [of own as rs h r s]
  by (auto simp: liveMap_def)

lemma heap_inv_active:
  assumes inv: "heap_inv own as rs h" and r: "r < hpRegions h" "regionClass h r = c"
  shows "heap_inv own as rs (h\<lparr>classActive := (classActive h)(c := r)\<rparr>)"
  using assms by (simp add: heap_inv_def arena_ok_def table_ok_def chains_ok_def regions_ok_def entries_ok_def)

lemma next_region:
  assumes "heap_inv own as rs h" "r < hpRegions h"
  shows "regionNext h r = NoRegion \<or> r < regionNext h r \<and> regionNext h r < hpRegions h \<and> regionClass h (regionNext h r) = regionClass h r"
  using assms by (simp add: heap_inv_def chains_ok_def)

lemma popRegions_inv:
  assumes "heap_inv own as rs h" "r = NoRegion \<or> r < hpRegions h \<and> regionClass h r = c" "popRegions os n c r want h = (es, h')"
  shows "\<exists>own'. heap_inv own' as rs h' \<and> popped h h' \<and>
    distinct (map entryOf es) \<and> held own' HandFree = held own HandFree \<union> entryOf ` set es \<and>
    held own HandFree \<inter> entryOf ` set es = {} \<and> held own' HandDead = held own HandDead \<and>
    (\<forall>e \<in> set es. entryRegion e < hpRegions h \<and> regionClass h (entryRegion e) = c)"
  using assms
proof (induction n arbitrary: own h r)
  case 0
  then show ?case by auto
next
  case (Suc n)
  show ?case
  proof (cases "r = NoRegion")
    case True
    then show ?thesis using Suc.prems by auto
  next
    case False
    then have r: "r < hpRegions h" "regionClass h r = c" using Suc.prems(2) by auto
    obtain es1 h1 where pop: "popRegion os r want h = (es1, h1)" by (cases "popRegion os r want h")
    obtain own1 where own1: "heap_inv own1 as rs h1" "popped h h1" "classActive h1 = classActive h"
      "distinct (map entryOf es1)" "held own1 HandFree = held own HandFree \<union> entryOf ` set es1"
      "held own HandFree \<inter> entryOf ` set es1 = {}" "held own1 HandDead = held own HandDead" "\<forall>e \<in> set es1. entryRegion e = r"
      using popRegion_inv [OF Suc.prems(1) r pop] by auto
    have g: "hpRegions h1 = hpRegions h" "regionClass h1 = regionClass h" "regionNext h1 = regionNext h"
      using own1(2) by (auto simp: popped_def dest: geomD)
    show ?thesis
    proof (cases es1)
      case Nil
      then have rest: "popRegions os n c (regionNext h1 r) want h1 = (es, h')" using Suc.prems(3) pop False by simp
      have nx: "regionNext h1 r = NoRegion \<or> regionNext h1 r < hpRegions h1 \<and> regionClass h1 (regionNext h1 r) = c"
        using next_region [OF Suc.prems(1) r(1)] r(2) g by auto
      show ?thesis using Suc.IH [OF own1(1) nx rest] own1(2,5,7) Nil g popped_trans [OF own1(2)] by auto
    next
      case (Cons e es2)
      then have h': "es = es1" "h' = h1\<lparr>classActive := (classActive h1)(c := r)\<rparr>" using Suc.prems(3) pop False by simp_all
      have "heap_inv own1 as rs h'" unfolding h'(2) using r g by (intro heap_inv_active [OF own1(1)]) simp_all
      moreover have "popped h1 h'" by (simp add: h' popped_def geom_def hugePart_def)
      ultimately show ?thesis using own1 h'(1) r popped_trans [OF own1(2)] by (intro exI [of _ own1]) simp
    qed
  qed
qed

lemma lastRegion_end:
  assumes "\<And>r. P r \<Longrightarrow> nxt r \<noteq> NoRegion \<Longrightarrow> r < nxt r \<and> nxt r < N \<and> P (nxt r)" "P r" "r < N" "N \<le> r + n"
  shows "nxt (lastRegion n nxt r) = NoRegion \<and> P (lastRegion n nxt r) \<and> lastRegion n nxt r < N"
  using assms(2-)
proof (induction n arbitrary: r)
  case (Suc n)
  then show ?case using assms(1) [of r] by (cases "nxt r = NoRegion") auto
qed simp

lemma takeSpare_inv:
  assumes inv: "heap_inv own as rs h" and c: "c < hpClasses h" and t: "takeSpare c h = (b, h')"
  shows "heap_inv own as rs h' \<and> kept h h' \<and> cacheOf h' = cacheOf h \<and>
    (if b then hpRegions h < WeavecRtRegionCount \<and> hpRegions h' = Suc (hpRegions h) else h' = h)"
proof (cases "hpRegions h < WeavecRtRegionCount")
  case False
  then show ?thesis using t inv by (simp add: takeSpare_def Let_def)
next
  case True
  let ?r = "hpRegions h"
  define fin where "fin = lastRegion WeavecRtRegionCount (regionNext h) c"
  have t: "b" "h' = h\<lparr>hpTable := (hpTable h)(?r := hpTable h c), regionClass := (regionClass h)(?r := c),
      hpRegions := ?r + 1, regionNext := (regionNext h)(fin := ?r), classActive := (classActive h)(c := ?r)\<rparr>"
    using t True by (simp_all add: takeSpare_def Let_def fin_def)
  have old: "arena_ok h" "table_ok h" "chains_ok h" "regions_ok own h" using inv by (simp_all add: heap_inv_def)
  have cl: "regionClass h c = c" "c < ?r" "hpClasses h \<le> ?r" using c old(1,3) by (simp_all add: arena_ok_def chains_ok_def)
  have fin: "regionNext h fin = NoRegion \<and> (fin < ?r \<and> regionClass h fin = c) \<and> fin < ?r"
    unfolding fin_def
    by (rule lastRegion_end [where P = "\<lambda>r. r < ?r \<and> regionClass h r = c"])
      (use next_region [OF inv] cl True in auto)
  have e: "entry_ok (hpShift h) (hpTable h c)" using old(2) cl by (simp add: table_ok_def)
  have a: "arena_ok h'" using old(1) True by (simp add: arena_ok_def t)
  have tb: "table_ok h'" unfolding table_ok_def
  proof (intro conjI allI impI)
    show "clSize (hpTable h' k) = classSize k" if "k < hpClasses h'" for k
      using that old(2) cl(3) by (simp add: t table_ok_def)
  next
    fix r
    assume "r < hpRegions h'"
    then consider "r < ?r" | "r = ?r" by (auto simp: t less_Suc_eq)
    then have "entry_ok (hpShift h') (hpTable h' r) \<and> regionClass h' r < hpClasses h' \<and> hpTable h' (regionClass h' r) = hpTable h' r"
    proof cases
      case 1
      then have o1: "entry_ok (hpShift h) (hpTable h r)" "regionClass h r < hpClasses h" "hpTable h (regionClass h r) = hpTable h r"
        using old(2) by (simp_all add: table_ok_def)
      then have "regionClass h r \<noteq> ?r" using cl(3) by simp
      then show ?thesis using o1 1 by (simp add: t)
    qed (use e cl c in \<open>auto simp: t\<close>)
    then show "entry_ok (hpShift h') (hpTable h' r)" "regionClass h' r < hpClasses h'" "hpTable h' (regionClass h' r) = hpTable h' r"
      by blast+
  qed
  have ch: "chains_ok h'" unfolding chains_ok_def
  proof (intro conjI allI impI)
    fix r
    assume r: "r < hpRegions h'"
    show "regionNext h' r = NoRegion \<or> r < regionNext h' r \<and> regionNext h' r < hpRegions h' \<and>
        regionClass h' (regionNext h' r) = regionClass h' r"
    proof (cases "r < ?r \<and> r \<noteq> fin")
      case True
      then have "regionNext h r = NoRegion \<or> r < regionNext h r \<and> regionNext h r < ?r \<and> regionClass h (regionNext h r) = regionClass h r"
        using next_region [OF inv] by blast
      then show ?thesis using True by (auto simp: t)
    next
      case False
      then have "r = ?r \<or> r = fin" using r by (auto simp: t)
      then show ?thesis using fin old(3) by (auto simp: t chains_ok_def)
    qed
  next
    fix k
    assume "k < hpClasses h'"
    then have k: "k < hpClasses h" "k \<noteq> ?r" using cl by (auto simp: t)
    then have "regionClass h k = k" "classActive h k < ?r" "regionClass h (classActive h k) = k"
      using old(3) by (simp_all add: chains_ok_def)
    then show "regionClass h' k = k" "classActive h' k < hpRegions h'" "regionClass h' (classActive h' k) = k"
      using k by (auto simp: t)
  next
    fix r
    assume "hpRegions h' \<le> r"
    then show "regionNext h' r = NoRegion" using old(3) fin by (auto simp: t chains_ok_def)
  qed
  have "region_ok (hpTable h c) (hpRegion h ?r) (hpWords h ?r) (own ?r)"
  proof -
    have f: "own ?r = (\<lambda>_. None)" "hpWords h ?r = (\<lambda>_. 0)" "region_fresh (hpRegion h ?r)" using old(4) by (simp_all add: regions_ok_def)
    have "hpShift h \<le> 31" using old(1) by (auto simp: arena_ok_def)
    note ef = entry_ok_facts [OF e this]
    have "clCapacity (hpTable h c) \<le> 2 ^ 31 div 16"
      unfolding ef(4) using \<open>hpShift h \<le> 31\<close> ef(1) by (intro order_trans [OF div_le_mono2 div_le_mono] power_increasing) simp_all
    then have "slots_ok (hpTable h c) (hpRegion h ?r) (hpWords h ?r) (own ?r)" using f by (simp add: slots_ok_def region_fresh_def)
    moreover have "lists_ok (hpRegion h ?r) (hpWords h ?r) (own ?r) [] []" using f by (simp add: lists_ok_def region_fresh_def)
    ultimately show ?thesis by (auto simp: region_ok_def)
  qed
  then have "regions_ok own h'" using old(4) by (auto simp: regions_ok_def t less_Suc_eq)
  moreover have "entries_ok h' xs k es" if "entries_ok h xs k es" for xs k es
    using that by (fastforce simp: entries_ok_def t)
  ultimately have "heap_inv own as rs h'" using inv a tb ch unfolding heap_inv_def by (simp add: t)
  moreover have "side_ok h' = side_ok h"
    by (simp add: side_ok_def marks_clear_def huge_wf_def outside_arena_def threads_ok_def t)
  then have "kept h h'" unfolding kept_def framed_def by (auto simp: t liveMap_def hugeLive_def fun_eq_iff spans_def)
  ultimately show ?thesis using True t(1) by (simp add: t(2))
qed

subsection \<open>Slots into the hand, and from one list to another\<close>

text \<open>A slot of a cache's list goes to the hand; the list has one entry less.\<close>

lemma entries_ok_remove:
  assumes "entries_ok h xs c (es1 @ e # es2)"
  shows "entries_ok h (xs - {entryOf e}) c (es1 @ es2)" "entryOf e \<in> xs"
    "entryRegion e < hpRegions h \<and> regionClass h (entryRegion e) = c"
  using assms by (auto simp: entries_ok_def)

lemma entries_ok_insert:
  assumes "entries_ok h xs c es" "entryOf e \<notin> xs" "entryRegion e < hpRegions h" "regionClass h (entryRegion e) = c"
  shows "entries_ok h (insert (entryOf e) xs) c (es @ [e])"
  using assms by (auto simp: entries_ok_def)

lemma give_twice [simp]: "give (give own r s p) r s q = give own r s q"
  by (simp add: give_def)

definition upd2 :: "entries \<Rightarrow> nat \<Rightarrow> nat \<Rightarrow> u64 list \<Rightarrow> entries" where
  "upd2 as t c es = as(t := (as t)(c := es))"

lemma upd2_apply [simp]: "upd2 as t c es t c = es" "t' \<noteq> t \<Longrightarrow> upd2 as t c es t' = as t'" "c' \<noteq> c \<Longrightarrow> upd2 as t c es t c' = as t c'"
  by (simp_all add: upd2_def)

lemma upd2_if: "upd2 as t c es t' c' = (if t' = t \<and> c' = c then es else as t' c')"
  by (auto simp: upd2_def)

lemma upd2_same [simp]: "upd2 as t c (as t c) = as" "upd2 (upd2 as t c es) t c fs = upd2 as t c fs"
  by (simp_all add: upd2_def)

lemma take_alloc:
  assumes inv: "heap_inv own as rs h" and e: "as t c = es1 @ e # es2"
  shows "own (entryRegion e) (entrySlot e) = Some (AllocCache t c)"
    "entryRegion e < hpRegions h" "regionClass h (entryRegion e) = c" "c < cachedClasses h"
    "heap_inv (give own (entryRegion e) (entrySlot e) (Some HandFree)) (upd2 as t c (es1 @ es2)) rs h"
proof -
  let ?r = "entryRegion e" let ?s = "entrySlot e"
  have eo: "entries_ok h (held own (AllocCache t c)) c (es1 @ e # es2)" using inv e by (simp add: heap_inv_def) metis
  note rm = entries_ok_remove [OF eo]
  show o: "own ?r ?s = Some (AllocCache t c)" using rm(2) by (simp add: held_def entryOf_def)
  show r: "?r < hpRegions h" "regionClass h ?r = c" using rm(3) by simp_all
  show cc: "c < cachedClasses h" using inv e unfolding heap_inv_def by (metis Nil_is_append_conv list.distinct(1) not_less)
  show "heap_inv (give own ?r ?s (Some HandFree)) (upd2 as t c (es1 @ es2)) rs h"
  proof (rule heap_inv_give [OF inv r(1)])
    show "region_ok (hpTable h ?r) (hpRegion h ?r) (hpWords h ?r) ((own ?r)(?s := Some HandFree))"
      by (rule region_move [OF heap_inv_region [OF inv r(1)]]) (simp add: o)
    fix t' c'
    show "entries_ok h (held (give own ?r ?s (Some HandFree)) (AllocCache t' c')) c' (upd2 as t c (es1 @ es2) t' c')"
      using rm(1) inv o by (cases "t' = t \<and> c' = c") (auto simp: held_give held_not heap_inv_def entryOf_def upd2_if)
    show "entries_ok h (held (give own ?r ?s (Some HandFree)) (ReleaseCache t' c')) c' (rs t' c')"
      using inv o by (simp add: held_give held_not heap_inv_def)
    show "cachedClasses h \<le> c' \<Longrightarrow> upd2 as t c (es1 @ es2) t' c' = [] \<and> rs t' c' = []"
      using inv cc by (auto simp: heap_inv_def upd2_if)
  qed simp_all
qed

lemma take_release:
  assumes inv: "heap_inv own as rs h" and e: "rs t c = es1 @ e # es2"
  shows "own (entryRegion e) (entrySlot e) = Some (ReleaseCache t c)"
    "entryRegion e < hpRegions h" "regionClass h (entryRegion e) = c" "c < cachedClasses h"
    "heap_inv (give own (entryRegion e) (entrySlot e) (Some HandDead)) as (upd2 rs t c (es1 @ es2)) h"
proof -
  let ?r = "entryRegion e" let ?s = "entrySlot e"
  have eo: "entries_ok h (held own (ReleaseCache t c)) c (es1 @ e # es2)" using inv e by (simp add: heap_inv_def) metis
  note rm = entries_ok_remove [OF eo]
  show o: "own ?r ?s = Some (ReleaseCache t c)" using rm(2) by (simp add: held_def entryOf_def)
  show r: "?r < hpRegions h" "regionClass h ?r = c" using rm(3) by simp_all
  show cc: "c < cachedClasses h" using inv e unfolding heap_inv_def by (metis Nil_is_append_conv list.distinct(1) not_less)
  show "heap_inv (give own ?r ?s (Some HandDead)) as (upd2 rs t c (es1 @ es2)) h"
  proof (rule heap_inv_give [OF inv r(1)])
    show "region_ok (hpTable h ?r) (hpRegion h ?r) (hpWords h ?r) ((own ?r)(?s := Some HandDead))"
      by (rule region_move [OF heap_inv_region [OF inv r(1)]]) (simp add: o)
    fix t' c'
    show "entries_ok h (held (give own ?r ?s (Some HandDead)) (ReleaseCache t' c')) c' (upd2 rs t c (es1 @ es2) t' c')"
      using rm(1) inv o by (cases "t' = t \<and> c' = c") (auto simp: held_give held_not heap_inv_def entryOf_def upd2_if)
    show "entries_ok h (held (give own ?r ?s (Some HandDead)) (AllocCache t' c')) c' (as t' c')"
      using inv o by (simp add: held_give held_not heap_inv_def)
    show "cachedClasses h \<le> c' \<Longrightarrow> as t' c' = [] \<and> upd2 rs t c (es1 @ es2) t' c' = []"
      using inv cc by (auto simp: heap_inv_def upd2_if)
  qed simp_all
qed

text \<open>The hand's slots go into a cache.\<close>

lemma put_release:
  assumes inv: "heap_inv own as rs h" and o: "own r s = Some HandDead" and c: "regionClass h r = c" "c < cachedClasses h"
    and e: "entryOf e = (r, s)"
  shows "heap_inv (give own r s (Some (ReleaseCache t c))) as (upd2 rs t c (rs t c @ [e])) h"
proof -
  have r: "r < hpRegions h" using placed_region [OF inv, of r s] o by simp
  have er: "entryRegion e = r" "(r, s) \<notin> held own (ReleaseCache t c)" using e o by (simp_all add: entryOf_def held_def)
  show ?thesis
  proof (rule heap_inv_give [OF inv r])
    show "region_ok (hpTable h r) (hpRegion h r) (hpWords h r) ((own r)(s := Some (ReleaseCache t c)))"
      by (rule region_move [OF heap_inv_region [OF inv r]]) (simp add: o)
    fix t' c'
    show "entries_ok h (held (give own r s (Some (ReleaseCache t c))) (ReleaseCache t' c')) c' (upd2 rs t c (rs t c @ [e]) t' c')"
      using inv o er c r e entries_ok_insert [of h "held own (ReleaseCache t c)" c "rs t c" e]
      by (cases "t' = t \<and> c' = c") (auto simp: held_give held_not heap_inv_def upd2_if)
    show "entries_ok h (held (give own r s (Some (ReleaseCache t c))) (AllocCache t' c')) c' (as t' c')"
      using inv o by (simp add: held_give held_not heap_inv_def)
    show "cachedClasses h \<le> c' \<Longrightarrow> as t' c' = [] \<and> upd2 rs t c (rs t c @ [e]) t' c' = []"
      using inv c by (auto simp: heap_inv_def upd2_if)
  qed simp_all
qed

lemma put_alloc:
  assumes inv: "heap_inv own as rs h" and o: "own r s = Some HandFree" and c: "regionClass h r = c" "c < cachedClasses h"
    and e: "entryOf e = (r, s)"
  shows "heap_inv (give own r s (Some (AllocCache t c))) (upd2 as t c (as t c @ [e])) rs h"
proof -
  have r: "r < hpRegions h" using placed_region [OF inv, of r s] o by simp
  have er: "entryRegion e = r" "(r, s) \<notin> held own (AllocCache t c)" using e o by (simp_all add: entryOf_def held_def)
  show ?thesis
  proof (rule heap_inv_give [OF inv r])
    show "region_ok (hpTable h r) (hpRegion h r) (hpWords h r) ((own r)(s := Some (AllocCache t c)))"
      by (rule region_move [OF heap_inv_region [OF inv r]]) (simp add: o)
    fix t' c'
    show "entries_ok h (held (give own r s (Some (AllocCache t c))) (AllocCache t' c')) c' (upd2 as t c (as t c @ [e]) t' c')"
      using inv o er c r e entries_ok_insert [of h "held own (AllocCache t c)" c "as t c" e]
      by (cases "t' = t \<and> c' = c") (auto simp: held_give held_not heap_inv_def upd2_if)
    show "entries_ok h (held (give own r s (Some (AllocCache t c))) (ReleaseCache t' c')) c' (rs t' c')"
      using inv o by (simp add: held_give held_not heap_inv_def)
    show "cachedClasses h \<le> c' \<Longrightarrow> upd2 as t c (as t c @ [e]) t' c' = [] \<and> rs t' c' = []"
      using inv c by (auto simp: heap_inv_def upd2_if)
  qed simp_all
qed

text \<open>All of a hand's slots.\<close>

lemma put_allocs:
  assumes "heap_inv own as rs h" "distinct (map entryOf es)" "c < cachedClasses h"
    "\<forall>e \<in> set es. entryOf e \<in> held own HandFree \<and> regionClass h (entryRegion e) = c"
  shows "\<exists>own'. heap_inv own' (upd2 as t c (as t c @ es)) rs h \<and> held own' HandFree = held own HandFree - entryOf ` set es \<and>
    held own' HandDead = held own HandDead"
  using assms
proof (induction es arbitrary: own as)
  case Nil
  then show ?case by auto
next
  case (Cons e es)
  let ?r = "entryRegion e" let ?s = "entrySlot e" let ?own = "give own (entryRegion e) (entrySlot e) (Some (AllocCache t c))"
  have o: "own ?r ?s = Some HandFree" using Cons.prems(4) by (simp add: held_def entryOf_def)
  have "heap_inv ?own (upd2 as t c (as t c @ [e])) rs h"
    using Cons.prems by (intro put_alloc [OF Cons.prems(1) o]) (simp_all add: entryOf_def)
  moreover have h: "held ?own HandFree = held own HandFree - {entryOf e}" "held ?own HandDead = held own HandDead"
    using o by (simp_all add: held_give held_not entryOf_def)
  moreover have "\<forall>e' \<in> set es. entryOf e' \<in> held ?own HandFree \<and> regionClass h (entryRegion e') = c"
    using Cons.prems(2,4) by (auto simp: h) (metis imageI)
  ultimately obtain own' where "heap_inv own' (upd2 (upd2 as t c (as t c @ [e])) t c (upd2 as t c (as t c @ [e]) t c @ es)) rs h"
    "held own' HandFree = held ?own HandFree - entryOf ` set es" "held own' HandDead = held ?own HandDead"
    using Cons.IH [of ?own "upd2 as t c (as t c @ [e])"] Cons.prems(2,3) by auto
  then show ?case using h by (intro exI [of _ own']) auto
qed

end
