(* ===== verification/Alloc_Steps.thy ===== *)
theory Alloc_Steps
  imports Alloc_Inv
begin

text \<open>
  What each step of the allocator keeps of the invariant: a slot made live, claimed and queued, the lists of
  a cache moved to the regions, a cache drained and dropped.
\<close>

subsection \<open>One slot\<close>

text \<open>A step that leaves the table of regions and the caches alone.\<close>

definition calm :: "heap \<Rightarrow> heap \<Rightarrow> bool" where
  "calm h h' \<longleftrightarrow> kept h h' \<and> geom h' = geom h \<and> classActive h' = classActive h \<and> cacheOf h' = cacheOf h \<and> caches h' = caches h"

lemma calm_refl [simp, intro]: "calm h h"
  by (simp add: calm_def)

lemma calm_trans [trans]: "calm h h' \<Longrightarrow> calm h' h'' \<Longrightarrow> calm h h''"
  by (auto simp: calm_def intro: kept_trans)

lemma liveMap_eqI:
  assumes "heap_inv own as rs h" "heap_inv own' as' rs' h'"
    and "\<And>r s. own' r s = None \<longleftrightarrow> own r s = None" "\<And>r s. own r s = None \<Longrightarrow> hpWords h' r s = hpWords h r s"
  shows "liveMap h' = liveMap h"
proof (rule ext)
  fix x :: "nat \<times> nat"
  obtain r s where x: "x = (r, s)" by (cases x)
  show "liveMap h' x = liveMap h x"
  proof (cases "own r s = None")
    case True
    then show ?thesis using assms(4) by (simp add: liveMap_def x)
  next
    case False
    then show ?thesis using held_not_live [OF assms(1)] held_not_live [OF assms(2)] assms(3) by (simp add: x)
  qed
qed

lemma region_tail:
  assumes "region_ok entry st w o'" "rsDeadTail st \<noteq> 0"
  shows "o' (rsDeadTail st - 1) = Some DeadList"
proof -
  obtain fl dl where lo: "lists_ok st w o' fl dl" using assms(1) by (rule region_okE)
  then have "dl \<noteq> []" "rsDeadTail st = Suc (last dl)" using assms(2) by (auto simp: lists_ok_def)
  then show ?thesis using listed(2) [OF lo, of "last dl"] by simp
qed

lemma queueDead_inv:
  assumes inv: "heap_inv own as rs h" and o: "own r s = Some HandDead"
  shows "heap_inv (give own r s (Some DeadList)) as rs (queueDead r s h) \<and> calm h (queueDead r s h)"
proof -
  have r: "r < hpRegions h" using placed_region [OF inv, of r s] o by simp
  let ?st = "hpRegion h r" let ?h = "queueDead r s h"
  note ok = heap_inv_region [OF inv r]
  note q = region_queueDead [OF ok _ refl, of s]
  have h': "hpRegion ?h = (hpRegion h)(r := if rsDeadTail ?st \<noteq> 0 then ?st\<lparr>rsDeadTail := s + 1\<rparr>
        else ?st\<lparr>rsDeadHead := s + 1, rsDeadTail := s + 1\<rparr>)"
    "hpWords ?h = (hpWords h)(r := if rsDeadTail ?st \<noteq> 0
        then (hpWords h r)(s := WeavecRtDead, rsDeadTail ?st - 1 := slotWord (s + 1) WeavecRtDead) else (hpWords h r)(s := WeavecRtDead))"
    "geom ?h = geom h" "classActive ?h = classActive h" "cacheOf ?h = cacheOf h" "caches ?h = caches h"
    "cacheKeyReady ?h = cacheKeyReady h" "pageBytes ?h = pageBytes h" "hpMem ?h = hpMem h" "hugePart ?h = hugePart h" "same_marks h ?h"
    by (simp_all add: queueDead_def Let_def same_marks_def)
  have inv': "heap_inv (give own r s (Some DeadList)) as rs ?h"
    by (rule heap_inv_give_plain [OF inv r h'(3,4)]) (use q o in \<open>simp_all add: h'(1,2)\<close>)
  have "rsDeadTail ?st \<noteq> 0 \<Longrightarrow> own r (rsDeadTail ?st - 1) = Some DeadList" by (rule region_tail [OF ok])
  then have "liveMap ?h = liveMap h"
    by (intro liveMap_eqI [OF inv inv']) (use o in \<open>auto simp: give_def h'(2)\<close>)
  then have "kept h ?h" by (intro kept_geom) (simp_all add: h')
  then show ?thesis using inv' h' by (simp add: calm_def)
qed

lemma pushFree_inv:
  assumes inv: "heap_inv own as rs h" and o: "own r s = Some HandFree"
  shows "heap_inv (give own r s (Some FreeList)) as rs (pushFree r s h) \<and> calm h (pushFree r s h)"
proof -
  have r: "r < hpRegions h" using placed_region [OF inv, of r s] o by simp
  let ?h = "pushFree r s h"
  note q = region_pushFree [OF heap_inv_region [OF inv r], of s]
  have h': "hpRegion ?h = (hpRegion h)(r := (hpRegion h r)\<lparr>rsFreeHead := s + 1\<rparr>)"
    "hpWords ?h = (hpWords h)(r := (hpWords h r)(s := slotWord (rsFreeHead (hpRegion h r)) WeavecRtFree))"
    "geom ?h = geom h" "classActive ?h = classActive h" "cacheOf ?h = cacheOf h" "caches ?h = caches h"
    "cacheKeyReady ?h = cacheKeyReady h" "pageBytes ?h = pageBytes h" "hpMem ?h = hpMem h" "hugePart ?h = hugePart h" "same_marks h ?h"
    by (simp_all add: pushFree_def Let_def same_marks_def)
  have inv': "heap_inv (give own r s (Some FreeList)) as rs ?h"
    by (rule heap_inv_give_plain [OF inv r h'(3,4)]) (use q o in \<open>simp_all add: h'(1,2)\<close>)
  have "liveMap ?h = liveMap h"
    by (rule liveMap_eqI [OF inv inv']) (use o in \<open>auto simp: give_def h'(2)\<close>)
  then have "kept h ?h" by (intro kept_geom) (simp_all add: h')
  then show ?thesis using inv' h' by (simp add: calm_def)
qed

text \<open>A live slot is claimed; a slot of the hand is made live.\<close>

lemma live_owner:
  assumes "heap_inv own as rs h" "liveMap h (r, s) = Some n"
  shows "r < hpRegions h" "own r s = None" "s < rsBump (hpRegion h r)"
proof -
  have l: "wordState (hpWords h r s) = WeavecRtLive" using assms(2) by (simp add: liveMap_def split: if_splits)
  show r: "r < hpRegions h"
  proof (rule ccontr)
    assume "\<not> r < hpRegions h"
    then have "hpWords h r s = 0" using assms(1) by (simp add: heap_inv_def regions_ok_def)
    then show False using l by (simp add: wordState_def)
  qed
  then show "own r s = None" "s < rsBump (hpRegion h r)" using l slot_states(1) [OF heap_inv_slots [OF assms(1) r], of s] by simp_all
qed

lemma claim_inv:
  assumes inv: "heap_inv own as rs h" and l: "liveMap h (srRegion ref, srSlot ref) = Some n"
  shows "heap_inv (give own (srRegion ref) (srSlot ref) (Some HandDead)) as rs (claim ref h)"
    "liveMap (claim ref h) = (liveMap h)((srRegion ref, srSlot ref) := None)"
proof -
  let ?r = "srRegion ref" let ?s = "srSlot ref"
  note lo = live_owner [OF inv l]
  show "heap_inv (give own ?r ?s (Some HandDead)) as rs (claim ref h)"
  proof (rule heap_inv_give_plain [OF inv lo(1)])
    have "region_ok (hpTable h ?r) (hpRegion h ?r) ((hpWords h ?r)(?s := claimedWord)) ((own ?r)(?s := Some HandDead))"
      by (rule region_off_lists [OF heap_inv_region [OF inv lo(1)] lo(3)]) (use lo(2) in \<open>simp_all add: word_ok_def\<close>)
    then show "region_ok (hpTable h ?r) (hpRegion (claim ref h) ?r) (hpWords (claim ref h) ?r) ((own ?r)(?s := Some HandDead))"
      by (simp add: claim_def)
  qed (use lo(2) in \<open>simp_all add: claim_def\<close>)
  show "liveMap (claim ref h) = (liveMap h)((?r, ?s) := None)" by (auto simp: liveMap_def claim_def fun_eq_iff)
qed

lemma claim_framed: "framed h (claim ref h)" "hugeLive (claim ref h) = hugeLive h" "hpMem (claim ref h) = hpMem h"
  "cacheOf (claim ref h) = cacheOf h"
proof -
  show "framed h (claim ref h)" by (rule framed_geom) (simp_all add: claim_def)
  have "hugePart (claim ref h) = hugePart h" by (simp add: claim_def)
  then show "hugeLive (claim ref h) = hugeLive h" by (simp add: hugeLive_def hugePart_def)
qed (simp_all add: claim_def)

lemma geom_shadow [simp]: "geom (shadowLive os b z sl h) = geom h" "geom (shadowDead b n h) = geom h"
  by (simp_all add: shadowLive_def shadowDead_def geom_def shadowSet_def Let_def)

lemma shadow_frame [simp]:
  "hpRegion (shadowLive os b z sl h) = hpRegion h" "hpWords (shadowLive os b z sl h) = hpWords h"
  "classActive (shadowLive os b z sl h) = classActive h" "cacheOf (shadowLive os b z sl h) = cacheOf h"
  "cacheKeyReady (shadowLive os b z sl h) = cacheKeyReady h" "pageBytes (shadowLive os b z sl h) = pageBytes h"
  "hugePart (shadowLive os b z sl h) = hugePart h" "hpMem (shadowLive os b z sl h) = hpMem h"
  "caches (shadowLive os b z sl h) = caches h"
  "hpRegion (shadowDead b n h) = hpRegion h" "hpWords (shadowDead b n h) = hpWords h"
  "classActive (shadowDead b n h) = classActive h" "cacheOf (shadowDead b n h) = cacheOf h"
  "cacheKeyReady (shadowDead b n h) = cacheKeyReady h" "pageBytes (shadowDead b n h) = pageBytes h"
  "hugePart (shadowDead b n h) = hugePart h" "hpMem (shadowDead b n h) = hpMem h"
  "caches (shadowDead b n h) = caches h"
  by (simp_all add: shadowLive_def shadowDead_def shadowSet_def Let_def)

lemma makeLive_parts:
  assumes "makeLive os e sz sb h = (b, h')"
  shows "geom h' = geom h" "classActive h' = classActive h" "cacheOf h' = cacheOf h" "cacheKeyReady h' = cacheKeyReady h"
    "pageBytes h' = pageBytes h" "hugePart h' = hugePart h" "hpRegion h' = hpRegion h" "caches h' = caches h"
    "hpWords h' = (hpWords h)(entryRegion e := (hpWords h (entryRegion e))(entrySlot e := push_bit 2 (ucast sz) OR WeavecRtLive))"
    "b = regionStart h (entryRegion e) + word_of_nat (entrySlot e) * word_of_nat sb"
    "hpMem h' = (if entryUsed e \<and> sz \<noteq> 0 then zeroFill os (pageBytes h) (hpMem h) b sz else hpMem h)"
proof -
  show "geom h' = geom h" using assms by (auto simp: makeLive_def Let_def split: if_splits)
qed (use assms in \<open>auto simp: makeLive_def Let_def split: if_splits\<close>)

lemma makeLive_inv:
  assumes inv: "heap_inv own as rs h" and o: "idle (own (entryRegion e) (entrySlot e))" "\<not> cached (own (entryRegion e) (entrySlot e))"
    and sz: "unat sz < 2 ^ 30" and mk: "makeLive os e sz sb h = (b, h')"
  shows "heap_inv (give own (entryRegion e) (entrySlot e) None) as rs h'" "framed h h'" "hugeLive h' = hugeLive h"
    "liveMap h' = (liveMap h)(entryOf e \<mapsto> unat sz)"
proof -
  let ?r = "entryRegion e" let ?s = "entrySlot e"
  note p = makeLive_parts [OF mk]
  have n: "own ?r ?s \<noteq> None" "own ?r ?s \<noteq> Some FreeList" "own ?r ?s \<noteq> Some DeadList" using hand_some(1) [OF o(1)] by auto
  have r: "?r < hpRegions h" by (rule placed_region [OF inv n(1)])
  have s: "?s < rsBump (hpRegion h ?r)" using placed_bump [OF heap_inv_slots [OF inv r] n(1)] by simp
  have w: "push_bit 2 (ucast sz) OR WeavecRtLive = slotWord (unat sz) WeavecRtLive" by (rule liveWord [OF sz])
  have lv: "wordState (slotWord (unat sz) WeavecRtLive) = WeavecRtLive" "weavecRtWordValue (slotWord (unat sz) WeavecRtLive) = unat sz"
    using sz by simp_all
  show "heap_inv (give own ?r ?s None) as rs h'"
  proof (rule heap_inv_give_plain [OF inv r p(1,2)])
    show "region_ok (hpTable h ?r) (hpRegion h' ?r) (hpWords h' ?r) ((own ?r)(?s := None))"
      unfolding p(7,9) w fun_upd_same
      by (rule region_off_lists [OF heap_inv_region [OF inv r] s n(2,3)]) (use lv in \<open>simp_all add: word_ok_def\<close>)
  qed (use p(7,9) o in simp_all)
  show "framed h h'" by (rule framed_geom) (simp_all add: p)
  show "hugeLive h' = hugeLive h" using p(6) by (simp add: hugeLive_def hugePart_def)
  show "liveMap h' = (liveMap h)(entryOf e \<mapsto> unat sz)"
    using lv by (auto simp: liveMap_def p(9) w fun_eq_iff entryOf_def)
qed

subsection \<open>The lists of a cache\<close>

definition hands :: "owner \<Rightarrow> (nat \<times> nat) set \<times> (nat \<times> nat) set" where
  "hands own = (held own HandFree, held own HandDead)"

lemma flushOne_inv:
  assumes inv: "heap_inv own as rs h" and e: "rs t c = e # es"
  shows "\<exists>own'. heap_inv own' as (upd2 rs t c es) (fst (flushOne c check e (h, n))) \<and> calm h (fst (flushOne c check e (h, n))) \<and>
    hands own' = hands own \<and> snd (flushOne c check e (h, n)) = n + 1"
proof -
  let ?r = "entryRegion e" let ?s = "entrySlot e"
  have e': "rs t c = [] @ e # es" using e by simp
  note t = take_release [OF inv e']
  have so: "slots_ok (hpTable h ?r) (hpRegion h ?r) (hpWords h ?r) (own ?r)" by (rule heap_inv_slots [OF inv t(2)])
  have "?s < rsBump (hpRegion h ?r)" "hpWords h ?r ?s = claimedWord"
    using placed_bump [OF so, of ?s] slot_states(4) [OF so, of ?s] t(1) by simp_all
  then have f: "flushOne c check e (h, n) = (queueDead ?r ?s h, n + 1)" using t(2,3) by (simp add: flushOne_def)
  let ?own = "give own ?r ?s (Some HandDead)"
  have "heap_inv (give ?own ?r ?s (Some DeadList)) as (upd2 rs t c es) (queueDead ?r ?s h) \<and> calm h (queueDead ?r ?s h)"
    by (rule queueDead_inv) (use t(5) in simp_all)
  moreover have "hands (give own ?r ?s (Some DeadList)) = hands own" using t(1) by (simp add: hands_def held_give held_not)
  ultimately show ?thesis unfolding f by auto
qed

lemma flush_fold:
  assumes "heap_inv own as (upd2 rs t c es) h"
  shows "\<exists>own'. heap_inv own' as (upd2 rs t c []) (fst (fold (flushOne c check) es (h, n))) \<and>
    calm h (fst (fold (flushOne c check) es (h, n))) \<and> hands own' = hands own \<and> snd (fold (flushOne c check) es (h, n)) = n + length es"
  using assms
proof (induction es arbitrary: own h n)
  case Nil
  then show ?case by auto
next
  case (Cons e es)
  obtain h1 n1 where s: "flushOne c check e (h, n) = (h1, n1)" by (cases "flushOne c check e (h, n)")
  obtain own1 where o1: "heap_inv own1 as (upd2 rs t c es) h1" "calm h h1" "hands own1 = hands own" "n1 = n + 1"
    using flushOne_inv [OF Cons.prems, of t c e es check n] s by auto
  obtain own2 where "heap_inv own2 as (upd2 rs t c []) (fst (fold (flushOne c check) es (h1, n1)))"
    "calm h1 (fst (fold (flushOne c check) es (h1, n1)))" "hands own2 = hands own1"
    "snd (fold (flushOne c check) es (h1, n1)) = n1 + length es"
    using Cons.IH [OF o1(1), of n1] by auto
  then show ?case using s o1 calm_trans [OF o1(2)] by (intro exI [of _ own2]) simp
qed

lemma returnOne_inv:
  assumes inv: "heap_inv own as rs h" and e: "as t c = e # es"
  shows "\<exists>own'. heap_inv own' (upd2 as t c es) rs (returnOne c check e h) \<and> calm h (returnOne c check e h) \<and> hands own' = hands own"
proof -
  let ?r = "entryRegion e" let ?s = "entrySlot e"
  have e': "as t c = [] @ e # es" using e by simp
  note t = take_alloc [OF inv e']
  have so: "slots_ok (hpTable h ?r) (hpRegion h ?r) (hpWords h ?r) (own ?r)" by (rule heap_inv_slots [OF inv t(2)])
  have "?s < rsBump (hpRegion h ?r)" "wordState (hpWords h ?r ?s) \<noteq> WeavecRtLive" "wordState (hpWords h ?r ?s) \<noteq> WeavecRtDead"
    using placed_bump [OF so, of ?s] slot_states(1,2) [OF so, of ?s] t(1) by simp_all
  then have f: "returnOne c check e h = pushFree ?r ?s h" using t(2,3) by (simp add: returnOne_def Let_def)
  let ?own = "give own ?r ?s (Some HandFree)"
  have "heap_inv (give ?own ?r ?s (Some FreeList)) (upd2 as t c es) rs (pushFree ?r ?s h) \<and> calm h (pushFree ?r ?s h)"
    by (rule pushFree_inv) (use t(5) in simp_all)
  moreover have "hands (give own ?r ?s (Some FreeList)) = hands own" using t(1) by (simp add: hands_def held_give held_not)
  ultimately show ?thesis unfolding f by auto
qed

lemma return_fold:
  assumes "heap_inv own (upd2 as t c es) rs h"
  shows "\<exists>own'. heap_inv own' (upd2 as t c []) rs (fold (returnOne c check) es h) \<and>
    calm h (fold (returnOne c check) es h) \<and> hands own' = hands own"
  using assms
proof (induction es arbitrary: own h)
  case Nil
  then show ?case by auto
next
  case (Cons e es)
  obtain own1 where o1: "heap_inv own1 (upd2 as t c es) rs (returnOne c check e h)" "calm h (returnOne c check e h)" "hands own1 = hands own"
    using returnOne_inv [OF Cons.prems, of t c e es check] by auto
  show ?case using Cons.IH [OF o1(1)] o1(3) calm_trans [OF o1(2)] by auto
qed

text \<open>The caches as the ghost lists see them.\<close>

lemma allocs_set: "allocs (setCache t tc h) = (\<lambda>t'. if t' = t then tcAlloc tc else allocs h t')"
  by (simp add: allocs_def setCache_def fun_eq_iff)

lemma releases_set: "releases (setCache t tc h) = (\<lambda>t'. if t' = t then tcRelease tc else releases h t')"
  by (simp add: releases_def setCache_def fun_eq_iff)

lemma entries_same: "cacheOf h' = cacheOf h \<Longrightarrow> allocs h' = allocs h" "cacheOf h' = cacheOf h \<Longrightarrow> releases h' = releases h"
  by (simp_all add: allocs_def releases_def fun_eq_iff)

lemma entries_own: "cacheOf h t = HasCache tc \<Longrightarrow> allocs h t = tcAlloc tc" "cacheOf h t = HasCache tc \<Longrightarrow> releases h t = tcRelease tc"
  by (simp_all add: allocs_def releases_def fun_eq_iff)

lemma heap_inv_setCache [simp]: "heap_inv own as rs (setCache t tc h) = heap_inv own as rs h"
  by (rule heap_inv_same) simp_all

lemma geom_counters [simp]: "geom (addLive d h) = geom h" "geom (addQuarantine c q h) = geom h"
  by simp_all

lemma heap_inv_counters [simp]: "heap_inv own as rs (addLive d h) = heap_inv own as rs h"
  "heap_inv own as rs (addQuarantine c q h) = heap_inv own as rs h" "heap_inv own as rs (shadowDead b n h) = heap_inv own as rs h"
  by (rule heap_inv_same; simp)+

lemma calm_counters [simp]: "calm h (addLive d h)" "calm h (addQuarantine c q h)" "calm h (shadowDead b n h)"
  by (simp_all add: calm_def) (intro kept_geom liveMap_words; simp)+

text \<open>What moves the lists of one thread's cache.\<close>

definition thread_step :: "nat \<Rightarrow> heap \<Rightarrow> heap \<Rightarrow> bool" where
  "thread_step t h h' \<longleftrightarrow> kept h h' \<and> geom h' = geom h \<and> caches h' = caches h \<and> (\<forall>t'. t' \<noteq> t \<longrightarrow> cacheOf h' t' = cacheOf h t')"

lemma thread_step_refl [simp, intro]: "thread_step t h h"
  by (simp add: thread_step_def)

lemma thread_step_trans [trans]: "thread_step t h h' \<Longrightarrow> thread_step t h' h'' \<Longrightarrow> thread_step t h h''"
  by (auto simp: thread_step_def intro: kept_trans)

lemma calm_thread: "calm h h' \<Longrightarrow> thread_step t h h'"
  by (simp add: calm_def thread_step_def)

lemma kept_setCache:
  assumes "cacheOf h t = HasCache tc" "nesting tc' = nesting tc"
  shows "thread_step t h (setCache t tc' h)"
  unfolding thread_step_def
  by (intro conjI kept_geom liveMap_words) (use assms in \<open>auto simp: same_cache_def\<close>)

lemma flushReleases_inv:
  assumes inv: "at_rest own h" and tc: "cacheOf h t = HasCache tc"
  shows "\<exists>own'. at_rest own' (flushReleases t c check h) \<and> hands own' = hands own \<and> thread_step t h (flushReleases t c check h) \<and>
    allocs (flushReleases t c check h) = allocs h \<and> releases (flushReleases t c check h) = upd2 (releases h) t c []"
proof -
  have "heap_inv own (allocs h) (upd2 (releases h) t c (releases h t c)) h" using inv by (simp add: at_rest_def)
  then obtain own' h1 n where f: "fold (flushOne c check) (tcRelease tc c) (h, 0) = (h1, n)"
      "heap_inv own' (allocs h) (upd2 (releases h) t c []) h1" "calm h h1" "hands own' = hands own"
    using flush_fold [of own "allocs h" "releases h" t c "releases h t c" h check 0] entries_own(2) [OF tc]
    by (metis prod.collapse)
  let ?h = "setCache t (tc\<lparr>tcRelease := (tcRelease tc)(c := [])\<rparr>) h1"
  have h1: "cacheOf h1 = cacheOf h" using f(3) by (simp add: calm_def)
  obtain b where fl: "flushReleases t c check h = (if b then addQuarantine c (word_of_nat n * word_of_nat (clSize (hpTable ?h c))) ?h else ?h)"
    using f(1) tc by (auto simp: flushReleases_def Let_def)
  have co: "cacheOf (flushReleases t c check h) = cacheOf ?h" using fl by simp
  have lists: "allocs ?h = allocs h" "releases ?h = upd2 (releases h) t c []"
    using entries_same [OF h1] entries_own [OF tc] by (auto simp: allocs_set releases_set fun_eq_iff upd2_if)
  have "heap_inv own' (allocs h) (upd2 (releases h) t c []) (flushReleases t c check h)" using f(2) fl by simp
  moreover have "thread_step t h ?h"
    by (rule thread_step_trans [OF calm_thread [OF f(3)] kept_setCache [where tc = tc]]) (simp_all add: h1 tc nesting_def)
  then have "thread_step t h (flushReleases t c check h)"
    using fl thread_step_trans [OF _ calm_thread [OF calm_counters(2)]] by simp
  ultimately show ?thesis using lists entries_same [OF co] f(4) by (intro exI [of _ own']) (simp add: at_rest_def)
qed

lemma returnSlots_inv:
  assumes inv: "at_rest own h" and tc: "cacheOf h t = HasCache tc"
  shows "\<exists>own'. at_rest own' (returnSlots t c check h) \<and> hands own' = hands own \<and> thread_step t h (returnSlots t c check h) \<and>
    allocs (returnSlots t c check h) = upd2 (allocs h) t c [] \<and> releases (returnSlots t c check h) = releases h"
proof -
  define h1 where "h1 = fold (returnOne c check) (tcAlloc tc c) h"
  have "heap_inv own (upd2 (allocs h) t c (allocs h t c)) (releases h) h" using inv by (simp add: at_rest_def)
  then obtain own' where f: "heap_inv own' (upd2 (allocs h) t c []) (releases h) h1" "calm h h1" "hands own' = hands own"
    using return_fold [of own "allocs h" t c "allocs h t c" "releases h" h check] entries_own(1) [OF tc] by (auto simp: h1_def)
  have h': "returnSlots t c check h = setCache t (tc\<lparr>tcAlloc := (tcAlloc tc)(c := [])\<rparr>) h1"
    using tc by (simp add: returnSlots_def Let_def h1_def)
  have h1: "cacheOf h1 = cacheOf h" using f(2) by (simp add: calm_def)
  have lists: "allocs (returnSlots t c check h) = upd2 (allocs h) t c []" "releases (returnSlots t c check h) = releases h"
    using entries_same [OF h1] entries_own [OF tc] by (auto simp: h' allocs_set releases_set fun_eq_iff upd2_if)
  have "thread_step t h (returnSlots t c check h)" unfolding h'
    by (rule thread_step_trans [OF calm_thread [OF f(2)] kept_setCache [where tc = tc]]) (simp_all add: h1 tc nesting_def)
  then show ?thesis using f lists by (intro exI [of _ own']) (simp add: at_rest_def h')
qed

lemma thread_step_cache: "thread_step t h h' \<Longrightarrow> cacheOf h t = HasCache tc \<Longrightarrow> \<exists>tc'. cacheOf h' t = HasCache tc' \<and> nesting tc' = nesting tc"
  by (simp add: thread_step_def kept_def framed_def)

lemma drain_fold:
  assumes "at_rest own h" "cacheOf h t = HasCache tc"
  shows "\<exists>own'. at_rest own' (fold (\<lambda>c h. returnSlots t c check (flushReleases t c check h)) cs h) \<and> hands own' = hands own \<and>
    thread_step t h (fold (\<lambda>c h. returnSlots t c check (flushReleases t c check h)) cs h) \<and>
    (\<forall>c. allocs (fold (\<lambda>c h. returnSlots t c check (flushReleases t c check h)) cs h) t c = (if c \<in> set cs then [] else allocs h t c) \<and>
      releases (fold (\<lambda>c h. returnSlots t c check (flushReleases t c check h)) cs h) t c = (if c \<in> set cs then [] else releases h t c))"
  using assms
proof (induction cs arbitrary: own h tc)
  case Nil
  then show ?case by auto
next
  case (Cons c cs)
  let ?h1 = "flushReleases t c check h" let ?h2 = "returnSlots t c check ?h1"
  obtain own1 where o1: "at_rest own1 ?h1" "hands own1 = hands own" "thread_step t h ?h1" "allocs ?h1 = allocs h"
      "releases ?h1 = upd2 (releases h) t c []"
    using flushReleases_inv [OF Cons.prems] by blast
  obtain tc1 where tc1: "cacheOf ?h1 t = HasCache tc1" using thread_step_cache [OF o1(3) Cons.prems(2)] by auto
  obtain own2 where o2: "at_rest own2 ?h2" "hands own2 = hands own1" "thread_step t ?h1 ?h2" "allocs ?h2 = upd2 (allocs ?h1) t c []"
      "releases ?h2 = releases ?h1"
    using returnSlots_inv [OF o1(1) tc1] by blast
  obtain tc2 where tc2: "cacheOf ?h2 t = HasCache tc2" using thread_step_cache [OF o2(3) tc1] by auto
  have st: "thread_step t h ?h2" by (rule thread_step_trans [OF o1(3) o2(3)])
  show ?case
    using Cons.IH [OF o2(1) tc2] o1(2,4,5) o2(2,4,5) thread_step_trans [OF st] by (auto simp: upd2_if)
qed

lemma foldLive_inv:
  assumes "at_rest own h" "cacheOf h t = HasCache tc"
  shows "at_rest own (foldLive t h) \<and> thread_step t h (foldLive t h) \<and> allocs (foldLive t h) = allocs h \<and> releases (foldLive t h) = releases h"
proof -
  obtain b where h': "foldLive t h = setCache t (tc\<lparr>tcLiveDelta := 0\<rparr>) (if b then addLive (tcLiveDelta tc) h else h)"
    using assms(2) by (auto simp: foldLive_def Let_def)
  let ?h = "if b then addLive (tcLiveDelta tc) h else h"
  have c: "calm h ?h" "cacheOf ?h = cacheOf h" by (simp_all)
  have l: "allocs (foldLive t h) = allocs h" "releases (foldLive t h) = releases h"
    using entries_own [OF assms(2)] entries_same [OF c(2)] by (auto simp: h' allocs_set releases_set fun_eq_iff)
  have "thread_step t h (foldLive t h)" unfolding h'
    by (rule thread_step_trans [OF calm_thread [OF c(1)] kept_setCache [where tc = tc]]) (simp_all add: c assms(2) nesting_def)
  moreover have "heap_inv own (allocs h) (releases h) (foldLive t h)" using assms(1) by (simp add: at_rest_def h')
  ultimately show ?thesis using l by (simp add: at_rest_def)
qed

lemma drainCache_inv:
  assumes inv: "at_rest own h" and tc: "cacheOf h t = HasCache tc"
  shows "\<exists>own'. at_rest own' (drainCache t check h) \<and> hands own' = hands own \<and> thread_step t h (drainCache t check h) \<and>
    allocs (drainCache t check h) t = (\<lambda>_. []) \<and> releases (drainCache t check h) t = (\<lambda>_. [])"
proof -
  let ?h = "fold (\<lambda>c h. returnSlots t c check (flushReleases t c check h)) [0..<cachedClasses h] h"
  obtain own' where o: "at_rest own' ?h" "hands own' = hands own" "thread_step t h ?h"
      "\<And>c. allocs ?h t c = (if c \<in> set [0..<cachedClasses h] then [] else allocs h t c)"
      "\<And>c. releases ?h t c = (if c \<in> set [0..<cachedClasses h] then [] else releases h t c)"
    using drain_fold [OF inv tc, where cs = "[0..<cachedClasses h]"] by blast
  obtain tc1 where tc1: "cacheOf ?h t = HasCache tc1" using thread_step_cache [OF o(3) tc] by auto
  have "cachedClasses h \<le> c \<Longrightarrow> allocs h t c = [] \<and> releases h t c = []" for c using inv by (simp add: at_rest_def heap_inv_def)
  then have "allocs ?h t = (\<lambda>_. [])" "releases ?h t = (\<lambda>_. [])" using o(4,5) by (auto simp: fun_eq_iff)
  then show ?thesis
    using foldLive_inv [OF o(1) tc1] o(2) thread_step_trans [OF o(3)] by (intro exI [of _ own']) (simp add: drainCache_def)
qed

text \<open>A thread without a cache, or without anything in it, may forget it.\<close>

lemma forget_cache:
  assumes inv: "at_rest own h" and e: "allocs h t = (\<lambda>_. [])" "releases h t = (\<lambda>_. [])" and v: "v = CacheGone \<or> v = NoCache"
  shows "at_rest own (h\<lparr>cacheOf := (cacheOf h)(t := v), caches := cs\<rparr>)"
proof -
  let ?h = "h\<lparr>cacheOf := (cacheOf h)(t := v), caches := cs\<rparr>"
  have "allocs ?h = allocs h" "releases ?h = releases h" using e v by (auto simp: allocs_def releases_def fun_eq_iff)
  moreover have "heap_inv own as rs ?h = heap_inv own as rs h" for as rs by (rule heap_inv_same) (simp_all add: geom_def)
  ultimately show ?thesis using inv by (simp add: at_rest_def)
qed

lemma weavecRtFlushThread_inv:
  assumes "at_rest own h"
  shows "\<exists>own'. at_rest own' (weavecRtFlushThread t h) \<and> hands own' = hands own \<and> thread_step t h (weavecRtFlushThread t h) \<and>
    (\<forall>c. allocs (weavecRtFlushThread t h) t c = [] \<or> allocs (weavecRtFlushThread t h) t c = allocs h t c)"
  using drainCache_inv [OF assms, of t _ False] assms
  by (cases "cacheOf h t") (auto simp: weavecRtFlushThread_def)

end
