(* ===== verification/Alloc_Recycle.thy ===== *)
theory Alloc_Recycle
  imports Alloc_Steps
begin

text \<open>
  The sweep as the invariant sees it: marking sets marks and nothing else, and a mark is set exactly for
  the slots a scanned word points into; recycling rebuilds the two lists of every region from the marks.
\<close>

subsection \<open>Marking\<close>

text \<open>The words of memory a sweep reads, and the slot a word marks.\<close>

definition slotRange :: "heap \<Rightarrow> nat \<Rightarrow> nat \<Rightarrow> u64 list" where
  "slotRange h r s =
     (if wordState (hpWords h r s) = WeavecRtLive
      then let base = regionStart h r + word_of_nat s * word_of_nat (clSize (hpTable h r))
           in wordsIn (hpMem h) base (base + word_of_nat (weavecRtWordValue (hpWords h r s)))
      else [])"

definition hugeRange :: "heap \<Rightarrow> huge_block \<Rightarrow> u64 list" where
  "hugeRange h b = (if hbDead b = 0 then wordsIn (hpMem h) (hbBase b) (hbBase b + hbSize b) else [])"

definition scanned :: "system \<Rightarrow> heap \<Rightarrow> u64 list" where
  "scanned os h = osRoots os @ concat (map (\<lambda>r. concat (map (slotRange h r) [0..<rsBump (hpRegion h r)])) [0..<hpRegions h]) @
     concat (map (hugeRange h) (hugeBlocks h))"

definition pointsTo :: "heap \<Rightarrow> u64 \<Rightarrow> nat \<Rightarrow> nat \<Rightarrow> bool" where
  "pointsTo h v r s \<longleftrightarrow> inArena h v \<and> srRegion (slotOf h v) = r \<and> srSlot (slotOf h v) = s"

text \<open>What marking may change: the marks of a region, the mark of a released huge block.\<close>

definition same_lists :: "region_state \<Rightarrow> region_state \<Rightarrow> bool" where
  "same_lists st st' \<longleftrightarrow> st' = st\<lparr>rsMarks := rsMarks st'\<rparr>"

definition same_huge :: "huge_block \<Rightarrow> huge_block \<Rightarrow> bool" where
  "same_huge b b' \<longleftrightarrow> b' = b\<lparr>hbMarked := hbMarked b'\<rparr>"

definition marking :: "heap \<Rightarrow> heap \<Rightarrow> bool" where
  "marking h h' \<longleftrightarrow> (\<exists>f bs. h' = h\<lparr>hpRegion := f, hugeBlocks := bs\<rparr> \<and>
     (\<forall>r. same_lists (hpRegion h r) (f r)) \<and> list_all2 same_huge (hugeBlocks h) bs)"

lemma markingI:
  "(\<And>r. same_lists (hpRegion h r) (f r)) \<Longrightarrow> list_all2 same_huge (hugeBlocks h) bs \<Longrightarrow> marking h (h\<lparr>hpRegion := f, hugeBlocks := bs\<rparr>)"
  by (auto simp: marking_def)

lemma marking_parts:
  assumes "marking h h'"
  shows "same_lists (hpRegion h r) (hpRegion h' r)" "list_all2 same_huge (hugeBlocks h) (hugeBlocks h')"
  using assms by (auto simp: marking_def)

lemma same_refl [simp]: "same_lists st st" "same_huge b b" "list_all2 same_huge bs bs"
  by (simp_all add: same_lists_def same_huge_def list.rel_refl)

lemma marking_refl [simp, intro]: "marking h h"
  using markingI [of h "hpRegion h" "hugeBlocks h"] by simp

lemma same_lists_fields:
  "same_lists st st' \<Longrightarrow> rsBump st' = rsBump st \<and> rsFreeHead st' = rsFreeHead st \<and> rsDeadHead st' = rsDeadHead st \<and>
     rsDeadTail st' = rsDeadTail st"
  unfolding same_lists_def by (metis region_state.select_convs(1,2,3,4) region_state.surjective region_state.update_convs(5))

lemma same_huge_fields:
  "same_huge b b' \<Longrightarrow> hbBase b' = hbBase b \<and> hbSize b' = hbSize b \<and> hbMap b' = hbMap b \<and> hbMapBytes b' = hbMapBytes b \<and> hbDead b' = hbDead b"
  unfolding same_huge_def by (metis huge_block.select_convs(1,2,3,4,5) huge_block.surjective huge_block.update_convs(6))

lemma same_lists_trans: "same_lists a b \<Longrightarrow> same_lists b c \<Longrightarrow> same_lists a c"
  unfolding same_lists_def by (cases a; cases b; cases c) simp

lemma same_huge_trans: "same_huge a b \<Longrightarrow> same_huge b c \<Longrightarrow> same_huge a c"
  unfolding same_huge_def by (cases a; cases b; cases c) simp

lemma marking_trans [trans]:
  assumes "marking h h'" "marking h' h''"
  shows "marking h h''"
proof -
  obtain f bs where a: "h' = h\<lparr>hpRegion := f, hugeBlocks := bs\<rparr>" "\<And>r. same_lists (hpRegion h r) (f r)" "list_all2 same_huge (hugeBlocks h) bs"
    using assms(1) by (auto simp: marking_def)
  obtain f' bs' where b: "h'' = h'\<lparr>hpRegion := f', hugeBlocks := bs'\<rparr>" "\<And>r. same_lists (f r) (f' r)" "list_all2 same_huge bs bs'"
    using assms(2) by (auto simp: marking_def a(1))
  have "list_all2 same_huge (hugeBlocks h) bs'" by (rule list_all2_trans [OF same_huge_trans a(3) b(3)])
  then show ?thesis using markingI [of h f' bs'] same_lists_trans [OF a(2) b(2)] by (simp add: a(1) b(1))
qed

lemma marking_fields:
  assumes "marking h h'"
  shows "geom h' = geom h" "classActive h' = classActive h" "hpWords h' = hpWords h" "cacheOf h' = cacheOf h" "caches h' = caches h"
    "hpMem h' = hpMem h" "cacheKeyReady h' = cacheKeyReady h" "pageBytes h' = pageBytes h" "hugeLow h' = hugeLow h"
    "hugeHigh h' = hugeHigh h" "hugeDeadCount h' = hugeDeadCount h" "hpShadow h' = hpShadow h"
  using assms by (auto simp: marking_def geom_def)

lemma marking_inv: "marking h h' \<Longrightarrow> heap_inv own as rs h' = heap_inv own as rs h"
  by (rule heap_inv_same) (simp_all add: marking_fields same_lists_fields [OF marking_parts(1)])

lemma marking_slotOf: "marking h h' \<Longrightarrow> slotOf h' v = slotOf h v" "marking h h' \<Longrightarrow> inArena h' v = inArena h v"
  by (simp_all add: slotOf_def inArena_def regionStart_def geomD [OF marking_fields(1)])

lemma marking_ranges: "marking h h' \<Longrightarrow> slotRange h' r s = slotRange h r s"
  by (simp add: slotRange_def marking_fields regionStart_def geomD [OF marking_fields(1)])

text \<open>The mark of one word.\<close>

lemma mark_one: "list_all2 same_huge bs (bs[i := (bs ! i)\<lparr>hbMarked := True\<rparr>])"
  by (cases "i < length bs") (auto simp: list_all2_conv_all_nth nth_list_update same_huge_def)

definition markable :: "heap \<Rightarrow> nat \<Rightarrow> bool" where
  "markable h r \<longleftrightarrow> rsMarks (hpRegion h r) \<noteq> None \<and> rsDeadHead (hpRegion h r) \<noteq> 0"

definition marks_of :: "heap \<Rightarrow> nat \<Rightarrow> nat \<Rightarrow> bool" where
  "marks_of h r s = (case rsMarks (hpRegion h r) of Some m \<Rightarrow> m s | None \<Rightarrow> False)"

lemma markAddress_exact:
  shows "marking h (markAddress v h)" "markable (markAddress v h) r = markable h r"
    "marks_of (markAddress v h) r s \<longleftrightarrow> marks_of h r s \<or>
       markable h r \<and> pointsTo h v r s \<and> wordState (hpWords h r s) = WeavecRtDead"
proof -
  have "marking h (markAddress v h) \<and> markable (markAddress v h) r = markable h r \<and>
    (marks_of (markAddress v h) r s \<longleftrightarrow> marks_of h r s \<or>
       markable h r \<and> pointsTo h v r s \<and> wordState (hpWords h r s) = WeavecRtDead)"
  proof (cases "inArena h v")
    case True
    let ?ref = "slotOf h v"
    have q: "unat (drop_bit (hpShift h) (v - hpBase h)) = srRegion ?ref" by (simp add: slotOf_def Let_def)
    define go where "go \<longleftrightarrow> markable h (srRegion ?ref) \<and> wordState (wordOf h ?ref) = WeavecRtDead"
    have m: "markAddress v h = (if go then setRegion (srRegion ?ref) ((hpRegion h (srRegion ?ref))\<lparr>rsMarks :=
        map_option (\<lambda>m. m(srSlot ?ref := True)) (rsMarks (hpRegion h (srRegion ?ref)))\<rparr>) h else h)"
      using True by (simp add: markAddress_def inArena_def Let_def q markable_def go_def)
    show ?thesis
    proof (cases go)
      case False
      then show ?thesis using m True by (auto simp: go_def pointsTo_def wordOf_def)
    next
      case go: True
      then obtain mk where mk: "rsMarks (hpRegion h (srRegion ?ref)) = Some mk" by (auto simp: go_def markable_def)
      have "marking h (markAddress v h)" unfolding m
        using go markingI [of h "(hpRegion h)(srRegion ?ref := (hpRegion h (srRegion ?ref))\<lparr>rsMarks :=
          map_option (\<lambda>m. m(srSlot ?ref := True)) (rsMarks (hpRegion h (srRegion ?ref)))\<rparr>)" "hugeBlocks h"]
        by (simp add: same_lists_def)
      moreover have "markable (markAddress v h) r = markable h r" using go mk by (simp add: m markable_def)
      moreover have "marks_of (markAddress v h) r s \<longleftrightarrow> marks_of h r s \<or> r = srRegion ?ref \<and> s = srSlot ?ref"
        using go mk by (simp add: m marks_of_def)
      ultimately show ?thesis using go True by (auto simp: go_def pointsTo_def wordOf_def)
    qed
  next
    case False
    then have nr: "\<not> pointsTo h v r s" by (simp add: pointsTo_def)
    let ?i = "nat (hugeIndex (hugeBlocks h) v)" let ?b = "hugeBlocks h ! nat (hugeIndex (hugeBlocks h) v)"
    have m: "markAddress v h = h \<or> markAddress v h = h\<lparr>hugeBlocks := (hugeBlocks h)[?i := ?b\<lparr>hbMarked := True\<rparr>]\<rparr>"
      using False by (simp add: markAddress_def inArena_def Let_def)
    have "marking h (h\<lparr>hugeBlocks := (hugeBlocks h)[?i := ?b\<lparr>hbMarked := True\<rparr>]\<rparr>)"
      using markingI [of h "hpRegion h", OF _ mark_one] by simp
    then show ?thesis using m nr by (elim disjE) (simp_all add: markable_def marks_of_def)
  qed
  then show "marking h (markAddress v h)" "markable (markAddress v h) r = markable h r"
    "marks_of (markAddress v h) r s \<longleftrightarrow> marks_of h r s \<or>
       markable h r \<and> pointsTo h v r s \<and> wordState (hpWords h r s) = WeavecRtDead" by blast+
qed

lemma markWords_exact:
  "marking h (fold markAddress vs h) \<and> markable (fold markAddress vs h) r = markable h r \<and>
   (marks_of (fold markAddress vs h) r s \<longleftrightarrow> marks_of h r s \<or>
      markable h r \<and> (\<exists>v \<in> set vs. pointsTo h v r s) \<and> wordState (hpWords h r s) = WeavecRtDead)"
proof (induction vs arbitrary: h)
  case (Cons v vs)
  note one = markAddress_exact [where v = v and h = h]
  have "pointsTo (markAddress v h) w r s = pointsTo h w r s" for w by (simp add: pointsTo_def marking_slotOf [OF one(1)])
  then show ?case using Cons.IH [of "markAddress v h"] one marking_trans [OF one(1)] by (auto simp: marking_fields(3) [OF one(1)])
qed simp

lemma markWords_marking: "marking h (fold markAddress vs h)"
  using markWords_exact by blast

text \<open>The whole marking reads the words that were there when it began.\<close>

lemma fold_concat_words:
  assumes "\<And>x h'. x \<in> set xs \<Longrightarrow> marking h h' \<Longrightarrow> f x h' = fold markAddress (ws x) h'" "marking h h'"
  shows "fold f xs h' = fold markAddress (concat (map ws xs)) h'"
  using assms
proof (induction xs arbitrary: h')
  case (Cons x xs)
  have "marking h (fold markAddress (ws x) h')" by (rule marking_trans [OF Cons.prems(2) markWords_marking])
  then show ?case using Cons.IH [of "fold markAddress (ws x) h'"] Cons.prems by simp
qed simp

lemma markSlot_words: "marking h h' \<Longrightarrow> markSlot r s h' = fold markAddress (slotRange h r s) h'"
  by (simp add: markSlot_def slotRange_def weavecRtMarkWords_def Let_def marking_fields regionStart_def geomD [OF marking_fields(1)])

lemma markSlots_words:
  assumes "marking h h'"
  shows "weavecRtMarkSlots r a b h' = fold markAddress (concat (map (slotRange h r) [a..<b])) h'"
  unfolding weavecRtMarkSlots_def using assms by (intro fold_concat_words markSlot_words)

lemma markHuge_words:
  assumes "marking h h'"
  shows "weavecRtMarkHuge h' = fold markAddress (concat (map (hugeRange h) (hugeBlocks h))) h'"
proof -
  have "markHugeBlock i h2 = fold markAddress (hugeRange h (hugeBlocks h ! i)) h2"
    if "i \<in> set [0..<length (hugeBlocks h)]" "marking h h2" for i h2
  proof -
    have "same_huge (hugeBlocks h ! i) (hugeBlocks h2 ! i)" using that by (auto intro: list_all2_nthD marking_parts(2))
    then show ?thesis
      using same_huge_fields [of "hugeBlocks h ! i" "hugeBlocks h2 ! i"] marking_fields(6) [OF that(2)]
      by (simp add: markHugeBlock_def Let_def hugeRange_def weavecRtMarkWords_def)
  qed
  moreover have "length (hugeBlocks h') = length (hugeBlocks h)" using list_all2_lengthD [OF marking_parts(2) [OF assms]] by simp
  moreover have "map (hugeRange h) (hugeBlocks h) = map (\<lambda>i. hugeRange h (hugeBlocks h ! i)) [0..<length (hugeBlocks h)]"
    by (rule nth_equalityI) simp_all
  ultimately show ?thesis
    using fold_concat_words [of "[0..<length (hugeBlocks h)]" h markHugeBlock "\<lambda>i. hugeRange h (hugeBlocks h ! i)" h'] assms
    by (simp add: weavecRtMarkHuge_def)
qed

lemma markAll_words: "markAll os h = fold markAddress (scanned os h) h"
proof -
  let ?h1 = "fold markAddress (osRoots os) h"
  let ?ws = "\<lambda>r. concat (map (slotRange h r) [0..<rsBump (hpRegion h r)])"
  have m1: "marking h ?h1" by (rule markWords_marking)
  have "weavecRtMarkSlots r 0 (rsBump (hpRegion h' r)) h' = fold markAddress (?ws r) h'" if "marking h h'" for r h'
  proof -
    have "rsBump (hpRegion h' r) = rsBump (hpRegion h r)" using same_lists_fields [OF marking_parts(1) [OF that]] by simp
    then show ?thesis using markSlots_words [OF that] by simp
  qed
  then have f: "fold (\<lambda>r h. weavecRtMarkSlots r 0 (rsBump (hpRegion h r)) h) [0..<hpRegions h] ?h1 =
      fold markAddress (concat (map ?ws [0..<hpRegions h])) ?h1"
    using m1 by (intro fold_concat_words [of _ h]) simp_all
  have m2: "marking h (fold markAddress (concat (map ?ws [0..<hpRegions h])) ?h1)"
    by (rule marking_trans [OF m1 markWords_marking])
  have "hpRegions ?h1 = hpRegions h" using geomD [OF marking_fields(1) [OF m1]] by simp
  then show ?thesis using f markHuge_words [OF m2] by (simp add: markAll_def weavecRtMarkHeap_def scanned_def)
qed

subsection \<open>Recycling one region\<close>

text \<open>What the loop over the slots of a region does: which go back to the quarantine, which to the free list.\<close>

definition retains :: "heap \<Rightarrow> bool \<Rightarrow> nat \<Rightarrow> nat \<Rightarrow> bool" where
  "retains h recycle r s \<longleftrightarrow> \<not> recycle \<or> marks_of h r s"

definition queued :: "heap \<Rightarrow> nat \<Rightarrow> nat \<Rightarrow> bool" where
  "queued h r s \<longleftrightarrow> wordState (hpWords h r s) = WeavecRtDead \<and> weavecRtWordValue (hpWords h r s) \<noteq> CachedDead"

text \<open>The region in the loop: the words, the heads of its lists, the bytes of the quarantine.\<close>

definition looped :: "heap \<Rightarrow> nat \<Rightarrow> (nat \<Rightarrow> u32) \<Rightarrow> nat \<Rightarrow> nat \<Rightarrow> u64 \<Rightarrow> heap" where
  "looped h r w' fh dt q =
     h\<lparr>hpWords := (hpWords h)(r := w'), hpRegion := (hpRegion h)(r := (hpRegion h r)\<lparr>rsFreeHead := fh, rsDeadTail := dt\<rparr>),
       quarantineBytes := q\<rparr>"

definition keptSlots :: "heap \<Rightarrow> bool \<Rightarrow> nat \<Rightarrow> nat list \<Rightarrow> nat list" where
  "keptSlots h recycle r xs = rev (filter (\<lambda>s. queued h r s \<and> retains h recycle r s) xs)"

definition freedSlots :: "heap \<Rightarrow> bool \<Rightarrow> nat \<Rightarrow> nat list \<Rightarrow> nat list" where
  "freedSlots h recycle r xs = rev (filter (\<lambda>s. queued h r s \<and> \<not> retains h recycle r s) xs)"

definition loopOk :: "heap \<Rightarrow> bool \<Rightarrow> nat \<Rightarrow> nat list \<Rightarrow> nat list \<Rightarrow> (nat \<Rightarrow> u32) \<Rightarrow> nat \<Rightarrow> nat \<Rightarrow> nat \<Rightarrow> bool" where
  "loopOk h recycle r xs fl w' fh dt kh \<longleftrightarrow>
     linked w' WeavecRtFree fh (freedSlots h recycle r xs @ fl) \<and> linked w' WeavecRtDead kh (keptSlots h recycle r xs) \<and>
     (if keptSlots h recycle r xs = [] then dt = rsDeadTail (hpRegion h r) else dt = Suc (last (keptSlots h recycle r xs))) \<and>
     (\<forall>s. s \<notin> set xs \<or> \<not> queued h r s \<longrightarrow> w' s = hpWords h r s) \<and>
     (\<forall>s \<in> set (keptSlots h recycle r xs). weavecRtWordValue (w' s) \<le> 2 ^ 27)"

lemma linked_bound: "linked w st x xs \<Longrightarrow> \<forall>i \<in> set xs. i < 2 ^ 27 \<Longrightarrow> x \<le> 2 ^ 27"
  by (cases xs) auto

lemma recycleSlot_cases:
  assumes "\<not> queued h r x \<Longrightarrow> w' x = hpWords h r x" "queued h r x \<Longrightarrow> w' x = hpWords h r x"
  obtains "\<not> queued h r x" "recycleSlot r recycle x (looped h r w' fh dt q, kh, counts) = (looped h r w' fh dt q, kh, counts)"
  | counts' where "queued h r x" "retains h recycle r x" "recycleSlot r recycle x (looped h r w' fh dt q, kh, counts) =
      (looped h r (w'(x := slotWord kh WeavecRtDead)) fh (if kh = 0 then Suc x else dt) q, Suc x, counts')"
  | counts' q' where "queued h r x" "\<not> retains h recycle r x" "recycleSlot r recycle x (looped h r w' fh dt q, kh, counts) =
      (looped h r (w'(x := slotWord fh WeavecRtFree)) (Suc x) dt q', kh, counts')"
proof -
  have w: "w' x = hpWords h r x" using assms by blast
  show thesis
  proof (cases "queued h r x")
    case False
    then have "recycleSlot r recycle x (looped h r w' fh dt q, kh, counts) = (looped h r w' fh dt q, kh, counts)"
      using w by (auto simp: recycleSlot_def looped_def queued_def Let_def)
    then show thesis using False by (rule that(1) [rotated])
  next
    case True
    have swap: "st\<lparr>rsDeadTail := a, rsFreeHead := b\<rparr> = st\<lparr>rsFreeHead := b, rsDeadTail := a\<rparr>" for st :: region_state and a b
      by (cases st) simp
    have m: "(case rsMarks (hpRegion h r) of Some m \<Rightarrow> m x | None \<Rightarrow> False) = marks_of h r x" by (simp add: marks_of_def)
    have q: "\<not> (wordState (w' x) \<noteq> WeavecRtDead \<or> weavecRtWordValue (w' x) = CachedDead)" using True w by (simp add: queued_def)
    show thesis
    proof (cases "retains h recycle r x")
      case kept: True
      then have "\<exists>c. recycleSlot r recycle x (looped h r w' fh dt q, kh, counts) =
          (looped h r (w'(x := slotWord kh WeavecRtDead)) fh (if kh = 0 then Suc x else dt) q, Suc x, c)"
        using q unfolding recycleSlot_def prod.case Let_def by (simp add: looped_def retains_def m storeWord_def)
      then show thesis using True kept that(2) by blast
    next
      case freed: False
      then have "\<exists>c q'. recycleSlot r recycle x (looped h r w' fh dt q, kh, counts) =
          (looped h r (w'(x := slotWord fh WeavecRtFree)) (Suc x) dt q', kh, c)"
        using q unfolding recycleSlot_def prod.case Let_def by (simp add: looped_def retains_def m storeWord_def)
          (rule exI [of _ "q - word_of_nat (clSize (hpTable h r))"], simp add: swap)
      then show thesis using True freed that(3) by blast
    qed
  qed
qed

lemma loopOk_step:
  assumes ok: "loopOk h recycle r xs fl w' fh dt kh" and x: "x \<notin> set xs" "x < 2 ^ 27" "\<forall>s \<in> set xs. s < 2 ^ 27"
    and fl: "\<forall>s \<in> set fl. s < 2 ^ 27 \<and> \<not> queued h r s"
  shows "\<exists>w2 fh2 dt2 q2 kh2 counts2. recycleSlot r recycle x (looped h r w' fh dt q, kh, counts) = (looped h r w2 fh2 dt2 q2, kh2, counts2) \<and>
    loopOk h recycle r (xs @ [x]) fl w2 fh2 dt2 kh2"
proof -
  define ks where "ks = keptSlots h recycle r xs"
  define fs where "fs = freedSlots h recycle r xs"
  have s: "linked w' WeavecRtFree fh (fs @ fl)" "linked w' WeavecRtDead kh ks"
    "if ks = [] then dt = rsDeadTail (hpRegion h r) else dt = Suc (last ks)" "\<forall>s \<in> set ks. weavecRtWordValue (w' s) \<le> 2 ^ 27"
    and w: "\<And>s. s \<notin> set xs \<or> \<not> queued h r s \<Longrightarrow> w' s = hpWords h r s"
    using ok by (auto simp: loopOk_def ks_def fs_def)
  have kb: "kh \<le> 2 ^ 27" by (rule linked_bound [OF s(2)]) (use x(3) in \<open>simp add: ks_def keptSlots_def\<close>)
  have fb: "fh \<le> 2 ^ 27" by (rule linked_bound [OF s(1)]) (use x(3) fl in \<open>simp add: fs_def freedSlots_def ball_Un\<close>)
  have out: "x \<notin> set ks" "x \<notin> set fs" using x(1) by (simp_all add: ks_def fs_def keptSlots_def freedSlots_def)
  have k0: "kh = 0 \<longleftrightarrow> ks = []" using s(2) by (cases ks) auto
  have w0: "w' x = hpWords h r x" using w x(1) by simp
  show ?thesis
  proof (rule recycleSlot_cases [of h r x w' recycle fh dt q kh counts, OF w0 w0])
    assume a: "\<not> queued h r x" and e: "recycleSlot r recycle x (looped h r w' fh dt q, kh, counts) = (looped h r w' fh dt q, kh, counts)"
    have "loopOk h recycle r (xs @ [x]) fl w' fh dt kh" using ok a by (auto simp: loopOk_def keptSlots_def freedSlots_def)
    then show ?thesis using e by blast
  next
    fix counts'
    assume a: "queued h r x" "retains h recycle r x"
      and e: "recycleSlot r recycle x (looped h r w' fh dt q, kh, counts) =
        (looped h r (w'(x := slotWord kh WeavecRtDead)) fh (if kh = 0 then Suc x else dt) q, Suc x, counts')"
    have f1: "keptSlots h recycle r (xs @ [x]) = x # ks" "freedSlots h recycle r (xs @ [x]) = fs"
      using a by (simp_all add: ks_def fs_def keptSlots_def freedSlots_def)
    have xfl: "x \<notin> set fl" using fl a by auto
    have "loopOk h recycle r (xs @ [x]) fl (w'(x := slotWord kh WeavecRtDead)) fh (if kh = 0 then Suc x else dt) (Suc x)"
      using s w out xfl k0 kb a unfolding loopOk_def f1 by auto
    then show ?thesis using e by blast
  next
    fix counts' q'
    assume a: "queued h r x" "\<not> retains h recycle r x"
      and e: "recycleSlot r recycle x (looped h r w' fh dt q, kh, counts) =
        (looped h r (w'(x := slotWord fh WeavecRtFree)) (Suc x) dt q', kh, counts')"
    have f1: "keptSlots h recycle r (xs @ [x]) = ks" "freedSlots h recycle r (xs @ [x]) = x # fs"
      using a by (simp_all add: ks_def fs_def keptSlots_def freedSlots_def)
    have xfl: "x \<notin> set fl" using fl a by auto
    have "loopOk h recycle r (xs @ [x]) fl (w'(x := slotWord fh WeavecRtFree)) (Suc x) dt kh"
      using s w out xfl fb a unfolding loopOk_def f1 by auto
    then show ?thesis using e by blast
  qed
qed

lemma loopOk_fold:
  assumes "distinct xs" "\<forall>s \<in> set xs. s < 2 ^ 27" and fl: "\<forall>s \<in> set fl. s < 2 ^ 27 \<and> \<not> queued h r s"
    and start: "linked (hpWords h r) WeavecRtFree (rsFreeHead (hpRegion h r)) fl"
  shows "\<exists>w' fh dt q kh counts'. fold (recycleSlot r recycle) xs (h, 0, counts) = (looped h r w' fh dt q, kh, counts') \<and>
    loopOk h recycle r xs fl w' fh dt kh"
  using assms(1,2)
proof (induction xs rule: rev_induct)
  case Nil
  have "looped h r (hpWords h r) (rsFreeHead (hpRegion h r)) (rsDeadTail (hpRegion h r)) (quarantineBytes h) = h"
    by (simp add: looped_def)
  moreover have "loopOk h recycle r [] fl (hpWords h r) (rsFreeHead (hpRegion h r)) (rsDeadTail (hpRegion h r)) 0"
    using start by (simp add: loopOk_def keptSlots_def freedSlots_def)
  ultimately show ?case by (metis fold_simps(1))
next
  case (snoc x xs)
  then obtain w' fh dt q kh counts' where a: "fold (recycleSlot r recycle) xs (h, 0, counts) = (looped h r w' fh dt q, kh, counts')"
      "loopOk h recycle r xs fl w' fh dt kh" by auto
  show ?case using loopOk_step [OF a(2), of x q counts'] snoc.prems fl a(1) by simp
qed

text \<open>A region whose lists are rebuilt.\<close>

lemma heap_inv_replace:
  assumes inv: "heap_inv own as rs h" and r: "r < hpRegions h"
    and g: "geom h' = geom h" "classActive h' = classActive h"
    and same: "\<And>q. q \<noteq> r \<Longrightarrow> hpRegion h' q = hpRegion h q \<and> hpWords h' q = hpWords h q"
    and ok: "region_ok (hpTable h r) (hpRegion h' r) (hpWords h' r) o2"
    and nc: "\<And>s p. cached (Some p) \<Longrightarrow> o2 s = Some p \<longleftrightarrow> own r s = Some p"
  shows "heap_inv (own(r := o2)) as rs h'"
proof -
  have old: "arena_ok h" "table_ok h" "chains_ok h" "regions_ok own h" using inv by (simp_all add: heap_inv_def)
  have "regions_ok (own(r := o2)) h'"
    using old(4) ok same r geomD [OF g(1)] by (auto simp: regions_ok_def)
  moreover have "held (own(r := o2)) p = held own p" if "cached (Some p)" for p
    using nc [OF that] by (auto simp: held_def split: if_splits)
  then have "held (own(r := o2)) (AllocCache t c) = held own (AllocCache t c)"
    "held (own(r := o2)) (ReleaseCache t c) = held own (ReleaseCache t c)" for t c by (simp_all add: cached_def)
  ultimately show ?thesis using inv geom_ok [OF g(1)] g(2) geomD(9) [OF g(1)] by (simp add: heap_inv_def)
qed

definition freed :: "heap \<Rightarrow> bool \<Rightarrow> nat \<Rightarrow> nat \<Rightarrow> bool" where
  "freed h recycle r s \<longleftrightarrow> markable h r \<and> queued h r s \<and> \<not> retains h recycle r s"

definition recycledOwner :: "heap \<Rightarrow> bool \<Rightarrow> nat set \<Rightarrow> owner \<Rightarrow> owner" where
  "recycledOwner h recycle rs own = (\<lambda>r s. if r \<in> rs \<and> freed h recycle r s then Some FreeList else own r s)"

lemma recycle_region_ok:
  assumes ok: "region_ok entry (hpRegion h r) (hpWords h r) o'" and m: "markable h r"
    and fin: "loopOk h recycle r (rev [0..<rsBump (hpRegion h r)]) fl w' fh dt kh"
    and lo: "lists_ok (hpRegion h r) (hpWords h r) o' fl dl"
    and st: "rsBump st' = rsBump (hpRegion h r)" "rsFreeHead st' = fh" "rsDeadHead st' = kh" "rsDeadTail st' = (if kh = 0 then 0 else dt)"
  shows "region_ok entry st' w' (\<lambda>s. if freed h recycle r s then Some FreeList else o' s)"
proof -
  let ?xs = "rev [0..<rsBump (hpRegion h r)]" let ?o = "\<lambda>s. if freed h recycle r s then Some FreeList else o' s"
  define ks where "ks = keptSlots h recycle r ?xs"
  define fs where "fs = freedSlots h recycle r ?xs"
  have so: "slots_ok entry (hpRegion h r) (hpWords h r) o'" using ok by (rule region_okE)
  have q: "queued h r s \<longleftrightarrow> o' s = Some DeadList" for s unfolding queued_def by (rule slot_states(3) [OF so])
  have qb: "queued h r s \<Longrightarrow> s < rsBump (hpRegion h r)" for s using placed_bump [OF so] q by auto
  have sets: "set ks = {s. o' s = Some DeadList \<and> retains h recycle r s}" "set fs = {s. freed h recycle r s}"
    using qb m by (auto simp: ks_def fs_def keptSlots_def freedSlots_def freed_def q)
  have dist: "distinct ks" "distinct fs" by (simp_all add: ks_def fs_def keptSlots_def freedSlots_def)
  have L: "linked w' WeavecRtFree fh (fs @ fl)" "linked w' WeavecRtDead kh ks" "if ks = [] then dt = rsDeadTail (hpRegion h r) else dt = Suc (last ks)"
    "\<forall>s \<in> set ks. weavecRtWordValue (w' s) \<le> 2 ^ 27"
    and W: "\<And>s. \<not> queued h r s \<Longrightarrow> w' s = hpWords h r s" using fin by (auto simp: loopOk_def ks_def fs_def)
  have k0: "kh = 0 \<longleftrightarrow> ks = []" using L(2) by (cases ks) auto
  have fl: "set fl = {s. o' s = Some FreeList}" using listed(1) [OF lo] by auto
  have "lists_ok st' w' ?o (fs @ fl) ks"
    unfolding lists_ok_def st
  proof (intro conjI)
    have "set fs \<inter> set fl = {}" using sets(2) fl q by (auto simp: freed_def)
    then show "distinct (fs @ fl)" using dist(2) lo by (simp add: lists_ok_def)
    show "{s. ?o s = Some FreeList} = set (fs @ fl)" using sets(2) fl by auto
    show "{s. ?o s = Some DeadList} = set ks" using sets(1) m by (auto simp: freed_def q)
    show "(if kh = 0 then 0 else dt) = (if ks = [] then 0 else Suc (last ks))" using k0 L(3) by auto
  qed (use L dist in auto)
  moreover have "slots_ok entry st' w' ?o"
    unfolding slots_ok_def st(1)
  proof (intro conjI allI impI)
    fix s
    assume s: "s < rsBump (hpRegion h r)"
    consider "s \<in> set fs" | "s \<in> set ks" | "\<not> queued h r s" using sets q m by (auto simp: freed_def)
    then show "word_ok (w' s) (?o s)"
    proof cases
      case 1
      then have "wordState (w' s) = WeavecRtFree" using linked_states [OF L(1)] by simp
      then show ?thesis using 1 sets(2) by (simp add: word_ok_def)
    next
      case 2
      then have "wordState (w' s) = WeavecRtDead" "weavecRtWordValue (w' s) \<le> 2 ^ 27" using linked_states [OF L(2)] L(4) by simp_all
      moreover have "?o s = Some DeadList" using 2 sets(1) m by (auto simp: freed_def)
      ultimately show ?thesis by (simp add: word_ok_def)
    next
      case 3
      then show ?thesis using W [OF 3] so s by (simp add: slots_ok_def freed_def)
    qed
  next
    fix s
    assume s: "rsBump (hpRegion h r) \<le> s"
    then have "\<not> queued h r s" using qb by (meson not_less)
    then show "?o s = None" "w' s = WeavecRtNever" using W so s by (simp_all add: slots_ok_def freed_def)
  qed (use so in \<open>simp_all add: slots_ok_def\<close>)
  ultimately show ?thesis by (auto simp: region_ok_def)
qed

lemma recycleRegion_inv:
  assumes inv: "heap_inv own as rs h" and r: "r < hpRegions h" and md: "\<And>s. marks_of h r s \<Longrightarrow> wordState (hpWords h r s) = WeavecRtDead"
  shows "\<exists>w' st' q counts'. recycleRegion recycle r (h, counts) =
      (h\<lparr>hpWords := (hpWords h)(r := w'), hpRegion := (hpRegion h)(r := st'), quarantineBytes := q\<rparr>, counts') \<and>
    heap_inv (recycledOwner h recycle {r} own) as rs
      (h\<lparr>hpWords := (hpWords h)(r := w'), hpRegion := (hpRegion h)(r := st'), quarantineBytes := q\<rparr>) \<and>
    (rsMarks st' = (if markable h r then Some (\<lambda>_. False) else rsMarks (hpRegion h r))) \<and>
    (\<forall>s. \<not> queued h r s \<longrightarrow> w' s = hpWords h r s)"
proof (cases "markable h r")
  case False
  then have "recycleRegion recycle r (h, counts) = (h, counts)" "recycledOwner h recycle {r} own = own"
    by (auto simp: recycleRegion_def markable_def recycledOwner_def freed_def fun_eq_iff)
  then show ?thesis using inv False
    by (intro exI [of _ "hpWords h r"] exI [of _ "hpRegion h r"] exI [of _ "quarantineBytes h"]) simp
next
  case m: True
  let ?xs = "rev [0..<rsBump (hpRegion h r)]"
  obtain fl dl where so: "slots_ok (hpTable h r) (hpRegion h r) (hpWords h r) (own r)"
    and lo: "lists_ok (hpRegion h r) (hpWords h r) (own r) fl dl" by (rule region_okE [OF heap_inv_region [OF inv r]])
  have q: "queued h r s \<longleftrightarrow> own r s = Some DeadList" for s unfolding queued_def by (rule slot_states(3) [OF so])
  have fl: "\<forall>s \<in> set fl. s < 2 ^ 27 \<and> \<not> queued h r s" using listed(1) [OF lo] placed_bump [OF so] q by auto
  have xb: "\<forall>s \<in> set ?xs. s < 2 ^ 27" using so by (auto simp: slots_ok_def)
  obtain w' fh dt qb kh counts' where f: "fold (recycleSlot r recycle) ?xs (h, 0, counts) = (looped h r w' fh dt qb, kh, counts')"
    and ok: "loopOk h recycle r ?xs fl w' fh dt kh"
    using loopOk_fold [OF _ xb fl, of recycle counts] lo by (auto simp: lists_ok_def)
  obtain mk where mk: "rsMarks (hpRegion h r) = Some mk" using m by (auto simp: markable_def)
  have clear: "(\<lambda>i. if i < (rsBump (hpRegion h r) + 63) div 64 * 64 then False else mk i) = (\<lambda>_. False)"
  proof
    fix i
    have "\<not> mk i" if "\<not> i < (rsBump (hpRegion h r) + 63) div 64 * 64"
    proof
      assume "mk i"
      then have "wordState (hpWords h r i) = WeavecRtDead" using md [of i] mk by (simp add: marks_of_def)
      then have "i < rsBump (hpRegion h r)" using slot_states(2) [OF so, of i] placed_bump [OF so, of i] hand_some(2) [of "own r i"] by auto
      moreover have "rsBump (hpRegion h r) \<le> (rsBump (hpRegion h r) + 63) div 64 * 64" by simp
      ultimately show False using that by linarith
    qed
    then show "(if i < (rsBump (hpRegion h r) + 63) div 64 * 64 then False else mk i) = False" by auto
  qed
  let ?st1 = "(hpRegion h r)\<lparr>rsFreeHead := fh, rsDeadTail := dt\<rparr>"
  define st' where "st' = (if kh = 0 then ?st1\<lparr>rsDeadHead := 0, rsDeadTail := 0\<rparr> else ?st1\<lparr>rsDeadHead := kh\<rparr>)\<lparr>rsMarks := Some (\<lambda>_. False)\<rparr>"
  let ?h = "h\<lparr>hpWords := (hpWords h)(r := w'), hpRegion := (hpRegion h)(r := st'), quarantineBytes := qb\<rparr>"
  have e: "recycleRegion recycle r (h, counts) = (?h, counts')"
  proof -
    have "\<not> (rsMarks (hpRegion h r) = None \<or> rsDeadHead (hpRegion h r) = 0)" using m by (simp add: markable_def)
    then show ?thesis using f clear by (simp add: recycleRegion_def Let_def looped_def st'_def mk)
  qed
  have sf: "rsBump st' = rsBump (hpRegion h r)" "rsFreeHead st' = fh" "rsDeadHead st' = kh" "rsDeadTail st' = (if kh = 0 then 0 else dt)"
    by (simp_all add: st'_def)
  have "heap_inv (own(r := \<lambda>s. if freed h recycle r s then Some FreeList else own r s)) as rs ?h"
    by (rule heap_inv_replace [OF inv r])
      (use recycle_region_ok [OF heap_inv_region [OF inv r] m ok lo sf] q in \<open>auto simp: geom_def freed_def\<close>)
  moreover have "own(r := \<lambda>s. if freed h recycle r s then Some FreeList else own r s) = recycledOwner h recycle {r} own"
    by (auto simp: recycledOwner_def fun_eq_iff)
  moreover have "\<forall>s. \<not> queued h r s \<longrightarrow> w' s = hpWords h r s" using ok by (simp add: loopOk_def)
  ultimately show ?thesis using e m
    by (intro exI [of _ w'] exI [of _ st'] exI [of _ qb] exI [of _ counts']) (simp add: st'_def)
qed

subsection \<open>Recycling the heap\<close>

definition regionsOnly :: "heap \<Rightarrow> nat set \<Rightarrow> heap \<Rightarrow> bool" where
  "regionsOnly h rs h' \<longleftrightarrow> (\<exists>W F q. h' = h\<lparr>hpWords := W, hpRegion := F, quarantineBytes := q\<rparr> \<and>
     (\<forall>r. r \<notin> rs \<longrightarrow> W r = hpWords h r \<and> F r = hpRegion h r) \<and>
     (\<forall>r \<in> rs. rsMarks (F r) = (if markable h r then Some (\<lambda>_. False) else rsMarks (hpRegion h r))) \<and>
     (\<forall>r s. \<not> queued h r s \<longrightarrow> W r s = hpWords h r s))"

lemma same_region:
  assumes "hpWords h' r = hpWords h r" "hpRegion h' r = hpRegion h r"
  shows "queued h' r s = queued h r s" "marks_of h' r s = marks_of h r s" "markable h' r = markable h r" "freed h' c r s = freed h c r s"
  using assms by (simp_all add: queued_def marks_of_def markable_def freed_def retains_def)

lemma recycle_fold:
  assumes inv: "heap_inv own as rsl h" and rs: "distinct rs" "\<forall>r \<in> set rs. r < hpRegions h"
    and md: "\<And>r s. marks_of h r s \<Longrightarrow> wordState (hpWords h r s) = WeavecRtDead"
  shows "\<exists>h' counts'. fold (recycleRegion recycle) rs (h, counts) = (h', counts') \<and> regionsOnly h (set rs) h' \<and>
    heap_inv (recycledOwner h recycle (set rs) own) as rsl h'"
  using rs
proof (induction rs rule: rev_induct)
  case Nil
  have "regionsOnly h {} h" unfolding regionsOnly_def
    by (intro exI [of _ "hpWords h"] exI [of _ "hpRegion h"] exI [of _ "quarantineBytes h"]) simp
  moreover have "recycledOwner h recycle {} own = own" by (simp add: recycledOwner_def)
  ultimately show ?case using inv by simp
next
  case (snoc r rs)
  then obtain h1 c1 where s: "fold (recycleRegion recycle) rs (h, counts) = (h1, c1)" "regionsOnly h (set rs) h1"
      "heap_inv (recycledOwner h recycle (set rs) own) as rsl h1" by auto
  obtain W F q where h1: "h1 = h\<lparr>hpWords := W, hpRegion := F, quarantineBytes := q\<rparr>"
      "\<And>r. r \<notin> set rs \<Longrightarrow> W r = hpWords h r \<and> F r = hpRegion h r"
      "\<And>r. r \<in> set rs \<Longrightarrow> rsMarks (F r) = (if markable h r then Some (\<lambda>_. False) else rsMarks (hpRegion h r))"
      "\<And>r s. \<not> queued h r s \<Longrightarrow> W r s = hpWords h r s"
    using s(2) by (auto simp: regionsOnly_def)
  have r: "r \<notin> set rs" "r < hpRegions h" using snoc.prems by auto
  note sr = same_region [of h1 r h]
  have eq: "hpWords h1 r = hpWords h r" "hpRegion h1 r = hpRegion h r" using h1(1,2) r(1) by auto
  have md1: "marks_of h1 r s \<Longrightarrow> wordState (hpWords h1 r s) = WeavecRtDead" for s using md sr(2) [OF eq] eq by simp
  have r1: "r < hpRegions h1" using r(2) by (simp add: h1(1))
  obtain w' st' q' c' where n: "recycleRegion recycle r (h1, c1) =
      (h1\<lparr>hpWords := (hpWords h1)(r := w'), hpRegion := (hpRegion h1)(r := st'), quarantineBytes := q'\<rparr>, c')"
    "heap_inv (recycledOwner h1 recycle {r} (recycledOwner h recycle (set rs) own)) as rsl
      (h1\<lparr>hpWords := (hpWords h1)(r := w'), hpRegion := (hpRegion h1)(r := st'), quarantineBytes := q'\<rparr>)"
    "rsMarks st' = (if markable h1 r then Some (\<lambda>_. False) else rsMarks (hpRegion h1 r))" "\<forall>s. \<not> queued h1 r s \<longrightarrow> w' s = hpWords h1 r s"
    using recycleRegion_inv [OF s(3) r1 md1, of recycle c1] by blast
  let ?h = "h1\<lparr>hpWords := (hpWords h1)(r := w'), hpRegion := (hpRegion h1)(r := st'), quarantineBytes := q'\<rparr>"
  have "recycledOwner h1 recycle {r} (recycledOwner h recycle (set rs) own) = recycledOwner h recycle (set (rs @ [r])) own"
    using sr(4) [OF eq] r(1) by (auto simp: recycledOwner_def fun_eq_iff)
  moreover have "regionsOnly h (set (rs @ [r])) ?h"
    unfolding regionsOnly_def
    by (intro exI [of _ "W(r := w')"] exI [of _ "F(r := st')"] exI [of _ q'])
      (use h1 n(3,4) sr [OF eq] r(1) eq in auto)
  ultimately show ?case using s(1) n(1,2) by simp
qed

text \<open>The huge blocks: those that are released and not marked go.\<close>

definition hugeStays :: "bool \<Rightarrow> huge_block \<Rightarrow> bool" where
  "hugeStays recycle b \<longleftrightarrow> hbDead b = 0 \<or> hbMarked b \<or> \<not> recycle"

lemma recycleHuge_exact:
  "\<exists>S d counts'. recycleHuge os recycle bs (h, counts) =
     (map (hbMarked_update (\<lambda>_. False)) (filter (hugeStays recycle) bs),
      h\<lparr>hpShadow := S, hugeDeadBytes := d, hugeDeadCount := hugeDeadCount h - length (filter (\<lambda>b. \<not> hugeStays recycle b) bs)\<rparr>, counts')"
proof (induction bs arbitrary: h counts)
  case Nil
  show ?case by (intro exI [of _ "hpShadow h"] exI [of _ "hugeDeadBytes h"] exI [of _ counts]) simp
next
  case (Cons b bs)
  show ?case
  proof (cases "hugeStays recycle b")
    case True
    define c1 where "c1 = (if hbDead b \<noteq> 0 then counts\<lparr>scRetained := scRetained counts + 1, scRetainedBytes := scRetainedBytes counts + hbSize b\<rparr> else counts)"
    obtain S d c2 where e: "recycleHuge os recycle bs (h, c1) = (map (hbMarked_update (\<lambda>_. False)) (filter (hugeStays recycle) bs),
        h\<lparr>hpShadow := S, hugeDeadBytes := d, hugeDeadCount := hugeDeadCount h - length (filter (\<lambda>b. \<not> hugeStays recycle b) bs)\<rparr>, c2)"
      using Cons.IH [of h c1] by blast
    have "recycleHuge os recycle (b # bs) (h, counts) =
        (case recycleHuge os recycle bs (h, c1) of (bs, hc) \<Rightarrow> (b\<lparr>hbMarked := False\<rparr> # bs, hc))"
      using True by (auto simp: hugeStays_def c1_def Let_def)
    then show ?thesis using e True by (intro exI [of _ S] exI [of _ d] exI [of _ c2]) simp
  next
    case False
    define h1 where "h1 = h\<lparr>hpShadow := weavecRtShadowClear (osShadowBase os) (word_of_nat (pageBytes h)) (osFresh os) (hpShadow h)
        (hbBase b) (hbBase b + hbSize b + 16), hugeDeadBytes := hugeDeadBytes h - hbSize b, hugeDeadCount := hugeDeadCount h - 1\<rparr>"
    obtain S d c2 where e: "recycleHuge os recycle bs (h1, counts\<lparr>scRecycled := scRecycled counts + 1\<rparr>) =
        (map (hbMarked_update (\<lambda>_. False)) (filter (hugeStays recycle) bs),
         h1\<lparr>hpShadow := S, hugeDeadBytes := d, hugeDeadCount := hugeDeadCount h1 - length (filter (\<lambda>b. \<not> hugeStays recycle b) bs)\<rparr>, c2)"
      using Cons.IH [of h1 "counts\<lparr>scRecycled := scRecycled counts + 1\<rparr>"] by blast
    have "recycleHuge os recycle (b # bs) (h, counts) = recycleHuge os recycle bs (h1, counts\<lparr>scRecycled := scRecycled counts + 1\<rparr>)"
      using False by (simp add: hugeStays_def h1_def)
    then show ?thesis using e False by (intro exI [of _ S] exI [of _ d] exI [of _ c2]) (simp add: h1_def)
  qed
qed

text \<open>What the table says of a block, its mark apart.\<close>

definition hugeKey :: "huge_block \<Rightarrow> u64 \<times> u64 \<times> u64 \<times> u64 \<times> nat" where
  "hugeKey b = (hbBase b, hbSize b, hbMap b, hbMapBytes b, hbDead b)"

lemma huge_keys:
  "huge_sorted bs = (sorted_wrt (\<lambda>(_, _, m, n, _) (_, _, m', _, _). unat m + unat n \<le> unat m') (map hugeKey bs) \<and>
     (\<forall>(_, _, m, n, _) \<in> set (map hugeKey bs). 0 < n \<and> unat m + unat n < 2 ^ 64))"
  "filter (\<lambda>(_, _, _, _, d). P d) (map hugeKey bs) = map hugeKey (filter (\<lambda>b. P (hbDead b)) bs)"
  by (simp_all add: huge_sorted_def sorted_wrt_map hugeKey_def filter_map o_def)

lemma same_keys:
  assumes "map hugeKey bs' = map hugeKey bs"
  shows "huge_sorted bs' = huge_sorted bs" "length (filter (\<lambda>b. hbDead b \<noteq> 0) bs') = length (filter (\<lambda>b. hbDead b \<noteq> 0) bs)"
    "map (\<lambda>b. (hbBase b, hbSize b, hbMap b, hbMapBytes b)) (filter (\<lambda>b. hbDead b = 0) bs') =
     map (\<lambda>b. (hbBase b, hbSize b, hbMap b, hbMapBytes b)) (filter (\<lambda>b. hbDead b = 0) bs)"
proof -
  show "huge_sorted bs' = huge_sorted bs" by (simp only: huge_keys(1) assms)
  have k: "map hugeKey (filter (\<lambda>b. P (hbDead b)) bs') = map hugeKey (filter (\<lambda>b. P (hbDead b)) bs)" for P
    using huge_keys(2) [of P bs] huge_keys(2) [of P bs'] assms by simp
  show "length (filter (\<lambda>b. hbDead b \<noteq> 0) bs') = length (filter (\<lambda>b. hbDead b \<noteq> 0) bs)"
    using arg_cong [OF k [of "\<lambda>d. d \<noteq> 0"], of length] by simp
  have x: "map (\<lambda>b. (hbBase b, hbSize b, hbMap b, hbMapBytes b)) xs = map (\<lambda>(a, b, c, d, _). (a, b, c, d)) (map hugeKey xs)" for xs
    by (simp add: hugeKey_def)
  show "map (\<lambda>b. (hbBase b, hbSize b, hbMap b, hbMapBytes b)) (filter (\<lambda>b. hbDead b = 0) bs') =
     map (\<lambda>b. (hbBase b, hbSize b, hbMap b, hbMapBytes b)) (filter (\<lambda>b. hbDead b = 0) bs)"
    unfolding x k [of "\<lambda>d. d = 0"] ..
qed

lemma same_huge_keys: "list_all2 same_huge bs bs' \<Longrightarrow> map hugeKey bs' = map hugeKey bs"
  by (induction rule: list_all2_induct) (auto simp: hugeKey_def dest: same_huge_fields)

definition blocks_ok :: "heap \<Rightarrow> bool" where
  "blocks_ok h \<longleftrightarrow> huge_wf h \<and> (\<forall>b \<in> set (hugeBlocks h). outside_arena h b)"

lemma blocks_ok_filter:
  assumes "blocks_ok h" and bs: "map hugeKey bs = map hugeKey (filter P (hugeBlocks h))"
    and n: "hugeDeadCount h' = length (filter (\<lambda>b. hbDead b \<noteq> 0) bs)"
    and same: "hugeBlocks h' = bs" "hugeLow h' = hugeLow h" "hugeHigh h' = hugeHigh h" "hpBase h' = hpBase h" "hpBytes h' = hpBytes h"
  shows "blocks_ok h'"
proof -
  have wf: "huge_sorted (hugeBlocks h)" using assms(1) by (simp add: blocks_ok_def huge_wf_def)
  then have "huge_sorted (filter P (hugeBlocks h))" by (simp add: huge_sorted_def sorted_wrt_filter)
  then have s: "huge_sorted bs" by (simp only: same_keys(1) [OF bs])
  have "\<exists>b' \<in> set (hugeBlocks h). hugeKey b = hugeKey b'" if "b \<in> set bs" for b
  proof -
    have "hugeKey b \<in> set (map hugeKey bs)" using that by simp
    then show ?thesis unfolding bs by auto
  qed
  then have "unat (hugeLow h) \<le> unat (hbMap b) \<and> unat (hbMap b) + unat (hbMapBytes b) \<le> unat (hugeHigh h) \<and>
      hbMap b \<le> hbBase b \<and> unat (hbBase b) + unat (hbSize b) \<le> unat (hbMap b) + unat (hbMapBytes b) \<and>
      unat (hbBase b) < unat (hbMap b) + unat (hbMapBytes b) \<and> outside_arena h b" if "b \<in> set bs" for b
    using that assms(1) unfolding blocks_ok_def huge_wf_def outside_arena_def hugeKey_def by (metis prod.inject)
  then show ?thesis using s n by (simp add: blocks_ok_def huge_wf_def same outside_arena_def)
qed

lemma marking_blocks:
  assumes "marking h h'" "blocks_ok h"
  shows "blocks_ok h'"
proof (rule blocks_ok_filter [OF assms(2), where P = "\<lambda>_. True"])
  show k: "map hugeKey (hugeBlocks h') = map hugeKey (filter (\<lambda>_. True) (hugeBlocks h))"
    using same_huge_keys [OF marking_parts(2) [OF assms(1)]] by simp
  then show "hugeDeadCount h' = length (filter (\<lambda>b. hbDead b \<noteq> 0) (hugeBlocks h'))"
    using same_keys(2) [of "hugeBlocks h'" "hugeBlocks h"] assms(2) marking_fields(11) [OF assms(1)]
    by (simp add: blocks_ok_def huge_wf_def)
qed (use marking_fields [OF assms(1)] geomD [OF marking_fields(1) [OF assms(1)]] in simp_all)

lemma marks_clear_of: "marks_clear h \<longleftrightarrow> (\<forall>r s. \<not> marks_of h r s)"
  by (auto simp: marks_clear_def marks_of_def split: option.splits)

lemma weavecRtRecycle_inv:
  assumes inv: "heap_inv own as rs h" and b: "blocks_ok h"
    and md: "\<And>r s. marks_of h r s \<Longrightarrow> markable h r \<and> wordState (hpWords h r s) = WeavecRtDead"
  shows "\<exists>h' counts. weavecRtRecycle os recycle h = (h', counts) \<and> heap_inv (recycledOwner h recycle {..<hpRegions h} own) as rs h' \<and>
    geom h' = geom h \<and> liveMap h' = liveMap h \<and> hugeLive h' = hugeLive h \<and> hpMem h' = hpMem h \<and> cacheOf h' = cacheOf h \<and>
    caches h' = caches h \<and> cacheKeyReady h' = cacheKeyReady h \<and> pageBytes h' = pageBytes h \<and> blocks_ok h' \<and> marks_clear h' \<and>
    spans h' \<subseteq> spans h"
proof -
  let ?h0 = "h\<lparr>classGained := (\<lambda>c. if c < hpClasses h then 0 else classGained h c)\<rparr>"
  have i0: "heap_inv own as rs ?h0" using inv by (subst heap_inv_same [of _ h]) (simp_all add: geom_def)
  have m0: "marks_of ?h0 = marks_of h" "queued ?h0 = queued h" "markable ?h0 = markable h" "freed ?h0 = freed h"
    by (simp_all add: marks_of_def queued_def markable_def freed_def retains_def fun_eq_iff)
  then have md0: "marks_of ?h0 r s \<Longrightarrow> wordState (hpWords ?h0 r s) = WeavecRtDead" for r s using md by simp
  have "set [0..<hpRegions h] = {..<hpRegions h}" by auto
  then obtain h1 c1 where f: "fold (recycleRegion recycle) [0..<hpRegions h] (?h0, \<lparr>scRetained = 0, scRetainedBytes = 0, scRecycled = 0\<rparr>) = (h1, c1)"
      "regionsOnly ?h0 {..<hpRegions h} h1" "heap_inv (recycledOwner ?h0 recycle {..<hpRegions h} own) as rs h1"
    using recycle_fold [OF i0, of "[0..<hpRegions h]" recycle "\<lparr>scRetained = 0, scRetainedBytes = 0, scRecycled = 0\<rparr>"] md0 by auto
  obtain W F q where h1: "h1 = ?h0\<lparr>hpWords := W, hpRegion := F, quarantineBytes := q\<rparr>"
      "\<And>r. r \<notin> {..<hpRegions h} \<Longrightarrow> W r = hpWords h r \<and> F r = hpRegion h r"
      "\<And>r. r \<in> {..<hpRegions h} \<Longrightarrow> rsMarks (F r) = (if markable h r then Some (\<lambda>_. False) else rsMarks (hpRegion h r))"
      "\<And>r s. \<not> queued h r s \<Longrightarrow> W r s = hpWords h r s"
    using f(2) m0 unfolding regionsOnly_def by auto
  let ?bs = "map (hbMarked_update (\<lambda>_. False)) (filter (hugeStays recycle) (hugeBlocks h))"
  obtain S d c2 where g: "recycleHuge os recycle (hugeBlocks h1) (h1, c1) = (?bs,
      h1\<lparr>hpShadow := S, hugeDeadBytes := d, hugeDeadCount := hugeDeadCount h1 - length (filter (\<lambda>b. \<not> hugeStays recycle b) (hugeBlocks h1))\<rparr>, c2)"
    using recycleHuge_exact [of os recycle "hugeBlocks h1" h1 c1] by (auto simp: h1(1))
  define h' where "h' = h1\<lparr>hpShadow := S, hugeDeadBytes := d,
      hugeDeadCount := hugeDeadCount h1 - length (filter (\<lambda>b. \<not> hugeStays recycle b) (hugeBlocks h1)), hugeBlocks := ?bs,
      retainedBytes := quarantineBytes h1 + d\<rparr>"
  have e: "weavecRtRecycle os recycle h = (h', c2)" using f(1) g by (simp add: weavecRtRecycle_def Let_def h1(1) h'_def)
  have own: "recycledOwner ?h0 recycle {..<hpRegions h} own = recycledOwner h recycle {..<hpRegions h} own"
    by (simp add: recycledOwner_def m0(4))
  have inv': "heap_inv (recycledOwner h recycle {..<hpRegions h} own) as rs h'"
    using f(3) unfolding own by (subst heap_inv_same [of _ h1]) (simp_all add: geom_def h'_def)
  have q: "queued h r s \<Longrightarrow> own r s \<noteq> None" for r s
    using slot_states(3) [OF heap_inv_slots [OF inv, of r], of s] inv
    by (cases "r < hpRegions h") (auto simp: queued_def heap_inv_def regions_ok_def wordState_def)
  have live: "liveMap h' = liveMap h"
  proof (rule liveMap_eqI [OF inv inv'])
    fix r s
    show "own r s = None \<Longrightarrow> hpWords h' r s = hpWords h r s" using q [of r s] h1(4) [of r s] by (auto simp: h'_def h1(1))
    show "recycledOwner h recycle {..<hpRegions h} own r s = None \<longleftrightarrow> own r s = None"
      using q [of r s] by (auto simp: recycledOwner_def freed_def)
  qed
  have k: "map hugeKey ?bs = map hugeKey (filter (hugeStays recycle) (hugeBlocks h))" by (simp add: hugeKey_def)
  have hl: "hugeLive h' = hugeLive h"
  proof -
    have "filter (\<lambda>b. hbDead b = 0) (filter (hugeStays recycle) xs) = filter (\<lambda>b. hbDead b = 0) xs" for xs
      by (induction xs) (auto simp: hugeStays_def)
    then show ?thesis using same_keys(3) [OF k] by (simp add: hugeLive_def h'_def)
  qed
  have "length (filter (\<lambda>b. hbDead b \<noteq> 0) (filter (hugeStays recycle) xs)) + length (filter (\<lambda>b. \<not> hugeStays recycle b) xs) =
      length (filter (\<lambda>b. hbDead b \<noteq> 0) xs)" for xs
    by (induction xs) (auto simp: hugeStays_def)
  then have "hugeDeadCount h' = length (filter (\<lambda>b. hbDead b \<noteq> 0) (filter (hugeStays recycle) (hugeBlocks h)))"
    using b by (simp add: h'_def h1(1) blocks_ok_def huge_wf_def) (metis diff_add_inverse2)
  then have "hugeDeadCount h' = length (filter (\<lambda>b. hbDead b \<noteq> 0) ?bs)" by (simp only: same_keys(2) [OF k])
  then have blocks: "blocks_ok h'" by (intro blocks_ok_filter [OF b k]) (simp_all add: h'_def h1(1))
  have "\<not> marks_of h' r s" for r s
  proof (cases "r < hpRegions h")
    case True
    then show ?thesis using h1(3) [of r] md [of r s] by (auto simp: marks_of_def h'_def h1(1))
  next
    case False
    then have "rsDeadHead (hpRegion h r) = 0" using inv by (simp add: heap_inv_def regions_ok_def region_fresh_def)
    then show ?thesis using h1(2) [of r] md [of r s] False by (auto simp: marks_of_def h'_def h1(1) markable_def)
  qed
  then have "marks_clear h'" by (simp add: marks_clear_of)
  moreover have "geom h' = geom h" by (simp add: geom_def h'_def h1(1))
  moreover have "spans h' \<subseteq> spans h" by (auto simp: spans_def h'_def)
  ultimately show ?thesis using e inv' live hl blocks
    by (intro exI [of _ h'] exI [of _ c2]) (simp add: h'_def h1(1))
qed

subsection \<open>The sweep\<close>

lemma prepareMarks_exact:
  assumes "prepareMarks os rs h = (ok, h')"
  shows "marking h h' \<and> marks_of h' = marks_of h \<and> (ok \<longrightarrow> (\<forall>r \<in> set rs. rsDeadHead (hpRegion h r) \<noteq> 0 \<longrightarrow> markable h' r)) \<and>
    (\<forall>r. markable h r \<longrightarrow> markable h' r)"
  using assms
proof (induction rs arbitrary: h)
  case Nil
  then show ?case by auto
next
  case (Cons r rs)
  let ?st = "hpRegion h r"
  let ?h = "setRegion r (?st\<lparr>rsMarks := Some (\<lambda>_. False)\<rparr>) h"
  have e: "(if rsDeadHead ?st = 0 \<or> rsMarks ?st \<noteq> None then prepareMarks os rs h
      else if \<not> osMarks os r then (False, h) else prepareMarks os rs ?h) = (ok, h')"
    using Cons.prems unfolding prepareMarks.simps Let_def .
  consider "rsDeadHead ?st = 0 \<or> rsMarks ?st \<noteq> None" "prepareMarks os rs h = (ok, h')"
    | "rsDeadHead ?st \<noteq> 0" "rsMarks ?st = None" "ok = False" "h' = h"
    | "rsDeadHead ?st \<noteq> 0" "rsMarks ?st = None" "prepareMarks os rs ?h = (ok, h')"
  proof (cases "rsDeadHead ?st = 0 \<or> rsMarks ?st \<noteq> None")
    case True
    then show thesis using e that(1) by (simp only: if_True)
  next
    case False
    then have a: "rsDeadHead ?st \<noteq> 0" "rsMarks ?st = None" by auto
    have e2: "(if \<not> osMarks os r then (False, h) else prepareMarks os rs ?h) = (ok, h')" using e False by (simp only: if_False)
    show thesis
    proof (cases "osMarks os r")
      case True
      then have "prepareMarks os rs ?h = (ok, h')" using e2 by (simp only: not_True_eq_False if_False)
      then show thesis by (rule that(3) [OF a])
    next
      case False
      then have "(False, h) = (ok, h')" using e2 by (simp only: not_False_eq_True if_True)
      then have "ok = False" "h' = h" by blast+
      then show thesis by (rule that(2) [OF a])
    qed
  qed
  then show ?case
  proof cases
    case 1
    then show ?thesis using Cons.IH [OF 1(2)] by (auto simp: markable_def)
  next
    case 2
    then show ?thesis by simp
  next
    case 3
    have m: "marking h ?h" using markingI [of h "(hpRegion h)(r := ?st\<lparr>rsMarks := Some (\<lambda>_. False)\<rparr>)" "hugeBlocks h"]
      by (simp add: same_lists_def)
    have mo: "marks_of ?h = marks_of h" using 3(2) by (auto simp: marks_of_def fun_eq_iff)
    have mk: "markable ?h r" using 3(1) by (simp add: markable_def)
    have keep: "markable h q \<Longrightarrow> markable ?h q" for q by (auto simp: markable_def)
    have dh: "rsDeadHead (hpRegion ?h q) = rsDeadHead (hpRegion h q)" for q by simp
    note I = Cons.IH [OF 3(3)]
    show ?thesis
    proof (intro conjI impI ballI allI)
      show "marking h h'" using I marking_trans [OF m] by blast
      show "marks_of h' = marks_of h" using I mo by simp
      show "markable h' q" if "ok" "q \<in> set (r # rs)" "rsDeadHead (hpRegion h q) \<noteq> 0" for q
        using I mk that dh [of q] by auto
      show "markable h' q" if "markable h q" for q using I keep [OF that] by blast
    qed
  qed
qed

lemma scanned_marking:
  assumes "marking h h'"
  shows "scanned os h' = scanned os h"
proof -
  have "rsBump (hpRegion h' r) = rsBump (hpRegion h r)" for r using same_lists_fields [OF marking_parts(1) [OF assms]] by simp
  moreover have "map (hugeRange h') (hugeBlocks h') = map (hugeRange h) (hugeBlocks h)"
    using marking_parts(2) [OF assms] marking_fields(6) [OF assms]
    by (induction rule: list_all2_induct) (auto simp: hugeRange_def dest!: same_huge_fields)
  ultimately show ?thesis using marking_ranges [OF assms] geomD(5) [OF marking_fields(1) [OF assms]]
    by (simp add: scanned_def cong: map_cong)
qed

text \<open>Who holds a slot after a sweep that marked: the queue keeps what a scanned word points into.\<close>

definition sweptOwner :: "system \<Rightarrow> heap \<Rightarrow> owner \<Rightarrow> owner" where
  "sweptOwner os h own =
     (\<lambda>r s. if osScanned os \<and> own r s = Some DeadList \<and> \<not> (\<exists>v \<in> set (scanned os h). pointsTo h v r s) then Some FreeList else own r s)"

lemma marking_kept:
  assumes "marking h h'"
  shows "liveMap h' = liveMap h" "hugeLive h' = hugeLive h" "spans h' = spans h"
proof -
  have "spans k = (\<lambda>(_, _, m, n, _). (m, n)) ` set (map hugeKey (hugeBlocks k))" for k by (auto simp: spans_def hugeKey_def image_image)
  then show "spans h' = spans h" by (simp only: same_huge_keys [OF marking_parts(2) [OF assms]])
  show "liveMap h' = liveMap h" "hugeLive h' = hugeLive h"
  using same_keys(3) [OF same_huge_keys [OF marking_parts(2) [OF assms]]] liveMap_words [OF marking_fields(3) [OF assms]]
    by (simp_all add: hugeLive_def)
qed

lemma sweepStopped_exact:
  assumes inv: "heap_inv own as rs h" and b: "blocks_ok h" and mc: "marks_clear h" and sw: "sweepStopped os h = (marked, h')"
  shows "heap_inv (if marked then sweptOwner os h own else own) as rs h'"
    "geom h' = geom h" "liveMap h' = liveMap h" "hugeLive h' = hugeLive h" "hpMem h' = hpMem h" "cacheOf h' = cacheOf h"
    "caches h' = caches h" "cacheKeyReady h' = cacheKeyReady h" "pageBytes h' = pageBytes h" "blocks_ok h'" "marks_clear h'"
    "spans h' \<subseteq> spans h"
proof -
  have "heap_inv (if marked then sweptOwner os h own else own) as rs h' \<and> geom h' = geom h \<and> liveMap h' = liveMap h \<and>
    hugeLive h' = hugeLive h \<and> hpMem h' = hpMem h \<and> cacheOf h' = cacheOf h \<and> caches h' = caches h \<and>
    cacheKeyReady h' = cacheKeyReady h \<and> pageBytes h' = pageBytes h \<and> blocks_ok h' \<and> marks_clear h' \<and> spans h' \<subseteq> spans h"
  proof (cases "osStopped os")
    case False
    then show ?thesis using sw inv b mc by (simp add: sweepStopped_def)
  next
    case True
    obtain ok h1 where p: "weavecRtPrepareMarks os h = (ok, h1)" by (cases "weavecRtPrepareMarks os h")
    then have p': "prepareMarks os [0..<hpRegions h] h = (ok, h1)" by (simp add: weavecRtPrepareMarks_def)
    note pm = prepareMarks_exact [OF p']
    have m1: "marking h h1" using pm by blast
    note f1 = marking_fields [OF m1]
    have c1: "\<not> marks_of h1 r s" for r s using pm mc by (simp add: marks_clear_of)
    show ?thesis
    proof (cases ok)
      case False
      then have "marked = False" "h' = h1" using sw p True by (simp_all add: sweepStopped_def)
      then show ?thesis
        using inv f1 c1 marking_kept [OF m1] marking_blocks [OF m1 b] marking_inv [OF m1] by (simp add: marks_clear_of)
    next
      case ok: True
      define h2 where "h2 = markAll os h1"
      have h2: "h2 = fold markAddress (scanned os h) h1" by (simp add: h2_def markAll_words scanned_marking [OF m1])
      note ex = markWords_exact [of h1 "scanned os h", folded h2]
      have m2: "marking h h2" using marking_trans [OF m1] ex by blast
      note f2 = marking_fields [OF m2]
      have marks: "marks_of h2 r s \<longleftrightarrow> markable h1 r \<and> (\<exists>v \<in> set (scanned os h). pointsTo h v r s) \<and> wordState (hpWords h r s) = WeavecRtDead" for r s
        using ex [of r s] c1 f1(3) by (simp add: pointsTo_def marking_slotOf [OF m1])
      have mk2: "markable h2 r = markable h1 r" for r using ex by blast
      have i2: "heap_inv own as rs h2" using inv marking_inv [OF m2] by simp
      have md: "marks_of h2 r s \<Longrightarrow> markable h2 r \<and> wordState (hpWords h2 r s) = WeavecRtDead" for r s
        using marks mk2 f2(3) by auto
      obtain h3 c3 where r: "weavecRtRecycle os (osScanned os) h2 = (h3, c3)"
        and r3: "heap_inv (recycledOwner h2 (osScanned os) {..<hpRegions h2} own) as rs h3"
        "geom h3 = geom h2" "liveMap h3 = liveMap h2" "hugeLive h3 = hugeLive h2" "hpMem h3 = hpMem h2" "cacheOf h3 = cacheOf h2"
        "caches h3 = caches h2" "cacheKeyReady h3 = cacheKeyReady h2" "pageBytes h3 = pageBytes h2" "blocks_ok h3" "marks_clear h3"
        "spans h3 \<subseteq> spans h2"
        using weavecRtRecycle_inv [OF i2 marking_blocks [OF m2 b] md, of os "osScanned os"] by blast
      have res: "marked" "h' = h3" using sw p True ok r by (simp_all add: sweepStopped_def h2_def)
      have "recycledOwner h2 (osScanned os) {..<hpRegions h2} own = sweptOwner os h own"
      proof (intro ext)
        fix q s
        have regs: "hpRegions h2 = hpRegions h" using geomD(5) [OF f2(1)] by simp
        have none: "hpRegions h \<le> q \<Longrightarrow> own q s = None" using inv by (simp add: heap_inv_def regions_ok_def)
        show "recycledOwner h2 (osScanned os) {..<hpRegions h2} own q s = sweptOwner os h own q s"
        proof (cases "q < hpRegions h")
          case False
          then show ?thesis using none regs by (simp add: recycledOwner_def sweptOwner_def)
        next
          case q: True
          note so = heap_inv_slots [OF inv q]
          have qd: "queued h2 q s \<longleftrightarrow> own q s = Some DeadList" unfolding queued_def f2(3) by (rule slot_states(3) [OF so])
          have mkb: "markable h1 q" if "own q s = Some DeadList"
          proof -
            obtain fl dl where lo: "lists_ok (hpRegion h q) (hpWords h q) (own q) fl dl" by (rule region_okE [OF heap_inv_region [OF inv q]])
            then have "s \<in> set dl" using listed(2) [OF lo] that by simp
            then have "rsDeadHead (hpRegion h q) \<noteq> 0" using lo by (cases dl) (auto simp: lists_ok_def)
            then show ?thesis using pm ok q by auto
          qed
          have "wordState (hpWords h q s) = WeavecRtDead" if "own q s = Some DeadList" using slot_states(2) [OF so] that by simp
          then show ?thesis using q regs qd mkb mk2 marks [of q s]
            by (auto simp: recycledOwner_def sweptOwner_def freed_def retains_def)
        qed
      qed
      then show ?thesis using r3 res f2 marking_kept [OF m2] by simp
    qed
  qed
  then show "heap_inv (if marked then sweptOwner os h own else own) as rs h'"
    "geom h' = geom h" "liveMap h' = liveMap h" "hugeLive h' = hugeLive h" "hpMem h' = hpMem h" "cacheOf h' = cacheOf h"
    "caches h' = caches h" "cacheKeyReady h' = cacheKeyReady h" "pageBytes h' = pageBytes h" "blocks_ok h'" "marks_clear h'"
    "spans h' \<subseteq> spans h" by blast+
qed

end
