(* ===== verification/Alloc_Calls.thy ===== *)
theory Alloc_Calls
  imports Alloc_Recycle
begin

text \<open>
  The calls of the allocator over the invariant: a sweep, the slots of a class, allocation and release. Every
  search for a slot ends; a call changes the map of the live slots at the one slot it is about.
\<close>

subsection \<open>A sweep inside a call\<close>

lemma thread_kept: "thread_step t h h' \<Longrightarrow> kept h h'"
  by (simp add: thread_step_def)

lemma side_blocks: "side_ok h = (marks_clear h \<and> blocks_ok h \<and> threads_ok h)"
  by (auto simp: side_ok_def blocks_ok_def)

lemma kept_counters:
  assumes "geom h' = geom h" "hpWords h' = hpWords h" "hpRegion h' = hpRegion h" "cacheOf h' = cacheOf h" "caches h' = caches h"
    "cacheKeyReady h' = cacheKeyReady h" "pageBytes h' = pageBytes h" "hpMem h' = hpMem h" "hugePart h' = hugePart h"
    "classActive h' = classActive h"
  shows "kept h h'" "at_rest own h' = at_rest own h" "allocs h' = allocs h" "releases h' = releases h"
proof -
  show "kept h h'" by (rule kept_geom) (use assms liveMap_words [OF assms(2)] in simp_all)
  show l: "allocs h' = allocs h" "releases h' = releases h" using entries_same [OF assms(4)] by simp_all
  have "heap_inv own as rs h' = heap_inv own as rs h" for as rs by (rule heap_inv_same) (use assms in simp_all)
  then show "at_rest own h' = at_rest own h" by (simp add: at_rest_def l)
qed

lemma weavecRtSwept_kept [simp]: "kept h (weavecRtSwept e k m h)" "at_rest own (weavecRtSwept e k m h) = at_rest own h"
  "allocs (weavecRtSwept e k m h) = allocs h" "releases (weavecRtSwept e k m h) = releases h"
  by (intro kept_counters; simp add: weavecRtSwept_def geom_def hugePart_def)+

lemma sweptOwner_hands: "hands (sweptOwner os h own) = hands own"
  by (auto simp: hands_def held_def sweptOwner_def)

lemma sweepStopped_inv:
  assumes inv: "at_rest own h" and s: "side_ok h" and sw: "sweepStopped os h = (m, h')"
  shows "\<exists>own'. at_rest own' h' \<and> hands own' = hands own \<and> kept h h' \<and> allocs h' = allocs h \<and> releases h' = releases h"
proof -
  have b: "marks_clear h" "blocks_ok h" "threads_ok h" using s by (simp_all add: side_blocks)
  note x = sweepStopped_exact [OF inv [unfolded at_rest_def] b(2,1) sw]
  note l = entries_same [OF x(6)]
  have "threads_ok h' = threads_ok h" by (simp add: threads_ok_def x(6,7))
  then have "side_ok h'" using x(10,11) b by (simp add: side_blocks)
  then have "kept h h'" using x geomD [OF x(2)] by (auto simp: kept_def framed_def)
  then show ?thesis using x(1) l sweptOwner_hands by (cases m) (auto simp: at_rest_def)
qed

lemma weavecRtSweep_inv:
  assumes inv: "at_rest own h" and s: "side_ok h"
  shows "\<exists>own'. at_rest own' (weavecRtSweep os t h) \<and> hands own' = hands own \<and> kept h (weavecRtSweep os t h) \<and>
    (\<forall>c. allocs h t c = [] \<longrightarrow> allocs (weavecRtSweep os t h) t c = [])"
proof (cases "weavecRtAllocatorNested h t")
  case True
  then show ?thesis using inv by (auto simp: weavecRtSweep_def)
next
  case False
  let ?h1 = "weavecRtFlushThread t h"
  obtain own1 where o1: "at_rest own1 ?h1" "hands own1 = hands own" "thread_step t h ?h1"
      "\<And>c. allocs ?h1 t c = [] \<or> allocs ?h1 t c = allocs h t c"
    using weavecRtFlushThread_inv [OF inv, of t] by blast
  have k1: "kept h ?h1" by (rule thread_kept [OF o1(3)])
  have s1: "side_ok ?h1" using k1 s by (simp add: kept_def framed_def)
  show ?thesis
  proof (cases "\<not> weavecRtSweepWanted ?h1 \<or> \<not> osSweepLock os \<or> \<not> osWorld os")
    case True
    then have "weavecRtSweep os t h = ?h1" using False by (auto simp: weavecRtSweep_def Let_def)
    then show ?thesis using o1 k1 by (intro exI [of _ own1]) (auto; metis)
  next
    case go: False
    obtain m h2 where sw: "sweepStopped os ?h1 = (m, h2)" by (cases "sweepStopped os ?h1")
    obtain own2 where o2: "at_rest own2 h2" "hands own2 = hands own1" "kept ?h1 h2" "allocs h2 = allocs ?h1" "releases h2 = releases ?h1"
      using sweepStopped_inv [OF o1(1) s1 sw] by blast
    have e: "weavecRtSweep os t h = weavecRtSwept (osEnded os) (osEnded os - osNow os) m h2"
      using False go sw by (auto simp: weavecRtSweep_def Let_def)
    have "kept h (weavecRtSweep os t h)" unfolding e by (rule kept_trans [OF kept_trans [OF k1 o2(3)] weavecRtSwept_kept(1)])
    then show ?thesis using o1(2,4) o2 by (intro exI [of _ own2]) (auto simp: e; metis)
  qed
qed

subsection \<open>The slots of a class\<close>

lemma heap_inv_allocs: "popped h h' \<Longrightarrow> allocs h' = allocs h \<and> releases h' = releases h"
  using entries_same [of h' h] by (simp add: popped_def)

lemma classActive_ok:
  assumes "heap_inv own as rs h" "c < hpClasses h"
  shows "classActive h c < hpRegions h" "regionClass h (classActive h c) = c" "c < hpRegions h" "regionClass h c = c"
  using assms by (simp_all add: heap_inv_def chains_ok_def arena_ok_def)

text \<open>Every search ends: each round sweeps for the first time, takes a spare region, or returns.\<close>

lemma popClass_inv:
  assumes "at_rest own h" "side_ok h" "c < hpClasses h" "held own HandFree = {}"
  shows "\<exists>es h' own'. popClass os t c want swept h = Some (es, h') \<and> at_rest own' h' \<and> kept h h' \<and>
    distinct (map entryOf es) \<and> held own' HandFree = entryOf ` set es \<and> held own' HandDead = held own HandDead \<and>
    (\<forall>e \<in> set es. entryRegion e < hpRegions h' \<and> regionClass h' (entryRegion e) = c) \<and>
    (allocs h t c = [] \<longrightarrow> allocs h' t c = [])"
  using assms
proof (induction "2 * (WeavecRtRegionCount - hpRegions h) + (if swept then 0 else 1)" arbitrary: own h swept rule: less_induct)
  case less
  have inv: "heap_inv own (allocs h) (releases h) h" using less.prems(1) by (simp add: at_rest_def)
  note ca = classActive_ok [OF inv less.prems(3)]
  obtain es1 h1 where p1: "popRegion os (classActive h c) want h = (es1, h1)" by (cases "popRegion os (classActive h c) want h")
  obtain own1 where o1: "heap_inv own1 (allocs h) (releases h) h1" "popped h h1" "distinct (map entryOf es1)"
      "held own1 HandFree = held own HandFree \<union> entryOf ` set es1" "held own1 HandDead = held own HandDead"
      "\<forall>e \<in> set es1. entryRegion e = classActive h c"
    using popRegion_inv [OF inv ca(1,2) p1] by auto
  have g1: "hpRegions h1 = hpRegions h" "regionClass h1 = regionClass h" using o1(2) by (auto simp: popped_def dest: geomD)
  note l1 = heap_inv_allocs [OF o1(2)]
  have a1: "at_rest own1 h1" using o1(1) l1 by (simp add: at_rest_def)
  show ?case
  proof (cases "es1 = []")
    case False
    then have "popClass os t c want swept h = Some (es1, h1)" by (simp add: popClass.simps p1)
    then show ?thesis using a1 popped_kept [OF o1(2)] o1(3-6) less.prems(4) ca g1 l1 by auto
  next
    case e1: True
    obtain es2 h2 where p2: "popRegions os WeavecRtRegionCount c c want h1 = (es2, h2)" by (cases "popRegions os WeavecRtRegionCount c c want h1")
    have cc: "c = NoRegion \<or> c < hpRegions h1 \<and> regionClass h1 c = c" using ca(3,4) g1 by simp
    obtain own2 where o2: "heap_inv own2 (allocs h) (releases h) h2" "popped h1 h2" "distinct (map entryOf es2)"
        "held own2 HandFree = held own1 HandFree \<union> entryOf ` set es2" "held own2 HandDead = held own1 HandDead"
        "\<forall>e \<in> set es2. entryRegion e < hpRegions h1 \<and> regionClass h1 (entryRegion e) = c"
      using popRegions_inv [OF o1(1) cc p2] by auto
    have p12: "popped h h2" by (rule popped_trans [OF o1(2) o2(2)])
    have g2: "hpRegions h2 = hpRegions h" "regionClass h2 = regionClass h" "hpClasses h2 = hpClasses h"
      using p12 by (auto simp: popped_def dest: geomD)
    note l2 = heap_inv_allocs [OF p12]
    have a2: "at_rest own2 h2" using o2(1) l2 by (simp add: at_rest_def)
    have k2: "kept h h2" by (rule popped_kept [OF p12])
    show ?thesis
    proof (cases "es2 = []")
      case False
      then have "popClass os t c want swept h = Some (es2, h2)" using e1 by (subst popClass.simps) (simp add: p1 p2)
      then show ?thesis using a2 k2 o1(4,5) o2(3-6) less.prems(4) e1 g1 g2 l2 by auto
    next
      case e2: True
      have h2: "held own2 HandFree = {}" "held own2 HandDead = held own HandDead" using o1(4,5) o2(4,5) less.prems(4) e1 e2 by auto
      have s2: "side_ok h2" using k2 less.prems(2) by (simp add: kept_def framed_def)
      have c2: "c < hpClasses h2" using g2(3) less.prems(3) by simp
      have step: "popClass os t c want swept h =
          (if \<not> swept \<and> classGained h2 c \<ge> word_of_nat (clCapacity (hpTable h2 c)) * word_of_nat (clSize (hpTable h2 c)) div 4
           then popClass os t c want True (weavecRtSweep os t h2)
           else case takeSpare c h2 of (spare, h) \<Rightarrow>
             if spare then popClass os t c want swept h
             else if swept then Some ([], h) else popClass os t c want True (weavecRtSweep os t h))"
        using e1 e2 by (subst popClass.simps) (simp add: p1 p2)
      have rec: ?thesis if st: "at_rest own3 h3" "kept h2 h3" "hands own3 = hands own2" "allocs h2 t c = [] \<longrightarrow> allocs h3 t c = []"
          and lt: "2 * (WeavecRtRegionCount - hpRegions h3) + (if swept' then 0 else 1) < 2 * (WeavecRtRegionCount - hpRegions h) + (if swept then 0 else 1)"
          and eq: "popClass os t c want swept h = popClass os t c want swept' h3" for own3 h3 swept'
      proof -
        have s3: "side_ok h3" using st(2) s2 by (simp add: kept_def framed_def)
        have c3: "c < hpClasses h3" using st(2) c2 by (simp add: kept_def framed_def)
        have n3: "held own3 HandFree = {}" "held own3 HandDead = held own HandDead" using st(3) h2 by (simp_all add: hands_def)
        have k3: "kept h h3" by (rule kept_trans [OF k2 st(2)])
        obtain es h' own' where ih: "popClass os t c want swept' h3 = Some (es, h')" "at_rest own' h'" "kept h3 h'" "distinct (map entryOf es)"
            "held own' HandFree = entryOf ` set es" "held own' HandDead = held own3 HandDead"
            "\<forall>e \<in> set es. entryRegion e < hpRegions h' \<and> regionClass h' (entryRegion e) = c" "allocs h3 t c = [] \<longrightarrow> allocs h' t c = []"
          using less.hyps [OF lt st(1) s3 c3 n3(1)] by blast
        then show ?thesis unfolding eq
          using kept_trans [OF k3 ih(3)] st(4) l2 n3(2) by (intro exI [of _ es] exI [of _ h'] exI [of _ own']) simp
      qed
      have sweep: ?thesis if sw: "\<not> swept" "kept h2 h3" "at_rest own3 h3" "side_ok h3" "hands own3 = hands own2" "allocs h3 = allocs h2"
          "popClass os t c want swept h = popClass os t c want True (weavecRtSweep os t h3)" for own3 h3
      proof -
        obtain own4 where o4: "at_rest own4 (weavecRtSweep os t h3)" "hands own4 = hands own3" "kept h3 (weavecRtSweep os t h3)"
            "\<forall>c. allocs h3 t c = [] \<longrightarrow> allocs (weavecRtSweep os t h3) t c = []"
          using weavecRtSweep_inv [OF sw(3,4), of os t] by blast
        have "hpRegions h \<le> hpRegions (weavecRtSweep os t h3)"
          using sw(2) o4(3) g2(1) unfolding kept_def framed_def by linarith
        then show ?thesis using sw o4 kept_trans [OF sw(2) o4(3)]
          by (intro rec [of own4 "weavecRtSweep os t h3" True]) auto
      qed
      show ?thesis
      proof (cases "\<not> swept \<and> classGained h2 c \<ge> word_of_nat (clCapacity (hpTable h2 c)) * word_of_nat (clSize (hpTable h2 c)) div 4")
        case True
        then show ?thesis using step by (intro sweep [of h2 own2]) (use a2 s2 in auto)
      next
        case ns: False
        obtain b h3 where t: "takeSpare c h2 = (b, h3)" by (cases "takeSpare c h2")
        note ts = takeSpare_inv [OF o2(1) c2 t]
        have l3: "allocs h3 = allocs h2" "releases h3 = releases h2" using entries_same [of h3 h2] ts by simp_all
        have a3: "at_rest own2 h3" using ts l2 l3 by (simp add: at_rest_def)
        show ?thesis
        proof (cases b)
          case True
          then have "popClass os t c want swept h = popClass os t c want swept h3" using step ns t by simp
          moreover have "2 * (WeavecRtRegionCount - hpRegions h3) < 2 * (WeavecRtRegionCount - hpRegions h)" using ts True g2(1) by auto
          ultimately show ?thesis using ts a3 l3 by (intro rec [of own2 h3 swept]) auto
        next
          case nb: False
          then have h3: "h3 = h2" using ts by simp
          show ?thesis
          proof (cases swept)
            case True
            then have "popClass os t c want swept h = Some ([], h2)" using step ns t nb h3 by simp
            then show ?thesis using a2 k2 h2 l2 by (intro exI [of _ "[]"] exI [of _ h2] exI [of _ own2]) simp
          next
            case False
            then have "popClass os t c want swept h = popClass os t c want True (weavecRtSweep os t h2)" using step ns t nb h3 by simp
            then show ?thesis using False by (intro sweep [of h2 own2]) (use a2 s2 in auto)
          qed
        qed
      qed
    qed
  qed
qed

subsection \<open>Slots and addresses\<close>

definition slotBase :: "heap \<Rightarrow> nat \<Rightarrow> nat \<Rightarrow> u64" where
  "slotBase h r s = regionStart h r + word_of_nat s * word_of_nat (clSize (hpTable h r))"

lemma arena_facts:
  assumes "heap_inv own as rs h" "r < hpRegions h"
  shows "hpShift h \<le> 31" "r < 160" "2 ^ hpShift h dvd unat (hpBase h)" "unat (hpBase h) + 160 * 2 ^ hpShift h \<le> 2 ^ 63"
    "entry_ok (hpShift h) (hpTable h r)" "unat (hpBytes h) = 160 * 2 ^ hpShift h" "0 < unat (hpBase h)"
proof -
  have a: "arena_ok h" "table_ok h" using assms(1) by (simp_all add: heap_inv_def)
  then show s: "hpShift h \<le> 31" "r < 160" "2 ^ hpShift h dvd unat (hpBase h)" "unat (hpBase h) + 160 * 2 ^ hpShift h \<le> 2 ^ 63"
    "entry_ok (hpShift h) (hpTable h r)" "0 < unat (hpBase h)"
    using assms(2) by (auto simp: arena_ok_def table_ok_def)
  have "(160 * 2 ^ hpShift h :: nat) \<le> 160 * 2 ^ 31" using s(1) by (intro mult_le_mono2 power_increasing) simp_all
  then show "unat (hpBytes h) = 160 * 2 ^ hpShift h"
    using a(1) by (simp add: arena_ok_def unsigned_of_nat take_bit_nat_eq_self del: of_nat_mult of_nat_power)
qed

lemma slot_inside:
  assumes inv: "heap_inv own as rs h" and r: "r < hpRegions h" and s: "s < rsBump (hpRegion h r)"
  shows "(s + 1) * clSize (hpTable h r) \<le> 2 ^ hpShift h" "16 \<le> clSize (hpTable h r)" "16 dvd clSize (hpTable h r)"
    "clSize (hpTable h r) \<le> 2 ^ 29"
proof -
  note a = arena_facts [OF inv r]
  note e = entry_ok_facts [OF a(5,1)]
  show "16 \<le> clSize (hpTable h r)" "16 dvd clSize (hpTable h r)" "clSize (hpTable h r) \<le> 2 ^ 29" using e by simp_all
  have "s < 2 ^ hpShift h div clSize (hpTable h r)" using s heap_inv_slots [OF inv r] e(4) by (simp add: slots_ok_def)
  then have "(s + 1) * clSize (hpTable h r) \<le> 2 ^ hpShift h div clSize (hpTable h r) * clSize (hpTable h r)" by (intro mult_le_mono1) simp
  also have "\<dots> \<le> 2 ^ hpShift h" by simp
  finally show "(s + 1) * clSize (hpTable h r) \<le> 2 ^ hpShift h" .
qed

text \<open>The address of a slot as a number.\<close>

lemma slotBase_nat:
  assumes inv: "heap_inv own as rs h" and r: "r < hpRegions h" and s: "s < rsBump (hpRegion h r)" and k: "k < clSize (hpTable h r)"
  shows "unat (slotBase h r s + word_of_nat k) = unat (hpBase h) + (r * 2 ^ hpShift h + (s * clSize (hpTable h r) + k))"
    "s * clSize (hpTable h r) + k < 2 ^ hpShift h"
proof -
  note a = arena_facts [OF inv r]
  note i = slot_inside [OF inv r s]
  let ?n = "unat (hpBase h) + (r * 2 ^ hpShift h + (s * clSize (hpTable h r) + k))"
  show b: "s * clSize (hpTable h r) + k < 2 ^ hpShift h" using i(1) k by simp
  have "(r + 1) * 2 ^ hpShift h \<le> 160 * 2 ^ hpShift h" using a(2) by (intro mult_le_mono1) simp
  then have "r * 2 ^ hpShift h + 2 ^ hpShift h \<le> 160 * 2 ^ hpShift h" by (simp only: add_mult_distrib mult_1)
  then have "?n < 2 ^ 63" using b a(4) by linarith
  then have lt: "?n < 2 ^ 64" by simp
  have rw: "push_bit (hpShift h) (word_of_nat r :: u64) = word_of_nat (r * 2 ^ hpShift h)" by (simp add: push_bit_eq_mult)
  have "slotBase h r s + word_of_nat k = word_of_nat ?n"
    unfolding slotBase_def regionStart_def rw by simp
  then show "unat (slotBase h r s + word_of_nat k) = ?n" using lt by (simp add: unsigned_of_nat take_bit_nat_eq_self del: of_nat_add of_nat_mult)
qed

lemma slotOf_slot:
  assumes inv: "heap_inv own as rs h" and r: "r < hpRegions h" and s: "s < rsBump (hpRegion h r)" and k: "k < clSize (hpTable h r)"
  shows "inArena h (slotBase h r s + word_of_nat k)"
    "slotOf h (slotBase h r s + word_of_nat k) = \<lparr>srRegion = r, srSlot = s, srBase = slotBase h r s\<rparr>"
proof -
  note a = arena_facts [OF inv r]
  note n = slotBase_nat [OF inv r s k]
  let ?a = "slotBase h r s + word_of_nat k" let ?w = "s * clSize (hpTable h r) + k"
  have "hpBase h \<le> ?a" using n(1) by (simp add: word_le_nat_alt)
  then have off: "unat (?a - hpBase h) = r * 2 ^ hpShift h + ?w" using n(1) by (simp add: unat_sub)
  have "(r + 1) * 2 ^ hpShift h \<le> 160 * 2 ^ hpShift h" using a(2) by (intro mult_le_mono1) simp
  then have "r * 2 ^ hpShift h + 2 ^ hpShift h \<le> 160 * 2 ^ hpShift h" by (simp only: add_mult_distrib mult_1)
  then have "unat (?a - hpBase h) < unat (hpBytes h)" unfolding off a(6) using n(2) by linarith
  then show "inArena h ?a" by (simp add: inArena_def word_less_nat_alt)
  have reg: "unat (drop_bit (hpShift h) (?a - hpBase h)) = r"
    unfolding unat_drop_bit_div off using n(2) by (simp add: div_nat_eqI)
  have "push_bit (hpShift h) 1 = (2 ^ hpShift h :: u64)" by (simp add: push_bit_eq_mult)
  then have "unat ((?a - hpBase h) AND (push_bit (hpShift h) 1 - 1)) = unat (?a - hpBase h) mod 2 ^ hpShift h"
    by (simp only: and_mask_take_bit unat_take_bit_mod)
  then have within: "unat ((?a - hpBase h) AND (push_bit (hpShift h) 1 - 1)) = ?w" unfolding off using n(2) by simp
  have "slotIndex (hpTable h r) ?w = ?w div clSize (hpTable h r)" using entry_ok_facts(5) [OF a(5,1)] n(2) by simp
  also have "\<dots> = s" using k by (intro div_nat_eqI) simp_all
  finally have index: "slotIndex (hpTable h r) ?w = s" .
  show "slotOf h ?a = \<lparr>srRegion = r, srSlot = s, srBase = slotBase h r s\<rparr>"
    unfolding slotOf_def Let_def reg within index by (simp only: slotBase_def)
qed

text \<open>What the start of a live block is.\<close>

definition blockAt :: "heap \<Rightarrow> u64 \<Rightarrow> (nat \<times> nat) option" where
  "blockAt h p = (if inArena h p \<and> srBase (slotOf h p) = p \<and> wordState (wordOf h (slotOf h p)) = WeavecRtLive
     then Some (srRegion (slotOf h p), srSlot (slotOf h p)) else None)"

lemma blockAt_exact:
  assumes inv: "heap_inv own as rs h"
  shows "blockAt h p = Some (r, s) \<longleftrightarrow> liveMap h (r, s) \<noteq> None \<and> p = slotBase h r s"
proof
  assume b: "blockAt h p = Some (r, s)"
  have "srBase (slotOf h p) = slotBase h (srRegion (slotOf h p)) (srSlot (slotOf h p))"
    by (simp add: slotOf_def slotBase_def Let_def)
  then show "liveMap h (r, s) \<noteq> None \<and> p = slotBase h r s"
    using b by (auto simp: blockAt_def liveMap_def wordOf_def split: if_splits)
next
  assume l: "liveMap h (r, s) \<noteq> None \<and> p = slotBase h r s"
  then obtain n where n: "liveMap h (r, s) = Some n" by auto
  note o = live_owner [OF inv n]
  have "0 < clSize (hpTable h r)" using slot_inside(2) [OF inv o(1,3)] by simp
  then show "blockAt h p = Some (r, s)" using slotOf_slot [OF inv o(1,3), of 0] l n
    by (simp add: blockAt_def liveMap_def wordOf_def split: if_splits)
qed

end
