(* ===== verification/Alloc_Entry.thy ===== *)
theory Alloc_Entry
  imports Alloc_Calls
begin

text \<open>
  Allocation and release as the program sees them: which block a call gives or takes, and what becomes of
  the other blocks.
\<close>

subsection \<open>The cache of a call\<close>

lemma at_rest_inv: "at_rest own h \<Longrightarrow> heap_inv own (allocs h) (releases h) h"
  by (simp add: at_rest_def)

lemma makeCache_inv:
  assumes inv: "at_rest own h" and n: "cacheOf h t = NoCache" and m: "makeCache os t h = (b, h')"
  shows "at_rest own h' \<and> kept h h' \<and> (b \<longrightarrow> (\<exists>tc. cacheOf h' t = HasCache tc))"
proof (cases "osCache os")
  case False
  then show ?thesis using m inv by (simp add: makeCache_def)
next
  case True
  define tc where "tc = \<lparr>tcAlloc = (\<lambda>_. []), tcRelease = (\<lambda>_. []), tcLimit = (\<lambda>c. if c < cachedClasses h then cacheLimit h c else 0),
      tcLiveDelta = 0, tcDepth = 0, tcLocks = 0, tcDeferred = []\<rparr>"
  have tc: "tcAlloc tc = (\<lambda>_. [])" "tcRelease tc = (\<lambda>_. [])" "h' = (setCache t tc h)\<lparr>caches := t # caches h\<rparr>" "b"
    using m True by (simp_all add: makeCache_def tc_def)
  have l: "allocs h' = allocs h" "releases h' = releases h"
    using n tc(1,2) by (auto simp: tc(3) allocs_def releases_def setCache_def fun_eq_iff)
  have i: "heap_inv own as rs h' = heap_inv own as rs h" for as rs
    by (rule heap_inv_same) (simp_all add: tc(3) geom_def setCache_def)
  have g: "geom h' = geom h" "liveMap h' = liveMap h" by (simp_all add: tc(3) geom_def setCache_def liveMap_def fun_eq_iff)
  have "side_ok h'" if "side_ok h"
    using that n by (auto simp: side_ok_def marks_clear_def huge_wf_def outside_arena_def threads_ok_def tc(3) setCache_def split: if_splits)
  moreover have "quietCache (cachedClasses h) tc" by (simp add: quietCache_def tc_def cacheLimit_def Let_def)
  ultimately have "kept h h'"
    using g(2) n by (auto simp: kept_def framed_def tc(3) setCache_def hugeLive_def spans_def)
  then show ?thesis using inv i l by (simp add: at_rest_def tc(3,4))
qed

lemma cacheFor_inv:
  assumes inv: "at_rest own h" and m: "cacheFor os t c h = (b, h')"
  shows "at_rest own h' \<and> kept h h' \<and> (b \<longrightarrow> c < cachedClasses h \<and> (\<exists>tc. cacheOf h' t = HasCache tc))"
proof (cases "c < cachedClasses h \<and> cacheKeyReady h")
  case False
  then show ?thesis using m inv by (auto simp: cacheFor_def threadCache_def split: if_splits)
next
  case True
  then show ?thesis
  proof (cases "cacheOf h t")
    case NoCache
    obtain b1 where "makeCache os t h = (b1, h')" "b \<longrightarrow> b1" using m True NoCache
      by (auto simp: cacheFor_def threadCache_def split: prod.splits)
    then show ?thesis using makeCache_inv [OF inv NoCache] True by blast
  qed (use m True inv in \<open>auto simp: cacheFor_def threadCache_def\<close>)
qed

subsection \<open>A slot for a block\<close>

text \<open>What a call gives: a slot that held no live block, large enough, and nothing else changes.\<close>

definition newSlot :: "heap \<Rightarrow> nat \<Rightarrow> u64 \<Rightarrow> heap \<Rightarrow> u64 \<Rightarrow> bool" where
  "newSlot h c sz h' b \<longleftrightarrow>
     (\<exists>r s. liveMap h (r, s) = None \<and> liveMap h' = (liveMap h)((r, s) \<mapsto> unat sz) \<and> b = slotBase h' r s \<and>
        r < hpRegions h' \<and> regionClass h' r = c \<and> s < rsBump (hpRegion h' r)) \<and>
     (hpMem h' = hpMem h \<or> (\<exists>os. hpMem h' = zeroFill os (pageBytes h) (hpMem h) b sz)) \<and>
     framed h h' \<and> hugeLive h' = hugeLive h"

lemma newSlot_kept:
  assumes k: "kept h h1" and n: "newSlot h1 c sz h' b"
  shows "newSlot h c sz h' b"
proof -
  have "pageBytes h1 = pageBytes h" "hpMem h1 = hpMem h" "liveMap h1 = liveMap h" "hugeLive h1 = hugeLive h" "framed h h1"
    using k by (simp_all add: kept_def framed_def)
  then show ?thesis using n framed_trans [of h h1 h'] unfolding newSlot_def by simp
qed

lemma class_table:
  assumes "heap_inv own as rs h" "r < hpRegions h"
  shows "hpTable h (regionClass h r) = hpTable h r"
  using assms by (simp add: heap_inv_def table_ok_def)

lemma makeLive_new:
  assumes inv: "at_rest own h" and o: "own (entryRegion e) (entrySlot e) = Some HandFree" and sz: "unat sz < 2 ^ 30"
    and c: "regionClass h (entryRegion e) = c"
    and mk: "makeLive os e sz (clSize (hpTable h c)) h = (b, h')"
  shows "at_rest (give own (entryRegion e) (entrySlot e) None) h' \<and> newSlot h c sz h' b"
proof -
  let ?r = "entryRegion e" let ?s = "entrySlot e"
  note p = makeLive_parts [OF mk]
  note l = makeLive_inv [OF at_rest_inv [OF inv] _ _ sz mk]
  have n: "own ?r ?s \<noteq> None" using o by simp
  have r: "?r < hpRegions h" by (rule placed_region [OF at_rest_inv [OF inv] n])
  have s: "?s < rsBump (hpRegion h ?r)" using placed_bump [OF heap_inv_slots [OF at_rest_inv [OF inv] r] n] by simp
  have cl: "hpTable h c = hpTable h ?r" using class_table [OF at_rest_inv [OF inv] r] c by simp
  have none: "liveMap h (?r, ?s) = None" using held_not_live [OF at_rest_inv [OF inv] n] .
  have b: "b = slotBase h' ?r ?s" using p(10) geomD [OF p(1)] cl by (simp add: slotBase_def regionStart_def)
  have "at_rest (give own ?r ?s None) h'"
    using l(1) o entries_same [OF p(3)] by (simp add: at_rest_def)
  moreover have m: "hpMem h' = hpMem h \<or> (\<exists>os. hpMem h' = zeroFill os (pageBytes h) (hpMem h) b sz)" using p(11) by auto
  have "newSlot h c sz h' b" unfolding newSlot_def
    using l(2-4) o none b r s c p(7) geomD [OF p(1)]
    by (intro conjI exI [of _ ?r] exI [of _ ?s] m) (simp_all add: entryOf_def)
  ultimately show ?thesis ..
qed

lemma heldD: "held own p = X \<Longrightarrow> (r, s) \<in> X \<Longrightarrow> own r s = Some p"
  by (auto simp: held_def)

lemma refill_inv:
  assumes inv: "at_rest own h" and s: "side_ok h" and hc: "cacheOf h t = HasCache tc" and c: "c < cachedClasses h"
    and h0: "held own HandFree = {}"
  shows "\<exists>h' own'. refill os t c h = Some h' \<and> at_rest own' h' \<and> kept h h' \<and> hands own' = hands own \<and> (\<exists>tc'. cacheOf h' t = HasCache tc')"
proof (cases "tcAlloc tc c = []")
  case False
  then show ?thesis using inv hc by (auto simp: refill_def)
next
  case True
  have cc: "c < hpClasses h" using c inv by (simp add: at_rest_def heap_inv_def arena_ok_def)
  have "allocs h t c = []" using True entries_own(1) [OF hc] by simp
  then obtain es h1 own1 where p: "popClass os t c (tcLimit tc c) False h = Some (es, h1)" "at_rest own1 h1" "kept h h1"
      "distinct (map entryOf es)" "held own1 HandFree = entryOf ` set es" "held own1 HandDead = held own HandDead"
      "\<forall>e \<in> set es. entryRegion e < hpRegions h1 \<and> regionClass h1 (entryRegion e) = c" "allocs h1 t c = []"
    using popClass_inv [OF inv s cc h0, of os t "tcLimit tc c" False] by blast
  obtain tc1 where tc1: "cacheOf h1 t = HasCache tc1" using p(3) hc unfolding kept_def framed_def by blast
  let ?h = "setCache t (tc1\<lparr>tcAlloc := (tcAlloc tc1)(c := rev es)\<rparr>) h1"
  have res: "refill os t c h = Some ?h" using True hc p(1) tc1 by (simp add: refill_def Let_def)
  have c1: "c < cachedClasses h1" using p(3) c by (simp add: kept_def framed_def)
  have hf: "\<forall>e \<in> set (rev es). entryOf e \<in> held own1 HandFree \<and> regionClass h1 (entryRegion e) = c" using p(5,7) by auto
  have dist: "distinct (map entryOf (rev es))" using p(4) by (simp add: rev_map [symmetric])
  obtain own2 where o2: "heap_inv own2 (upd2 (allocs h1) t c (allocs h1 t c @ rev es)) (releases h1) h1"
      "held own2 HandFree = held own1 HandFree - entryOf ` set (rev es)" "held own2 HandDead = held own1 HandDead"
    using put_allocs [OF at_rest_inv [OF p(2)] dist c1 hf] by blast
  have "allocs ?h = upd2 (allocs h1) t c (rev es)" "releases ?h = releases h1"
    using entries_own [OF tc1] by (auto simp: allocs_set releases_set fun_eq_iff upd2_if)
  then have a: "at_rest own2 ?h" using o2(1) p(8) by (simp add: at_rest_def)
  have "kept h ?h" by (rule kept_trans [OF p(3) thread_kept [OF kept_setCache [OF tc1]]]) (simp add: nesting_def)
  moreover have "hands own2 = hands own" using o2(2,3) p(5,6) h0 by (simp add: hands_def)
  ultimately show ?thesis using res a by (intro exI [of _ ?h] exI [of _ own2]) simp
qed

lemma takeCached_new:
  assumes inv: "at_rest own h" and hc: "cacheOf h t = HasCache tc" and ne: "tcAlloc tc c \<noteq> []" and sz: "unat sz < 2 ^ 30"
    and tk: "takeCached os t c sz h = (b, h')"
  shows "\<exists>own'. at_rest own' h' \<and> newSlot h c sz h' b \<and> hands own' = hands own"
proof -
  let ?e = "last (tcAlloc tc c)" let ?d = "tcLiveDelta tc + int (clSize (hpTable h c))"
  let ?h1 = "setCache t (tc\<lparr>tcLiveDelta := ?d\<rparr>) h"
  have l1: "allocs ?h1 = allocs h" "releases ?h1 = releases h"
    using entries_own [OF hc] by (auto simp: allocs_set releases_set fun_eq_iff)
  have a1: "at_rest own ?h1" using inv by (simp only: at_rest_def l1 heap_inv_setCache)
  have k1: "kept h ?h1" by (rule thread_kept [OF kept_setCache [OF hc]]) (simp add: nesting_def)
  define h2 where "h2 = (if ?d \<ge> FoldBytes then foldLive t ?h1 else ?h1)"
  have f: "at_rest own h2 \<and> thread_step t ?h1 h2 \<and> allocs h2 = allocs h \<and> releases h2 = releases h"
    using foldLive_inv [OF a1, of t "tc\<lparr>tcLiveDelta := ?d\<rparr>"] a1 l1 by (auto simp: h2_def)
  obtain tc2 where tc2: "cacheOf h2 t = HasCache tc2" using thread_step_cache [of t ?h1 h2 "tc\<lparr>tcLiveDelta := ?d\<rparr>"] f by auto
  have al: "tcAlloc tc2 = tcAlloc tc" using f entries_own [OF tc2] entries_own [OF hc] by simp
  have tb: "hpTable h2 = hpTable h" "regionClass h2 = regionClass h"
  proof -
    have "geom h2 = geom ?h1" using f unfolding thread_step_def by blast
    then show "hpTable h2 = hpTable h" "regionClass h2 = regionClass h" using geomD(6,8) [of h2 h] by simp_all
  qed
  let ?h3 = "setCache t (tc2\<lparr>tcAlloc := (tcAlloc tc2)(c := butlast (tcAlloc tc2 c))\<rparr>) h2"
  have mk: "makeLive os ?e sz (clSize (hpTable ?h3 c)) ?h3 = (b, h')"
    using tk hc tc2 al tb by (simp add: takeCached_def Let_def h2_def)
  have e: "allocs h2 t c = butlast (tcAlloc tc c) @ ?e # []" using entries_own(1) [OF tc2] al ne by simp
  have a2: "at_rest own h2" using f by blast
  note t = take_alloc [OF at_rest_inv [OF a2] e]
  let ?own = "give own (entryRegion ?e) (entrySlot ?e) (Some HandFree)"
  have "allocs ?h3 = upd2 (allocs h2) t c (butlast (tcAlloc tc c))" "releases ?h3 = releases h2"
    using entries_own [OF tc2] al by (auto simp: allocs_set releases_set fun_eq_iff upd2_if)
  then have a3: "at_rest ?own ?h3" using t(5) by (simp add: at_rest_def)
  have k2: "kept ?h1 h2" using f thread_kept by blast
  have "kept h2 ?h3" by (rule thread_kept [OF kept_setCache [OF tc2]]) (simp add: nesting_def)
  then have k3: "kept h ?h3" by (rule kept_trans [OF kept_trans [OF k1 k2]])
  have cl: "regionClass ?h3 (entryRegion ?e) = c" using t(3) f by simp
  have o3: "?own (entryRegion ?e) (entrySlot ?e) = Some HandFree" by simp
  note m = makeLive_new [OF a3 o3 sz cl mk]
  have "own (entryRegion ?e) (entrySlot ?e) = Some (AllocCache t c)" using t(1) f by simp
  then have "hands (give ?own (entryRegion ?e) (entrySlot ?e) None) = hands own" by (simp add: hands_def held_give held_not)
  then show ?thesis using m newSlot_kept [OF k3] by blast
qed

text \<open>Either way a slot of the class is found, or there is none and nothing changes.\<close>

definition slotOrNone :: "heap \<Rightarrow> nat \<Rightarrow> u64 \<Rightarrow> heap \<Rightarrow> u64 \<Rightarrow> bool" where
  "slotOrNone h c sz h' b \<longleftrightarrow> (if b = 0 then kept h h' else newSlot h c sz h' b)"

lemma newSlot_nonzero:
  assumes "at_rest own h'" "newSlot h c sz h' b"
  shows "b \<noteq> 0"
proof -
  obtain r s where rs: "b = slotBase h' r s" "r < hpRegions h'" "s < rsBump (hpRegion h' r)" using assms(2) by (auto simp: newSlot_def)
  note inv = at_rest_inv [OF assms(1)]
  have "0 < clSize (hpTable h' r)" using slot_inside(2) [OF inv rs(2,3)] by simp
  then have "unat b > 0" using slotBase_nat(1) [OF inv rs(2,3), of 0] arena_facts(7) [OF inv rs(2)] rs(1) by simp
  then show ?thesis by auto
qed

lemma cachedAlloc_inv:
  assumes inv: "at_rest own h" and s: "side_ok h" and hc: "cacheOf h t = HasCache tc" and c: "c < cachedClasses h"
    and h0: "held own HandFree = {}" and sz: "unat sz < 2 ^ 30"
  shows "\<exists>b h' own'. cachedAlloc os t c sz h = Some (b, h') \<and> at_rest own' h' \<and> hands own' = hands own \<and> slotOrNone h c sz h' b"
proof -
  obtain h1 own1 tc1 where r: "refill os t c h = Some h1" "at_rest own1 h1" "kept h h1" "hands own1 = hands own" "cacheOf h1 t = HasCache tc1"
    using refill_inv [OF inv s hc c h0] by blast
  show ?thesis
  proof (cases "tcAlloc tc1 c = []")
    case True
    then have "cachedAlloc os t c sz h = Some (0, h1)" using r(1,5) by (simp add: cachedAlloc_def)
    then show ?thesis using r by (auto simp: slotOrNone_def)
  next
    case False
    obtain b h2 where tk: "takeCached os t c sz h1 = (b, h2)" by (cases "takeCached os t c sz h1")
    obtain own2 where o2: "at_rest own2 h2" "newSlot h1 c sz h2 b" "hands own2 = hands own1"
      using takeCached_new [OF r(2,5) False sz tk] by blast
    have "cachedAlloc os t c sz h = Some (b, h2)" using r(1,5) False tk by (simp add: cachedAlloc_def)
    then show ?thesis using o2 r(4) newSlot_kept [OF r(3) o2(2)] newSlot_nonzero [OF o2(1,2)] by (auto simp: slotOrNone_def)
  qed
qed

lemma popRegion_want: "length (fst (popRegion os r want h)) \<le> want"
proof (induction want arbitrary: h)
  case (Suc want)
  obtain res h1 where pop: "popSlot os r h = (res, h1)" by (cases "popSlot os r h")
  show ?case using Suc [of h1] pop by (cases res) (auto split: prod.splits)
qed simp

lemma popRegions_want: "length (fst (popRegions os n c r want h)) \<le> want"
proof (induction n arbitrary: h r)
  case (Suc n)
  obtain es h1 where pop: "popRegion os r want h = (es, h1)" by (cases "popRegion os r want h")
  show ?case using Suc [of "regionNext h1 r" h1] popRegion_want [of os r want h] pop by (cases es) auto
qed simp

lemma popClass_want: "popClass os t c want swept h = Some (es, h') \<Longrightarrow> length es \<le> want"
proof -
  have "popClass os t c want swept h = Some r \<Longrightarrow> length (fst r) \<le> want" for r
  proof (rule popClass.raw_induct [of "\<lambda>os t c want swept h r. length (fst r) \<le> want"])
    fix f :: "system \<Rightarrow> nat \<Rightarrow> nat \<Rightarrow> nat \<Rightarrow> bool \<Rightarrow> heap \<Rightarrow> (u64 list \<times> heap) option" and os t c want swept h r
    assume ih: "\<And>os t c want swept h r. f os t c want swept h = Some r \<Longrightarrow> length (fst r) \<le> want"
    assume e: "(case popRegion os (classActive h c) want h of (es, h) \<Rightarrow>
        if es \<noteq> [] then Some (es, h)
        else case popRegions os WeavecRtRegionCount c c want h of (es, h) \<Rightarrow>
          if es \<noteq> [] then Some (es, h)
          else if \<not> swept \<and> classGained h c \<ge> word_of_nat (clCapacity (hpTable h c)) * word_of_nat (clSize (hpTable h c)) div 4
          then f os t c want True (weavecRtSweep os t h)
          else case takeSpare c h of (spare, h) \<Rightarrow>
            if spare then f os t c want swept h
            else if swept then Some ([], h)
            else f os t c want True (weavecRtSweep os t h)) = Some r"
    obtain es h1 where p: "popRegion os (classActive h c) want h = (es, h1)" by (cases "popRegion os (classActive h c) want h")
    obtain es2 h2 where q: "popRegions os WeavecRtRegionCount c c want h1 = (es2, h2)" by (cases "popRegions os WeavecRtRegionCount c c want h1")
    obtain b h3 where s: "takeSpare c h2 = (b, h3)" by (cases "takeSpare c h2")
    have "length es \<le> want" "length es2 \<le> want"
      using popRegion_want [of os "classActive h c" want h] popRegions_want [of os WeavecRtRegionCount c c want h1] p q by simp_all
    then show "length (fst r) \<le> want" using e ih by (auto simp: p q s split: if_splits)
  qed
  then show "popClass os t c want swept h = Some (es, h') \<Longrightarrow> length es \<le> want" by fastforce
qed

lemma takeSlot_inv:
  assumes inv: "at_rest own h" and s: "side_ok h" and c: "c < hpClasses h" and h0: "held own HandFree = {}" and sz: "unat sz < 2 ^ 30"
  shows "\<exists>b h' own'. takeSlot os t c sz h = Some (b, h') \<and> at_rest own' h' \<and> held own' HandDead = held own HandDead \<and> held own' HandFree = {} \<and>
    slotOrNone h c sz h' b"
proof -
  obtain es h1 own1 where p: "popClass os t c 1 False h = Some (es, h1)" "at_rest own1 h1" "kept h h1"
      "held own1 HandFree = entryOf ` set es" "held own1 HandDead = held own HandDead"
      "\<forall>e \<in> set es. entryRegion e < hpRegions h1 \<and> regionClass h1 (entryRegion e) = c"
    using popClass_inv [OF inv s c h0, of os t 1 False] by blast
  show ?thesis
  proof (cases es)
    case Nil
    then have "takeSlot os t c sz h = Some (0, h1)" using p(1) by (simp add: takeSlot_def)
    moreover have "held own1 HandFree = {}" using p(4) Nil by simp
    ultimately show ?thesis using p(2,3,5) by (auto simp: slotOrNone_def)
  next
    case (Cons e es')
    let ?h2 = "addLive (int (clSize (hpTable h1 c))) h1"
    have k2: "kept h ?h2" using kept_trans [OF p(3)] calm_counters(1) [of h1] unfolding calm_def by blast
    have a2: "at_rest own1 ?h2" using p(2) entries_same [of ?h2 h1] by (simp add: at_rest_def)
    obtain b h3 where mk: "makeLive os e sz (clSize (hpTable ?h2 c)) ?h2 = (b, h3)"
      by (cases "makeLive os e sz (clSize (hpTable ?h2 c)) ?h2")
    have res: "takeSlot os t c sz h = Some (b, h3)" using p(1) Cons mk by (simp add: takeSlot_def Let_def)
    have o: "own1 (entryRegion e) (entrySlot e) = Some HandFree" by (rule heldD [OF p(4)]) (simp add: Cons entryOf_def)
    have cl: "regionClass ?h2 (entryRegion e) = c" using p(6) Cons by simp
    note m = makeLive_new [OF a2 o sz cl mk]
    have "held (give own1 (entryRegion e) (entrySlot e) None) HandDead = held own HandDead"
      using p(5) o held_not [of own1 "entryRegion e" "entrySlot e" HandDead] by (simp add: held_give)
    moreover have "b \<noteq> 0" using m newSlot_nonzero by blast
    moreover have "held (give own1 (entryRegion e) (entrySlot e) None) HandFree = {}"
      using p(4) Cons popClass_want [OF p(1)] by (auto simp: held_give entryOf_def)
    ultimately show ?thesis using res m newSlot_kept [OF k2] by (auto simp: slotOrNone_def)
  qed
qed

end
