(* ===== verification/Alloc_Blocks.thy ===== *)
theory Alloc_Blocks
  imports Alloc_Entry
begin

text \<open>
  The class and the alignment of a request, the huge blocks, and the two calls: what allocation returns and
  what release does, on every path.
\<close>

subsection \<open>The class of a request\<close>

lemma classSize_inj: "classSize c \<le> classSize c' \<Longrightarrow> c \<le> c'"
  using classSize_mono [of c' c] by (meson leI not_le)

lemma classSize_power:
  assumes "5 \<le> j" "j \<le> 30"
  obtains c where "classSize c = 2 ^ j"
proof -
  have "j = 5 \<or> j = 6 \<or> j = 7 \<or> 8 \<le> j" using assms by arith
  then show thesis
  proof (elim disjE)
    assume j: "8 \<le> j"
    then obtain i where i: "j = i + 8" by (metis add.commute le_Suc_ex)
    have "classSize (8 + (4 * i + 3)) = (5 + 3) * 2 ^ (5 + i)" by (rule classSize_above) simp
    also have "\<dots> = 2 ^ j" using j by (simp add: i power_add)
    finally show thesis by (rule that)
  qed (use that [of 1] that [of 3] that [of 7] in \<open>simp_all add: classSize_def\<close>)
qed

text \<open>A power of two takes the class of that size.\<close>

lemma powerClass_exact:
  assumes b: "unat b = 2 ^ j" "5 \<le> j" "j \<le> 30"
  shows "classSize (powerClass b) = 2 ^ j"
proof -
  obtain c where c: "classSize c = 2 ^ j" using assms(2,3) by (rule classSize_power)
  have u: "unat (b - 1) = 2 ^ j - 1"
  proof -
    have "1 \<le> b" using b(1) by (simp add: word_le_nat_alt)
    then show ?thesis using b(1) by (simp add: unat_sub)
  qed
  have "(2 :: nat) ^ j \<le> 2 ^ 30" using b(3) by (intro power_increasing) simp_all
  then have lt: "unat (b - 1) < 2 ^ 30" using u zero_less_power [of "2 :: nat" j] by linarith
  note f = classFor_bounds [OF lt]
  have up: "2 ^ j \<le> classSize (powerClass b)" using f u unfolding powerClass_def by linarith
  have "classFor (b - 1) \<le> c"
  proof (rule ccontr)
    assume "\<not> classFor (b - 1) \<le> c"
    then have "c \<le> classFor (b - 1) - 1" "0 < classFor (b - 1)" by auto
    then have "classSize c \<le> classSize (classFor (b - 1) - 1)"
      using classSize_mono [of c "classFor (b - 1) - 1"] by (cases "c = classFor (b - 1) - 1") auto
    then have "2 ^ j \<le> unat (b - 1)" using c f \<open>0 < classFor (b - 1)\<close> by simp
    moreover have "unat (b - 1) < 2 ^ j" unfolding u by simp
    ultimately show False by simp
  qed
  then have "classSize (powerClass b) \<le> classSize c"
    using classSize_mono [of "classFor (b - 1)" c] by (cases "classFor (b - 1) = c") (auto simp: powerClass_def)
  then show ?thesis using up c by simp
qed

lemma alignBytes_power:
  "bytes = 2 ^ j \<Longrightarrow> \<exists>k. j \<le> k \<and> alignBytes sz bytes = 2 ^ k \<and> (sz < alignBytes sz bytes \<or> 2 ^ 30 \<le> alignBytes sz bytes)"
proof (induction sz bytes arbitrary: j rule: alignBytes.induct)
  case (1 sz bytes)
  show ?case
  proof (cases "0 < bytes \<and> bytes \<le> sz \<and> bytes < 2 ^ WeavecRtMaxClassShift")
    case True
    then obtain k where k: "Suc j \<le> k" "alignBytes sz (2 * bytes) = 2 ^ k" "(sz < alignBytes sz (2 * bytes) \<or> 2 ^ 30 \<le> alignBytes sz (2 * bytes))"
      using "1.IH" [OF True, of "Suc j"] "1.prems" by auto
    have "alignBytes sz bytes = alignBytes sz (2 * bytes)" using True by (subst alignBytes.simps) simp
    then show ?thesis using k by (intro exI [of _ k]) simp
  next
    case False
    then have "alignBytes sz bytes = bytes" by (subst alignBytes.simps) auto
    then show ?thesis using False "1.prems" by (intro exI [of _ j]) auto
  qed
qed

lemma and_below_power:
  assumes "(a :: u64) AND (a - 1) = 0" "a \<noteq> 0"
  obtains j where "j < 64" "unat a = 2 ^ j"
proof -
  define j where "j = ilog2 (unat a)"
  have "0 < unat a" using assms(2) by (simp add: unat_gt_0)
  then have b: "2 ^ j \<le> unat a" "unat a < 2 ^ Suc j" using ilog2_bounds by (simp_all add: j_def)
  have j: "j < 64"
  proof (rule ccontr)
    assume "\<not> j < 64"
    then have "(2 :: nat) ^ 64 \<le> 2 ^ j" by (intro power_increasing) simp_all
    then show False using b(1) unsigned_less [of a, where 'a = nat] by simp
  qed
  have "unat a = 2 ^ j"
  proof (rule ccontr)
    assume "unat a \<noteq> 2 ^ j"
    then have ge: "2 ^ j \<le> unat a - 1" "unat a - 1 < 2 ^ Suc j" using b by simp_all
    have u: "unat (a - 1) = unat a - 1" using \<open>0 < unat a\<close> by (simp add: unat_sub word_le_nat_alt)
    have high: "bit n j" if "2 ^ j \<le> n" "n < 2 ^ Suc j" for n :: nat
    proof -
      have "n div 2 ^ j = 1" using that by (intro div_nat_eqI) simp_all
      then show ?thesis by (simp add: bit_iff_odd)
    qed
    have "bit (unat a) j" using b by (rule high)
    moreover have "bit (unat a - 1) j" using ge by (rule high)
    ultimately have "bit (unat (a AND (a - 1))) j" by (simp add: unsigned_and_eq u bit_and_iff)
    then show False using assms(1) by simp
  qed
  then show thesis using that j by blast
qed

text \<open>A class is taken only if its slots are larger than the request and aligned as it asks.\<close>

lemma allocClass_fits:
  assumes a: "allocClass sz al = Some c" and c: "classSize c \<le> 2 ^ 29"
  shows "unat sz < classSize c" "16 < unat al \<Longrightarrow> unat al dvd classSize c \<and> (\<exists>k. classSize c = 2 ^ k)"
proof -
  have cc: "c < WeavecRtClassCount"
  proof (rule ccontr)
    assume "\<not> c < WeavecRtClassCount"
    then have "classSize 99 < classSize c" by (intro classSize_mono) simp
    then show False using c classSize_last by simp
  qed
  have "unat sz < classSize c \<and> (16 < unat al \<longrightarrow> unat al dvd classSize c \<and> (\<exists>k. classSize c = 2 ^ k))"
  proof (cases "al > 16")
    case False
    then have "c = classFor sz" using a by (simp add: allocClass_def)
    then have "unat sz < 2 ^ 30" using classFor_none [of sz] cc by (meson not_le)
    then show ?thesis using classFor_bounds [of sz] \<open>c = classFor sz\<close> False by (auto simp: word_less_nat_alt)
  next
    case True
    define bytes where "bytes = alignBytes (unat sz) (unat al)"
    have p: "al AND (al - 1) = 0" "al \<noteq> 0"
      and cb: "c = (if bytes > unat sz then powerClass (word_of_nat bytes) else WeavecRtClassCount)"
      using a True by (auto simp: allocClass_def Let_def bytes_def split: if_splits)
    obtain j where j: "j < 64" "unat al = 2 ^ j" using and_below_power [OF p] by blast
    obtain k where k: "j \<le> k" "bytes = 2 ^ k" using alignBytes_power [OF j(2), of "unat sz"] by (auto simp: bytes_def)
    have gt: "unat sz < bytes" "c = powerClass (word_of_nat bytes)" using cb cc by (auto split: if_splits)
    have "(2 :: nat) ^ 4 < 2 ^ j" using True j by (simp add: word_less_nat_alt)
    then have "4 < j" by (simp only: power_strict_increasing_iff one_less_numeral_iff semiring_norm)
    have k64: "k < 64"
    proof (rule ccontr)
      assume "\<not> k < 64"
      then have "j < k" using j(1) by simp
      have big: "bytes \<noteq> unat al" using \<open>j < k\<close> k(2) j(2) by simp
      have "bytes \<le> 2 ^ 63"
      proof -
        have "alignBytes s b \<le> max b (2 ^ 31)" for s b
          by (induction s b rule: alignBytes.induct) (subst alignBytes.simps, auto simp: max_def split: if_splits)
        then have "bytes \<le> max (2 ^ j) (2 ^ 31)" unfolding bytes_def j(2) [symmetric] by blast
        moreover have "(2 :: nat) ^ j \<le> 2 ^ 63" using j(1) by (intro power_increasing) simp_all
        ultimately show ?thesis by (simp add: max_def split: if_splits)
      qed
      moreover have "(2 :: nat) ^ 64 \<le> 2 ^ k" using \<open>\<not> k < 64\<close> by (intro power_increasing) simp_all
      ultimately show False using k(2) by simp
    qed
    have ub: "unat (word_of_nat bytes :: u64) = 2 ^ k"
      using power_strict_increasing [OF k64, of "2 :: nat"] k64 by (simp add: k(2) unsigned_of_nat take_bit_nat_eq_self del: of_nat_power)
    have k30: "k \<le> 30"
    proof (rule ccontr)
      assume "\<not> k \<le> 30"
      then have "(2 :: nat) ^ 31 \<le> 2 ^ k" by (intro power_increasing) simp_all
      moreover have "unat ((word_of_nat bytes :: u64) - 1) = 2 ^ k - 1"
        using ub by (simp add: unat_sub word_le_nat_alt)
      ultimately have "2 ^ 30 \<le> unat ((word_of_nat bytes :: u64) - 1)" by simp
      then show False using classFor_none gt(2) cc unfolding powerClass_def by (meson not_le)
    qed
    have "classSize c = 2 ^ k" using powerClass_exact [OF ub _ k30] \<open>4 < j\<close> k(1) gt(2) by simp
    then show ?thesis using gt(1) k j(2) by (auto intro: le_imp_power_dvd)
  qed
  then show "unat sz < classSize c" "16 < unat al \<Longrightarrow> unat al dvd classSize c \<and> (\<exists>k. classSize c = 2 ^ k)" by blast+
qed

subsection \<open>Huge blocks\<close>

text \<open>The bytes a huge request maps.\<close>

definition hugeBytes :: "heap \<Rightarrow> u64 \<Rightarrow> u64" where
  "hugeBytes h sz = (let page = word_of_nat (pageBytes h); n = (sz + page - 1) div page * page in if n = 0 then page else n)"

definition hugeSpan :: "heap \<Rightarrow> u64 \<Rightarrow> u64 \<Rightarrow> u64" where
  "hugeSpan h sz al = (let page = word_of_nat (pageBytes h) in hugeBytes h sz + page + (if al > page then al else 0))"

text \<open>
  What \<open>mmap\<close> promises of the range it gives: whole pages, inside the address space, apart from the arena
  and from every mapping the table still holds.
\<close>

definition mapsApart :: "system \<Rightarrow> heap \<Rightarrow> u64 \<Rightarrow> u64 \<Rightarrow> bool" where
  "mapsApart os h sz al \<longleftrightarrow>
     (\<forall>mp. osHuge os = Some mp \<longrightarrow> mp \<noteq> 0 \<and>
        pageBytes h dvd unat mp \<and> unat mp + unat (hugeSpan h sz al) < 2 ^ 63 \<and>
        (unat mp + unat (hugeSpan h sz al) \<le> unat (hpBase h) \<or> unat (hpBase h) + unat (hpBytes h) \<le> unat mp) \<and>
        (\<forall>b \<in> set (hugeBlocks h). unat mp + unat (hugeSpan h sz al) \<le> unat (hbMap b) \<or>
           unat (hbMap b) + unat (hbMapBytes b) \<le> unat mp))"

definition page_ok :: "heap \<Rightarrow> bool" where
  "page_ok h \<longleftrightarrow> (\<exists>k. 4 \<le> k \<and> k \<le> 20 \<and> pageBytes h = 2 ^ k)"

lemma round_up:
  assumes "unat (a :: u64) + 2 ^ k < 2 ^ 64" "k < 64" "p = 2 ^ k"
  shows "unat ((a + p - 1) AND NOT (p - 1)) = (unat a + 2 ^ k - 1) div 2 ^ k * 2 ^ k"
    "unat a \<le> (unat a + 2 ^ k - 1) div 2 ^ k * 2 ^ k" "(unat a + 2 ^ k - 1) div 2 ^ k * 2 ^ k < unat a + 2 ^ k"
proof -
  have u: "unat (a + p - 1) = unat a + 2 ^ k - 1"
  proof -
    have "unat (a + p) = unat a + 2 ^ k" using assms by (simp add: unat_word_ariths unat_pow2)
    moreover have "1 \<le> a + p" using calculation by (simp add: word_le_nat_alt Suc_le_eq)
    ultimately show ?thesis by (simp add: unat_sub)
  qed
  then show "unat ((a + p - 1) AND NOT (p - 1)) = (unat a + 2 ^ k - 1) div 2 ^ k * 2 ^ k"
    unfolding assms(3) unat_and_not_mask by (simp add: minus_mod_eq_div_mult)
  have "unat a + 2 ^ k - 1 < (unat a + 2 ^ k - 1) div 2 ^ k * 2 ^ k + 2 ^ k"
    using dividend_less_div_times [of "2 ^ k" "unat a + 2 ^ k - 1"] by (simp add: add.commute)
  then show "unat a \<le> (unat a + 2 ^ k - 1) div 2 ^ k * 2 ^ k" by linarith
  have "(unat a + 2 ^ k - 1) div 2 ^ k * 2 ^ k \<le> unat a + 2 ^ k - 1" by simp
  then show "(unat a + 2 ^ k - 1) div 2 ^ k * 2 ^ k < unat a + 2 ^ k" using zero_less_power [of "2 :: nat" k] by linarith
qed

text \<open>The numbers of a huge request that is not too large.\<close>

lemma huge_numbers:
  assumes page: "pageBytes h = 2 ^ pk" "4 \<le> pk" "pk \<le> 20" and al: "unat al = 2 ^ ak" "pk \<le> ak" "ak \<le> 60"
    and ok: "\<not> hugeTooLarge h sz al"
  shows "unat sz \<le> unat (hugeBytes h sz)" "0 < unat (hugeBytes h sz)"
    "unat (hugeSpan h sz al) = unat (hugeBytes h sz) + 2 ^ pk + (if pk < ak then 2 ^ ak else 0)"
proof -
  let ?p = "word_of_nat (pageBytes h) :: u64"
  have p: "?p = 2 ^ pk" "unat ?p = 2 ^ pk" using page by (simp_all add: unat_pow2)
  have b: "(2 :: nat) ^ pk \<le> 2 ^ 20" "(2 :: nat) ^ ak \<le> 2 ^ 60" "(2 :: nat) ^ 4 \<le> 2 ^ pk"
    using page al by (intro power_increasing; simp)+
  have u2: "unat (2 * al) = 2 * 2 ^ ak" "unat (2 * ?p) = 2 * 2 ^ pk" using b al(1) p(2) by (simp_all add: unat_word_ariths)
  have u63: "unat (drop_bit 1 (- 1) :: u64) = 2 ^ 63 - 1" by (simp add: unat_drop_bit_div unsigned_minus_1_eq_mask mask_eq_exp_minus_1)
  have "unat ((drop_bit 1 (- 1) :: u64) - 2 * al) = 2 ^ 63 - 1 - 2 * 2 ^ ak"
    using u63 u2 b by (subst unat_sub) (simp_all add: word_le_nat_alt)
  then have "unat ((drop_bit 1 (- 1) :: u64) - 2 * al - 2 * ?p) = 2 ^ 63 - 1 - 2 * 2 ^ ak - 2 * 2 ^ pk"
    using u2 b by (subst unat_sub) (simp_all add: word_le_nat_alt)
  moreover have "\<not> sz > drop_bit 1 (- 1) - 2 * al - 2 * ?p" using ok by (simp add: hugeTooLarge_def)
  ultimately have s: "unat sz \<le> 2 ^ 63 - 1 - 2 * 2 ^ ak - 2 * 2 ^ pk" by (simp add: word_le_nat_alt not_less)
  have u: "unat (sz + ?p - 1) = unat sz + 2 ^ pk - 1"
  proof -
    have "unat (sz + ?p) = unat sz + 2 ^ pk" using s b p by (simp add: unat_word_ariths)
    moreover have "1 \<le> sz + ?p" using calculation by (simp add: word_le_nat_alt Suc_le_eq)
    ultimately show ?thesis by (simp add: unat_sub)
  qed
  define n where "n = (unat sz + 2 ^ pk - 1) div 2 ^ pk * 2 ^ pk"
  have le: "n \<le> unat sz + 2 ^ pk - 1" by (simp add: n_def)
  have "unat sz + 2 ^ pk - 1 < n + 2 ^ pk"
    using dividend_less_div_times [of "2 ^ pk" "unat sz + 2 ^ pk - 1"] by (simp add: n_def add.commute)
  then have ge: "unat sz \<le> n" by linarith
  have un: "unat ((sz + ?p - 1) div ?p * ?p) = n"
  proof -
    have "n < 2 ^ 64" using le s b by simp
    moreover define q where "q = (unat sz + 2 ^ pk - 1) div 2 ^ pk"
    moreover have "q \<le> q * 2 ^ pk" "n = q * 2 ^ pk" by (simp_all add: n_def q_def)
    ultimately have "q mod 2 ^ 64 * 2 ^ pk mod 2 ^ 64 = n" by (simp only: mod_less order_le_less_trans)
    then show ?thesis by (simp add: unat_word_ariths unat_div u p(2) q_def)
  qed
  then have hb: "unat (hugeBytes h sz) = (if n = 0 then 2 ^ pk else n)"
    using p(2) unfolding hugeBytes_def Let_def by (simp add: word_unat_eq_iff)
  then show "unat sz \<le> unat (hugeBytes h sz)" "0 < unat (hugeBytes h sz)" using ge by auto
  have "al > ?p \<longleftrightarrow> pk < ak" using al(1) p(2) by (simp add: word_less_nat_alt)
  moreover have "unat (hugeBytes h sz) \<le> 2 ^ 63 - 2 * 2 ^ ak" using hb le s b by auto
  ultimately show "unat (hugeSpan h sz al) = unat (hugeBytes h sz) + 2 ^ pk + (if pk < ak then 2 ^ ak else 0)"
    using al(1) p(2) b by (simp add: hugeSpan_def Let_def unat_word_ariths)
qed

text \<open>The alignment a huge block gets: a page, or the one asked for when that is more.\<close>

definition hugeAlign :: "heap \<Rightarrow> u64 \<Rightarrow> u64" where
  "hugeAlign h al = (if al < word_of_nat (pageBytes h) then word_of_nat (pageBytes h) else al)"

lemma hugeInsert_set: "set (hugeInsert b bs) = insert b (set bs)"
proof -
  have "set (take n bs) \<union> set (drop n bs) = set bs" for n by (metis append_take_drop_id set_append)
  then show ?thesis by (auto simp: hugeInsert_def Let_def)
qed

lemma hugeInsert_filter:
  "length (filter P (hugeInsert b bs)) = length (filter P bs) + (if P b then 1 else 0)"
proof -
  have "length (filter P (take n bs)) + length (filter P (drop n bs)) = length (filter P bs)" for n
    by (metis append_take_drop_id filter_append length_append)
  then show ?thesis by (simp add: hugeInsert_def Let_def)
qed

definition newHuge :: "heap \<Rightarrow> u64 \<Rightarrow> u64 \<Rightarrow> heap \<Rightarrow> u64 \<Rightarrow> bool" where
  "newHuge h sz al h' b \<longleftrightarrow>
     framed h h' \<and> liveMap h' = liveMap h \<and> hpMem h' = hpMem h \<and> unat (hugeAlign h al) dvd unat b \<and> b \<noteq> 0 \<and> unat b + unat sz \<le> 2 ^ 63 \<and>
     (\<exists>mp. set (hugeLive h') = insert (b, sz, mp, hugeSpan h sz (hugeAlign h al)) (set (hugeLive h)) \<and>
        unat mp \<le> unat b \<and> unat b + unat sz \<le> unat mp + unat (hugeSpan h sz (hugeAlign h al)) \<and>
        (unat mp + unat (hugeSpan h sz (hugeAlign h al)) \<le> unat (hpBase h) \<or> unat (hpBase h) + unat (hpBytes h) \<le> unat mp) \<and>
        (\<forall>(_, _, m, n) \<in> set (hugeLive h). unat mp + unat (hugeSpan h sz (hugeAlign h al)) \<le> unat m \<or> unat m + unat n \<le> unat mp))"

lemma hugeAlloc_block:
  assumes pg: "page_ok h" and al: "unat (hugeAlign h al) = 2 ^ ak" "ak \<le> 60" and mp: "mapsApart os h sz (hugeAlign h al)"
    and ok: "\<not> hugeTooLarge h sz (hugeAlign h al)" and os: "osHuge os = Some m"
  defines "b \<equiv> (m + hugeAlign h al - 1) AND NOT (hugeAlign h al - 1)"
  defines "n \<equiv> hugeSpan h sz (hugeAlign h al)"
  shows "2 ^ ak dvd unat b" "unat m \<le> unat b" "unat b + unat sz \<le> unat m + unat n" "unat b < unat m + unat n"
    "unat m + unat n < 2 ^ 63" "0 < n"
proof -
  obtain pk where pk: "4 \<le> pk" "pk \<le> 20" "pageBytes h = 2 ^ pk" using pg by (auto simp: page_ok_def)
  have p: "unat (word_of_nat (pageBytes h) :: u64) = 2 ^ pk" using pk by (simp add: unat_pow2)
  have ge: "(2 :: nat) ^ pk \<le> 2 ^ ak" using al(1) p by (auto simp: hugeAlign_def word_less_nat_alt split: if_splits)
  then have pa: "pk \<le> ak" by simp
  note num = huge_numbers [OF pk(3,1,2) al(1) pa al(2) ok, folded n_def]
  have m: "2 ^ pk dvd unat m" "unat m + unat n < 2 ^ 63" using mp os pk(3) by (simp_all add: mapsApart_def n_def)
  show "unat m + unat n < 2 ^ 63" by (rule m(2))
  show "0 < n" using num by (simp add: word_less_nat_alt)
  have ap: "hugeAlign h al = 2 ^ ak" using al by (simp add: word_unat_eq_iff unat_pow2)
  have small: "unat m + 2 ^ ak < 2 ^ 64"
    using m(2) power_increasing [OF al(2), of "2 :: nat"] by simp
  have "ak < 64" using al(2) by simp
  note ru = round_up [OF small this ap]
  show "2 ^ ak dvd unat b" using ru(1) by (simp add: b_def)
  show "unat m \<le> unat b" using ru(1,2) by (simp add: b_def)
  have "unat b + unat (hugeBytes h sz) < unat m + unat n"
  proof (cases "pk < ak")
    case True
    then show ?thesis using ru(1,3) num(3) by (simp add: b_def)
  next
    case False
    then have "2 ^ ak dvd unat m" using m(1) pa by simp
    then obtain q where q: "unat m = q * 2 ^ ak" by (auto simp: dvd_def mult.commute)
    have "(q * p + p - 1) div p = q" if "0 < p" for p :: nat
      using that by (cases p) (auto intro!: div_nat_eqI simp: algebra_simps)
    then have "(q * 2 ^ ak + 2 ^ ak - 1) div 2 ^ ak = q" by simp
    then have "unat b = unat m" using ru(1) q by (simp add: b_def)
    then show ?thesis using num(3) pk by simp
  qed
  then show "unat b + unat sz \<le> unat m + unat n" "unat b < unat m + unat n" using num(1) by linarith+
qed

lemma hugeAlloc_inv:
  assumes inv: "at_rest own h" and pg: "page_ok h" and al: "unat (hugeAlign h al) = 2 ^ ak" "ak \<le> 60"
    and mp: "mapsApart os h sz (hugeAlign h al)" and res: "hugeAlloc os sz al h = (r, h')"
  shows "case r of None \<Rightarrow> h' = h | Some b \<Rightarrow> at_rest own h' \<and> newHuge h sz al h' b"
proof (cases "hugeTooLarge h sz (hugeAlign h al)")
  case True
  then show ?thesis using res by (auto simp: hugeAlloc_def Let_def hugeAlign_def split: if_splits)
next
  case ok: False
  let ?al = "hugeAlign h al" let ?n = "hugeSpan h sz ?al"
  show ?thesis
  proof (cases "osHuge os = None \<or> length (hugeBlocks h) = hugeCapacity h \<and> \<not> osTable os")
    case True
    then show ?thesis using res ok by (auto simp: hugeAlloc_def Let_def hugeAlign_def split: if_splits option.splits)
  next
    case False
    then obtain m where m: "osHuge os = Some m" by auto
    define b where "b = (m + ?al - 1) AND NOT (?al - 1)"
    define blk where "blk = \<lparr>hbBase = b, hbSize = sz, hbMap = m, hbMapBytes = ?n, hbDead = 0, hbMarked = False\<rparr>"
    note f = hugeAlloc_block [OF pg al mp ok m, folded b_def]
    define hc where "hc = (if length (hugeBlocks h) = hugeCapacity h
      then h\<lparr>hugeCapacity := (if hugeCapacity h \<noteq> 0 then hugeCapacity h * 2 else 256)\<rparr> else h)"
    define h2 where "h2 = shadowLive os b sz (hugeBytes h sz) (hc\<lparr>hugeBlocks := hugeInsert blk (hugeBlocks hc)\<rparr>)"
    have e: "hugeAlloc os sz al h = (Some b, h2\<lparr>hugeLow := (if m < hugeLow h2 then m else hugeLow h2),
        hugeHigh := (if m + ?n > hugeHigh h2 then m + ?n else hugeHigh h2)\<rparr>)"
      using False ok m
      unfolding hugeAlloc_def Let_def hugeAlign_def [symmetric] hugeSpan_def hugeBytes_def b_def blk_def h2_def hc_def
      by (simp add: hugeSpan_def hugeBytes_def Let_def)
    have sl: "shadowLive os x y z k = k\<lparr>hpShadow := hpShadow (shadowLive os x y z k)\<rparr>" for x y z k
      by (simp add: shadowLive_def shadowSet_def Let_def)
    have "h2 = h\<lparr>hugeBlocks := hugeInsert blk (hugeBlocks h), hugeCapacity := hugeCapacity hc, hpShadow := hpShadow h2\<rparr>"
      unfolding h2_def by (subst sl) (simp add: hc_def)
    then obtain cap sh where h2: "h2 = h\<lparr>hugeBlocks := hugeInsert blk (hugeBlocks h), hugeCapacity := cap, hpShadow := sh\<rparr>" by blast
    have r: "r = Some b" and h': "h' = h\<lparr>hugeBlocks := hugeInsert blk (hugeBlocks h), hugeCapacity := cap, hpShadow := sh,
        hugeLow := (if m < hugeLow h then m else hugeLow h), hugeHigh := (if m + ?n > hugeHigh h then m + ?n else hugeHigh h)\<rparr>"
      using e res unfolding h2 by simp_all
    have a: "at_rest own h'" using inv kept_counters
    proof -
      have "heap_inv own as rs h' = heap_inv own as rs h" for as rs by (rule heap_inv_same) (simp_all add: h' geom_def)
      moreover have "allocs h' = allocs h" "releases h' = releases h" using entries_same [of h' h] by (simp_all add: h')
      ultimately show ?thesis using inv by (simp add: at_rest_def)
    qed
    have apart: "(unat m + unat ?n \<le> unat (hpBase h) \<or> unat (hpBase h) + unat (hpBytes h) \<le> unat m)"
        "\<And>c. c \<in> set (hugeBlocks h) \<Longrightarrow> unat m + unat ?n \<le> unat (hbMap c) \<or> unat (hbMap c) + unat (hbMapBytes c) \<le> unat m"
      using mp m by (simp_all add: mapsApart_def)
    have un: "unat (m + ?n) = unat m + unat ?n" using f(5) by (simp add: unat_word_ariths)
    have side: "side_ok h'" if s: "side_ok h"
    proof -
      have w: "huge_wf h" "\<forall>c \<in> set (hugeBlocks h). outside_arena h c" "marks_clear h" "threads_ok h" using s by (simp_all add: side_ok_def)
      have "huge_sorted (hugeInsert blk (hugeBlocks h))"
        by (rule hugeInsert_sorted) (use w(1) f apart(2) in \<open>auto simp: huge_wf_def blk_def\<close>)
      moreover have "hbMap blk \<le> hbBase blk \<and> unat (hbBase blk) + unat (hbSize blk) \<le> unat (hbMap blk) + unat (hbMapBytes blk) \<and>
          unat (hbBase blk) < unat (hbMap blk) + unat (hbMapBytes blk)" using f by (simp add: blk_def word_le_nat_alt)
      moreover have "unat (hugeLow h') \<le> unat m" "unat m + unat ?n \<le> unat (hugeHigh h')"
        using un by (auto simp: h' word_less_nat_alt not_less)
      moreover have "unat (hugeLow h') \<le> unat (hugeLow h)" "unat (hugeHigh h) \<le> unat (hugeHigh h')"
        by (auto simp: h' word_less_nat_alt)
      then have "unat (hugeLow h') \<le> unat (hbMap c) \<and> unat (hbMap c) + unat (hbMapBytes c) \<le> unat (hugeHigh h')" if "c \<in> set (hugeBlocks h)" for c
        using w(1) that unfolding huge_wf_def by (meson order_trans)
      moreover have "hugeDeadCount h' = length (filter (\<lambda>b. hbDead b \<noteq> 0) (hugeBlocks h'))"
        using w(1) by (simp add: h' huge_wf_def hugeInsert_filter blk_def)
      ultimately have "huge_wf h'" using w(1) unfolding huge_wf_def by (auto simp: h' hugeInsert_set blk_def)
      moreover have "\<forall>c \<in> set (hugeBlocks h'). outside_arena h' c"
        using w(2) apart(1) by (auto simp: h' hugeInsert_set outside_arena_def blk_def)
      ultimately show "side_ok h'" using w(3,4) by (simp add: side_ok_def marks_clear_def threads_ok_def h')
    qed
    have live: "liveMap h' = liveMap h" by (rule liveMap_words) (simp add: h')
    have fr: "framed h h'" using side by (auto simp: framed_def h')
    have hl: "set (hugeLive h') = insert (b, sz, m, ?n) (set (hugeLive h))"
    proof -
      have "set (filter (\<lambda>b. hbDead b = 0) (hugeInsert blk (hugeBlocks h))) = insert blk (set (filter (\<lambda>b. hbDead b = 0) (hugeBlocks h)))"
        by (auto simp: hugeInsert_set blk_def)
      then show ?thesis by (simp add: hugeLive_def h' blk_def)
    qed
    have "\<forall>(_, _, m', n) \<in> set (hugeLive h). unat m + unat ?n \<le> unat m' \<or> unat m' + unat n \<le> unat m"
      using apart(2) by (auto simp: hugeLive_def)
    moreover have "b \<noteq> 0"
    proof -
      have "m \<noteq> 0" using mp m by (simp add: mapsApart_def)
      then have "0 < unat m" by (simp add: unat_gt_0)
      then show ?thesis using f(2) by auto
    qed
    moreover have "unat b + unat sz \<le> 2 ^ 63" using f(3,5) by simp
    ultimately have "newHuge h sz al h' b" unfolding newHuge_def
      using live fr hl f(1-3) al(1) apart(1) by (intro conjI exI [of _ m]) (simp_all add: h')
    then show ?thesis using r a by simp
  qed
qed

end
