(* ===== verification/Alloc_Ops.thy ===== *)
theory Alloc_Ops
  imports Alloc_Blocks
begin

text \<open>
  The calls of the program: \<open>__weavec_rt_alloc\<close>, \<open>__weavec_rt_free\<close> and \<open>__weavec_rt_realloc\<close> over
  the invariant, the state between calls, and the properties of the allocator.
\<close>

subsection \<open>Allocation\<close>

text \<open>What a call returns: null, a slot of a class that fits, or a huge block.\<close>

definition allocated :: "heap \<Rightarrow> u64 \<Rightarrow> u64 \<Rightarrow> heap \<Rightarrow> u64 \<Rightarrow> bool" where
  "allocated h sz al h' b \<longleftrightarrow>
     b = 0 \<and> kept h h' \<or>
     b \<noteq> 0 \<and> 16 dvd unat b \<and> (16 < unat al \<longrightarrow> unat al dvd unat b) \<and>
     ((\<exists>c. newSlot h c sz h' b \<and> unat sz < classSize c) \<or> newHuge h sz al h' b)"

lemma same_page:
  assumes "pageBytes h' = pageBytes h"
  shows "hugeAlign h' al = hugeAlign h al" "hugeSpan h' sz a = hugeSpan h sz a"
  by (simp_all add: hugeAlign_def hugeSpan_def hugeBytes_def assms Let_def)

lemma newHuge_kept:
  assumes "kept h h1" "newHuge h1 sz al h' b"
  shows "newHuge h sz al h' b"
proof -
  have "framed h h1" "liveMap h1 = liveMap h" "hugeLive h1 = hugeLive h" "hpMem h1 = hpMem h" "pageBytes h1 = pageBytes h"
    "hpBase h1 = hpBase h" "hpBytes h1 = hpBytes h" using assms(1) by (simp_all add: kept_def framed_def)
  then show ?thesis using assms(2) framed_trans [of h h1 h'] unfolding newHuge_def same_page [OF \<open>pageBytes h1 = pageBytes h\<close>]
    by simp
qed

text \<open>The largest alignment a caller asks for; one that is no power of two is refused.\<close>

definition alignOk :: "u64 \<Rightarrow> bool" where
  "alignOk al \<longleftrightarrow> unat al \<le> 2 ^ 60"

lemma hugeAlign_power:
  assumes "page_ok h" "alignOk al" and c: "allocClass sz al = Some c"
  obtains k where "unat (hugeAlign h al) = 2 ^ k" "4 \<le> k" "k \<le> 60"
proof -
  obtain pk where pk: "4 \<le> pk" "pk \<le> 20" "pageBytes h = 2 ^ pk" using assms(1) by (auto simp: page_ok_def)
  have p: "unat (word_of_nat (pageBytes h) :: u64) = 2 ^ pk" using pk by (simp add: unat_pow2)
  show thesis
  proof (cases "al < word_of_nat (pageBytes h)")
    case True
    then show thesis using p pk(1,2) by (intro that [of pk]) (simp_all add: hugeAlign_def)
  next
    case False
    then have ge: "2 ^ pk \<le> unat al" using p by (simp add: word_less_nat_alt)
    have le: "(2 :: nat) ^ 4 \<le> 2 ^ pk" using pk(1) by (intro power_increasing) simp_all
    obtain k where k: "unat al = 2 ^ k"
    proof (cases "al > 16")
      case True
      then have "al AND (al - 1) = 0" "al \<noteq> 0" using c by (auto simp: allocClass_def split: if_splits)
      then show thesis using and_below_power that by metis
    next
      case False
      then have "unat al = 2 ^ 4" using ge le by (simp add: word_less_nat_alt)
      then show thesis by (rule that)
    qed
    have "(2 :: nat) ^ pk \<le> 2 ^ k" "(2 :: nat) ^ k \<le> 2 ^ 60" using ge k assms(2) by (simp_all add: alignOk_def del: power_increasing_iff)
    then have "pk \<le> k" "k \<le> 60" by (simp_all only: power_increasing_iff [of "2 :: nat"] one_less_numeral_iff semiring_norm)
    then have "4 \<le> k" "k \<le> 60" using pk(1) by simp_all
    then show thesis using False k by (intro that [of k]) (simp_all add: hugeAlign_def)
  qed
qed

text \<open>The alignment of the slots of a class.\<close>

lemma hugeAlign_dvd:
  assumes "page_ok h" "alignOk al" and c: "allocClass sz al = Some c"
  shows "16 dvd unat (hugeAlign h al) \<and> (16 < unat al \<longrightarrow> unat al dvd unat (hugeAlign h al))"
proof -
  obtain k where k: "unat (hugeAlign h al) = 2 ^ k" "4 \<le> k" using hugeAlign_power [OF assms] by metis
  have d: "(2 :: nat) ^ j dvd 2 ^ k" if "j \<le> k" for j using that by (rule le_imp_power_dvd)
  have "unat al dvd unat (hugeAlign h al)" if a: "16 < unat al"
  proof -
    have "al > 16" using a by (simp add: word_less_nat_alt)
    then have "al AND (al - 1) = 0" "al \<noteq> 0" using c by (auto simp: allocClass_def split: if_splits)
    then obtain j where j: "unat al = 2 ^ j" using and_below_power by metis
    have "unat al \<le> unat (hugeAlign h al)" by (simp add: hugeAlign_def word_less_nat_alt)
    then have "(2 :: nat) ^ j \<le> 2 ^ k" using j k(1) by simp
    then have "j \<le> k" by (rule power_le_imp_le_exp [rotated]) simp
    then show ?thesis using d j k(1) by simp
  qed
  then show ?thesis using d [OF k(2)] k(1) by simp
qed

text \<open>The alignment of the slots of a class.\<close>

lemma slot_aligned:
  assumes inv: "heap_inv own as rs h" and r: "r < hpRegions h" and s: "s < rsBump (hpRegion h r)"
    and k: "clSize (hpTable h r) = 2 ^ k" and al: "a dvd 2 ^ k"
  shows "a dvd unat (slotBase h r s)"
proof -
  note f = arena_facts [OF inv r]
  note i = slot_inside [OF inv r s]
  have "unat (slotBase h r s) = unat (hpBase h) + (r * 2 ^ hpShift h + s * 2 ^ k)"
    using slotBase_nat(1) [OF inv r s, of 0] i(2) k by simp
  moreover have "2 ^ k dvd (2 :: nat) ^ hpShift h"
  proof -
    have "2 ^ k + s * 2 ^ k \<le> (2 :: nat) ^ hpShift h" using i(1) k by simp
    then have "(2 :: nat) ^ k \<le> 2 ^ hpShift h" by (rule add_leD1)
    then have "k \<le> hpShift h" by (rule power_le_imp_le_exp [rotated]) simp
    then show ?thesis by (rule le_imp_power_dvd)
  qed
  moreover have "2 ^ k dvd unat (hpBase h)" using calculation(2) f(3) by (rule dvd_trans)
  ultimately have "2 ^ k dvd unat (slotBase h r s)" by (metis dvd_add dvd_mult dvd_triv_right)
  then show ?thesis using al by (rule dvd_trans [rotated])
qed

lemma slotOrNone_allocated:
  assumes inv: "at_rest own h'" and cl: "c < hpClasses h" and al: "allocClass sz al = Some c" and b: "b \<noteq> 0"
    and s: "slotOrNone h c sz h' b" and sz: "unat sz < classSize c" and c: "classSize c \<le> 2 ^ 29"
  shows "allocated h sz al h' b"
proof -
  have n: "newSlot h c sz h' b" using s b by (simp add: slotOrNone_def)
  then obtain r q where r: "b = slotBase h' r q" "r < hpRegions h'" "regionClass h' r = c" "q < rsBump (hpRegion h' r)"
    by (auto simp: newSlot_def)
  note i = at_rest_inv [OF inv]
  have "clSize (hpTable h' c) = classSize c"
  proof -
    have "c < hpClasses h'" using n cl by (simp add: newSlot_def framed_def)
    then show ?thesis using i by (simp add: heap_inv_def table_ok_def)
  qed
  then have size: "clSize (hpTable h' r) = classSize c" using class_table [OF i r(2)] r(3) by simp
  have "unat al dvd unat b" if wide: "16 < unat al"
  proof -
    note fit = allocClass_fits(2) [OF al c]
    obtain k where "classSize c = 2 ^ k" "unat al dvd 2 ^ k" using fit [OF wide] by auto
    then show ?thesis using slot_aligned [OF i r(2,4)] size r(1) by simp
  qed
  moreover have "16 dvd unat b"
  proof -
    note x = slot_inside [OF i r(2,4)] and f = arena_facts [OF i r(2)]
    have e: "unat b = unat (hpBase h') + (r * 2 ^ hpShift h' + q * clSize (hpTable h' r))"
      using slotBase_nat(1) [OF i r(2,4), of 0] x(2) r(1) by simp
    have "30 \<le> hpShift h'" using i by (auto simp: heap_inv_def arena_ok_def)
    then have "(2 :: nat) ^ 4 dvd 2 ^ hpShift h'" by (intro le_imp_power_dvd) simp
    then have d: "16 dvd (2 :: nat) ^ hpShift h'" by simp
    then have "16 dvd unat (hpBase h')" using f(3) by (rule dvd_trans)
    then show ?thesis unfolding e using d x(3) by (intro dvd_add dvd_mult)
  qed
  ultimately show ?thesis using n sz b by (auto simp: allocated_def)
qed

lemma class_sizes:
  assumes "at_rest own h" "c < hpClasses h"
  shows "classSize c \<le> 2 ^ 29"
proof -
  note i = at_rest_inv [OF assms(1)]
  have r: "c < hpRegions h" "clSize (hpTable h c) = classSize c" using i assms(2) by (simp_all add: heap_inv_def arena_ok_def table_ok_def)
  note f = arena_facts [OF i r(1)]
  show ?thesis using entry_ok_facts(3) [OF f(5,1)] r(2) by simp
qed

lemma mapsApart_kept:
  assumes k: "kept h h'" and m: "mapsApart os h sz al"
  shows "mapsApart os h' sz al"
proof -
  have e: "pageBytes h' = pageBytes h" "hpBase h' = hpBase h" "hpBytes h' = hpBytes h" "spans h' \<subseteq> spans h"
    using k by (simp_all add: kept_def framed_def)
  have s: "hugeSpan h' sz al = hugeSpan h sz al" by (rule same_page(2) [OF e(1)])
  have "\<exists>b' \<in> set (hugeBlocks h). hbMap b = hbMap b' \<and> hbMapBytes b = hbMapBytes b'" if "b \<in> set (hugeBlocks h')" for b
    using e(4) that by (force simp: spans_def)
  then show ?thesis using m unfolding mapsApart_def s e(1-3) by metis
qed

lemma allocate_inv:
  assumes inv: "at_rest own h" and s: "side_ok h" and pg: "page_ok h" and h0: "hands own = ({}, {})"
    and al: "alignOk al" and mp: "mapsApart os h sz (hugeAlign h al)" and ar: "hpBytes h \<noteq> 0"
  shows "\<exists>b h' own'. allocate os t sz al h = Some (b, h') \<and> at_rest own' h' \<and> hands own' = ({}, {}) \<and> allocated h sz al h' b"
proof (cases "allocClass sz al")
  case None
  then have "allocate os t sz al h = Some (0, h)" using ar by (simp add: allocate_def)
  then show ?thesis using inv h0 by (auto simp: allocated_def)
next
  case (Some c)
  define slot where "slot = (if c < hpClasses h
    then case cacheFor os t c h of (hit, h) \<Rightarrow> if hit then cachedAlloc os t c sz h else takeSlot os t c sz h
    else Some (0, h))"
  have e: "allocate os t sz al h = (case slot of None \<Rightarrow> None
     | Some (block, h) \<Rightarrow> if block \<noteq> 0 then Some (block, h)
         else case hugeAlloc os sz al h of (None, h) \<Rightarrow> Some (0, h) | (Some b, h) \<Rightarrow> Some (b, h))"
    using Some ar by (simp add: allocate_def slot_def)
  have "\<exists>b h1 own1. slot = Some (b, h1) \<and> at_rest own1 h1 \<and> hands own1 = ({}, {}) \<and> (if b = 0 then kept h h1 else allocated h sz al h1 b)"
  proof (cases "c < hpClasses h")
    case False
    then show ?thesis using inv h0 by (auto simp: slot_def)
  next
    case True
    note cs = class_sizes [OF inv True]
    note fit = allocClass_fits [OF Some cs]
    have sz: "unat sz < 2 ^ 30" using fit(1) cs by simp
    obtain hit h1 where cf: "cacheFor os t c h = (hit, h1)" by (cases "cacheFor os t c h")
    note c1 = cacheFor_inv [OF inv cf]
    have k1: "kept h h1" and a1: "at_rest own h1" using c1 by blast+
    have s1: "side_ok h1" and cl1: "c < hpClasses h1" and cc: "cachedClasses h1 = cachedClasses h"
      using k1 s True by (auto simp: kept_def framed_def)
    have hf: "held own HandFree = {}" "held own HandDead = {}" using h0 by (simp_all add: hands_def)
    obtain b h2 own2 where r: "slot = Some (b, h2)" "at_rest own2 h2" "hands own2 = ({}, {})" "slotOrNone h1 c sz h2 b"
    proof (cases hit)
      case True
      then obtain tc where "cacheOf h1 t = HasCache tc" "c < cachedClasses h1" using c1 cc by auto
      then obtain b h2 own2 where "cachedAlloc os t c sz h1 = Some (b, h2)" "at_rest own2 h2" "hands own2 = hands own" "slotOrNone h1 c sz h2 b"
        using cachedAlloc_inv [OF a1 s1 _ _ hf(1) sz] by blast
      then show thesis using that True cf \<open>c < hpClasses h\<close> h0 by (auto simp: slot_def)
    next
      case False
      obtain b h2 own2 where x: "takeSlot os t c sz h1 = Some (b, h2)" "at_rest own2 h2" "held own2 HandDead = held own HandDead"
          "held own2 HandFree = {}" "slotOrNone h1 c sz h2 b"
        using takeSlot_inv [OF a1 s1 cl1 hf(1) sz] by blast
      then show thesis using that False cf \<open>c < hpClasses h\<close> hf by (auto simp: slot_def hands_def)
    qed
    show ?thesis
    proof (cases "b = 0")
      case True
      then show ?thesis using r k1 kept_trans by (auto simp: slotOrNone_def)
    next
      case False
      have "slotOrNone h c sz h2 b" using r(4) False newSlot_kept [OF k1] by (simp add: slotOrNone_def)
      then show ?thesis using r False slotOrNone_allocated [OF r(2) True Some False _ fit(1) cs] by auto
    qed
  qed
  then obtain b h1 own1 where b: "slot = Some (b, h1)" "at_rest own1 h1" "hands own1 = ({}, {})"
    "if b = 0 then kept h h1 else allocated h sz al h1 b" by blast
  show ?thesis
  proof (cases "b = 0")
    case False
    then show ?thesis using b e by auto
  next
    case True
    then have k: "kept h h1" using b(4) by simp
    have pb: "pageBytes h1 = pageBytes h" using k by (simp add: kept_def framed_def)
    have pg1: "page_ok h1" using pg pb by (simp add: page_ok_def)
    obtain ak where ak: "unat (hugeAlign h1 al) = 2 ^ ak" "ak \<le> 60" using hugeAlign_power [OF pg1 al Some] by metis
    have mp1: "mapsApart os h1 sz (hugeAlign h1 al)" using mapsApart_kept [OF k mp] same_page(1) [OF pb] by simp
    obtain r h2 where h2: "hugeAlloc os sz al h1 = (r, h2)" by (cases "hugeAlloc os sz al h1")
    note hu = hugeAlloc_inv [OF b(2) pg1 ak mp1 h2]
    show ?thesis
    proof (cases r)
      case None
      then show ?thesis using e b True h2 hu k by (auto simp: allocated_def)
    next
      case (Some a)
      then have nh: "newHuge h sz al h2 a" "at_rest own1 h2" using hu newHuge_kept [OF k] by auto
      then have "a \<noteq> 0" "unat (hugeAlign h al) dvd unat a" by (simp_all add: newHuge_def)
      then have "allocated h sz al h2 a" using nh hugeAlign_dvd [OF pg al \<open>allocClass sz al = Some c\<close>]
        by (auto simp: allocated_def intro: dvd_trans)
      then show ?thesis using e b True h2 Some nh by auto
    qed
  qed
qed

end
