(* ===== verification/Alloc_Release.thy ===== *)
theory Alloc_Release
  imports Alloc_Ops
begin

text \<open>
  The release of a slot through a cache or straight into the quarantine, the release of a huge block, and
  the sweep that may follow.
\<close>

subsection \<open>A sweep that is due\<close>

lemma overBudget_same: "overBudget os h = (b, h') \<Longrightarrow> (\<exists>x. h' = h\<lparr>nextPacingCheck := x\<rparr>) \<and> (b \<longrightarrow> h' = h)"
  by (auto simp: overBudget_def Let_def split: if_splits intro: exI [of _ "nextPacingCheck h"])

lemma sweepIfDue_inv:
  assumes inv: "at_rest own h" and s: "side_ok h"
  shows "\<exists>own'. at_rest own' (sweepIfDue os t h) \<and> hands own' = hands own \<and> kept h (sweepIfDue os t h)"
proof -
  obtain b h1 where o: "overBudget os h = (b, h1)" by (cases "overBudget os h")
  note d = overBudget_same [OF o]
  show ?thesis
  proof (cases b)
    case True
    then have "sweepIfDue os t h = weavecRtSweep os t h" using o d by (simp add: sweepIfDue_def)
    then show ?thesis using weavecRtSweep_inv [OF inv s, of os t] by auto
  next
    case False
    then obtain x where x: "sweepIfDue os t h = h\<lparr>nextPacingCheck := x\<rparr>" using o d by (auto simp: sweepIfDue_def)
    have "kept h (h\<lparr>nextPacingCheck := x\<rparr>) \<and> at_rest own (h\<lparr>nextPacingCheck := x\<rparr>) = at_rest own h"
      by (intro conjI kept_counters) (simp_all add: geom_def hugePart_def)
    then show ?thesis using inv x by auto
  qed
qed

text \<open>What a release changes beside the map of the live blocks: the bytes of the block it releases, at most.\<close>

definition within :: "(u64 \<Rightarrow> byte) \<Rightarrow> (u64 \<Rightarrow> byte) \<Rightarrow> u64 \<Rightarrow> nat \<Rightarrow> bool" where
  "within m m' b n \<longleftrightarrow> (\<forall>a. m' a = m a \<or> unat b \<le> unat a \<and> unat a < unat b + n)"

lemma within_refl [simp, intro]: "within m m b n"
  by (simp add: within_def)

lemma within_mono: "within m m' b n \<Longrightarrow> n \<le> k \<Longrightarrow> within m m' b k"
  unfolding within_def by (meson order_less_le_trans add_left_mono)

definition settled :: "heap \<Rightarrow> heap \<Rightarrow> bool" where
  "settled h h' \<longleftrightarrow> framed h h' \<and> liveMap h' = liveMap h \<and> hugeLive h' = hugeLive h"

lemma kept_settled: "kept h h' \<Longrightarrow> settled h h'"
  by (simp add: kept_def settled_def)

lemma settled_trans [trans]: "settled h h' \<Longrightarrow> settled h' h'' \<Longrightarrow> settled h h''"
  by (auto simp: settled_def intro: framed_trans)

lemma settled_mem: "settled h (h\<lparr>hpMem := m\<rparr>)"
  by (auto simp: settled_def hugeLive_def framed_def side_ok_def marks_clear_def huge_wf_def outside_arena_def threads_ok_def
      intro: liveMap_words)

lemma offset_less:
  fixes a b :: u64
  assumes "unat b + n \<le> 2 ^ 64"
  shows "unat (a - b) < n \<longleftrightarrow> unat b \<le> unat a \<and> unat a < unat b + n"
  using assms unsigned_less [of a] by (auto simp: unat_sub_if')

lemma memset_range:
  assumes "unat b + n \<le> 2 ^ 64"
  shows "memset m b v n a = (if unat b \<le> unat a \<and> unat a < unat b + n then v else m a)"
  using offset_less [OF assms, of a] by (simp add: memset_def)

lemma roundings:
  fixes b s :: u64
  assumes page: "page = 2 ^ pk" "4 \<le> pk" "pk \<le> 20" and fit: "unat b + unat s \<le> 2 ^ 63"
  defines "first \<equiv> (b + word_of_nat page - 1) AND NOT (word_of_nat page - 1)"
    and "final \<equiv> (b + s) AND NOT (word_of_nat page - 1)"
  shows "unat b \<le> unat first" "unat final \<le> unat b + unat s" "unat first < unat b + page" "unat b + unat s < unat final + page"
proof -
  have pw: "(word_of_nat page :: u64) = 2 ^ pk" by (simp add: page(1))
  have "(2 :: nat) ^ pk \<le> 2 ^ 20" using page(3) by (intro power_increasing) simp_all
  then have lt: "unat b + 2 ^ pk < 2 ^ 64" using fit by simp
  note r = round_up [OF lt _ pw]
  show "unat b \<le> unat first" "unat first < unat b + page" using r page by (simp_all add: first_def)
  have u: "unat (b + s) = unat b + unat s" using fit by (simp add: unat_word_ariths)
  have f: "unat final = (unat b + unat s) div 2 ^ pk * 2 ^ pk"
    unfolding final_def pw unat_and_not_mask u by (simp add: minus_mod_eq_div_mult)
  show "unat final \<le> unat b + unat s" unfolding f by simp
  have pos: "(0 :: nat) < 2 ^ pk" by simp
  show "unat b + unat s < unat final + page"
    unfolding f page(1) using div_mult_mod_eq [of "unat b + unat s" "2 ^ pk"] mod_less_divisor [OF pos, of "unat b + unat s"] by linarith
qed

text \<open>Mapping the whole pages afresh is the same as writing zeros over the block.\<close>

lemma zeroFill_memset:
  assumes page: "page = 2 ^ pk" "4 \<le> pk" "pk \<le> 20" and fit: "unat b + unat s \<le> 2 ^ 63"
  shows "zeroFill os page m b s = memset m b 0 (unat s)"
proof -
  define first where "first = (b + word_of_nat page - 1) AND NOT (word_of_nat page - 1)"
  define final where "final = (b + s) AND NOT (word_of_nat page - 1)"
  note r = roundings [OF page fit, folded first_def final_def]
  show ?thesis
  proof (cases "s < 16 * word_of_nat page \<or> final \<le> first \<or> \<not> osFresh os")
    case True
    then show ?thesis by (auto simp: zeroFill_def first_def [symmetric] final_def [symmetric] Let_def)
  next
    case False
    then have le: "unat first < unat final" by (simp add: word_less_nat_alt not_le)
    have u: "unat (b + s) = unat b + unat s" using fit by (simp add: unat_word_ariths)
    have n: "unat (final - first) = unat final - unat first" "unat (first - b) = unat first - unat b"
      "unat (b + s - final) = unat b + unat s - unat final"
      using le r u by (simp_all add: unat_sub_if')
    have e: "zeroFill os page m b s = memset (memset (memset m first 0 (unat (final - first))) b 0 (unat (first - b))) final 0 (unat (b + s - final))"
      using False by (simp add: zeroFill_def first_def [symmetric] final_def [symmetric] Let_def)
    have s64: "unat first + (unat final - unat first) \<le> 2 ^ 64" "unat b + (unat first - unat b) \<le> 2 ^ 64"
      "unat final + (unat b + unat s - unat final) \<le> 2 ^ 64" "unat b + unat s \<le> 2 ^ 64"
      using le r fit by simp_all
    show ?thesis unfolding e n
    proof (rule ext)
      fix a
      show "memset (memset (memset m first 0 (unat final - unat first)) b 0 (unat first - unat b)) final 0 (unat b + unat s - unat final) a =
          memset m b 0 (unat s) a"
        unfolding memset_range [OF s64(1)] memset_range [OF s64(2)] memset_range [OF s64(3)] memset_range [OF s64(4)]
        using le r by auto
    qed
  qed
qed

lemma zeroFill_within:
  assumes "page = 2 ^ pk" "4 \<le> pk" "pk \<le> 20" "unat b + unat s \<le> 2 ^ 63"
  shows "within m (zeroFill os page m b s) b (unat s)"
  using assms(4) unfolding zeroFill_memset [OF assms] by (simp add: within_def memset_range)

lemma decommit_within:
  assumes page: "page = 2 ^ pk" "4 \<le> pk" "pk \<le> 20" and fit: "unat b + unat s \<le> 2 ^ 63"
  shows "within m (decommit os page m b s) b (unat s)"
proof -
  define first where "first = (b + word_of_nat page - 1) AND NOT (word_of_nat page - 1)"
  define final where "final = (b + s) AND NOT (word_of_nat page - 1)"
  note r = roundings [OF page fit, folded first_def final_def]
  show ?thesis
  proof (cases "final \<le> first \<or> \<not> osFresh os")
    case True
    then show ?thesis by (auto simp: decommit_def first_def [symmetric] final_def [symmetric] Let_def)
  next
    case False
    then have le: "unat first < unat final" by (simp add: word_less_nat_alt not_le)
    have n: "unat (final - first) = unat final - unat first" using le by (simp add: unat_sub_if')
    have e: "decommit os page m b s = memset m first 0 (unat (final - first))"
      using False by (simp add: decommit_def first_def [symmetric] final_def [symmetric] Let_def)
    have f: "unat first + (unat final - unat first) \<le> 2 ^ 64" using le r fit by simp
    show ?thesis unfolding e n within_def memset_range [OF f] using le r by auto
  qed
qed

subsection \<open>The release of a claimed slot\<close>

lemma at_rest_counters:
  assumes "geom h' = geom h" "classActive h' = classActive h" "hpWords h' = hpWords h" "hpRegion h' = hpRegion h" "cacheOf h' = cacheOf h"
  shows "at_rest own h' = at_rest own h"
proof -
  have "heap_inv own as rs h' = heap_inv own as rs h" for as rs by (rule heap_inv_same) (use assms in simp_all)
  then show ?thesis using entries_same [OF assms(5)] by (simp add: at_rest_def)
qed

lemma calm_at_rest: "calm h h' \<Longrightarrow> heap_inv own (allocs h) (releases h) h' \<Longrightarrow> at_rest own h'"
  using entries_same [of h' h] by (simp add: calm_def at_rest_def)

lemma calm_settled: "calm h h' \<Longrightarrow> settled h h'"
  by (simp add: calm_def kept_settled)

lemma settled_side: "settled h h' \<Longrightarrow> side_ok h \<Longrightarrow> side_ok h'"
  by (simp add: settled_def framed_def)

lemma retire_inv:
  assumes inv: "at_rest own h" and s: "side_ok h" and o: "own (srRegion ref) (srSlot ref) = Some HandDead"
  shows "\<exists>own'. at_rest own' (retire os t ref h) \<and> held own' HandFree = held own HandFree \<and>
    held own' HandDead = held own HandDead - {(srRegion ref, srSlot ref)} \<and> settled h (retire os t ref h) \<and>
    (hpMem (retire os t ref h) = hpMem h \<or>
     hpMem (retire os t ref h) = decommit os (pageBytes h) (hpMem h) (srBase ref) (word_of_nat (clSize (hpTable h (srRegion ref)))))"
proof -
  let ?r = "srRegion ref" let ?s = "srSlot ref" let ?n = "clSize (hpTable h ?r)"
  define h1 where "h1 = shadowDead (srBase ref) (word_of_nat ?n) h"
  define h2 where "h2 = (if ?n \<ge> WeavecRtDecommitBytes
    then h1\<lparr>hpMem := decommit os (pageBytes h1) (hpMem h1) (srBase ref) (word_of_nat ?n)\<rparr> else h1)"
  define h3 where "h3 = queueDead ?r ?s h2"
  define h4 where "h4 = addLive (- int ?n) (addQuarantine (regionClass h3 ?r) (word_of_nat ?n) h3)"
  have e: "retire os t ref h = sweepIfDue os t h4"
    by (simp add: retire_def h1_def h2_def h3_def h4_def Let_def)
  have g2: "hpRegion h2 = hpRegion h" "hpWords h2 = hpWords h" "geom h2 = geom h" "classActive h2 = classActive h" "cacheOf h2 = cacheOf h"
    by (simp_all add: h2_def h1_def)
  have a2: "at_rest own h2" using inv at_rest_counters [OF g2(3,4,2,1,5)] by simp
  have s2: "settled h h2"
  proof -
    have "settled h h1" unfolding h1_def by (rule calm_settled) simp
    then show ?thesis using settled_trans [OF _ settled_mem] by (simp add: h2_def)
  qed
  note q = queueDead_inv [OF at_rest_inv [OF a2] o]
  let ?own = "give own ?r ?s (Some DeadList)"
  have a3: "at_rest ?own h3" using q calm_at_rest unfolding h3_def by blast
  have "calm h3 h4" unfolding h4_def by (rule calm_trans [OF calm_counters(2) calm_counters(1)])
  then have s4: "settled h h4" using settled_trans [OF s2 settled_trans [OF calm_settled calm_settled]] q unfolding h3_def by blast
  have a4: "at_rest ?own h4"
    by (rule calm_at_rest [OF \<open>calm h3 h4\<close>]) (use a3 in \<open>simp add: h4_def at_rest_def\<close>)
  obtain own' where own': "at_rest own' (sweepIfDue os t h4)" "hands own' = hands ?own" "kept h4 (sweepIfDue os t h4)"
    using sweepIfDue_inv [OF a4 settled_side [OF s4 s]] by blast
  have "hpMem h4 = hpMem h2" using q \<open>calm h3 h4\<close> by (simp add: calm_def kept_def h3_def)
  then have "hpMem (retire os t ref h) = hpMem h2" using own'(3) e by (simp add: kept_def)
  moreover have "hpMem h2 = hpMem h \<or> hpMem h2 = decommit os (pageBytes h) (hpMem h) (srBase ref) (word_of_nat ?n)"
    by (simp add: h2_def h1_def)
  moreover have "held own' HandFree = held own HandFree" "held own' HandDead = held own HandDead - {(?r, ?s)}"
    using own'(2) o held_not [of own ?r ?s HandFree] by (simp_all add: hands_def held_give)
  moreover have "settled h (retire os t ref h)" unfolding e by (rule settled_trans [OF s4 kept_settled [OF own'(3)]])
  ultimately show ?thesis using own'(1) unfolding e [symmetric] by auto
qed

lemma cachedRelease_inv:
  assumes inv: "at_rest own h" and s: "side_ok h" and o: "own (srRegion ref) (srSlot ref) = Some HandDead"
    and hc: "cacheOf h t = HasCache tc" and c: "regionClass h (srRegion ref) = c" "c < cachedClasses h"
  shows "\<exists>own'. at_rest own' (cachedRelease os t c ref h) \<and> held own' HandFree = held own HandFree \<and>
    held own' HandDead = held own HandDead - {(srRegion ref, srSlot ref)} \<and> kept h (cachedRelease os t c ref h)"
proof -
  let ?r = "srRegion ref" let ?s = "srSlot ref" let ?e = "slotEntry ?r ?s True"
  define h1 where "h1 = shadowDead (srBase ref) (word_of_nat (clSize (hpTable h c))) h"
  define d where "d = tcLiveDelta tc - int (clSize (hpTable h c))"
  define es where "es = tcRelease tc c @ [?e]"
  define h2 where "h2 = setCache t (tc\<lparr>tcRelease := (tcRelease tc)(c := es), tcLiveDelta := d\<rparr>) h1"
  define h3 where "h3 = (if d \<le> - FoldBytes then foldLive t h2 else h2)"
  have hc1: "cacheOf h1 t = HasCache tc" using hc by (simp add: h1_def)
  have e: "cachedRelease os t c ref h = (if length es = tcLimit tc c then sweepIfDue os t (flushReleases t c False h3) else h3)"
    using hc1 by (simp add: cachedRelease_def h1_def h2_def h3_def d_def es_def Let_def hc)
  have n: "own ?r ?s \<noteq> None" using o by simp
  have r: "?r < hpRegions h" by (rule placed_region [OF at_rest_inv [OF inv] n])
  have sb: "?s < 2 ^ 27" using placed_bump [OF heap_inv_slots [OF at_rest_inv [OF inv] r] n] by simp
  have en: "entryOf ?e = (?r, ?s)" using entryOf_slotEntry [OF region_number [OF at_rest_inv [OF inv] r] sb] .
  let ?own = "give own ?r ?s (Some (ReleaseCache t c))"
  have a1: "at_rest own h1" using inv at_rest_counters [of h1 h] by (simp add: h1_def)
  have "regionClass h1 ?r = c" "cachedClasses h1 = cachedClasses h" using c geomD [of h1 h] by (simp_all add: h1_def)
  then have p: "heap_inv ?own (allocs h1) (upd2 (releases h1) t c (releases h1 t c @ [?e])) h1"
    using put_release [OF at_rest_inv [OF a1] o _ _ en] c by simp
  have "allocs h2 = allocs h1" "releases h2 = upd2 (releases h1) t c es"
    using entries_own [OF hc1] by (auto simp: h2_def allocs_set releases_set fun_eq_iff upd2_if)
  then have a2: "at_rest ?own h2" using p entries_own [OF hc1] by (simp add: at_rest_def h2_def es_def)
  have k2: "kept h h2"
  proof -
    have "kept h h1" using calm_counters(3) by (simp add: h1_def calm_def)
    moreover have "kept h1 h2" unfolding h2_def by (rule thread_kept [OF kept_setCache [OF hc1]]) (simp add: nesting_def)
    ultimately show ?thesis by (rule kept_trans)
  qed
  have hc2: "cacheOf h2 t = HasCache (tc\<lparr>tcRelease := (tcRelease tc)(c := es), tcLiveDelta := d\<rparr>)" by (simp add: h2_def)
  have f: "at_rest ?own h3" "thread_step t h2 h3" using foldLive_inv [OF a2 hc2] a2 by (auto simp: h3_def)
  have k3: "kept h h3" by (rule kept_trans [OF k2 thread_kept [OF f(2)]])
  have hh: "held ?own HandFree = held own HandFree" "held ?own HandDead = held own HandDead - {(?r, ?s)}"
    using o held_not [of own ?r ?s HandFree] by (simp_all add: held_give)
  show ?thesis
  proof (cases "length es = tcLimit tc c")
    case False
    then show ?thesis using e f(1) k3 hh by auto
  next
    case True
    obtain tc3 where tc3: "cacheOf h3 t = HasCache tc3" using thread_step_cache [OF f(2) hc2] by blast
    obtain own4 where o4: "at_rest own4 (flushReleases t c False h3)" "hands own4 = hands ?own" "thread_step t h3 (flushReleases t c False h3)"
      using flushReleases_inv [OF f(1) tc3] by blast
    have k4: "kept h (flushReleases t c False h3)" by (rule kept_trans [OF k3 thread_kept [OF o4(3)]])
    have "side_ok (flushReleases t c False h3)" using settled_side [OF kept_settled [OF k4] s] .
    then obtain own5 where o5: "at_rest own5 (sweepIfDue os t (flushReleases t c False h3))" "hands own5 = hands own4"
        "kept (flushReleases t c False h3) (sweepIfDue os t (flushReleases t c False h3))"
      using sweepIfDue_inv [OF o4(1)] by blast
    have "hands own5 = hands ?own" using o4(2) o5(2) by simp
    then have "held own5 HandFree = held own HandFree" "held own5 HandDead = held own HandDead - {(?r, ?s)}"
      using hh by (simp_all add: hands_def)
    then show ?thesis using e True o5(1) kept_trans [OF k4 o5(3)] by auto
  qed
qed

end
