(* ===== verification/Alloc_Owned.thy ===== *)
theory Alloc_Owned
  imports Alloc_Release
begin

text \<open>
  The blocks the program has, as the map \<open>ownedSize\<close> from their addresses to their sizes: what an
  allocation, a release and the steps between them do to it.
\<close>

subsection \<open>The live huge blocks\<close>

lemma huge_wf_block:
  assumes "huge_wf h" "b \<in> set (hugeBlocks h)"
  shows "huge_holds b (hbBase b)" "unat (hbBase b) + unat (hbSize b) \<le> unat (hbMap b) + unat (hbMapBytes b)"
    "unat (hbMap b) + unat (hbMapBytes b) < 2 ^ 64" "unat (hbMap b) \<le> unat (hbBase b)"
  using assms by (auto simp: huge_wf_def huge_holds_def huge_sorted_def word_le_nat_alt)

lemma hugeLive_block:
  "(p, n, m, k) \<in> set (hugeLive h) \<longleftrightarrow>
     (\<exists>b \<in> set (hugeBlocks h). hbDead b = 0 \<and> hbBase b = p \<and> hbSize b = n \<and> hbMap b = m \<and> hbMapBytes b = k)"
  by (auto simp: hugeLive_def)

lemma holds_same:
  assumes "huge_wf h" "b \<in> set (hugeBlocks h)" "b' \<in> set (hugeBlocks h)" "huge_holds b a" "huge_holds b' a"
  shows "b = b'"
proof -
  obtain i j where "i < length (hugeBlocks h)" "b = hugeBlocks h ! i" "j < length (hugeBlocks h)" "b' = hugeBlocks h ! j"
    using assms(2,3) by (auto simp: in_set_conv_nth)
  then show ?thesis using huge_holds_unique [of "hugeBlocks h" i j a] assms by (simp add: huge_wf_def)
qed

lemma hugeLive_unique:
  assumes "huge_wf h" "(p, n, m, k) \<in> set (hugeLive h)" "(p, n', m', k') \<in> set (hugeLive h)"
  shows "n' = n \<and> m' = m \<and> k' = k"
proof -
  obtain b b' where b: "b \<in> set (hugeBlocks h)" "hbBase b = p" "hbSize b = n" "hbMap b = m" "hbMapBytes b = k"
      "b' \<in> set (hugeBlocks h)" "hbBase b' = p" "hbSize b' = n'" "hbMap b' = m'" "hbMapBytes b' = k'"
    using assms(2,3) by (auto simp: hugeLive_block)
  then have "b = b'" using holds_same [OF assms(1) b(1,6), of p] huge_wf_block(1) [OF assms(1)] by metis
  then show ?thesis using b by simp
qed

lemma hugeLive_outside:
  assumes "side_ok h" "hpBytes h \<le> 2 ^ 63" "unat (hpBase h) + unat (hpBytes h) < 2 ^ 64" "(p, n, m, k) \<in> set (hugeLive h)"
  shows "\<not> inArena h p" "unat m \<le> unat p" "unat p + unat n \<le> unat m + unat k"
    "unat m + unat k \<le> unat (hpBase h) \<or> unat (hpBase h) + unat (hpBytes h) \<le> unat m"
proof -
  obtain b where b: "b \<in> set (hugeBlocks h)" "hbBase b = p" "hbSize b = n" "hbMap b = m" "hbMapBytes b = k"
    using assms(4) by (auto simp: hugeLive_block)
  have w: "huge_wf h" "outside_arena h b" using assms(1) b(1) by (simp_all add: side_ok_def)
  note f = huge_wf_block [OF w(1) b(1)]
  show "unat m \<le> unat p" "unat p + unat n \<le> unat m + unat k"
    "unat m + unat k \<le> unat (hpBase h) \<or> unat (hpBase h) + unat (hpBytes h) \<le> unat m"
    using f(2,4) w(2) b by (simp_all add: outside_arena_def)
  have "unat p < unat (hpBase h) \<or> unat (hpBase h) + unat (hpBytes h) \<le> unat p"
    using f(1,4) w(2) b by (auto simp: huge_holds_def outside_arena_def)
  then show "\<not> inArena h p"
    using assms(3) unsigned_less [of p] by (auto simp: inArena_def word_less_nat_alt unat_sub_if')
qed

subsection \<open>The map of the blocks\<close>

text \<open>The address of a live slot is its block's; the slots of a class are apart.\<close>

lemma arena_end: "at_rest own h \<Longrightarrow> unat (hpBase h) + unat (hpBytes h) < 2 ^ 64 \<and> hpBytes h \<le> 2 ^ 63 \<and> hpBytes h \<noteq> 0"
proof -
  assume "at_rest own h"
  then have inv: "heap_inv own (allocs h) (releases h) h" by (rule at_rest_inv)
  then have "0 < hpRegions h" by (auto simp: heap_inv_def arena_ok_def)
  note f = arena_facts [OF inv this]
  have b: "unat (hpBase h) + unat (hpBytes h) \<le> 2 ^ 63" using f(4,6) by simp
  then have "unat (hpBytes h) \<le> unat (2 ^ 63 :: u64)" by (simp add: unat_pow2)
  then have "hpBytes h \<le> 2 ^ 63" by (simp only: word_le_nat_alt)
  moreover have "unat (hpBytes h) \<noteq> 0" using f(6) by simp
  then have "hpBytes h \<noteq> 0" by (intro notI) simp
  ultimately show ?thesis using b by simp
qed

lemma ownedSize_arena:
  assumes inv: "at_rest own h" and p: "inArena h p"
  shows "ownedSize h p = Some n \<longleftrightarrow> (\<exists>r s. liveMap h (r, s) = Some (unat n) \<and> p = slotBase h r s)"
proof -
  note b = blockAt_exact [OF at_rest_inv [OF inv], of p]
  let ?r = "srRegion (slotOf h p)" let ?s = "srSlot (slotOf h p)"
  have lt: "weavecRtWordValue w < 2 ^ 64" for w
  proof -
    have "unat (drop_bit 2 w) < 2 ^ 32" using unsigned_less [of "drop_bit 2 w"] by simp
    then show ?thesis by (simp add: weavecRtWordValue_def)
  qed
  show ?thesis
  proof (cases "blockAt h p")
    case None
    then have "ownedSize h p = None" using p by (auto simp: blockAt_def ownedSize_def Let_def)
    moreover have "\<not> (\<exists>r s. liveMap h (r, s) = Some (unat n) \<and> p = slotBase h r s)"
      using None b by (metis option.distinct(1))
    ultimately show ?thesis by simp
  next
    case (Some rs)
    then have bs: "blockAt h p = Some (?r, ?s)" by (simp add: blockAt_def split: if_splits)
    then have l: "srBase (slotOf h p) = p" "wordState (wordOf h (slotOf h p)) = WeavecRtLive" by (simp_all add: blockAt_def split: if_splits)
    have o: "ownedSize h p = Some (word_of_nat (weavecRtWordValue (hpWords h ?r ?s)))"
      using l p by (simp add: ownedSize_def Let_def wordOf_def)
    have m: "liveMap h (?r, ?s) = Some (weavecRtWordValue (hpWords h ?r ?s))" using l(2) by (simp add: liveMap_def wordOf_def)
    have u: "r = ?r \<and> s = ?s" if "liveMap h (r, s) = Some k" "p = slotBase h r s" for r s k
    proof -
      have "blockAt h p = Some (r, s)" using b [of r s] that by simp
      then show ?thesis using bs by simp
    qed
    have "p = slotBase h ?r ?s" using b [of ?r ?s] bs by simp
    moreover have "word_of_nat (weavecRtWordValue w) = n \<longleftrightarrow> weavecRtWordValue w = unat n" for w
      using lt [of w] by (simp add: word_unat_eq_iff unsigned_of_nat take_bit_nat_eq_self)
    ultimately show ?thesis using o m u by (metis option.inject)
  qed
qed

lemma ownedSize_huge:
  assumes inv: "at_rest own h" and s: "side_ok h" and p: "\<not> inArena h p"
  shows "ownedSize h p = Some n \<longleftrightarrow> (\<exists>m k. (p, n, m, k) \<in> set (hugeLive h))"
proof -
  have w: "huge_wf h" using s by (simp add: side_ok_def)
  have "ownedSize h p = Some n \<longleftrightarrow> (\<exists>b. hugeFind h p = Some b \<and> hbBase b = p \<and> hbDead b = 0 \<and> hbSize b = n)"
    using p by (auto simp: ownedSize_def split: option.splits)
  also have "\<dots> \<longleftrightarrow> (\<exists>b \<in> set (hugeBlocks h). hbBase b = p \<and> hbDead b = 0 \<and> hbSize b = n)"
    using hugeFind_holds [OF w] huge_wf_block(1) [OF w] by blast
  finally show ?thesis by (auto simp: hugeLive_block)
qed

lemma slot_in:
  assumes "at_rest own h" "liveMap h (r, s) = Some n"
  shows "inArena h (slotBase h r s)"
proof -
  note o = live_owner [OF at_rest_inv [OF assms(1)] assms(2)]
  show ?thesis using slotOf_slot(1) [OF at_rest_inv [OF assms(1)] o(1,3), of 0] slot_inside(2) [OF at_rest_inv [OF assms(1)] o(1,3)] by simp
qed

theorem ownedSize_iff:
  assumes inv: "at_rest own h" and s: "side_ok h"
  shows "ownedSize h p = Some n \<longleftrightarrow>
    (\<exists>r s. liveMap h (r, s) = Some (unat n) \<and> p = slotBase h r s) \<or> (\<exists>m k. (p, n, m, k) \<in> set (hugeLive h))"
proof (cases "inArena h p")
  case True
  have "(p, n, m, k) \<notin> set (hugeLive h)" for m k using hugeLive_outside(1) [OF s] arena_end [OF inv] True by blast
  then show ?thesis using ownedSize_arena [OF inv True] by simp
next
  case False
  have "\<not> (\<exists>r s. liveMap h (r, s) = Some (unat n) \<and> p = slotBase h r s)" using slot_in [OF inv] False by metis
  then show ?thesis unfolding ownedSize_huge [OF inv s False] by blast
qed

lemma slotBase_framed:
  assumes "framed h h'" "r < hpRegions h"
  shows "slotBase h' r s = slotBase h r s"
  using assms by (simp add: framed_def slotBase_def regionStart_def)

text \<open>A block comes or goes, or nothing changes.\<close>

lemma ownedSize_settled:
  assumes a: "at_rest own h" "side_ok h" "at_rest own' h'" and k: "settled h h'"
  shows "ownedSize h' = ownedSize h"
proof -
  have s': "side_ok h'" by (rule settled_side [OF k a(2)])
  have k': "framed h h'" "liveMap h' = liveMap h" "hugeLive h' = hugeLive h" using k by (simp_all add: settled_def)
  have "ownedSize h' p = Some n \<longleftrightarrow> ownedSize h p = Some n" for p n
  proof -
    have "slotBase h' r s = slotBase h r s" if "liveMap h (r, s) = Some i" for r s i
      by (rule slotBase_framed [OF k'(1) live_owner(1) [OF at_rest_inv [OF a(1)] that]])
    then show ?thesis unfolding ownedSize_iff [OF a(1,2)] ownedSize_iff [OF a(3) s'] k'(2,3) by metis
  qed
  then show ?thesis by (metis ext not_Some_eq)
qed

end
