(* ===== verification/Alloc_Free.thy ===== *)
theory Alloc_Free
  imports Alloc_Owned
begin

text \<open>
  A release takes exactly the block it names: of a slot, of a huge block, and what is refused. The blocks of
  the program are apart.
\<close>

subsection \<open>A block more\<close>

lemma owned_update:
  assumes "\<And>p n. f' p = Some n \<longleftrightarrow> (if p = b then n = sz else f p = Some n)"
  shows "f' = f(b \<mapsto> sz)"
proof (rule ext)
  fix p
  have "f' p = Some n \<longleftrightarrow> (f(b \<mapsto> sz)) p = Some n" for n using assms [of p n] by auto
  then show "f' p = (f(b \<mapsto> sz)) p" by (metis not_Some_eq)
qed

lemma same_arena: "framed h h' \<Longrightarrow> inArena h' p = inArena h p"
  by (simp add: framed_def inArena_def)

lemma slot_owned:
  assumes a: "at_rest own h" "side_ok h" "at_rest own' h'" "side_ok h'"
    and k: "framed h h'" "hugeLive h' = hugeLive h" and l: "liveMap h' = (liveMap h)((r, s) \<mapsto> unat sz)"
  shows "ownedSize h' = (ownedSize h)(slotBase h' r s \<mapsto> sz)"
proof (rule owned_update)
  fix p x
  let ?b = "slotBase h' r s"
  note i = ownedSize_iff [OF a(1,2)] and i' = ownedSize_iff [OF a(3,4)]
  have base: "slotBase h' r' q = slotBase h r' q" if "liveMap h (r', q) = Some x" for r' q x
    by (rule slotBase_framed [OF k(1) live_owner(1) [OF at_rest_inv [OF a(1)] that]])
  show "ownedSize h' p = Some x \<longleftrightarrow> (if p = ?b then x = sz else ownedSize h p = Some x)"
  proof (cases "p = ?b")
    case True
    have "ownedSize h' ?b = Some sz" using i' l by fastforce
    then show ?thesis using True by auto
  next
    case False
    have "(\<exists>r' q. liveMap h' (r', q) = Some (unat x) \<and> p = slotBase h' r' q) \<longleftrightarrow>
        (\<exists>r' q. liveMap h (r', q) = Some (unat x) \<and> p = slotBase h r' q)"
    proof
      assume "\<exists>r' q. liveMap h' (r', q) = Some (unat x) \<and> p = slotBase h' r' q"
      then obtain r' q where x: "liveMap h' (r', q) = Some (unat x)" "p = slotBase h' r' q" by blast
      then have "(r', q) \<noteq> (r, s)" using False by auto
      then have l: "liveMap h (r', q) = Some (unat x)" using x(1) unfolding l by (auto split: if_splits)
      show "\<exists>r' q. liveMap h (r', q) = Some (unat x) \<and> p = slotBase h r' q" using l x(2) base [OF l] by auto
    next
      assume "\<exists>r' q. liveMap h (r', q) = Some (unat x) \<and> p = slotBase h r' q"
      then obtain r' q where x: "liveMap h (r', q) = Some (unat x)" "p = slotBase h r' q" by blast
      then have "(r', q) \<noteq> (r, s)" using False base [OF x(1)] by auto
      then have "liveMap h' (r', q) = Some (unat x)" using x(1) unfolding l by (auto split: if_splits)
      then show "\<exists>r' q. liveMap h' (r', q) = Some (unat x) \<and> p = slotBase h' r' q" using x base [OF x(1)]
        by (intro exI [of _ r'] exI [of _ q]) simp
    qed
    then show ?thesis unfolding i i' k(2) using False by simp
  qed
qed

lemma newSlot_owned:
  assumes a: "at_rest own h" "side_ok h" "at_rest own' h'" and n: "newSlot h c sz h' b"
  shows "ownedSize h b = None" "ownedSize h' = (ownedSize h)(b \<mapsto> sz)" "side_ok h'"
proof -
  obtain r s where rs: "liveMap h (r, s) = None" "liveMap h' = (liveMap h)((r, s) \<mapsto> unat sz)" "b = slotBase h' r s"
    and k: "framed h h'" "hugeLive h' = hugeLive h" using n by (auto simp: newSlot_def)
  show s': "side_ok h'" using k(1) a(2) by (simp add: framed_def)
  show "ownedSize h' = (ownedSize h)(b \<mapsto> sz)" using slot_owned [OF a s' k rs(2)] rs(3) by simp
  have base: "slotBase h' r' q = slotBase h r' q" if "liveMap h (r', q) = Some x" for r' q x
    by (rule slotBase_framed [OF k(1) live_owner(1) [OF at_rest_inv [OF a(1)] that]])
  have one: "(r', q) = (r, s)" if "liveMap h' (r', q) \<noteq> None" "slotBase h' r' q = b" for r' q
    using blockAt_exact [OF at_rest_inv [OF a(3)], of b] that rs by (metis fun_upd_same option.distinct(1) option.inject)
  have arena: "inArena h b" using slot_in [OF a(3), of r s] rs same_arena [OF k(1)] by simp
  have no: "(b, x, m, y) \<notin> set (hugeLive h)" for x m y using hugeLive_outside(1) [OF a(2)] arena_end [OF a(1)] arena by blast
  show "ownedSize h b = None"
  proof (rule ccontr)
    assume "ownedSize h b \<noteq> None"
    then obtain x where "ownedSize h b = Some x" by auto
    then obtain r' q where "liveMap h (r', q) = Some (unat x)" "b = slotBase h r' q" using ownedSize_iff [OF a(1,2)] no by blast
    moreover from this have "(r', q) = (r, s)" by (intro one) (simp_all add: base rs(2))
    ultimately show False using rs(1) by simp
  qed
qed

lemma newHuge_owned:
  assumes a: "at_rest own h" "side_ok h" "at_rest own' h'" and n: "newHuge h sz al h' b"
  shows "ownedSize h b = None" "ownedSize h' = (ownedSize h)(b \<mapsto> sz)" "side_ok h'"
proof -
  obtain mp where k: "framed h h'" "liveMap h' = liveMap h"
      and l: "set (hugeLive h') = insert (b, sz, mp, hugeSpan h sz (hugeAlign h al)) (set (hugeLive h))"
      and d: "\<forall>(_, _, m, n) \<in> set (hugeLive h). unat mp + unat (hugeSpan h sz (hugeAlign h al)) \<le> unat m \<or> unat m + unat n \<le> unat mp"
    using n by (auto simp: newHuge_def)
  let ?n = "hugeSpan h sz (hugeAlign h al)"
  show s': "side_ok h'" using k(1) a(2) by (simp add: framed_def)
  note i = ownedSize_iff [OF a(1,2)] and i' = ownedSize_iff [OF a(3) s']
  have w: "huge_wf h'" using s' by (simp add: side_ok_def)
  have base: "slotBase h' r' q = slotBase h r' q" if "liveMap h (r', q) = Some x" for r' q x
    by (rule slotBase_framed [OF k(1) live_owner(1) [OF at_rest_inv [OF a(1)] that]])
  have arena: "\<not> inArena h b" using hugeLive_outside(1) [OF s'] arena_end [OF a(3)] l same_arena [OF k(1)] by blast
  have no: "(b, x, m, y) \<notin> set (hugeLive h)" for x m y
  proof
    assume m: "(b, x, m, y) \<in> set (hugeLive h)"
    then have "x = sz \<and> m = mp \<and> y = ?n" using hugeLive_unique [OF w, of b sz mp ?n x m y] l by simp
    then have "unat ?n = 0" using d m by auto
    moreover obtain c where "c \<in> set (hugeBlocks h')" "hbMap c = mp" "hbMapBytes c = ?n" "hbBase c = b"
      using l hugeLive_block [of b sz mp ?n h'] by auto
    then have "0 < unat ?n" using huge_wf_block(1) [OF w] by (fastforce simp: huge_holds_def)
    ultimately show False by simp
  qed
  show none: "ownedSize h b = None"
  proof (rule ccontr)
    assume "ownedSize h b \<noteq> None"
    then obtain x where "ownedSize h b = Some x" by auto
    then obtain r' q where "liveMap h (r', q) = Some (unat x)" "b = slotBase h r' q" using i no by blast
    then show False using slot_in [OF a(1)] arena by simp
  qed
  show "ownedSize h' = (ownedSize h)(b \<mapsto> sz)"
  proof (rule owned_update)
    fix p and x :: u64
    have s: "(\<exists>r' q. liveMap h' (r', q) = Some (unat x) \<and> p = slotBase h' r' q) \<longleftrightarrow>
        (\<exists>r' q. liveMap h (r', q) = Some (unat x) \<and> p = slotBase h r' q)"
      unfolding k(2) using base by metis
    show "ownedSize h' p = Some x \<longleftrightarrow> (if p = b then x = sz else ownedSize h p = Some x)"
    proof (cases "p = b")
      case True
      have "ownedSize h' b = Some sz" using i' l by blast
      then show ?thesis using True by auto
    next
      case False
      then show ?thesis unfolding i i' l s by auto
    qed
  qed
qed

subsection \<open>A huge block is released\<close>

lemma sorted_marks:
  assumes "i < length bs" "hbMap b' = hbMap (bs ! i)" "hbMapBytes b' = hbMapBytes (bs ! i)"
  shows "huge_sorted (bs[i := b']) = huge_sorted bs"
proof -
  have s: "huge_sorted xs = (sorted_wrt (\<lambda>(m, n) (m', _). unat m + unat n \<le> unat m') (map (\<lambda>b. (hbMap b, hbMapBytes b)) xs) \<and>
      (\<forall>(m, n) \<in> set (map (\<lambda>b. (hbMap b, hbMapBytes b)) xs). 0 < n \<and> unat m + unat n < 2 ^ 64))" for xs
    by (auto simp: huge_sorted_def sorted_wrt_map)
  have "map (\<lambda>b. (hbMap b, hbMapBytes b)) (bs[i := b']) = map (\<lambda>b. (hbMap b, hbMapBytes b)) bs"
    using assms by (simp add: map_update list_update_same_conv)
  then show ?thesis by (simp only: s)
qed

lemma hugeFree_found:
  assumes w: "huge_wf h"
  shows "fst (hugeFree os p h) \<longleftrightarrow> (\<exists>n m k. (p, n, m, k) \<in> set (hugeLive h))"
    "snd (hugeFree os p h) = h \<or> fst (hugeFree os p h)"
proof -
  let ?i = "hugeIndex (hugeBlocks h) p" let ?b = "hugeBlocks h ! nat ?i"
  have s: "huge_sorted (hugeBlocks h)" using w by (simp add: huge_wf_def)
  have f: "fst (hugeFree os p h) \<longleftrightarrow> maybeHuge h p \<and> 0 \<le> ?i \<and> hbBase ?b = p \<and> hbDead ?b = 0"
    by (simp add: hugeFree_def Let_def)
  have len: "nat ?i < length (hugeBlocks h)" if "0 \<le> ?i"
    using that hugeSearch_exact(1) [OF s, of p] by (simp add: hugeIndex_def)
  show "fst (hugeFree os p h) \<longleftrightarrow> (\<exists>n m k. (p, n, m, k) \<in> set (hugeLive h))"
  proof
    assume "fst (hugeFree os p h)"
    then have "?b \<in> set (hugeBlocks h)" "hbBase ?b = p" "hbDead ?b = 0" using f len by auto
    then show "\<exists>n m k. (p, n, m, k) \<in> set (hugeLive h)" by (auto simp: hugeLive_block)
  next
    assume "\<exists>n m k. (p, n, m, k) \<in> set (hugeLive h)"
    then obtain b where b: "b \<in> set (hugeBlocks h)" "hbBase b = p" "hbDead b = 0" by (auto simp: hugeLive_block)
    then obtain j where j: "j < length (hugeBlocks h)" "b = hugeBlocks h ! j" by (auto simp: in_set_conv_nth)
    have hb: "huge_holds b p" using huge_wf_block(1) [OF w b(1)] b(2) by simp
    then have "?i = int j" using hugeIndex_holds [OF s] j by blast
    moreover have "maybeHuge h p"
      using w b(1) hb by (force simp: huge_wf_def maybeHuge_def huge_holds_def word_le_nat_alt word_less_nat_alt)
    ultimately show "fst (hugeFree os p h)" using f b j by simp
  qed
  show "snd (hugeFree os p h) = h \<or> fst (hugeFree os p h)" by (auto simp: hugeFree_def Let_def)
qed

lemma hugeFree_inv:
  assumes inv: "at_rest own h" and s: "side_ok h" and f: "hugeFree os p h = (True, h')"
  shows "at_rest own h'" "framed h h'" "liveMap h' = liveMap h" "hpMem h' = hpMem h"
    "set (hugeLive h') = {(q, n, m, k) \<in> set (hugeLive h). q \<noteq> p}"
proof -
  have w: "huge_wf h" "\<forall>b \<in> set (hugeBlocks h). outside_arena h b" using s by (simp_all add: side_ok_def)
  have sd: "huge_sorted (hugeBlocks h)" using w(1) by (simp add: huge_wf_def)
  define i where "i = nat (hugeIndex (hugeBlocks h) p)"
  define b where "b = hugeBlocks h ! i"
  define b' where "b' = b\<lparr>hbDead := hugeReleases h + 1\<rparr>"
  have m: "maybeHuge h p" "0 \<le> hugeIndex (hugeBlocks h) p" "hbBase b = p" "hbDead b = 0"
    using f by (simp_all add: hugeFree_def Let_def i_def b_def split: if_splits)
  have i: "i < length (hugeBlocks h)" using m(2) hugeSearch_exact(1) [OF sd, of p] by (simp add: i_def hugeIndex_def)
  obtain sh where h': "h' = h\<lparr>hugeReleases := hugeReleases h + 1, hugeBlocks := (hugeBlocks h)[i := b'], hpShadow := sh,
      hugeDeadCount := hugeDeadCount h + 1, hugeDeadBytes := hugeDeadBytes h + hbSize b\<rparr>"
  proof (rule that [of "hpShadow h'"])
    show "h' = h\<lparr>hugeReleases := hugeReleases h + 1, hugeBlocks := (hugeBlocks h)[i := b'], hpShadow := hpShadow h',
        hugeDeadCount := hugeDeadCount h + 1, hugeDeadBytes := hugeDeadBytes h + hbSize b\<rparr>"
      using f m unfolding i_def b_def b'_def by (auto simp: hugeFree_def Let_def shadowDead_def shadowSet_def split: if_splits)
  qed
  have same: "geom h' = geom h" "hpWords h' = hpWords h" "hpRegion h' = hpRegion h" "cacheOf h' = cacheOf h" "caches h' = caches h"
      "classActive h' = classActive h" by (simp_all add: h' geom_def)
  show "at_rest own h'" using inv at_rest_counters [OF same(1,6,2,3,4)] by simp
  show "liveMap h' = liveMap h" by (rule liveMap_words [OF same(2)])
  show "hpMem h' = hpMem h" by (simp add: h')
  have split: "hugeBlocks h = take i (hugeBlocks h) @ b # drop (Suc i) (hugeBlocks h)" using id_take_nth_drop [OF i] by (simp add: b_def)
  have split': "hugeBlocks h' = take i (hugeBlocks h) @ b' # drop (Suc i) (hugeBlocks h)" using i by (simp add: h' upd_conv_take_nth_drop)
  have key: "hbMap b' = hbMap b" "hbMapBytes b' = hbMapBytes b" "hbBase b' = hbBase b" "hbSize b' = hbSize b" "hbDead b' \<noteq> 0"
    by (simp_all add: b'_def)
  have set': "x \<in> set (hugeBlocks h') \<Longrightarrow> x = b' \<or> x \<in> set (hugeBlocks h)" for x
    unfolding h' using set_update_subset_insert [of "hugeBlocks h" i b'] by auto
  have bin: "b \<in> set (hugeBlocks h)" using i by (simp add: b_def)
  have "huge_sorted (hugeBlocks h')" using sorted_marks [OF i, of b'] sd key by (simp add: h' b_def)
  moreover have "hugeDeadCount h' = length (filter (\<lambda>b. hbDead b \<noteq> 0) (hugeBlocks h'))"
  proof -
    have "hugeDeadCount h = length (filter (\<lambda>b. hbDead b \<noteq> 0) (take i (hugeBlocks h) @ b # drop (Suc i) (hugeBlocks h)))"
      using w(1) split by (simp add: huge_wf_def)
    then show ?thesis unfolding split' using m(4) key(5) by (simp add: h')
  qed
  moreover have "unat (hugeLow h) \<le> unat (hbMap x) \<and> unat (hbMap x) + unat (hbMapBytes x) \<le> unat (hugeHigh h) \<and>
      hbMap x \<le> hbBase x \<and> unat (hbBase x) + unat (hbSize x) \<le> unat (hbMap x) + unat (hbMapBytes x) \<and>
      unat (hbBase x) < unat (hbMap x) + unat (hbMapBytes x)" if x: "x \<in> set (hugeBlocks h')" for x
  proof (cases "x = b'")
    case True
    then show ?thesis using w(1) bin unfolding huge_wf_def by (simp add: key)
  next
    case False
    then have "x \<in> set (hugeBlocks h)" using set' [OF x] by simp
    then show ?thesis using w(1) unfolding huge_wf_def by simp
  qed
  ultimately have "huge_wf h'" unfolding huge_wf_def by (simp add: h')
  moreover have "\<forall>x \<in> set (hugeBlocks h'). outside_arena h' x" using w(2) set' bin key by (fastforce simp: outside_arena_def h')
  moreover have "marks_clear h' = marks_clear h" "threads_ok h' = threads_ok h" by (simp_all only: marks_clear_def threads_ok_def same)
  ultimately have side: "side_ok h'" using s by (simp add: side_ok_def)
  show "framed h h'" using side by (auto simp: framed_def h')
  show "set (hugeLive h') = {(q, n, m, k) \<in> set (hugeLive h). q \<noteq> p}"
  proof -
    let ?f = "\<lambda>b. (hbBase b, hbSize b, hbMap b, hbMapBytes b)"
    let ?L = "\<lambda>xs. ?f ` set (filter (\<lambda>b. hbDead b = 0) xs)"
    have live: "set (hugeLive h) = insert (?f b) (?L (take i (hugeBlocks h)) \<union> ?L (drop (Suc i) (hugeBlocks h)))"
    proof -
      have "set (hugeLive h) = ?L (take i (hugeBlocks h) @ b # drop (Suc i) (hugeBlocks h))"
        unfolding hugeLive_def split [symmetric] by simp
      also have "\<dots> = insert (?f b) (?L (take i (hugeBlocks h)) \<union> ?L (drop (Suc i) (hugeBlocks h)))"
        using m(4) by (simp add: image_Un)
      finally show ?thesis .
    qed
    have live': "set (hugeLive h') = ?L (take i (hugeBlocks h)) \<union> ?L (drop (Suc i) (hugeBlocks h))"
      using key(5) unfolding hugeLive_def split' by (simp add: image_Un)
    have other: "hbBase c \<noteq> p" if c: "c \<in> set (take i (hugeBlocks h)) \<union> set (drop (Suc i) (hugeBlocks h))" for c
    proof
      assume e: "hbBase c = p"
      have cin: "c \<in> set (hugeBlocks h)" using c by (auto dest: in_set_takeD in_set_dropD)
      have "c = b" using holds_same [OF w(1) cin bin, of p] huge_wf_block(1) [OF w(1) cin] huge_wf_block(1) [OF w(1) bin] e m(3) by simp
      moreover obtain j where "j < length (hugeBlocks h)" "j \<noteq> i" "c = hugeBlocks h ! j"
      proof -
        from c show thesis
        proof
          assume "c \<in> set (take i (hugeBlocks h))"
          then obtain j where "j < i" "j < length (hugeBlocks h)" "c = hugeBlocks h ! j" by (auto simp: in_set_conv_nth)
          then show thesis by (intro that [of j]) auto
        next
          assume "c \<in> set (drop (Suc i) (hugeBlocks h))"
          then obtain j where "j < length (drop (Suc i) (hugeBlocks h))" "c = drop (Suc i) (hugeBlocks h) ! j" unfolding in_set_conv_nth by blast
          then have "Suc i + j < length (hugeBlocks h)" "c = hugeBlocks h ! (Suc i + j)" by simp_all
          then show thesis by (intro that [of "Suc i + j"]) auto
        qed
      qed
      ultimately show False
        using huge_holds_unique [OF sd i, of j p] huge_wf_block(1) [OF w(1) bin] m(3) by (simp add: b_def)
    qed
    show ?thesis unfolding live live' using other m(3) by fastforce
  qed
qed

lemma hugeFree_owned:
  assumes a: "at_rest own h" "side_ok h" and p: "\<not> inArena h p" and f: "hugeFree os p h = (True, h')"
  shows "ownedSize h' = (ownedSize h)(p := None)" "ownedSize h p \<noteq> None" "side_ok h'"
proof -
  note i = hugeFree_inv [OF a f]
  show s': "side_ok h'" using i(2) a(2) by (simp add: framed_def)
  have w: "huge_wf h" using a(2) by (simp add: side_ok_def)
  have "\<exists>n m k. (p, n, m, k) \<in> set (hugeLive h)" using hugeFree_found(1) [OF w, of os p] f by simp
  then show "ownedSize h p \<noteq> None" using ownedSize_huge [OF a p] by auto
  have "ownedSize h' q = Some n \<longleftrightarrow> q \<noteq> p \<and> ownedSize h q = Some n" for q n
  proof -
    have base: "slotBase h' r x = slotBase h r x" if "liveMap h (r, x) = Some y" for r x y
      by (rule slotBase_framed [OF i(2) live_owner(1) [OF at_rest_inv [OF a(1)] that]])
    have slot: "(\<exists>r s. liveMap h' (r, s) = Some (unat n) \<and> q = slotBase h' r s) \<longleftrightarrow> (\<exists>r s. liveMap h (r, s) = Some (unat n) \<and> q = slotBase h r s)"
      unfolding i(3) using base by metis
    have "q \<noteq> p" if "liveMap h (r, s) = Some x" "q = slotBase h r s" for r s x using slot_in [OF a(1) that(1)] that(2) p by auto
    then show ?thesis unfolding ownedSize_iff [OF a] ownedSize_iff [OF i(1) s'] slot i(5) by auto
  qed
  then show "ownedSize h' = (ownedSize h)(p := None)" by (intro ext) (metis fun_upd_apply not_Some_eq)
qed

subsection \<open>The blocks are apart\<close>

definition sizes_ok :: "heap \<Rightarrow> bool" where
  "sizes_ok h \<longleftrightarrow> (\<forall>r s n. liveMap h (r, s) = Some n \<longrightarrow> n < clSize (hpTable h r))"

lemma slot_numbers:
  assumes inv: "at_rest own h" and z: "sizes_ok h" and l: "liveMap h (r, s) = Some n"
  shows "unat (slotBase h r s) = unat (hpBase h) + (r * 2 ^ hpShift h + s * clSize (hpTable h r))"
    "n < clSize (hpTable h r)" "s * clSize (hpTable h r) + clSize (hpTable h r) \<le> 2 ^ hpShift h"
    "unat (slotBase h r s) + n < unat (hpBase h) + unat (hpBytes h)" "unat (hpBase h) \<le> unat (slotBase h r s)"
proof -
  note i = at_rest_inv [OF inv]
  note o = live_owner [OF i l]
  note f = arena_facts [OF i o(1)]
  note x = slot_inside [OF i o(1,3)]
  show u: "unat (slotBase h r s) = unat (hpBase h) + (r * 2 ^ hpShift h + s * clSize (hpTable h r))"
    using slotBase_nat(1) [OF i o(1,3), of 0] x(2) by simp
  show n: "n < clSize (hpTable h r)" using z l unfolding sizes_ok_def by blast
  show e: "s * clSize (hpTable h r) + clSize (hpTable h r) \<le> 2 ^ hpShift h" using x(1) by simp
  have "(r + 1) * 2 ^ hpShift h \<le> 160 * 2 ^ hpShift h" using f(2) by (intro mult_le_mono1) simp
  then have "r * 2 ^ hpShift h + 2 ^ hpShift h \<le> 160 * 2 ^ hpShift h" by (simp only: add_mult_distrib mult_1)
  then show "unat (slotBase h r s) + n < unat (hpBase h) + unat (hpBytes h)" using u n e f(6) by linarith
  show "unat (hpBase h) \<le> unat (slotBase h r s)" using u by simp
qed

lemma slots_apart:
  assumes inv: "at_rest own h" and z: "sizes_ok h"
    and l: "liveMap h (r, s) = Some n" "liveMap h (r', s') = Some n'" and less: "r < r' \<or> r = r' \<and> s < s'"
  shows "unat (slotBase h r s) + clSize (hpTable h r) \<le> unat (slotBase h r' s')"
proof -
  note x = slot_numbers [OF inv z l(1)] and y = slot_numbers [OF inv z l(2)]
  show ?thesis
  proof (cases "r < r'")
    case True
    then have "Suc r * 2 ^ hpShift h \<le> r' * 2 ^ hpShift h" by (intro mult_le_mono1) simp
    then have "r * 2 ^ hpShift h + 2 ^ hpShift h \<le> r' * 2 ^ hpShift h" by simp
    then show ?thesis using x y by linarith
  next
    case False
    then have e: "r = r'" "Suc s \<le> s'" using less by auto
    then have "Suc s * clSize (hpTable h r) \<le> s' * clSize (hpTable h r)" by (intro mult_le_mono1)
    then have "s * clSize (hpTable h r) + clSize (hpTable h r) \<le> s' * clSize (hpTable h r)" by simp
    then show ?thesis using x(1,2) y(1) e(1) by simp
  qed
qed

lemma huge_apart:
  assumes w: "huge_wf h" and l: "(p, n, m, k) \<in> set (hugeLive h)" "(q, n', m', k') \<in> set (hugeLive h)" and ne: "p \<noteq> q"
  shows "unat m + unat k \<le> unat m' \<or> unat m' + unat k' \<le> unat m"
proof -
  obtain b b' where b: "b \<in> set (hugeBlocks h)" "hbBase b = p" "hbMap b = m" "hbMapBytes b = k"
      "b' \<in> set (hugeBlocks h)" "hbBase b' = q" "hbMap b' = m'" "hbMapBytes b' = k'"
    using l by (auto simp: hugeLive_block)
  obtain i j where i: "i < length (hugeBlocks h)" "b = hugeBlocks h ! i" "j < length (hugeBlocks h)" "b' = hugeBlocks h ! j"
    using b(1,5) by (auto simp: in_set_conv_nth)
  have "i \<noteq> j" using i b ne by auto
  then consider "i < j" | "j < i" by linarith
  then show ?thesis
    using w huge_sorted_nth(1) [of "hugeBlocks h" i j] huge_sorted_nth(1) [of "hugeBlocks h" j i] i b
    by cases (auto simp: huge_wf_def)
qed

lemma blocks_apart:
  assumes inv: "at_rest own h" and s: "side_ok h" and z: "sizes_ok h"
    and o: "ownedSize h p = Some n" "ownedSize h q = Some m" and ne: "p \<noteq> q"
  shows "unat p + unat n \<le> unat q \<or> unat q + unat m \<le> unat p"
proof -
  note e = arena_end [OF inv]
  have huge: "unat p + unat n \<le> unat (hpBase h) \<or> unat (hpBase h) + unat (hpBytes h) \<le> unat p"
    if "(p, n, mp, k) \<in> set (hugeLive h)" for p n mp k
    using hugeLive_outside(2-4) [OF s _ _ that] e by auto
  have w: "huge_wf h" using s by (simp add: side_ok_def)
  from o(1)[unfolded ownedSize_iff [OF inv s]] o(2)[unfolded ownedSize_iff [OF inv s]]
  show ?thesis
  proof (elim disjE exE conjE)
    fix r i r' i'
    assume a: "liveMap h (r, i) = Some (unat n)" "p = slotBase h r i" "liveMap h (r', i') = Some (unat m)" "q = slotBase h r' i'"
    then have "(r, i) \<noteq> (r', i')" using ne by auto
    then consider "r < r' \<or> r = r' \<and> i < i'" | "r' < r \<or> r' = r \<and> i' < i" by fastforce
    then show ?thesis
      using slots_apart [OF inv z a(1,3)] slots_apart [OF inv z a(3,1)] slot_numbers(2) [OF inv z a(1)] slot_numbers(2) [OF inv z a(3)] a(2,4)
      by cases auto
  next
    fix r i mp k
    assume a: "liveMap h (r, i) = Some (unat n)" "p = slotBase h r i" "(q, m, mp, k) \<in> set (hugeLive h)"
    show ?thesis using slot_numbers(4,5) [OF inv z a(1)] huge [OF a(3)] a(2) by auto
  next
    fix r i mp k
    assume a: "liveMap h (r, i) = Some (unat m)" "q = slotBase h r i" "(p, n, mp, k) \<in> set (hugeLive h)"
    show ?thesis using slot_numbers(4,5) [OF inv z a(1)] huge [OF a(3)] a(2) by auto
  next
    fix mp k mp' k'
    assume a: "(p, n, mp, k) \<in> set (hugeLive h)" "(q, m, mp', k') \<in> set (hugeLive h)"
    show ?thesis using huge_apart [OF w a ne] hugeLive_outside(2,3) [OF s _ _ a(1)] hugeLive_outside(2,3) [OF s _ _ a(2)] e by auto
  qed
qed

end
