(* ===== verification/Alloc_Heap.thy ===== *)
theory Alloc_Heap
  imports Alloc_Free
begin

text \<open>
  The state between the calls of the program and what each entry point does to it: allocation, release
  with its errors, reallocation with the contents of the block.
\<close>

subsection \<open>Between calls\<close>

definition heap_rest :: "owner \<Rightarrow> heap \<Rightarrow> bool" where
  "heap_rest own h \<longleftrightarrow> at_rest own h \<and> hands own = ({}, {}) \<and> side_ok h \<and> page_ok h \<and> sizes_ok h \<and> ownedSize h 0 = None"

definition quiet :: "heap \<Rightarrow> bool" where
  "quiet h \<longleftrightarrow> (\<forall>t tc. cacheOf h t = HasCache tc \<longrightarrow> quietCache (cachedClasses h) tc)"

definition heap_ok :: "heap \<Rightarrow> bool" where
  "heap_ok h \<longleftrightarrow> (\<exists>own. heap_rest own h) \<and> quiet h"

lemma heap_restD:
  assumes "heap_rest own h"
  shows "at_rest own h" "side_ok h" "page_ok h" "sizes_ok h" "ownedSize h 0 = None" "hpBytes h \<noteq> 0"
    "held own HandFree = {}" "held own HandDead = {}" "hands own = ({}, {})"
  using assms arena_end [of own h] by (simp_all add: heap_rest_def hands_def)

lemma sizes_framed:
  assumes inv: "at_rest own h" and z: "sizes_ok h" and f: "framed h h'"
    and l: "\<And>r s n. liveMap h' (r, s) = Some n \<Longrightarrow> liveMap h (r, s) = Some n \<or> n < clSize (hpTable h' r)"
  shows "sizes_ok h'"
  unfolding sizes_ok_def
proof (intro allI impI)
  fix r s n
  assume a: "liveMap h' (r, s) = Some n"
  show "n < clSize (hpTable h' r)"
  proof (cases "liveMap h (r, s) = Some n")
    case True
    then have "r < hpRegions h" using live_owner(1) [OF at_rest_inv [OF inv]] by blast
    then show ?thesis using f z True unfolding framed_def sizes_ok_def by metis
  qed (use l [OF a] in blast)
qed

lemma rest_settled:
  assumes r: "heap_rest own h" and a: "at_rest own' h'" "hands own' = ({}, {})" and k: "settled h h'"
  shows "heap_rest own' h'" "ownedSize h' = ownedSize h"
proof -
  note d = heap_restD [OF r]
  show o: "ownedSize h' = ownedSize h" by (rule ownedSize_settled [OF d(1,2) a(1) k])
  have k': "framed h h'" "liveMap h' = liveMap h" using k by (simp_all add: settled_def)
  have "sizes_ok h'" by (rule sizes_framed [OF d(1,4) k'(1)]) (simp add: k'(2))
  then show "heap_rest own' h'" using a d(3,5) o settled_side [OF k d(2)] k'(1) by (simp add: heap_rest_def page_ok_def framed_def)
qed

text \<open>What happens to the caches' lists is not seen; the depth of a call is.\<close>

lemma rest_setCache:
  assumes "cacheOf h t = HasCache tc" "tcAlloc tc' = tcAlloc tc" "tcRelease tc' = tcRelease tc"
  shows "heap_rest own (setCache t tc' h) = heap_rest own h" "ownedSize (setCache t tc' h) = ownedSize h" "hpMem (setCache t tc' h) = hpMem h"
    "hugeFind (setCache t tc' h) p = hugeFind h p" "inArena (setCache t tc' h) p = inArena h p"
proof -
  let ?h = "setCache t tc' h"
  have l: "allocs ?h = allocs h" "releases ?h = releases h"
    using entries_own [OF assms(1)] assms(2,3) by (auto simp: allocs_set releases_set fun_eq_iff)
  have a: "at_rest own ?h = at_rest own h" by (simp only: at_rest_def l heap_inv_setCache)
  have t: "threads_ok ?h = threads_ok h" using assms(1) unfolding threads_ok_def by (auto simp: setCache_def)
  have s: "side_ok ?h = side_ok h" using t by (simp add: side_ok_def marks_clear_def huge_wf_def outside_arena_def setCache_def)
  show o: "ownedSize ?h = ownedSize h"
    by (simp add: fun_eq_iff ownedSize_def inArena_def slotOf_def wordOf_def regionStart_def hugeFind_def maybeHuge_def setCache_def)
  have "page_ok ?h = page_ok h" "sizes_ok ?h = sizes_ok h" by (simp_all add: page_ok_def sizes_ok_def liveMap_def setCache_def)
  then show "heap_rest own ?h = heap_rest own h" by (simp only: heap_rest_def a s o)
  show "hpMem ?h = hpMem h" "hugeFind ?h p = hugeFind h p" "inArena ?h p = inArena h p"
    by (simp_all add: setCache_def hugeFind_def maybeHuge_def inArena_def)
qed

lemma enter_rest:
  "heap_rest own (enter t h) = heap_rest own h" "ownedSize (enter t h) = ownedSize h" "hpMem (enter t h) = hpMem h"
  "hugeFind (enter t h) p = hugeFind h p" "inArena (enter t h) p = inArena h p"
proof -
  have "enter t h = h \<or> (\<exists>tc. cacheOf h t = HasCache tc \<and> enter t h = setCache t (tc\<lparr>tcDepth := tcDepth tc + 1\<rparr>) h)"
    by (auto simp: enter_def ownCache_def split: cache_value.splits)
  then show "heap_rest own (enter t h) = heap_rest own h" "ownedSize (enter t h) = ownedSize h" "hpMem (enter t h) = hpMem h"
    "hugeFind (enter t h) p = hugeFind h p" "inArena (enter t h) p = inArena h p"
    using rest_setCache [of h t _ "_\<lparr>tcDepth := _\<rparr>"] by auto
qed

lemma holdsLock_quiet: "quiet h \<Longrightarrow> \<not> holdsLock h t"
  by (auto simp: quiet_def quietCache_def holdsLock_def ownCache_def split: option.splits cache_value.splits if_splits)

text \<open>The outermost call leaves the allocator as it found it, and no release is waiting.\<close>

lemma leave_rest:
  assumes q: "quiet h" and f: "framed (enter t h) h'"
  shows "\<exists>h''. leave os t (ownCache h t \<noteq> None) h' = Inr h'' \<and> quiet h'' \<and> heap_rest own h'' = heap_rest own h' \<and>
    ownedSize h'' = ownedSize h' \<and> hpMem h'' = hpMem h'"
proof (cases "ownCache h t")
  case None
  then have e: "enter t h = h" by (simp add: enter_def)
  have cc: "cachedClasses h' = cachedClasses h" using f unfolding e framed_def by blast
  have "quiet h'" unfolding quiet_def cc
  proof (intro allI impI)
    fix u tc
    assume c: "cacheOf h' u = HasCache tc"
    show "quietCache (cachedClasses h) tc"
    proof (cases "\<exists>tc0. cacheOf h u = HasCache tc0")
      case True
      then obtain tc0 where tc0: "cacheOf h u = HasCache tc0" by blast
      then have "nesting tc = nesting tc0" using f c unfolding e framed_def by (metis cache_value.inject)
      then show ?thesis using quietCache_nesting q tc0 by (metis quiet_def)
    next
      case False
      then show ?thesis using f c unfolding e framed_def by blast
    qed
  qed
  then show ?thesis using None by (auto simp: leave_def)
next
  case (Some tc)
  then have tc: "cacheOf h t = HasCache tc" by (auto simp: ownCache_def split: if_splits cache_value.splits)
  have e: "enter t h = setCache t (tc\<lparr>tcDepth := tcDepth tc + 1\<rparr>) h" using Some by (simp add: enter_def)
  have qt: "quietCache (cachedClasses h) tc" using q tc by (auto simp: quiet_def)
  obtain tc' where tc': "cacheOf h' t = HasCache tc'" "nesting tc' = nesting (tc\<lparr>tcDepth := tcDepth tc + 1\<rparr>)"
    using f unfolding e framed_def by (metis cacheOf_simps(3) fun_upd_same)
  have cc: "cachedClasses (enter t h) = cachedClasses h" "cachedClasses h' = cachedClasses h"
    using f unfolding framed_def by (simp_all add: e setCache_def)
  have n: "tcDepth tc' = 1" "tcLocks tc' = 0" "tcDeferred tc' = []" "\<forall>c < cachedClasses h. tcLimit tc' c \<noteq> 0" using tc'(2) qt by (simp_all add: nesting_def quietCache_def)
  let ?h = "setCache t (tc'\<lparr>tcDepth := 0\<rparr>) h'"
  have l: "leave os t (ownCache h t \<noteq> None) h' = Inr ?h" using Some tc'(1) n by (simp add: leave_def Let_def)
  have hc: "cachedClasses ?h = cachedClasses h" using cc(2) by (simp add: setCache_def)
  have "quiet ?h" unfolding quiet_def
  proof (intro allI impI)
    fix u x
    assume c: "cacheOf ?h u = HasCache x"
    show "quietCache (cachedClasses ?h) x"
    proof (cases "u = t")
      case True
      then have "x = tc'\<lparr>tcDepth := 0\<rparr>" using c by simp
      then show ?thesis using n unfolding hc by (simp add: quietCache_def)
    next
      case ne: False
      then have c': "cacheOf h' u = HasCache x" using c by simp
      show ?thesis
      proof (cases "\<exists>tc0. cacheOf h u = HasCache tc0")
        case True
        then obtain tc0 where tc0: "cacheOf h u = HasCache tc0" by blast
        then have "cacheOf (enter t h) u = HasCache tc0" using ne by (simp add: e)
        then have "nesting x = nesting tc0" using f c' unfolding framed_def by (metis cache_value.inject)
        then show ?thesis unfolding hc using quietCache_nesting q tc0 by (metis quiet_def)
      next
        case False
        then have "\<not> (\<exists>tc0. cacheOf (enter t h) u = HasCache tc0)" using ne by (simp add: e)
        then show ?thesis using f c' unfolding framed_def cc(1) hc by blast
      qed
    qed
  qed
  then show ?thesis using l rest_setCache [OF tc'(1), of "tc'\<lparr>tcDepth := 0\<rparr>"] by auto
qed

subsection \<open>Allocation\<close>

lemma mapsApart_same:
  assumes "pageBytes h' = pageBytes h" "hpBase h' = hpBase h" "hpBytes h' = hpBytes h" "hugeBlocks h' = hugeBlocks h"
  shows "mapsApart os h' sz a = mapsApart os h sz a"
  unfolding mapsApart_def same_page(2) [OF assms(1)] assms ..

lemma enter_same:
  "pageBytes (enter t h) = pageBytes h" "hpBase (enter t h) = hpBase h" "hpBytes (enter t h) = hpBytes h" "hugeBlocks (enter t h) = hugeBlocks h"
  by (simp_all add: enter_def setCache_def split: option.splits)

lemma slot_fits:
  assumes "at_rest own h'" "newSlot h c sz h' b" "unat sz < classSize c"
  shows "\<exists>r s. liveMap h' = (liveMap h)((r, s) \<mapsto> unat sz) \<and> b = slotBase h' r s \<and> unat sz < clSize (hpTable h' r) \<and> framed h h'"
proof -
  obtain r s where r: "liveMap h' = (liveMap h)((r, s) \<mapsto> unat sz)" "b = slotBase h' r s" "r < hpRegions h'" "regionClass h' r = c" "framed h h'"
    using assms(2) by (auto simp: newSlot_def)
  note i = at_rest_inv [OF assms(1)]
  have "regionClass h' r < hpClasses h'" "clSize (hpTable h' c) = classSize c"
    using i r(3,4) by (auto simp: heap_inv_def table_ok_def)
  then have "clSize (hpTable h' r) = classSize c" using class_table [OF i r(3)] r(4) by simp
  then show ?thesis using r assms(3) by (intro exI [of _ r] exI [of _ s]) simp
qed

lemma allocated_rest:
  assumes r: "heap_rest own h" and a: "at_rest own' h'" "hands own' = ({}, {})" and b: "allocated h sz al h' b"
  shows "heap_rest own' h' \<and> framed h h' \<and>
    (if b = 0 then ownedSize h' = ownedSize h \<and> hpMem h' = hpMem h
     else ownedSize h b = None \<and> ownedSize h' = (ownedSize h)(b \<mapsto> sz) \<and> 16 dvd unat b \<and> (16 < unat al \<longrightarrow> unat al dvd unat b) \<and>
       within (hpMem h) (hpMem h') b (unat sz) \<and> unat b + unat sz \<le> 2 ^ 63)"
proof (cases "b = 0")
  case True
  then have "kept h h'" using b by (simp add: allocated_def)
  then show ?thesis using rest_settled [OF r a kept_settled] True by (simp add: kept_def)
next
  case False
  note d = heap_restD [OF r]
  have al: "16 dvd unat b" "16 < unat al \<longrightarrow> unat al dvd unat b" using b False by (simp_all add: allocated_def)
  obtain pk where pk: "pageBytes h = 2 ^ pk" "4 \<le> pk" "pk \<le> 20" using d(3) by (auto simp: page_ok_def)
  from b False consider (slot) c where "newSlot h c sz h' b" "unat sz < classSize c" | (huge) "newHuge h sz al h' b"
    by (auto simp: allocated_def)
  then show ?thesis
  proof cases
    case slot
    note o = newSlot_owned [OF d(1,2) a(1) slot(1)]
    have f: "framed h h'" using slot(1) by (simp add: newSlot_def)
    obtain r s where rs: "liveMap h' = (liveMap h)((r, s) \<mapsto> unat sz)" "b = slotBase h' r s" "unat sz < clSize (hpTable h' r)"
      using slot_fits [OF a(1) slot] by blast
    have z: "sizes_ok h'" by (rule sizes_framed [OF d(1,4) f]) (use rs(1,3) in \<open>auto split: if_splits\<close>)
    have "unat b + unat sz < unat (hpBase h') + unat (hpBytes h')" using slot_numbers(4) [OF a(1) z, of r s "unat sz"] rs by simp
    moreover have "unat (hpBase h') + unat (hpBytes h') \<le> 2 ^ 63"
    proof -
      have "0 < hpRegions h'" using at_rest_inv [OF a(1)] by (auto simp: heap_inv_def arena_ok_def)
      then show ?thesis using arena_facts(4,6) [OF at_rest_inv [OF a(1)], of 0] by simp
    qed
    ultimately have fit: "unat b + unat sz \<le> 2 ^ 63" by simp
    have "within (hpMem h) (hpMem h') b (unat sz)"
    proof -
      have "hpMem h' = hpMem h \<or> (\<exists>os. hpMem h' = zeroFill os (pageBytes h) (hpMem h) b sz)" using slot(1) unfolding newSlot_def by blast
      then show ?thesis using zeroFill_within [OF pk fit, of "hpMem h"] by (elim disjE exE) simp_all
    qed
    moreover have "heap_rest own' h'" using a d(3,5) o z f False by (simp add: heap_rest_def page_ok_def framed_def)
    ultimately show ?thesis using False o al f fit by simp
  next
    case huge
    note o = newHuge_owned [OF d(1,2) a(1) huge]
    have f: "framed h h'" "liveMap h' = liveMap h" "hpMem h' = hpMem h" using huge by (simp_all add: newHuge_def)
    have z: "sizes_ok h'" by (rule sizes_framed [OF d(1,4) f(1)]) (simp add: f(2))
    have "heap_rest own' h'" using a d(3,5) o z f(1) False by (simp add: heap_rest_def page_ok_def framed_def)
    moreover have "unat b + unat sz \<le> 2 ^ 63" using huge by (simp add: newHuge_def)
    ultimately show ?thesis using False o al f by simp
  qed
qed

end
