(* ===== verification/Alloc_Api.thy ===== *)
theory Alloc_Api
  imports Alloc_Heap
begin

text \<open>
  The entry points over the map of the program's blocks: \<open>release\<close> and \<open>__weavec_rt_free\<close>,
  \<open>__weavec_rt_alloc\<close>, \<open>__weavec_rt_realloc\<close>.
\<close>

subsection \<open>The contents of the other blocks\<close>

definition contents_kept :: "heap \<Rightarrow> heap \<Rightarrow> u64 \<Rightarrow> bool" where
  "contents_kept h h' p \<longleftrightarrow>
     (\<forall>q n a. q \<noteq> p \<longrightarrow> ownedSize h q = Some n \<longrightarrow> unat q \<le> unat a \<longrightarrow> unat a < unat q + unat n \<longrightarrow> hpMem h' a = hpMem h a)"

lemma contents_keptD:
  "contents_kept h h' p \<Longrightarrow> q \<noteq> p \<Longrightarrow> ownedSize h q = Some n \<Longrightarrow> unat q \<le> unat a \<Longrightarrow> unat a < unat q + unat n \<Longrightarrow>
    hpMem h' a = hpMem h a"
  by (simp add: contents_kept_def)

lemma contents_same: "hpMem h' = hpMem h \<Longrightarrow> contents_kept h h' p"
  by (simp add: contents_kept_def)

text \<open>Giving the pages of a released slot back touches no other block.\<close>

lemma decommit_contents:
  assumes r: "heap_rest own h" and l: "liveMap h (i, s) = Some n"
    and m: "within (hpMem h) (hpMem h') (slotBase h i s) (clSize (hpTable h i))"
  shows "contents_kept h h' (slotBase h i s)"
  unfolding contents_kept_def
proof (intro allI impI)
  fix q k and a :: u64
  assume ne: "q \<noteq> slotBase h i s" and o: "ownedSize h q = Some k" and a: "unat q \<le> unat a" "unat a < unat q + unat k"
  note d = heap_restD [OF r]
  let ?p = "slotBase h i s" let ?z = "clSize (hpTable h i)"
  have "unat ?p + ?z \<le> unat q \<or> unat q + unat k \<le> unat ?p"
    using o unfolding ownedSize_iff [OF d(1,2)]
  proof (elim disjE exE conjE)
    fix i' s'
    assume q: "liveMap h (i', s') = Some (unat k)" "q = slotBase h i' s'"
    then have "(i, s) \<noteq> (i', s')" using ne by auto
    then consider "i < i' \<or> i = i' \<and> s < s'" | "i' < i \<or> i' = i \<and> s' < s" by fastforce
    then show ?thesis
      using slots_apart [OF d(1,4) l q(1)] slots_apart [OF d(1,4) q(1) l] slot_numbers(2) [OF d(1,4) q(1)] q(2) by cases auto
  next
    fix mp y
    assume q: "(q, k, mp, y) \<in> set (hugeLive h)"
    have e: "hpBytes h \<le> 2 ^ 63" "unat (hpBase h) + unat (hpBytes h) < 2 ^ 64" using arena_end [OF d(1)] by simp_all
    note x = hugeLive_outside(2-4) [OF d(2) e q]
    note f = arena_facts [OF at_rest_inv [OF d(1)] live_owner(1) [OF at_rest_inv [OF d(1)] l]]
    note u = slot_numbers(1,3,5) [OF d(1,4) l]
    have "(i + 1) * 2 ^ hpShift h \<le> 160 * 2 ^ hpShift h" using f(2) by (intro mult_le_mono1) simp
    then have "i * 2 ^ hpShift h + 2 ^ hpShift h \<le> 160 * 2 ^ hpShift h" by (simp only: add_mult_distrib mult_1)
    then have "unat ?p + ?z \<le> unat (hpBase h) + unat (hpBytes h)" using u f(6) by linarith
    then show ?thesis using x u(3) by linarith
  qed
  then show "hpMem h' a = hpMem h a" using m a unfolding within_def by (meson not_le order_less_le_trans order_trans)
qed

subsection \<open>Release\<close>

lemma removed_owned:
  assumes a: "at_rest own h" "side_ok h" "at_rest own' h'" "side_ok h'"
    and f: "framed h h'" and l: "liveMap h (r, s) = Some n" "liveMap h' = (liveMap h)((r, s) := None)" and u: "hugeLive h' = hugeLive h"
  shows "ownedSize h' = (ownedSize h)(slotBase h r s := None)"
proof -
  let ?b = "slotBase h r s"
  have base: "slotBase h' r' q = slotBase h r' q" if "liveMap h (r', q) = Some x" for r' q x
    by (rule slotBase_framed [OF f live_owner(1) [OF at_rest_inv [OF a(1)] that]])
  have one: "(r', q) = (r, s)" if "liveMap h (r', q) = Some x" "slotBase h r' q = ?b" for r' q x
    using blockAt_exact [OF at_rest_inv [OF a(1)], of ?b] that l(1) by (metis option.distinct(1) option.inject)
  have no: "(?b, x, m, y) \<notin> set (hugeLive h)" for x m y
    using hugeLive_outside(1) [OF a(2)] arena_end [OF a(1)] slot_in [OF a(1) l(1)] by blast
  have "ownedSize h' p = Some x \<longleftrightarrow> p \<noteq> ?b \<and> ownedSize h p = Some x" for p x
  proof -
    have "(\<exists>r' q. liveMap h' (r', q) = Some (unat x) \<and> p = slotBase h' r' q) \<longleftrightarrow>
        p \<noteq> ?b \<and> (\<exists>r' q. liveMap h (r', q) = Some (unat x) \<and> p = slotBase h r' q)"
    proof
      assume "\<exists>r' q. liveMap h' (r', q) = Some (unat x) \<and> p = slotBase h' r' q"
      then obtain r' q where y: "liveMap h' (r', q) = Some (unat x)" "p = slotBase h' r' q" by blast
      then have z: "(r', q) \<noteq> (r, s)" "liveMap h (r', q) = Some (unat x)" unfolding l(2) by (auto split: if_splits)
      then show "p \<noteq> ?b \<and> (\<exists>r' q. liveMap h (r', q) = Some (unat x) \<and> p = slotBase h r' q)"
        using y(2) base [OF z(2)] one [OF z(2)] by auto
    next
      assume "p \<noteq> ?b \<and> (\<exists>r' q. liveMap h (r', q) = Some (unat x) \<and> p = slotBase h r' q)"
      then obtain r' q where y: "p \<noteq> ?b" "liveMap h (r', q) = Some (unat x)" "p = slotBase h r' q" by blast
      then have "liveMap h' (r', q) = Some (unat x)" unfolding l(2) by auto
      then show "\<exists>r' q. liveMap h' (r', q) = Some (unat x) \<and> p = slotBase h' r' q"
        using y base [OF y(2)] by (intro exI [of _ r'] exI [of _ q]) simp
    qed
    then show ?thesis unfolding ownedSize_iff [OF a(1,2)] ownedSize_iff [OF a(3,4)] u using no by blast
  qed
  then show ?thesis by (intro ext) (metis fun_upd_apply not_Some_eq)
qed

lemma release_slot:
  assumes r: "heap_rest own h" and p: "inArena h p" and o: "ownedSize h p = Some n"
  shows "\<exists>h' own'. release os t p h = Inr h' \<and> heap_rest own' h' \<and> framed h h' \<and> ownedSize h' = (ownedSize h)(p := None) \<and>
    contents_kept h h' p"
proof -
  note d = heap_restD [OF r]
  let ?ref = "slotOf h p" let ?r = "srRegion ?ref" let ?s = "srSlot ?ref" let ?c = "regionClass h ?r"
  have w: "srBase ?ref = p" "wordState (wordOf h ?ref) = WeavecRtLive" using o p by (simp_all add: ownedSize_def Let_def split: if_splits)
  then have "blockAt h p = Some (?r, ?s)" using p by (simp add: blockAt_def)
  then obtain k where k: "liveMap h (?r, ?s) = Some k" "p = slotBase h ?r ?s" using blockAt_exact [OF at_rest_inv [OF d(1)]] by auto
  note lo = live_owner [OF at_rest_inv [OF d(1)] k(1)]
  let ?own = "give own ?r ?s (Some HandDead)"
  note cl = claim_inv [OF at_rest_inv [OF d(1)] k(1)] and cf = claim_framed [where ref = ?ref and h = h]
  define h1 where "h1 = claim ?ref h"
  have a1: "at_rest ?own h1" using cl(1) entries_same [OF cf(4)] by (simp add: at_rest_def h1_def)
  have f1: "framed h h1" using cf(1) by (simp add: h1_def)
  have s1: "side_ok h1" using f1 d(2) by (simp add: framed_def)
  obtain b h2 where c2: "cacheFor os t ?c h1 = (b, h2)" by (cases "cacheFor os t ?c h1")
  note ci = cacheFor_inv [OF a1 c2]
  have k2: "kept h1 h2" "at_rest ?own h2" using ci by blast+
  have s2: "side_ok h2" using settled_side [OF kept_settled [OF k2(1)] s1] .
  have f2: "framed h h2" using f1 k2(1) framed_trans by (simp add: kept_def)
  have rc: "regionClass h2 ?r = ?c" "hpTable h2 ?r = hpTable h ?r" "cachedClasses h2 = cachedClasses h" "pageBytes h2 = pageBytes h"
    using f2 lo(1) by (simp_all add: framed_def)
  have own: "?own ?r ?s = Some HandDead" by simp
  have hand: "held ?own HandFree = {}" "held ?own HandDead - {(?r, ?s)} = {}"
    using d(7,8) lo(2) held_not [of own ?r ?s HandFree] by (simp_all add: held_give)
  define h3 where "h3 = (if b then cachedRelease os t ?c ?ref h2 else retire os t ?ref h2)"
  obtain pk where pk: "pageBytes h = 2 ^ pk" "4 \<le> pk" "pk \<le> 20" using d(3) by (auto simp: page_ok_def)
  have "\<exists>own'. at_rest own' h3 \<and> hands own' = ({}, {}) \<and> settled h2 h3 \<and>
      (hpMem h3 = hpMem h2 \<or> hpMem h3 = decommit os (pageBytes h2) (hpMem h2) (srBase ?ref) (word_of_nat (clSize (hpTable h2 ?r))))"
  proof (cases b)
    case True
    then obtain tc where tc: "cacheOf h2 t = HasCache tc" "?c < cachedClasses h2" using ci rc(3) k2(1) by (auto simp: kept_def framed_def)
    show ?thesis using cachedRelease_inv [OF k2(2) s2 own tc(1) rc(1) tc(2), of os] hand True
      by (auto simp: h3_def hands_def kept_settled kept_def)
  next
    case False
    show ?thesis using retire_inv [OF k2(2) s2 own, of os t] hand False by (auto simp: h3_def hands_def)
  qed
  then obtain own' where o3: "at_rest own' h3" "hands own' = ({}, {})" "settled h2 h3"
      "hpMem h3 = hpMem h2 \<or> hpMem h3 = decommit os (pageBytes h2) (hpMem h2) (srBase ?ref) (word_of_nat (clSize (hpTable h2 ?r)))" by blast
  have s3: "side_ok h3" by (rule settled_side [OF o3(3) s2])
  have f3: "framed h h3" using f2 o3(3) framed_trans by (simp add: settled_def)
  have l3: "liveMap h3 = (liveMap h)((?r, ?s) := None)" "hugeLive h3 = hugeLive h"
    using o3(3) k2(1) cl(2) cf(2) by (simp_all add: settled_def kept_def h1_def)
  have res: "release os t p h = Inr h3"
    using p w c2 by (simp add: release_def Let_def h1_def [symmetric] h3_def)
  have ow: "ownedSize h3 = (ownedSize h)(p := None)" using removed_owned [OF d(1,2) o3(1) s3 f3 k(1) l3] k(2) by simp
  have z: "sizes_ok h3" by (rule sizes_framed [OF d(1,4) f3]) (use l3(1) in \<open>auto split: if_splits\<close>)
  have hr: "heap_rest own' h3" using o3(1,2) s3 z ow d(3,5) f3 by (simp add: heap_rest_def page_ok_def framed_def)
  have "contents_kept h h3 p"
  proof -
    have m2: "hpMem h2 = hpMem h" using k2(1) cf(3) by (simp add: kept_def h1_def)
    let ?z = "clSize (hpTable h ?r)"
    have "unat (word_of_nat ?z :: u64) = ?z"
      using slot_inside(4) [OF at_rest_inv [OF d(1)] lo(1,3)] by (simp add: unsigned_of_nat take_bit_nat_eq_self)
    moreover have "unat p + ?z \<le> 2 ^ 63"
    proof -
      note f = arena_facts [OF at_rest_inv [OF d(1)] lo(1)]
      note u = slot_numbers(1,3) [OF d(1,4) k(1)]
      have "(?r + 1) * 2 ^ hpShift h \<le> 160 * 2 ^ hpShift h" using f(2) by (intro mult_le_mono1) simp
      then have "?r * 2 ^ hpShift h + 2 ^ hpShift h \<le> 160 * 2 ^ hpShift h" by (simp only: add_mult_distrib mult_1)
      then show ?thesis using u f(4) arg_cong [OF k(2), of unat] by linarith
    qed
    ultimately have "within (hpMem h) (decommit os (pageBytes h) (hpMem h) p (word_of_nat ?z)) p ?z"
      using decommit_within [OF pk, of p "word_of_nat ?z" "hpMem h" os] by simp
    then have "within (hpMem h) (hpMem h3) p ?z" using o3(4) m2 w(1) rc(2,4) by auto
    then show ?thesis using decommit_contents [OF r k(1)] k(2) by simp
  qed
  then show ?thesis using res hr f3 ow by blast
qed

lemma release_huge:
  assumes r: "heap_rest own h" and p: "\<not> inArena h p" and o: "ownedSize h p = Some n"
  shows "\<exists>h' own'. release os t p h = Inr h' \<and> heap_rest own' h' \<and> framed h h' \<and> ownedSize h' = (ownedSize h)(p := None) \<and>
    contents_kept h h' p"
proof -
  note d = heap_restD [OF r]
  have w: "huge_wf h" using d(2) by (simp add: side_ok_def)
  have "fst (hugeFree os p h)" using hugeFree_found(1) [OF w] ownedSize_huge [OF d(1,2) p] o by blast
  then obtain h1 where f: "hugeFree os p h = (True, h1)" by (cases "hugeFree os p h") auto
  note i = hugeFree_inv [OF d(1,2) f] and ow = hugeFree_owned [OF d(1,2) p f]
  have z: "sizes_ok h1" by (rule sizes_framed [OF d(1,4) i(2)]) (simp add: i(3))
  have r1: "heap_rest own h1" using i(1,2) ow z d(3,5,9) by (simp add: heap_rest_def page_ok_def framed_def)
  obtain own2 where o2: "at_rest own2 (sweepIfDue os t h1)" "hands own2 = hands own" "kept h1 (sweepIfDue os t h1)"
    using sweepIfDue_inv [OF i(1) ow(3)] by blast
  have h2: "hands own2 = ({}, {})" using o2(2) d(9) by simp
  note r2 = rest_settled [OF r1 o2(1) h2 kept_settled [OF o2(3)]]
  have "release os t p h = Inr (sweepIfDue os t h1)" using p f by (simp add: release_def)
  moreover have "framed h (sweepIfDue os t h1)" using i(2) o2(3) framed_trans by (simp add: kept_def)
  moreover have "hpMem (sweepIfDue os t h1) = hpMem h" using i(4) o2(3) by (simp add: kept_def)
  ultimately show ?thesis using r2 ow(1) contents_same by metis
qed

lemma release_refused:
  assumes r: "heap_rest own h" and o: "ownedSize h p = None"
  shows "release os t p h =
    (if inArena h p then Inl (InvalidRelease p (whyNotReleasable h p))
     else case hugeFind h p of
            Some b \<Rightarrow> Inl (InvalidRelease p (if hbDead b \<noteq> 0 then ''the block was already released'' else ''not the start of its block''))
          | None \<Rightarrow> nextFree os p h)"
proof (cases "inArena h p")
  case True
  then show ?thesis using o by (auto simp: release_def ownedSize_def Let_def split: if_splits)
next
  case False
  note d = heap_restD [OF r]
  have w: "huge_wf h" using d(2) by (simp add: side_ok_def)
  have "\<not> fst (hugeFree os p h)" using hugeFree_found(1) [OF w] ownedSize_huge [OF d(1,2) False] o by (metis option.distinct(1))
  then have "hugeFree os p h = (False, h)" using hugeFree_found(2) [OF w, of os p] by (cases "hugeFree os p h") auto
  then show ?thesis using False by (simp add: release_def)
qed

lemma release_owned:
  assumes "heap_rest own h" "ownedSize h p = Some n"
  shows "\<exists>h' own'. release os t p h = Inr h' \<and> heap_rest own' h' \<and> framed h h' \<and> ownedSize h' = (ownedSize h)(p := None) \<and>
    contents_kept h h' p"
  using release_slot [OF assms(1) _ assms(2)] release_huge [OF assms(1) _ assms(2)] by blast

subsection \<open>The entry points\<close>

lemma heap_okE:
  assumes "heap_ok h"
  obtains own where "heap_rest own h" "quiet h"
  using assms by (auto simp: heap_ok_def)

lemma enter_parts:
  "whyNotReleasable (enter t h) p = whyNotReleasable h p" "contents_kept (enter t h) h' p = contents_kept h h' p"
proof -
  show "whyNotReleasable (enter t h) p = whyNotReleasable h p"
    by (simp add: enter_def whyNotReleasable_def slotOf_def wordOf_def regionStart_def setCache_def split: option.splits)
  show "contents_kept (enter t h) h' p = contents_kept h h' p" by (simp add: contents_kept_def enter_rest)
qed

lemma contents_mem: "hpMem h'' = hpMem h' \<Longrightarrow> contents_kept h h'' p = contents_kept h h' p"
  by (simp add: contents_kept_def)

lemma free_owned:
  assumes ok: "heap_ok h" and o: "ownedSize h p = Some n"
  shows "\<exists>h'. weavec_rt_free os t p h = Inr h' \<and> heap_ok h' \<and> ownedSize h' = (ownedSize h)(p := None) \<and> contents_kept h h' p"
proof -
  obtain own where r: "heap_rest own h" "quiet h" using ok by (rule heap_okE)
  have p: "p \<noteq> 0" using heap_restD(5) [OF r(1)] o by auto
  obtain h1 own1 where x: "release os t p (enter t h) = Inr h1" "heap_rest own1 h1" "framed (enter t h) h1"
      "ownedSize h1 = (ownedSize h)(p := None)" "contents_kept h h1 p"
    using release_owned [of own "enter t h" p n os t] r(1) o by (auto simp: enter_rest enter_parts)
  obtain h2 where y: "leave os t (ownCache h t \<noteq> None) h1 = Inr h2" "quiet h2" "heap_rest own1 h2" "ownedSize h2 = ownedSize h1" "hpMem h2 = hpMem h1"
    using leave_rest [OF r(2) x(3), of os own1] x(2) by auto
  have "weavec_rt_free os t p h = Inr h2" using p holdsLock_quiet [OF r(2)] x(1) y(1) by (simp add: weavec_rt_free_def)
  then show ?thesis using x y contents_mem [OF y(5)] by (auto simp: heap_ok_def)
qed

lemma free_refused:
  assumes ok: "heap_ok h" and p: "p \<noteq> 0" and o: "ownedSize h p = None"
  shows "if inArena h p then weavec_rt_free os t p h = Inl (InvalidRelease p (whyNotReleasable h p))
    else case hugeFind h p of
           Some b \<Rightarrow> weavec_rt_free os t p h =
             Inl (InvalidRelease p (if hbDead b \<noteq> 0 then ''the block was already released'' else ''not the start of its block''))
         | None \<Rightarrow>
             if osNextFree os p then \<exists>h'. weavec_rt_free os t p h = Inr h' \<and> heap_ok h' \<and> ownedSize h' = ownedSize h \<and> hpMem h' = hpMem h
             else weavec_rt_free os t p h = Inl (InvalidRelease p ''not a heap block'')"
proof -
  obtain own where r: "heap_rest own h" "quiet h" using ok by (rule heap_okE)
  have re: "heap_rest own (enter t h)" "ownedSize (enter t h) p = None" using r(1) o by (simp_all add: enter_rest)
  note x = release_refused [OF re, of os t, unfolded enter_parts enter_rest(4,5)]
  have e: "weavec_rt_free os t p h = (case release os t p (enter t h) of Inl f \<Rightarrow> Inl f | Inr h' \<Rightarrow> leave os t (ownCache h t \<noteq> None) h')"
    using p holdsLock_quiet [OF r(2)] by (simp add: weavec_rt_free_def)
  have "framed (enter t h) (enter t h)" by simp
  then obtain h2 where y: "leave os t (ownCache h t \<noteq> None) (enter t h) = Inr h2" "quiet h2" "heap_rest own h2" "ownedSize h2 = ownedSize h" "hpMem h2 = hpMem h"
    using leave_rest [OF r(2), of t "enter t h" os own] re(1) by (auto simp: enter_rest)
  then have "heap_ok h2" by (auto simp: heap_ok_def)
  then show ?thesis using e x y by (auto simp: nextFree_def split: option.splits)
qed

definition newBlock :: "heap \<Rightarrow> u64 \<Rightarrow> u64 \<Rightarrow> heap \<Rightarrow> u64 \<Rightarrow> bool" where
  "newBlock h sz al h' b \<longleftrightarrow>
     ownedSize h b = None \<and> ownedSize h' = (ownedSize h)(b \<mapsto> sz) \<and> 16 dvd unat b \<and> (16 < unat al \<longrightarrow> unat al dvd unat b) \<and>
     within (hpMem h) (hpMem h') b (unat sz) \<and> unat b + unat sz \<le> 2 ^ 63 \<and>
     (\<forall>q n. ownedSize h q = Some n \<longrightarrow> unat q + unat n \<le> unat b \<or> unat b + unat sz \<le> unat q)"

lemma alloc_call:
  assumes ok: "heap_ok h" and al: "alignOk al" and mp: "mapsApart os h sz (hugeAlign h al)"
  shows "\<exists>b h'. weavec_rt_alloc os t sz al h = Some (Inr (b, h')) \<and> heap_ok h' \<and>
    (if b = 0 then ownedSize h' = ownedSize h \<and> hpMem h' = hpMem h else newBlock h sz al h' b)"
proof -
  obtain own where r: "heap_rest own h" "quiet h" using ok by (rule heap_okE)
  have re: "heap_rest own (enter t h)" using r(1) by (simp add: enter_rest)
  note d = heap_restD [OF re]
  have "mapsApart os (enter t h) sz (hugeAlign (enter t h) al)"
    unfolding mapsApart_same [OF enter_same] same_page(1) [OF enter_same(1)] by (rule mp)
  then obtain b h1 own1 where x: "allocate os t sz al (enter t h) = Some (b, h1)" "at_rest own1 h1" "hands own1 = ({}, {})"
      "allocated (enter t h) sz al h1 b"
    using allocate_inv [OF d(1-3,9) al _ d(6), of os sz t] by blast
  note a = allocated_rest [OF re x(2-4), unfolded enter_rest]
  have f: "framed (enter t h) h1" using a by blast
  obtain h2 where y: "leave os t (ownCache h t \<noteq> None) h1 = Inr h2" "quiet h2" "heap_rest own1 h2" "ownedSize h2 = ownedSize h1" "hpMem h2 = hpMem h1"
    using leave_rest [OF r(2) f, of os own1] a by auto
  have e: "weavec_rt_alloc os t sz al h = Some (Inr (b, h2))"
    using holdsLock_quiet [OF r(2)] x(1) y(1) by (simp add: weavec_rt_alloc_def)
  have ok2: "heap_ok h2" using y by (auto simp: heap_ok_def)
  show ?thesis
  proof (cases "b = 0")
    case True
    then show ?thesis using a e ok2 y by (intro exI [of _ b] exI [of _ h2]) auto
  next
    case False
    have n: "ownedSize h b = None" "ownedSize h2 = (ownedSize h)(b \<mapsto> sz)" using a False y(4) by simp_all
    note d2 = heap_restD [OF y(3)]
    have "unat q + unat n \<le> unat b \<or> unat b + unat sz \<le> unat q" if q: "ownedSize h q = Some n" for q n
    proof -
      have "q \<noteq> b" using q n(1) by auto
      then show ?thesis using blocks_apart [OF d2(1,2,4), of q n b sz] n(2) q by simp
    qed
    then have "newBlock h sz al h2 b" using a False y n by (simp add: newBlock_def)
    then show ?thesis using False e ok2 by (intro exI [of _ b] exI [of _ h2]) simp
  qed
qed

end
