(* ===== verification/Alloc_Realloc.thy ===== *)
theory Alloc_Realloc
  imports Alloc_Api
begin

text \<open>
  Reallocation: in its slot when the class stays, else through a new block; the contents up to the smaller
  size survive.
\<close>

subsection \<open>A block that stays\<close>

lemma classFor_fits:
  assumes "at_rest own h" "c < hpClasses h" "classFor sz = c"
  shows "unat sz < classSize c" "classSize c \<le> 2 ^ 29"
proof -
  show s: "classSize c \<le> 2 ^ 29" by (rule class_sizes [OF assms(1,2)])
  have "allocClass sz 0 = Some c" using assms(3) by (simp add: allocClass_def)
  then show "unat sz < classSize c" using allocClass_fits(1) s by blast
qed

lemma owned_bound:
  assumes "heap_rest own h" "ownedSize h p = Some n"
  shows "unat p + unat n < 2 ^ 64"
proof -
  note d = heap_restD [OF assms(1)]
  have e: "unat (hpBase h) + unat (hpBytes h) < 2 ^ 64" using arena_end [OF d(1)] by simp
  have w: "huge_wf h" using d(2) by (simp add: side_ok_def)
  from assms(2) show ?thesis unfolding ownedSize_iff [OF d(1,2)]
  proof (elim disjE exE conjE)
    fix r s
    assume l: "liveMap h (r, s) = Some (unat n)" "p = slotBase h r s"
    then show ?thesis using slot_numbers(4) [OF d(1,4) l(1)] e by simp
  next
    fix m k
    assume l: "(p, n, m, k) \<in> set (hugeLive h)"
    then obtain b where b: "b \<in> set (hugeBlocks h)" "hbBase b = p" "hbSize b = n" by (auto simp: hugeLive_block)
    show ?thesis using huge_wf_block(2,3) [OF w b(1)] b(2,3) by simp
  qed
qed

definition contents_moved :: "heap \<Rightarrow> heap \<Rightarrow> u64 \<Rightarrow> u64 \<Rightarrow> nat \<Rightarrow> bool" where
  "contents_moved h h' p q n \<longleftrightarrow> (\<forall>k < n. hpMem h' (q + word_of_nat k) = hpMem h (p + word_of_nat k))"

lemma offset_nat:
  assumes "unat (p :: u64) + k < 2 ^ 64"
  shows "unat (p + word_of_nat k) = unat p + k"
  using assms by (simp add: unat_word_ariths unsigned_of_nat take_bit_nat_eq_self)

lemma resize_inv:
  assumes r: "heap_rest own h" and p: "inArena h p" and o: "ownedSize h p = Some old"
    and c: "classFor sz = regionClass h (srRegion (slotOf h p))"
    and h'_def: "h' = resize os (slotOf h p) old sz h"
  shows "heap_rest own h'" "framed h h'" "ownedSize h' = (ownedSize h)(p \<mapsto> sz)" "contents_kept h h' p"
    "contents_moved h h' p p (min (unat old) (unat sz))" "cacheOf h' = cacheOf h"
proof -
  note d = heap_restD [OF r]
  note inv = at_rest_inv [OF d(1)]
  let ?ref = "slotOf h p" let ?r = "srRegion ?ref" let ?s = "srSlot ?ref"
  have w: "srBase ?ref = p" "wordState (wordOf h ?ref) = WeavecRtLive" using o p by (simp_all add: ownedSize_def Let_def split: if_splits)
  then have "blockAt h p = Some (?r, ?s)" using p by (simp add: blockAt_def)
  then obtain k where k: "liveMap h (?r, ?s) = Some k" "p = slotBase h ?r ?s" using blockAt_exact [OF inv] by auto
  note lo = live_owner [OF inv k(1)]
  have tab: "table_ok h" using inv by (simp add: heap_inv_def)
  then have c1: "regionClass h ?r < hpClasses h" using lo(1) by (simp add: table_ok_def)
  then have c2: "clSize (hpTable h (regionClass h ?r)) = classSize (regionClass h ?r)" using tab by (simp add: table_ok_def)
  note cc = c1 class_table [OF inv lo(1)] c2
  note fit = classFor_fits [OF d(1) cc(1) c]
  have fz: "unat sz < clSize (hpTable h ?r)" using fit cc by simp
  have small: "unat sz < 2 ^ 30" using fit by simp
  define m where "m = (if sz > old then memset (hpMem h) (p + old) 0 (unat (sz - old)) else hpMem h)"
  define h1 where "h1 = shadowLive os p sz (word_of_nat (clSize (hpTable h ?r))) (h\<lparr>hpMem := m\<rparr>)"
  have h': "h' = storeWord ?r ?s (push_bit 2 (ucast sz) OR WeavecRtLive) h1"
    using w(1) by (simp add: h'_def resize_def h1_def m_def Let_def)
  have lw: "push_bit 2 (ucast sz) OR WeavecRtLive = slotWord (unat sz) WeavecRtLive" by (rule liveWord [OF small])
  have same: "geom h' = geom h" "classActive h' = classActive h" "hpRegion h' = hpRegion h" "cacheKeyReady h' = cacheKeyReady h"
    "pageBytes h' = pageBytes h" "caches h' = caches h" "hugePart h' = hugePart h" "hpMem h' = m"
    "hpWords h' = (hpWords h)(?r := (hpWords h ?r)(?s := slotWord (unat sz) WeavecRtLive))"
    by (simp_all add: h' lw h1_def)
  show co: "cacheOf h' = cacheOf h" by (simp add: h' h1_def)
  have lv: "wordState (slotWord (unat sz) WeavecRtLive) = WeavecRtLive" "weavecRtWordValue (slotWord (unat sz) WeavecRtLive) = unat sz"
    using small by simp_all
  have "heap_inv (give own ?r ?s None) (allocs h) (releases h) h'"
  proof (rule heap_inv_give_plain [OF inv lo(1) same(1,2)])
    show "region_ok (hpTable h ?r) (hpRegion h' ?r) (hpWords h' ?r) ((own ?r)(?s := None))"
      unfolding same(3,9) fun_upd_same
      by (rule region_off_lists [OF heap_inv_region [OF inv lo(1)] lo(3)]) (use lo(2) lv in \<open>simp_all add: word_ok_def\<close>)
  qed (use same(3,9) lo(2) in simp_all)
  moreover have "give own ?r ?s None = own" using lo(2) by (simp add: give_def fun_upd_idem)
  ultimately have a: "at_rest own h'" using entries_same [OF co] by (simp add: at_rest_def)
  show f: "framed h h'" by (rule framed_geom) (simp_all add: same co)
  have hl: "hugeLive h' = hugeLive h" using same(7) by (simp add: hugeLive_def hugePart_def)
  have lm: "liveMap h' = (liveMap h)((?r, ?s) \<mapsto> unat sz)" using lv by (auto simp: liveMap_def same(9) fun_eq_iff)
  have s': "side_ok h'" using f d(2) by (simp add: framed_def)
  have "slotBase h' ?r ?s = p" using slotBase_framed [OF f lo(1)] k(2) by simp
  then show ow: "ownedSize h' = (ownedSize h)(p \<mapsto> sz)" using slot_owned [OF d(1,2) a s' f hl lm] by simp
  have tb: "hpTable h' = hpTable h" using geomD(6) [OF same(1)] .
  have z: "sizes_ok h'" by (rule sizes_framed [OF d(1,4) f]) (use lm fz tb in \<open>auto split: if_splits\<close>)
  have "p \<noteq> 0" using o d(5) by auto
  then show hr: "heap_rest own h'" using a d(3,5,9) s' z ow by (simp add: heap_rest_def page_ok_def same(5))
  have b: "unat p + unat sz < 2 ^ 64" using owned_bound [OF hr, of p sz] ow by simp
  have mem: "hpMem h' a = hpMem h a" if n: "\<not> (unat p + unat old \<le> unat a \<and> unat a < unat p + unat sz)" for a
  proof (cases "sz > old")
    case True
    then have l: "unat old < unat sz" by (simp add: word_less_nat_alt)
    then have u: "unat (p + old) = unat p + unat old" "unat (sz - old) = unat sz - unat old" using b True
      by (simp_all add: unat_word_ariths unat_sub_if')
    have "unat (p + old) + unat (sz - old) \<le> 2 ^ 64" using u l b by simp
    then show ?thesis using n l u memset_range [of "p + old" "unat (sz - old)" "hpMem h" 0 a] True by (auto simp: same(8) m_def)
  next
    case False
    then show ?thesis by (simp add: same(8) m_def)
  qed
  show "contents_kept h h' p" unfolding contents_kept_def
  proof (intro allI impI)
    fix q n and a :: u64
    assume q: "q \<noteq> p" "ownedSize h q = Some n" "unat q \<le> unat a" "unat a < unat q + unat n"
    note d' = heap_restD [OF hr]
    have "unat p + unat sz \<le> unat q \<or> unat q + unat n \<le> unat p"
      using blocks_apart [OF d'(1,2,4), of p sz q n] q(1,2) ow by simp
    then show "hpMem h' a = hpMem h a" using q(3,4) by (intro mem) linarith
  qed
  show "contents_moved h h' p p (min (unat old) (unat sz))" unfolding contents_moved_def
  proof (intro allI impI)
    fix k
    assume k: "k < min (unat old) (unat sz)"
    then have "unat (p + word_of_nat k) = unat p + k" using b by (intro offset_nat) linarith
    then show "hpMem h' (p + word_of_nat k) = hpMem h (p + word_of_nat k)" using k by (intro mem) linarith
  qed
qed

subsection \<open>A block that moves\<close>

lemma heap_ok_mem:
  assumes "heap_ok h"
  shows "heap_ok (h\<lparr>hpMem := m\<rparr>)" "ownedSize (h\<lparr>hpMem := m\<rparr>) = ownedSize h"
proof -
  obtain own where r: "heap_rest own h" "quiet h" using assms by (rule heap_okE)
  note d = heap_restD [OF r(1)]
  have a: "at_rest own (h\<lparr>hpMem := m\<rparr>)" using d(1) at_rest_counters [of "h\<lparr>hpMem := m\<rparr>" h] by simp
  note s = rest_settled [OF r(1) a d(9) settled_mem]
  show "ownedSize (h\<lparr>hpMem := m\<rparr>) = ownedSize h" by (rule s(2))
  have "quiet (h\<lparr>hpMem := m\<rparr>)" using r(2) by (simp add: quiet_def)
  then show "heap_ok (h\<lparr>hpMem := m\<rparr>)" using s(1) by (auto simp: heap_ok_def)
qed

definition reallocated :: "heap \<Rightarrow> u64 \<Rightarrow> u64 \<Rightarrow> u64 \<Rightarrow> heap \<Rightarrow> u64 \<Rightarrow> bool" where
  "reallocated h p old sz h' q \<longleftrightarrow>
     contents_kept h h' p \<and>
     (if q = 0 then ownedSize h' = ownedSize h \<and> hpMem h' = hpMem h
      else (q = p \<or> ownedSize h q = None) \<and> ownedSize h' = (ownedSize h)(p := None, q \<mapsto> sz) \<and>
        contents_moved h h' p q (min (unat old) (unat sz)))"

lemma moveBlock_inv:
  assumes ok: "heap_ok h" and o: "ownedSize h p = Some old" and mp: "mapsApart os h sz (hugeAlign h 0)"
  shows "\<exists>q h'. moveBlock os t p old sz h = Some (Inr (q, h')) \<and> heap_ok h' \<and> reallocated h p old sz h' q"
proof -
  obtain own where r: "heap_rest own h" "quiet h" using ok by (rule heap_okE)
  have "alignOk 0" by (simp add: alignOk_def)
  then obtain b h1 where x: "weavec_rt_alloc os t sz 0 h = Some (Inr (b, h1))" "heap_ok h1"
      "if b = 0 then ownedSize h1 = ownedSize h \<and> hpMem h1 = hpMem h else newBlock h sz 0 h1 b"
    using alloc_call [OF ok _ mp, of t] by blast
  show ?thesis
  proof (cases "b = 0")
    case True
    then show ?thesis using x contents_same by (auto simp: moveBlock_def reallocated_def)
  next
    case False
    then have n: "ownedSize h b = None" "ownedSize h1 = (ownedSize h)(b \<mapsto> sz)" "within (hpMem h) (hpMem h1) b (unat sz)"
        "unat b + unat sz \<le> 2 ^ 63" "\<And>q n. ownedSize h q = Some n \<Longrightarrow> unat q + unat n \<le> unat b \<or> unat b + unat sz \<le> unat q"
      using x(3) by (simp_all add: newBlock_def)
    let ?n = "min (unat old) (unat sz)"
    define m where "m = memcpy (hpMem h1) b p ?n"
    have mn: "unat (if old < sz then old else sz) = ?n" by (auto simp: word_less_nat_alt)
    have ok2: "heap_ok (h1\<lparr>hpMem := m\<rparr>)" "ownedSize (h1\<lparr>hpMem := m\<rparr>) = (ownedSize h)(b \<mapsto> sz)"
      using heap_ok_mem [OF x(2), of m] n(2) by simp_all
    have ne: "p \<noteq> b" using o n(1) by auto
    obtain h3 where f: "weavec_rt_free os t p (h1\<lparr>hpMem := m\<rparr>) = Inr h3" "heap_ok h3" "ownedSize h3 = ((ownedSize h)(b \<mapsto> sz))(p := None)"
        "contents_kept (h1\<lparr>hpMem := m\<rparr>) h3 p"
      using free_owned [OF ok2(1), of p old os t] ok2(2) o ne by auto
    have e: "moveBlock os t p old sz h = Some (Inr (b, h3))"
      using x(1) False f(1) mn by (simp add: moveBlock_def m_def Let_def)
    have nb: "unat b + ?n \<le> 2 ^ 64" using n(4) by simp
    have mem: "m a = hpMem h a" if "\<not> (unat b \<le> unat a \<and> unat a < unat b + unat sz)" for a
    proof -
      have "\<not> unat (a - b) < ?n" using offset_less [OF nb, of a] that by auto
      then have "m a = hpMem h1 a" by (auto simp: m_def memcpy_def)
      then show ?thesis using n(3) that unfolding within_def by metis
    qed
    have "contents_kept h h3 p" unfolding contents_kept_def
    proof (intro allI impI)
      fix q k and a :: u64
      assume q: "q \<noteq> p" "ownedSize h q = Some k" "unat q \<le> unat a" "unat a < unat q + unat k"
      have "ownedSize (h1\<lparr>hpMem := m\<rparr>) q = Some k" using q(2) n(1) ok2(2) by auto
      then have "hpMem h3 a = m a" using contents_keptD [OF f(4) q(1) _ q(3,4)] by simp
      also have "\<dots> = hpMem h a" using n(5) [OF q(2)] q(3,4) by (intro mem) linarith
      finally show "hpMem h3 a = hpMem h a" .
    qed
    moreover have "contents_moved h h3 p b ?n" unfolding contents_moved_def
    proof (intro allI impI)
      fix k
      assume k: "k < ?n"
      have ub: "unat (b + word_of_nat k) = unat b + k" using k n(4) by (intro offset_nat) simp
      have up: "unat (p + word_of_nat k) = unat p + k" using k owned_bound [OF r(1) o] by (intro offset_nat) simp
      have "ownedSize (h1\<lparr>hpMem := m\<rparr>) b = Some sz" using ok2(2) by simp
      then have "hpMem h3 (b + word_of_nat k) = m (b + word_of_nat k)"
        using contents_keptD [OF f(4) ne [symmetric], of sz "b + word_of_nat k"] ub k by simp
      also have "\<dots> = hpMem h1 (p + word_of_nat k)"
      proof -
        have "k < 2 ^ 64" using k n(4) by simp
        then have "unat (word_of_nat k :: u64) = k" by (simp add: unsigned_of_nat take_bit_nat_eq_self)
        then show ?thesis using k by (simp add: m_def memcpy_def)
      qed
      also have "\<dots> = hpMem h (p + word_of_nat k)"
      proof -
        have "\<not> (unat b \<le> unat (p + word_of_nat k) \<and> unat (p + word_of_nat k) < unat b + unat sz)" using n(5) [OF o] up k by auto
        then show ?thesis using n(3) unfolding within_def by metis
      qed
      finally show "hpMem h3 (b + word_of_nat k) = hpMem h (p + word_of_nat k)" .
    qed
    moreover have "ownedSize h3 = (ownedSize h)(p := None, b \<mapsto> sz)" using f(3) ne by (simp add: fun_upd_twist)
    ultimately show ?thesis using e f(2) False n(1) by (auto simp: reallocated_def)
  qed
qed

lemma realloc_owned:
  assumes ok: "heap_ok h" and o: "ownedSize h p = Some old" and mp: "mapsApart os h sz (hugeAlign h 0)"
  shows "\<exists>q h'. weavec_rt_realloc os t p sz h = Some (Inr (q, h')) \<and> heap_ok h' \<and> reallocated h p old sz h' q"
proof -
  obtain own where r: "heap_rest own h" "quiet h" using ok by (rule heap_okE)
  have p: "p \<noteq> 0" using heap_restD(5) [OF r(1)] o by auto
  note mv = moveBlock_inv [OF ok o mp, of t]
  show ?thesis
  proof (cases "inArena h p")
    case False
    then have "weavec_rt_realloc os t p sz h = moveBlock os t p old sz h" using p o by (simp add: weavec_rt_realloc_def)
    then show ?thesis using mv by simp
  next
    case True
    have w: "srBase (slotOf h p) = p" "wordState (wordOf h (slotOf h p)) = WeavecRtLive"
        "old = word_of_nat (weavecRtWordValue (wordOf h (slotOf h p)))"
      using o True by (simp_all add: ownedSize_def Let_def split: if_splits)
    show ?thesis
    proof (cases "classFor sz = regionClass h (srRegion (slotOf h p))")
      case False
      then have "weavec_rt_realloc os t p sz h = moveBlock os t p old sz h"
        using p True w by (simp add: weavec_rt_realloc_def Let_def)
      then show ?thesis using mv by simp
    next
      case c: True
      let ?h = "resize os (slotOf h p) old sz h"
      have e: "weavec_rt_realloc os t p sz h = Some (Inr (p, ?h))" using p True w c by (simp add: weavec_rt_realloc_def Let_def)
      note i = resize_inv [OF r(1) True o c refl, of os]
      have "cachedClasses ?h = cachedClasses h" using i(2) by (simp add: framed_def)
      then have "quiet ?h" using r(2) i(6) by (simp add: quiet_def)
      then have "heap_ok ?h" using i(1) by (auto simp: heap_ok_def)
      moreover have "reallocated h p old sz ?h p" using i(3-5) p by (simp add: reallocated_def)
      ultimately show ?thesis using e by blast
    qed
  qed
qed

end
