(* ===== verification/Alloc_Start.thy ===== *)
theory Alloc_Start
  imports Alloc_Realloc
begin

text \<open>
  The start of the allocator: the reservation of the arena and \<open>weavecRtInitialize\<close>, which the
  library's first constructor runs. What the system answers is a record: the page size, where the arena
  lies, whether its words could be made readable, whether a key for the caches was left. A second call
  only says whether the arena exists.
\<close>

record startup =
  suPage :: int
  suApple :: bool
  suStack :: u64
  suShadow :: bool
  suArena :: "nat \<Rightarrow> u64 option"
  suReadable :: "nat \<Rightarrow> bool"
  suKey :: bool

text \<open>The variables before the first constructor.\<close>

definition staticHeap :: "shadow_t \<Rightarrow> u64 \<Rightarrow> heap" where
  "staticHeap sh budget =
     \<lparr>hpBase = 0, hpBytes = 0, hpShift = 0, hpClasses = 0, hpRegions = 0,
      hpTable = (\<lambda>_. \<lparr>clSize = 0, clMagic = 0, clShift = 0, clCapacity = 0\<rparr>),
      hpWords = (\<lambda>_ _. WeavecRtNever),
      hpRegion = (\<lambda>_. \<lparr>rsBump = 0, rsFreeHead = 0, rsDeadHead = 0, rsDeadTail = 0, rsMarks = None, rsCommitted = 0, rsMetaCommitted = 0\<rparr>),
      regionNext = (\<lambda>_. 0), regionClass = (\<lambda>_. 0), classActive = (\<lambda>_. 0), classGained = (\<lambda>_. 0),
      cacheKeyReady = False, cachedClasses = 0, cacheOf = (\<lambda>_. NoCache), caches = [],
      hugeBlocks = [], hugeCapacity = 0, hugeLow = - 1, hugeHigh = 0, hugeDeadCount = 0, hugeDeadBytes = 0, hugeReleases = 0,
      pageBytes = 0, quarantineBudget = budget, quarantineBytes = 0, retainedBytes = 0, liveBytes = 0, peakLive = 0, peakQuarantine = 0,
      lastSweepEnd = 0, lastSweepTook = 0, nextPacingCheck = 0, hpShadow = sh, hpMem = (\<lambda>_. 0)\<rparr>"

text \<open>What \<open>buildClasses\<close> writes: the entry it stops at keeps its capacity.\<close>

definition builtTable :: "nat \<Rightarrow> (nat \<Rightarrow> slot_class) \<Rightarrow> nat \<Rightarrow> slot_class" where
  "builtTable shift table r =
     (let cs = buildClasses shift
      in if r < length cs then cs ! r
         else if r = length cs \<and> r < WeavecRtClassCount then (classEntry r)\<lparr>clCapacity := clCapacity (table r)\<rparr>
         else table r)"

definition reserve :: "startup \<Rightarrow> nat \<Rightarrow> heap \<Rightarrow> bool \<times> heap" where
  "reserve su shift h =
     (let n = length (buildClasses shift);
          h = h\<lparr>hpTable := builtTable shift (hpTable h), hpClasses := n\<rparr>;
          align = push_bit shift 1
      in case suArena su shift of
           None \<Rightarrow> (False, h)
         | Some mp \<Rightarrow>
             let start = (mp + 16 + align - 1) AND NOT (align - 1)
             in if \<not> suReadable su shift then (False, h)
                else (True, h\<lparr>regionNext := (\<lambda>_. NoRegion), regionClass := (\<lambda>r. if r < n then r else NoRegion),
                  hpTable := (\<lambda>r. if n \<le> r \<and> r < WeavecRtRegionCount then spareEntry shift else hpTable h r),
                  classActive := (\<lambda>r. if r < n then r else classActive h r), hpRegions := n, hpShift := shift,
                  hpBase := start, hpBytes := push_bit shift 160\<rparr>))"

text \<open>The loop that counts the classes a cache holds.\<close>

definition countCached :: "heap \<Rightarrow> nat" where
  "countCached h = length (takeWhile (\<lambda>c. clSize (hpTable h c) \<le> CacheBytes) [0..<min (hpClasses h) CachedClasses])"

definition weavecRtInitialize :: "startup \<Rightarrow> heap \<Rightarrow> bool \<times> heap" where
  "weavecRtInitialize su h =
     (if hpBytes h \<noteq> 0 then (True, h)
      else
        let h = h\<lparr>pageBytes := (if suPage su > 0 then nat (suPage su) else 4096),
                  hpShadow := reserveShadow (windowBits (suApple su) (suStack su)) (suShadow su) (hpShadow h)\<rparr>
        in case (case reserve su 31 h of (ok, h) \<Rightarrow> if ok then (True, h) else reserve su 30 h) of
             (ok, h) \<Rightarrow>
               if ok then (True, h\<lparr>cachedClasses := countCached h, cacheKeyReady := suKey su\<rparr>) else (False, h))"

subsection \<open>The first state\<close>

text \<open>What the system promises: a reservation lies in the lower half of the address space.\<close>

definition arenaRoom :: "startup \<Rightarrow> nat \<Rightarrow> bool" where
  "arenaRoom su shift \<longleftrightarrow> (\<forall>mp. suArena su shift = Some mp \<longrightarrow> unat mp + (160 * 2 ^ shift + 160 * 2 ^ (shift - 2) + 2 * 2 ^ shift) \<le> 2 ^ 63)"

definition startOk :: "startup \<Rightarrow> bool" where
  "startOk su \<longleftrightarrow> arenaRoom su 31 \<and> arenaRoom su 30 \<and> (suPage su > 0 \<longrightarrow> (\<exists>k. 4 \<le> k \<and> k \<le> 20 \<and> suPage su = 2 ^ k))"

lemma initial_rest:
  assumes shift: "shift = 30 \<or> shift = 31" and room: "arenaRoom su shift" and pg: "page_ok h"
    and h: "hpWords h = (\<lambda>_ _. WeavecRtNever)" "cacheOf h = (\<lambda>_. NoCache)" "caches h = []" "hugeBlocks h = []" "hugeDeadCount h = 0"
      "hpRegion h = (\<lambda>_. \<lparr>rsBump = 0, rsFreeHead = 0, rsDeadHead = 0, rsDeadTail = 0, rsMarks = None, rsCommitted = 0, rsMetaCommitted = 0\<rparr>)"
    and r: "reserve su shift h = (True, h1)" and h2: "h2 = h1\<lparr>cachedClasses := countCached h1, cacheKeyReady := b\<rparr>"
  shows "heap_ok h2" "ownedSize h2 = (\<lambda>_. None)"
proof -
  let ?n = "length (buildClasses shift)"
  obtain mp where mp: "suArena su shift = Some mp" using r by (auto simp: reserve_def Let_def split: option.splits if_splits)
  let ?al = "push_bit shift 1 :: u64"
  define start where "start = (mp + 16 + ?al - 1) AND NOT (?al - 1)"
  define tab where "tab = (\<lambda>r. if ?n \<le> r \<and> r < WeavecRtRegionCount then spareEntry shift else builtTable shift (hpTable h) r)"
  have h1: "h1 = h\<lparr>hpTable := tab, hpClasses := ?n, regionNext := (\<lambda>_. NoRegion),
      regionClass := (\<lambda>r. if r < ?n then r else NoRegion), classActive := (\<lambda>r. if r < ?n then r else classActive h r), hpRegions := ?n,
      hpShift := shift, hpBase := start, hpBytes := push_bit shift 160\<rparr>"
  proof (rule heap.equality)
  qed (use r mp in \<open>auto simp: reserve_def Let_def start_def tab_def split: if_splits\<close>)
  have tabr: "tab c = initialTable shift c" if "c < ?n" for c using that by (simp add: tab_def builtTable_def initialTable_def)
  have n: "0 < ?n" "?n \<le> 100" "?n \<le> 160"
    using buildClasses_has [of 0 shift] buildClasses_length [of shift] shift by (auto simp: classSize_def)
  have al: "?al = 2 ^ shift" by (simp add: push_bit_eq_mult)
  have base: "0 < unat start" "2 ^ shift dvd unat start" "unat start + 160 * 2 ^ shift \<le> 2 ^ 63"
  proof -
    have rm: "unat mp + (160 * 2 ^ shift + 160 * 2 ^ (shift - 2) + 2 * 2 ^ shift) \<le> 2 ^ 63" using room mp by (simp add: arenaRoom_def)
    have s: "(16 :: nat) \<le> 2 ^ shift" "(2 :: nat) ^ shift \<le> 2147483648" using shift by auto
    have u16: "unat (mp + 16) = unat mp + 16" using rm s by (simp add: unat_word_ariths)
    have lt: "unat (mp + 16) + 2 ^ shift < 2 ^ 64" "shift < 64" using u16 rm s shift by auto
    note ru = round_up [OF lt al]
    have e: "unat start = (unat (mp + 16) + 2 ^ shift - 1) div 2 ^ shift * 2 ^ shift" using ru(1) by (simp add: start_def)
    show "2 ^ shift dvd unat start" unfolding e by simp
    show "0 < unat start" using ru(2) u16 unfolding e by linarith
    show "unat start + 160 * 2 ^ shift \<le> 2 ^ 63" using ru(3) u16 rm s unfolding e by linarith
  qed
  have own: "held (\<lambda>_ _. None) p = {}" for p by (simp add: held_def)
  have ent: "allocs h2 = (\<lambda>_ _. [])" "releases h2 = (\<lambda>_ _. [])" by (simp_all add: allocs_def releases_def h2 h1 h fun_eq_iff)
  have cc: "countCached h1 \<le> ?n"
    using length_takeWhile_le [of "\<lambda>c. clSize (hpTable h1 c) \<le> CacheBytes" "[0..<min (hpClasses h1) CachedClasses]"]
    by (simp add: countCached_def h1)
  have sh31: "shift \<le> 31" using shift by auto
  have "arena_ok h2" using shift base n cc by (auto simp: arena_ok_def h2 h1 push_bit_eq_mult)
  moreover have "table_ok h2"
  proof -
    have "entry_ok shift (tab c)" if "c < ?n" for c using initialTable_ok [OF that] tabr [OF that] by simp
    moreover have "clSize (tab c) = classSize c" if "c < ?n" for c
      using tabr [OF that] buildClasses_nth(2) [OF that] that by (simp add: initialTable_def clSize_classSize)
    ultimately show ?thesis by (simp add: table_ok_def h2 h1)
  qed
  moreover have "chains_ok h2" by (simp add: chains_ok_def h2 h1)
  moreover have "regions_ok (\<lambda>_ _. None) h2"
  proof -
    have "region_ok (tab r) (hpRegion h r) (\<lambda>_. WeavecRtNever) (\<lambda>_. None)" if "r < ?n" for r
    proof -
      note f = entry_ok_facts [OF initialTable_ok [OF that] sh31]
      have "clCapacity (tab r) \<le> 2 ^ 31 div 16"
      proof -
        have "(2 :: nat) ^ shift div clSize (tab r) \<le> 2 ^ shift div 16" using f(1) tabr [OF that] by (intro div_le_mono2) simp_all
        also have "(2 :: nat) ^ shift div 16 \<le> 2 ^ 31 div 16" using shift by auto
        finally show ?thesis using f(4) that by (simp add: tabr)
      qed
      then have "slots_ok (tab r) (hpRegion h r) (\<lambda>_. WeavecRtNever) (\<lambda>_. None)" by (simp add: slots_ok_def h)
      moreover have "lists_ok (hpRegion h r) (\<lambda>_. WeavecRtNever) (\<lambda>_. None) [] []" by (simp add: lists_ok_def h)
      ultimately show ?thesis unfolding region_ok_def by blast
    qed
    then show ?thesis by (simp add: regions_ok_def h2 h1 h region_fresh_def)
  qed
  ultimately have a: "at_rest (\<lambda>_ _. None) h2" by (simp add: at_rest_def heap_inv_def ent own entries_ok_def)
  have s: "side_ok h2" by (simp add: side_ok_def marks_clear_def huge_wf_def huge_sorted_def threads_ok_def h2 h1 h)
  have l: "liveMap h2 = (\<lambda>_. None)" by (simp add: liveMap_def h2 h1 h wordState_def fun_eq_iff)
  have "hugeLive h2 = []" by (simp add: hugeLive_def h2 h1 h)
  then have "ownedSize h2 p \<noteq> Some n" for p n unfolding ownedSize_iff [OF a s] l by simp
  then show o: "ownedSize h2 = (\<lambda>_. None)" by (metis ext not_Some_eq)
  have "page_ok h2" using pg by (simp add: page_ok_def h2 h1)
  moreover have "sizes_ok h2" by (simp add: sizes_ok_def l)
  ultimately have "heap_rest (\<lambda>_ _. None) h2" using a s o by (simp add: heap_rest_def hands_def own)
  moreover have "quiet h2" by (simp add: quiet_def h2 h1 h)
  ultimately show "heap_ok h2" by (auto simp: heap_ok_def)
qed

lemma initialize_ok:
  assumes su: "startOk su" and i: "weavecRtInitialize su (staticHeap sh budget) = (True, h)"
  shows "heap_ok h" "ownedSize h = (\<lambda>_. None)"
proof -
  define h0 where "h0 = (staticHeap sh budget)\<lparr>pageBytes := (if suPage su > 0 then nat (suPage su) else 4096),
    hpShadow := reserveShadow (windowBits (suApple su) (suStack su)) (suShadow su) sh\<rparr>"
  have pg: "page_ok h0"
  proof (cases "suPage su > 0")
    case True
    then obtain k where k: "4 \<le> k" "k \<le> 20" "suPage su = 2 ^ k" using su by (auto simp: startOk_def)
    then have "pageBytes h0 = 2 ^ k" by (simp add: h0_def nat_power_eq)
    then show ?thesis using k by (auto simp: page_ok_def)
  next
    case False
    then have "pageBytes h0 = 2 ^ 12" by (simp add: h0_def)
    then show ?thesis unfolding page_ok_def by (intro exI [of _ 12]) simp
  qed
  have init: "weavecRtInitialize su (staticHeap sh budget) =
      (case (case reserve su 31 h0 of (ok, h) \<Rightarrow> if ok then (True, h) else reserve su 30 h) of
         (ok, h) \<Rightarrow> if ok then (True, h\<lparr>cachedClasses := countCached h, cacheKeyReady := suKey su\<rparr>) else (False, h))"
  proof -
    have "hpBytes (staticHeap sh budget) = 0" "hpShadow (staticHeap sh budget) = sh" by (simp_all add: staticHeap_def)
    then show ?thesis by (simp only: weavecRtInitialize_def Let_def h0_def) simp
  qed
  obtain ok1 h1 where r1: "reserve su 31 h0 = (ok1, h1)" by (cases "reserve su 31 h0")
  show "heap_ok h" "ownedSize h = (\<lambda>_. None)"
  proof -
    have "\<exists>shift h0' h1. (shift = 30 \<or> shift = 31) \<and> arenaRoom su shift \<and> page_ok h0' \<and> reserve su shift h0' = (True, h1) \<and>
        h = h1\<lparr>cachedClasses := countCached h1, cacheKeyReady := suKey su\<rparr> \<and>
        hpWords h0' = hpWords h0 \<and> cacheOf h0' = cacheOf h0 \<and> caches h0' = caches h0 \<and> hugeBlocks h0' = hugeBlocks h0 \<and>
        hugeDeadCount h0' = hugeDeadCount h0 \<and> hpRegion h0' = hpRegion h0"
    proof (cases ok1)
      case True
      then have "h = h1\<lparr>cachedClasses := countCached h1, cacheKeyReady := suKey su\<rparr>"
        using i r1 by (simp add: init)
      then show ?thesis using True r1 su pg by (intro exI [of _ 31] exI [of _ h0] exI [of _ h1]) (simp add: startOk_def)
    next
      case False
      obtain ok2 h2 where r2: "reserve su 30 h1 = (ok2, h2)" by (cases "reserve su 30 h1")
      have e: "ok2" "h = h2\<lparr>cachedClasses := countCached h2, cacheKeyReady := suKey su\<rparr>"
        using i r1 r2 False by (simp_all add: init split: if_splits)
      obtain tb cl where h1: "h1 = h0\<lparr>hpTable := tb, hpClasses := cl\<rparr>"
        using r1 False by (auto simp: reserve_def Let_def split: option.splits if_splits)
      then have "page_ok h1 \<and> hpWords h1 = hpWords h0 \<and> cacheOf h1 = cacheOf h0 \<and> caches h1 = caches h0 \<and> hugeBlocks h1 = hugeBlocks h0 \<and>
        hugeDeadCount h1 = hugeDeadCount h0 \<and> hpRegion h1 = hpRegion h0"
        using pg by (simp add: page_ok_def)
      then show ?thesis using e r2 su by (intro exI [of _ 30] exI [of _ h1] exI [of _ h2]) (simp add: startOk_def)
    qed
    then obtain shift g h1 where g: "shift = 30 \<or> shift = 31" "arenaRoom su shift" "page_ok g" "reserve su shift g = (True, h1)"
        "h = h1\<lparr>cachedClasses := countCached h1, cacheKeyReady := suKey su\<rparr>"
        "hpWords g = hpWords h0" "cacheOf g = cacheOf h0" "caches g = caches h0" "hugeBlocks g = hugeBlocks h0"
        "hugeDeadCount g = hugeDeadCount h0" "hpRegion g = hpRegion h0" by blast
    have z: "hpWords g = (\<lambda>_ _. WeavecRtNever)" "cacheOf g = (\<lambda>_. NoCache)" "caches g = []" "hugeBlocks g = []" "hugeDeadCount g = 0"
        "hpRegion g = (\<lambda>_. \<lparr>rsBump = 0, rsFreeHead = 0, rsDeadHead = 0, rsDeadTail = 0, rsMarks = None, rsCommitted = 0, rsMetaCommitted = 0\<rparr>)"
      using g by (simp_all add: h0_def staticHeap_def)
    show "heap_ok h" "ownedSize h = (\<lambda>_. None)"
      by (rule initial_rest [OF g(1-3) z g(4,5)])+
  qed
qed

end
