(* ===== verification/Alloc_Run.thy ===== *)
theory Alloc_Run
  imports Alloc_Start
begin

text \<open>
  Runs of a program over the allocator. An event says what a call did, seen from outside; the owned
  blocks after a run are what the events say. The interface \<open>block_store\<close> is what an allocator
  promises of one call, and what follows for every run; it is interpreted on the model of
  \<open>weavec_alloc.c\<close>.
\<close>

subsection \<open>The abstract store of blocks\<close>

datatype event = Allocated u64 u64 | Released u64 | Resized u64 u64 u64 | Silent

type_synonym blocks = "u64 \<Rightarrow> u64 option"

definition clearOf :: "blocks \<Rightarrow> u64 \<Rightarrow> u64 \<Rightarrow> bool" where
  "clearOf m p n \<longleftrightarrow> (\<forall>q k. m q = Some k \<longrightarrow> unat q + unat k \<le> unat p \<or> unat p + unat n \<le> unat q)"

fun effect :: "event \<Rightarrow> blocks \<Rightarrow> blocks" where
  "effect (Allocated p n) m = m(p \<mapsto> n)"
| "effect (Released p) m = m(p := None)"
| "effect (Resized p q n) m = m(p := None, q \<mapsto> n)"
| "effect Silent m = m"

text \<open>What a caller may rely on: a new block is no block of the program's and shares no byte with one.\<close>

fun legal :: "event \<Rightarrow> blocks \<Rightarrow> bool" where
  "legal (Allocated p n) m \<longleftrightarrow> p \<noteq> 0 \<and> m p = None \<and> clearOf m p n"
| "legal (Released p) m \<longleftrightarrow> m p \<noteq> None"
| "legal (Resized p q n) m \<longleftrightarrow> m p \<noteq> None \<and> q \<noteq> 0 \<and> (q = p \<or> m q = None) \<and> clearOf (m(p := None)) q n"
| "legal Silent m \<longleftrightarrow> True"

fun legalRun :: "event list \<Rightarrow> blocks \<Rightarrow> bool" where
  "legalRun [] m \<longleftrightarrow> True"
| "legalRun (e # es) m \<longleftrightarrow> legal e m \<and> legalRun es (effect e m)"

definition apart :: "blocks \<Rightarrow> bool" where
  "apart m \<longleftrightarrow> (\<forall>p n q k. m p = Some n \<longrightarrow> m q = Some k \<longrightarrow> p \<noteq> q \<longrightarrow>
     unat p + unat n \<le> unat q \<or> unat q + unat k \<le> unat p)"

lemma legalRun_append: "legalRun (es @ fs) m \<longleftrightarrow> legalRun es m \<and> legalRun fs (fold effect es m)"
  by (induction es arbitrary: m) auto

lemma apart_clear:
  assumes "apart m" "m p = Some n"
  shows "clearOf (m(p := None)) p n"
  using assms unfolding apart_def clearOf_def by (metis fun_upd_apply option.distinct(1))

lemma apart_resize:
  assumes "apart (effect (Resized p q n) m)"
  shows "clearOf (m(p := None, q := None)) q n"
  using apart_clear [OF assms, of q n] by simp

text \<open>Runs of any step relation that emits events.\<close>

inductive run :: "('s \<Rightarrow> event \<Rightarrow> 's \<Rightarrow> bool) \<Rightarrow> 's \<Rightarrow> event list \<Rightarrow> 's \<Rightarrow> bool" for step where
  run_start: "run step s [] s"
| run_step: "run step s es s' \<Longrightarrow> step s' e s'' \<Longrightarrow> run step s (es @ [e]) s''"

inductive_cases run_empty: "run step s [] s'"
inductive_cases run_last: "run step s (es @ [e]) s'"

lemma run_trans: "run step s' fs s'' \<Longrightarrow> run step s es s' \<Longrightarrow> run step s (es @ fs) s''"
proof (induction rule: run.induct)
  case (run_step s' fs t e u)
  then show ?case using run.run_step [of step s "es @ fs" t e u] by simp
qed simp

locale block_store =
  fixes ok :: "'s \<Rightarrow> bool" and owned :: "'s \<Rightarrow> blocks" and step :: "'s \<Rightarrow> event \<Rightarrow> 's \<Rightarrow> bool"
  assumes step_ok: "ok s \<Longrightarrow> step s e s' \<Longrightarrow> ok s' \<and> legal e (owned s) \<and> owned s' = effect e (owned s)"
    and ok_apart: "ok s \<Longrightarrow> apart (owned s)"
begin

lemma run_ok:
  "run step s es s' \<Longrightarrow> ok s \<Longrightarrow>
     ok s' \<and> legalRun es (owned s) \<and> owned s' = fold effect es (owned s) \<and> apart (owned s')"
proof (induction rule: run.induct)
  case (run_step s es s' e s'')
  then show ?case using step_ok [of s' e s''] ok_apart [of s''] by (simp add: legalRun_append)
qed (simp add: ok_apart)

end

subsection \<open>The allocator's steps\<close>

text \<open>
  A call that returns is a step, and so are a write of the program and the exit of a thread. The
  system maps nothing over what is mapped (\<open>mapsApart\<close>), and an alignment is at most \<open>2 ^ 60\<close>. A
  release or reallocation of a pointer that belongs to the next allocator leaves this one alone.
\<close>

inductive heap_step :: "heap \<Rightarrow> event \<Rightarrow> heap \<Rightarrow> bool" where
  heap_alloc: "alignOk al \<Longrightarrow> mapsApart os h sz (hugeAlign h al) \<Longrightarrow> weavec_rt_alloc os t sz al h = Some (Inr (b, h')) \<Longrightarrow>
    heap_step h (if b = 0 then Silent else Allocated b sz) h'"
| heap_free: "weavec_rt_free os t p h = Inr h' \<Longrightarrow> heap_step h (if ownedSize h p = None then Silent else Released p) h'"
| heap_realloc: "mapsApart os h sz (hugeAlign h 0) \<Longrightarrow> weavec_rt_realloc os t p sz h = Some (Inr (q, h')) \<Longrightarrow>
    heap_step h (if p = 0 then (if q = 0 then Silent else Allocated q sz)
                 else if ownedSize h p = None \<or> q = 0 then Silent else Resized p q sz) h'"
| heap_write: "heap_step h Silent (h\<lparr>hpMem := m\<rparr>)"
| heap_exit: "heap_step h Silent (dropCache t h)"

inductive_cases heap_stepE: "heap_step h e h'"

lemma heap_apart: "heap_ok h \<Longrightarrow> apart (ownedSize h)"
  unfolding apart_def using blocks_apart heap_restD heap_okE by metis

lemma forget_side:
  assumes s: "side_ok h" and v: "v = CacheGone \<or> v = NoCache"
  shows "side_ok (h\<lparr>cacheOf := (cacheOf h)(t := v), caches := remove1 t (caches h)\<rparr>)"
  using assms by (auto simp: side_ok_def marks_clear_def huge_wf_def outside_arena_def threads_ok_def)

lemma forget_rest:
  assumes r: "heap_rest own h" and e: "allocs h t = (\<lambda>_. [])" "releases h t = (\<lambda>_. [])" and v: "v = CacheGone \<or> v = NoCache"
  shows "heap_rest own (h\<lparr>cacheOf := (cacheOf h)(t := v), caches := remove1 t (caches h)\<rparr>)"
    "ownedSize (h\<lparr>cacheOf := (cacheOf h)(t := v), caches := remove1 t (caches h)\<rparr>) = ownedSize h"
proof -
  let ?h = "h\<lparr>cacheOf := (cacheOf h)(t := v), caches := remove1 t (caches h)\<rparr>"
  note d = heap_restD [OF r]
  show o: "ownedSize ?h = ownedSize h"
    by (simp add: fun_eq_iff ownedSize_def inArena_def slotOf_def wordOf_def regionStart_def hugeFind_def maybeHuge_def)
  have "liveMap ?h = liveMap h" by (rule liveMap_words) simp
  then have "page_ok ?h" "sizes_ok ?h" using d(3,4) by (simp_all add: page_ok_def sizes_ok_def)
  then show "heap_rest own ?h"
    using forget_cache [OF d(1) e v] forget_side [OF d(2) v] d(5,9) o by (simp add: heap_rest_def)
qed

lemma drop_quiet:
  assumes q: "quiet h" and k: "thread_step t h h'"
  shows "quiet (h'\<lparr>cacheOf := (cacheOf h')(t := CacheGone), caches := cs\<rparr>)"
proof -
  have "cachedClasses h' = cachedClasses h" using k geomD(9) unfolding thread_step_def by blast
  then show ?thesis using assms unfolding quiet_def thread_step_def by (auto split: if_splits)
qed

lemma dropCache_ok:
  assumes "heap_ok h"
  shows "heap_ok (dropCache t h)" "ownedSize (dropCache t h) = ownedSize h" "hpMem (dropCache t h) = hpMem h"
proof -
  obtain own where r: "heap_rest own h" "quiet h" using assms by (rule heap_okE)
  note d = heap_restD [OF r(1)]
  have "heap_ok (dropCache t h) \<and> ownedSize (dropCache t h) = ownedSize h \<and> hpMem (dropCache t h) = hpMem h"
  proof (cases "\<exists>tc. cacheOf h t = HasCache tc")
    case True
    then obtain tc where tc: "cacheOf h t = HasCache tc" by blast
    let ?h = "drainCache t False h"
    obtain own' where o: "at_rest own' ?h" "hands own' = hands own" "thread_step t h ?h"
        "allocs ?h t = (\<lambda>_. [])" "releases ?h t = (\<lambda>_. [])" using drainCache_inv [OF d(1) tc] by blast
    have k: "settled h ?h" "hpMem ?h = hpMem h" using o(3) by (simp_all add: thread_step_def kept_settled kept_def)
    note x = rest_settled [OF r(1) o(1) _ k(1)]
    have x1: "heap_rest own' ?h" "ownedSize ?h = ownedSize h" using x o(2) d(9) by simp_all
    have cs: "caches ?h = caches h" using o(3) by (simp add: thread_step_def)
    note f = forget_rest [OF x1(1) o(4,5), of CacheGone]
    have e: "dropCache t h = ?h\<lparr>cacheOf := (cacheOf ?h)(t := CacheGone), caches := remove1 t (caches ?h)\<rparr>"
      using tc by (simp add: dropCache_def Let_def)
    show ?thesis unfolding e using f x1(2) k(2) drop_quiet [OF r(2) o(3)] by (auto simp: heap_ok_def)
  next
    case False
    have e: "dropCache t h = h\<lparr>cacheOf := (cacheOf h)(t := CacheGone), caches := remove1 t (caches h)\<rparr>"
    proof -
      have "t \<notin> set (caches h)" using False d(2) by (simp add: side_ok_def threads_ok_def)
      then have "remove1 t (caches h) = caches h" by (rule remove1_idem)
      moreover have "dropCache t h = h\<lparr>cacheOf := (cacheOf h)(t := CacheGone)\<rparr>"
        using False by (simp add: dropCache_def split: cache_value.splits)
      ultimately show ?thesis by (simp only:) (rule heap.equality; simp)
    qed
    have n: "allocs h t = (\<lambda>_. [])" "releases h t = (\<lambda>_. [])"
      using False by (simp_all add: allocs_def releases_def fun_eq_iff split: cache_value.split)
    note f = forget_rest [OF r(1) n, of CacheGone]
    show ?thesis unfolding e using f drop_quiet [OF r(2) thread_step_refl] by (auto simp: heap_ok_def)
  qed
  then show "heap_ok (dropCache t h)" "ownedSize (dropCache t h) = ownedSize h" "hpMem (dropCache t h) = hpMem h" by auto
qed

subsection \<open>Every step keeps the promise\<close>

definition promised :: "heap \<Rightarrow> event \<Rightarrow> heap \<Rightarrow> bool" where
  "promised h e h' \<longleftrightarrow> heap_ok h' \<and> legal e (ownedSize h) \<and> ownedSize h' = effect e (ownedSize h)"

lemma promised_alloc:
  assumes ok: "heap_ok h" and al: "alignOk al" "mapsApart os h sz (hugeAlign h al)"
    and c: "weavec_rt_alloc os t sz al h = Some (Inr (b, h'))"
  shows "promised h (if b = 0 then Silent else Allocated b sz) h'"
proof -
  have "clearOf (ownedSize h) b sz \<and> ownedSize h b = None \<and> ownedSize h' = (ownedSize h)(b \<mapsto> sz)" if "newBlock h sz al h' b"
    using that unfolding newBlock_def clearOf_def by blast
  then show ?thesis using alloc_call [OF ok al, of t] c by (auto simp: promised_def)
qed

lemma promised_free:
  assumes ok: "heap_ok h" and c: "weavec_rt_free os t p h = Inr h'"
  shows "promised h (if ownedSize h p = None then Silent else Released p) h'"
proof (cases "ownedSize h p")
  case (Some n)
  then show ?thesis using free_owned [OF ok Some, of os t] c by (auto simp: promised_def)
next
  case None
  show ?thesis
  proof (cases "p = 0")
    case True
    then show ?thesis using None c ok by (simp add: promised_def weavec_rt_free_def)
  next
    case False
    then show ?thesis using free_refused [OF ok False None, of os t] None c
      by (auto simp: promised_def split: if_splits option.splits)
  qed
qed

lemma promised_resized:
  assumes ok: "heap_ok h'" and q: "q \<noteq> 0" "q = p \<or> ownedSize h q = None" and p: "ownedSize h p \<noteq> None"
    and o: "ownedSize h' = (ownedSize h)(p := None, q \<mapsto> n)"
  shows "promised h (Resized p q n) h'"
proof -
  have "apart (effect (Resized p q n) (ownedSize h))" using heap_apart [OF ok] o by simp
  moreover have "(ownedSize h)(p := None, q := None) = (ownedSize h)(p := None)" using q(2) by (auto simp: fun_eq_iff)
  ultimately have "clearOf ((ownedSize h)(p := None)) q n" using apart_resize by metis
  then show ?thesis using assms by (auto simp: promised_def)
qed

lemma realloc_unowned:
  assumes "p \<noteq> 0" "ownedSize h p = None" "weavec_rt_realloc os t p sz h = Some (Inr (q, h'))"
  shows "h' = h"
  using assms by (auto simp: weavec_rt_realloc_def ownedSize_def Let_def split: if_splits option.splits)

lemma promised_realloc:
  assumes ok: "heap_ok h" and m: "mapsApart os h sz (hugeAlign h 0)" and c: "weavec_rt_realloc os t p sz h = Some (Inr (q, h'))"
  shows "promised h (if p = 0 then (if q = 0 then Silent else Allocated q sz)
    else if ownedSize h p = None \<or> q = 0 then Silent else Resized p q sz) h'"
proof (cases "p = 0")
  case True
  have "alignOk 0" by (simp add: alignOk_def)
  then show ?thesis using promised_alloc [OF ok _ m, of t q h'] c True by (simp add: weavec_rt_realloc_def)
next
  case p: False
  show ?thesis
  proof (cases "ownedSize h p")
    case None
    then show ?thesis using realloc_unowned [OF p None c] ok p by (simp add: promised_def)
  next
    case (Some old)
    then have "heap_ok h'" "reallocated h p old sz h' q" using realloc_owned [OF ok Some m, of t] c by auto
    then show ?thesis using p Some promised_resized [of h' q p h sz]
      by (auto simp: reallocated_def promised_def split: if_splits)
  qed
qed

lemma heap_step_ok:
  assumes ok: "heap_ok h" and s: "heap_step h e h'"
  shows "promised h e h'"
  using s
proof cases
  case (heap_alloc al os sz t b)
  then show ?thesis using promised_alloc [OF ok] by blast
next
  case (heap_free os t p)
  then show ?thesis using promised_free [OF ok] by blast
next
  case (heap_realloc os sz t p q)
  then show ?thesis using promised_realloc [OF ok] by blast
next
  case (heap_write m)
  then show ?thesis using heap_ok_mem [OF ok] by (simp add: promised_def)
next
  case (heap_exit t)
  then show ?thesis using dropCache_ok [OF ok] by (simp add: promised_def)
qed

interpretation alloc: block_store heap_ok ownedSize heap_step
  using heap_step_ok by unfold_locales (auto simp: promised_def heap_apart)

end
