(* ===== verification/Alloc_Progress.thy ===== *)
theory Alloc_Progress
  imports Alloc_Run
begin

text \<open>
  An allocation makes progress: where the system grants the pages it asks for, a request that fits a
  class gets a block as long as the class has room in the region it tries first or a spare region is left.
\<close>

definition grants :: "system \<Rightarrow> bool" where
  "grants os \<longleftrightarrow> osProtect os = (\<lambda>_ _. True)"

definition room :: "heap \<Rightarrow> nat \<Rightarrow> bool" where
  "room h r \<longleftrightarrow> rsFreeHead (hpRegion h r) \<noteq> 0 \<or> rsBump (hpRegion h r) < clCapacity (hpTable h r)"

lemma commit_granted: "grants os \<Longrightarrow> fst (commit os page start committed finish chunk limit)"
  by (simp add: grants_def commit_def Let_def)

lemma popSlot_room:
  assumes "grants os" "room h r"
  shows "fst (popSlot os r h) \<noteq> None"
proof (cases "rsFreeHead (hpRegion h r) \<noteq> 0")
  case False
  let ?st = "hpRegion h r"
  obtain com where c: "commit os (pageBytes h) (regionStart h r) (rsCommitted ?st) ((rsBump ?st + 1) * clSize (hpTable h r)) DataChunk (2 ^ hpShift h) = (True, com)"
    using commit_granted [OF assms(1)] by (metis prod.collapse)
  obtain mcom where m: "commit os (pageBytes h) (wordsStart h r) (rsMetaCommitted ?st) ((rsBump ?st + 1) * 4) MetaChunk (2 ^ hpShift h div 4) = (True, mcom)"
    using commit_granted [OF assms(1)] by (metis prod.collapse)
  have "rsBump ?st < clCapacity (hpTable h r)" using assms(2) False by (simp add: room_def)
  then have "fst (popFresh os r h) \<noteq> None" using c m unfolding popFresh_def Let_def by simp
  then show ?thesis using False by (simp add: popSlot_def)
qed (simp add: popSlot_def Let_def)

lemma popRegion_room:
  assumes "grants os" "room h r" "want \<noteq> 0"
  shows "fst (popRegion os r want h) \<noteq> []"
proof -
  obtain n where n: "want = Suc n" using assms(3) by (cases want) auto
  obtain s u h1 where "popSlot os r h = (Some (s, u), h1)" using popSlot_room [OF assms(1,2)] by (cases "popSlot os r h") auto
  then show ?thesis by (simp add: n split: prod.split)
qed

lemma popClass_room:
  assumes "grants os" "room h (classActive h c)" "want \<noteq> 0" "popClass os t c want swept h = Some (es, h')"
  shows "es \<noteq> []"
proof -
  obtain es1 h1 where p: "popRegion os (classActive h c) want h = (es1, h1)" by (cases "popRegion os (classActive h c) want h")
  then have "es1 \<noteq> []" using popRegion_room [OF assms(1-3)] by simp
  then show ?thesis using assms(4) by (simp add: popClass.simps p)
qed

text \<open>A spare region is taken empty, with room for at least four slots.\<close>

lemma takeSpare_room:
  assumes inv: "heap_inv own as rs h" and c: "c < hpClasses h" and r: "hpRegions h < WeavecRtRegionCount"
    and t: "takeSpare c h = (b, h')"
  shows "b" "room h' (classActive h' c)"
proof -
  show "b" using t r by (simp add: takeSpare_def Let_def)
  have e: "entry_ok (hpShift h) (hpTable h c)" "hpShift h \<le> 31" "0 < hpShift h" "region_fresh (hpRegion h (hpRegions h))"
    using inv c by (auto simp: heap_inv_def table_ok_def arena_ok_def regions_ok_def)
  note f = entry_ok_facts [OF e(1,2)]
  obtain k where k: "clSize (hpTable h c) \<le> 2 ^ (hpShift h - 2)"
    using e(1) by (auto simp: entry_ok_def clSize_classSize)
  have "clSize (hpTable h c) \<le> 2 ^ hpShift h" using k by (rule order_trans) simp
  then have "0 < clCapacity (hpTable h c)" using f(1,4) by (simp add: div_greater_zero_iff)
  moreover have "classActive h' c = hpRegions h" "hpRegion h' = hpRegion h" "hpTable h' (hpRegions h) = hpTable h c"
    using t r by (auto simp: takeSpare_def Let_def)
  ultimately show "room h' (classActive h' c)" using e(4) by (simp add: room_def region_fresh_def)
qed

lemma weavecRtSweep_regions:
  assumes inv: "at_rest own h" and s: "side_ok h"
  shows "hpRegions (weavecRtSweep os t h) = hpRegions h"
proof -
  let ?h1 = "weavecRtFlushThread t h"
  obtain own1 where o1: "at_rest own1 ?h1" "thread_step t h ?h1" using weavecRtFlushThread_inv [OF inv, of t] by blast
  have k1: "kept h ?h1" by (rule thread_kept [OF o1(2)])
  have g1: "hpRegions ?h1 = hpRegions h" using o1(2) geomD(5) unfolding thread_step_def by blast
  obtain m h2 where sw: "sweepStopped os ?h1 = (m, h2)" by (cases "sweepStopped os ?h1")
  have b: "marks_clear ?h1" "blocks_ok ?h1" using k1 s by (simp_all add: side_blocks kept_def framed_def)
  note x = sweepStopped_exact(2) [OF o1(1) [unfolded at_rest_def] b(2,1) sw]
  have "hpRegions h2 = hpRegions h" using geomD(5) [OF x] g1 by simp
  then show ?thesis using sw g1 by (simp add: weavecRtSweep_def Let_def weavecRtSwept_def)
qed

text \<open>A search that finds its regions full takes a spare region, before or after a sweep.\<close>

lemma popClass_spare:
  assumes "at_rest own h" "side_ok h" "c < hpClasses h" "held own HandFree = {}" "grants os" "want \<noteq> 0"
    "hpRegions h < WeavecRtRegionCount" "popClass os t c want swept h = Some (es, h')"
  shows "es \<noteq> []"
  using assms
proof (induction "if swept then 0 else 1 :: nat" arbitrary: own h swept rule: less_induct)
  case less
  have inv: "heap_inv own (allocs h) (releases h) h" using less.prems(1) by (simp add: at_rest_def)
  note ca = classActive_ok [OF inv less.prems(3)]
  obtain es1 h1 where p1: "popRegion os (classActive h c) want h = (es1, h1)" by (cases "popRegion os (classActive h c) want h")
  obtain own1 where o1: "heap_inv own1 (allocs h) (releases h) h1" "popped h h1"
      "held own1 HandFree = held own HandFree \<union> entryOf ` set es1"
    using popRegion_inv [OF inv ca(1,2) p1] by blast
  have g1: "hpRegions h1 = hpRegions h" "regionClass h1 = regionClass h" using o1(2) by (auto simp: popped_def dest: geomD)
  have cc: "c = NoRegion \<or> c < hpRegions h1 \<and> regionClass h1 c = c" using ca(3,4) g1 by simp
  obtain es2 h2 where p2: "popRegions os WeavecRtRegionCount c c want h1 = (es2, h2)" by (cases "popRegions os WeavecRtRegionCount c c want h1")
  obtain own2 where o2: "heap_inv own2 (allocs h) (releases h) h2" "popped h1 h2"
      "held own2 HandFree = held own1 HandFree \<union> entryOf ` set es2"
    using popRegions_inv [OF o1(1) cc p2] by blast
  have p12: "popped h h2" by (rule popped_trans [OF o1(2) o2(2)])
  have g2: "hpRegions h2 < WeavecRtRegionCount" "c < hpClasses h2" using p12 less.prems(3,7) by (auto simp: popped_def dest: geomD)
  have a2: "at_rest own2 h2" using o2(1) heap_inv_allocs [OF p12] by (simp add: at_rest_def)
  have s2: "side_ok h2" using popped_kept [OF p12] less.prems(2) by (simp add: kept_def framed_def)
  show ?case
  proof (cases "es1 = [] \<and> es2 = []")
    case False
    then show ?thesis using less.prems(8) by (auto simp: popClass.simps p1 p2 split: if_splits)
  next
    case e: True
    have f2: "held own2 HandFree = {}" using less.prems(4) o1(3) o2(3) e by simp
    obtain b h3 where t: "takeSpare c h2 = (b, h3)" by (cases "takeSpare c h2")
    note ts = takeSpare_room [OF o2(1) g2(2,1) t]
    show ?thesis
    proof (cases "\<not> swept \<and> classGained h2 c \<ge> word_of_nat (clCapacity (hpTable h2 c)) * word_of_nat (clSize (hpTable h2 c)) div 4")
      case False
      then have "popClass os t c want swept h = popClass os t c want swept h3"
        using e ts(1) by (subst popClass.simps) (auto simp: p1 p2 t)
      then show ?thesis using popClass_room [OF less.prems(5) ts(2) less.prems(6)] less.prems(8) by metis
    next
      case True
      let ?h3 = "weavecRtSweep os t h2"
      have "popClass os t c want swept h = popClass os t c want True ?h3"
        using e True by (subst popClass.simps) (simp add: p1 p2)
      moreover obtain own3 where o3: "at_rest own3 ?h3" "hands own3 = hands own2" "kept h2 ?h3"
        using weavecRtSweep_inv [OF a2 s2, of os t] by blast
      moreover have "side_ok ?h3" "c < hpClasses ?h3" using o3(3) s2 g2(2) by (simp_all add: kept_def framed_def)
      moreover have "held own3 HandFree = {}" using o3(2) f2 by (simp add: hands_def)
      moreover have "hpRegions ?h3 < WeavecRtRegionCount" using weavecRtSweep_regions [OF a2 s2] g2(1) by simp
      ultimately show ?thesis using less.hyps [of True own3 ?h3] less.prems(5,6,8) True by auto
    qed
  qed
qed

subsection \<open>The calls\<close>

definition roomFor :: "heap \<Rightarrow> nat \<Rightarrow> bool" where
  "roomFor h c \<longleftrightarrow> hpRegions h < WeavecRtRegionCount \<or> room h (classActive h c)"

definition fills :: "heap \<Rightarrow> bool" where
  "fills h \<longleftrightarrow> (\<forall>t tc. cacheOf h t = HasCache tc \<longrightarrow> (\<forall>c < cachedClasses h. tcLimit tc c \<noteq> 0))"

lemma popClass_gets:
  assumes "at_rest own h" "side_ok h" "c < hpClasses h" "held own HandFree = {}" "grants os" "want \<noteq> 0" "roomFor h c"
    "popClass os t c want swept h = Some (es, h')"
  shows "es \<noteq> []"
  using assms popClass_spare popClass_room unfolding roomFor_def by blast

lemma fills_framed:
  assumes "fills h" "framed h h'"
  shows "fills h'"
  unfolding fills_def
proof (intro allI impI)
  fix t tc c
  assume c: "cacheOf h' t = HasCache tc" "c < cachedClasses h'"
  have cc: "cachedClasses h' = cachedClasses h" using assms(2) by (simp add: framed_def)
  show "tcLimit tc c \<noteq> 0"
  proof (cases "\<exists>tc0. cacheOf h t = HasCache tc0")
    case True
    then obtain tc0 where tc0: "cacheOf h t = HasCache tc0" by blast
    then have "nesting tc = nesting tc0" using assms(2) c(1) unfolding framed_def by (metis cache_value.inject)
    then show ?thesis using assms(1) tc0 c(2) cc by (auto simp: fills_def nesting_def)
  next
    case False
    then have "quietCache (cachedClasses h) tc" using assms(2) c(1) unfolding framed_def by blast
    then show ?thesis using c(2) cc by (simp add: quietCache_def)
  qed
qed

lemma enter_room: "quiet h \<Longrightarrow> fills (enter t h)" "roomFor (enter t h) c = roomFor h c" "hpClasses (enter t h) = hpClasses h"
  by (auto simp: fills_def quiet_def quietCache_def enter_def ownCache_def setCache_def roomFor_def room_def
      split: option.splits if_splits cache_value.splits)

lemma cacheFor_room: "cacheFor os t c h = (b, h') \<Longrightarrow> roomFor h' c = roomFor h c"
  by (auto simp: cacheFor_def threadCache_def makeCache_def setCache_def roomFor_def room_def
      split: if_splits cache_value.splits prod.splits)

lemma cachedAlloc_gets:
  assumes inv: "at_rest own h" and s: "side_ok h" and hc: "cacheOf h t = HasCache tc" and c: "c < cachedClasses h"
    and h0: "held own HandFree = {}" and sz: "unat sz < 2 ^ 30" and g: "grants os" "roomFor h c" "fills h"
    and r: "cachedAlloc os t c sz h = Some (b, h')"
  shows "b \<noteq> 0"
proof -
  obtain h1 own1 tc1 where f: "refill os t c h = Some h1" "at_rest own1 h1" "cacheOf h1 t = HasCache tc1"
    using refill_inv [OF inv s hc c h0] by blast
  have cc: "c < hpClasses h" using c inv by (simp add: at_rest_def heap_inv_def arena_ok_def)
  have "tcAlloc tc1 c \<noteq> []"
  proof (cases "tcAlloc tc c = []")
    case True
    have l: "tcLimit tc c \<noteq> 0" using g(3) hc c by (simp add: fills_def)
    obtain es h2 where p: "popClass os t c (tcLimit tc c) False h = Some (es, h2)" using f(1) True hc by (auto simp: refill_def split: option.splits)
    have "es \<noteq> []" by (rule popClass_gets [OF inv s cc h0 g(1) l g(2) p])
    moreover have "h1 = setCache t ((theCache (cacheOf h2 t))\<lparr>tcAlloc := (tcAlloc (theCache (cacheOf h2 t)))(c := rev es)\<rparr>) h2"
      using f(1) True hc p by (simp add: refill_def Let_def)
    ultimately show ?thesis using f(3) by (auto simp: setCache_def)
  next
    case False
    then show ?thesis using f(1,3) hc by (auto simp: refill_def)
  qed
  then have t: "takeCached os t c sz h1 = (b, h')" using r f by (simp add: cachedAlloc_def)
  show ?thesis using takeCached_new [OF f(2,3) \<open>tcAlloc tc1 c \<noteq> []\<close> sz t] newSlot_nonzero by blast
qed

lemma takeSlot_gets:
  assumes inv: "at_rest own h" and s: "side_ok h" and c: "c < hpClasses h" and h0: "held own HandFree = {}" and sz: "unat sz < 2 ^ 30"
    and g: "grants os" "roomFor h c" and r: "takeSlot os t c sz h = Some (b, h')"
  shows "b \<noteq> 0"
proof -
  obtain es h1 own1 where p: "popClass os t c 1 False h = Some (es, h1)" "at_rest own1 h1"
      "held own1 HandFree = entryOf ` set es" "\<forall>e \<in> set es. entryRegion e < hpRegions h1 \<and> regionClass h1 (entryRegion e) = c"
    using popClass_inv [OF inv s c h0, of os t 1 False] by blast
  have "es \<noteq> []" by (rule popClass_gets [OF inv s c h0 g(1) _ g(2) p(1)]) simp
  then obtain e es' where es: "es = e # es'" by (cases es) auto
  let ?h2 = "addLive (int (clSize (hpTable h1 c))) h1"
  have a2: "at_rest own1 ?h2" using p(2) entries_same [of ?h2 h1] by (simp add: at_rest_def)
  have mk: "makeLive os e sz (clSize (hpTable ?h2 c)) ?h2 = (b, h')" using r p(1) es by (simp add: takeSlot_def Let_def)
  have o: "own1 (entryRegion e) (entrySlot e) = Some HandFree" by (rule heldD [OF p(3)]) (simp add: es entryOf_def)
  have cl: "regionClass ?h2 (entryRegion e) = c" using p(4) es by simp
  show ?thesis using makeLive_new [OF a2 o sz cl mk] newSlot_nonzero by blast
qed

lemma allocate_gets:
  assumes inv: "at_rest own h" and s: "side_ok h" and h0: "hands own = ({}, {})" and ar: "hpBytes h \<noteq> 0"
    and c: "allocClass sz al = Some c" "c < hpClasses h" and g: "grants os" "roomFor h c" "fills h"
    and r: "allocate os t sz al h = Some (b, h')"
  shows "b \<noteq> 0"
proof -
  have sz: "unat sz < 2 ^ 30" using allocClass_fits(1) [OF c(1) class_sizes [OF inv c(2)]] class_sizes [OF inv c(2)] by simp
  have hf: "held own HandFree = {}" using h0 by (simp add: hands_def)
  obtain hit h1 where cf: "cacheFor os t c h = (hit, h1)" by (cases "cacheFor os t c h")
  note c1 = cacheFor_inv [OF inv cf]
  have k1: "kept h h1" and a1: "at_rest own h1" using c1 by blast+
  have f1: "framed h h1" using k1 by (simp add: kept_def)
  have s1: "side_ok h1" "c < hpClasses h1" "cachedClasses h1 = cachedClasses h" using f1 s c(2) by (auto simp: framed_def)
  note g1 = cacheFor_room [OF cf] fills_framed [OF g(3) f1]
  define slot where "slot = (if hit then cachedAlloc os t c sz h1 else takeSlot os t c sz h1)"
  have e: "allocate os t sz al h = (case slot of None \<Rightarrow> None
     | Some (block, h) \<Rightarrow> if block \<noteq> 0 then Some (block, h)
         else case hugeAlloc os sz al h of (None, h) \<Rightarrow> Some (0, h) | (Some b, h) \<Rightarrow> Some (b, h))"
    using ar c cf by (simp add: allocate_def slot_def)
  have n: "x \<noteq> 0" if "slot = Some (x, h2)" for x h2
  proof (cases hit)
    case True
    then obtain tc where "cacheOf h1 t = HasCache tc" "c < cachedClasses h1" using c1 s1(3) by auto
    then show ?thesis using cachedAlloc_gets [OF a1 s1(1) _ _ hf sz g(1) _ g1(2)] that True g(2) g1(1) by (auto simp: slot_def)
  next
    case False
    then show ?thesis using takeSlot_gets [OF a1 s1(1,2) hf sz g(1)] that g(2) g1(1) by (simp add: slot_def)
  qed
  show ?thesis using r n unfolding e by (auto split: option.splits if_splits)
qed

lemma alloc_gets:
  assumes ok: "heap_ok h" and al: "alignOk al" and mp: "mapsApart os h sz (hugeAlign h al)"
    and c: "allocClass sz al = Some c" "c < hpClasses h" and g: "grants os" "roomFor h c"
  shows "\<exists>b h'. weavec_rt_alloc os t sz al h = Some (Inr (b, h')) \<and> b \<noteq> 0 \<and> heap_ok h' \<and> newBlock h sz al h' b"
proof -
  obtain own where r: "heap_rest own h" "quiet h" using ok by (rule heap_okE)
  have re: "heap_rest own (enter t h)" using r(1) by (simp add: enter_rest)
  note d = heap_restD [OF re]
  obtain b h' where x: "weavec_rt_alloc os t sz al h = Some (Inr (b, h'))" "heap_ok h'"
      "if b = 0 then ownedSize h' = ownedSize h \<and> hpMem h' = hpMem h else newBlock h sz al h' b"
    using alloc_call [OF ok al mp, of t] by blast
  obtain h1 where "allocate os t sz al (enter t h) = Some (b, h1)"
    using x(1) holdsLock_quiet [OF r(2)] by (auto simp: weavec_rt_alloc_def split: option.splits sum.splits)
  then have "b \<noteq> 0" using allocate_gets [OF d(1,2,9,6) c(1) _ g(1) _ enter_room(1) [OF r(2)]] c(2) g(2) by (simp add: enter_room)
  then show ?thesis using x by auto
qed

end
