(* ===== verification/Allocator.thy ===== *)
theory Allocator
  imports Alloc_Progress
begin

text \<open>
  What the program may rely on: the properties of the allocator and of its sweep, each with an instance on
  the heap that \<open>weavecRtInitialize\<close> makes at a concrete start.
\<close>

subsection \<open>A concrete start\<close>

definition sampleStart :: startup where
  "sampleStart = \<lparr>suPage = 4096, suApple = False, suStack = 2 ^ 47 - 4096, suShadow = True, suArena = (\<lambda>_. Some (2 ^ 40)),
     suReadable = (\<lambda>_. True), suKey = False\<rparr>"

definition sampleSystem :: system where
  "sampleSystem = \<lparr>osProtect = (\<lambda>_ _. True), osCache = True, osHuge = None, osTable = True, osMarks = (\<lambda>_. True), osFresh = True,
     osShadowBase = 0, osNow = 0, osEnded = 0, osSweepLock = True, osWorld = True, osStopped = True, osScanned = True,
     osRoots = [], osNextFree = (\<lambda>_. False), osNextRealloc = (\<lambda>_ _. 0), osNextAlign = (\<lambda>_ _. 0), osNextSize = (\<lambda>_. 0)\<rparr>"

definition emptyShadow :: shadow_t where
  "emptyShadow = \<lparr>shMask = 0, shBits = 0, shMem = (\<lambda>_. 0)\<rparr>"

definition sampleHeap :: heap where
  "sampleHeap = snd (weavecRtInitialize sampleStart (staticHeap emptyShadow 0))"

lemma sample_start: "startOk sampleStart" "weavecRtInitialize sampleStart (staticHeap emptyShadow 0) = (True, sampleHeap)"
proof -
  show "startOk sampleStart" unfolding startOk_def arenaRoom_def sampleStart_def
    by (auto intro!: exI [of _ "12 :: nat"])
  have "fst (weavecRtInitialize sampleStart (staticHeap emptyShadow 0))"
    by (simp add: weavecRtInitialize_def Let_def reserve_def sampleStart_def staticHeap_def)
  then show "weavecRtInitialize sampleStart (staticHeap emptyShadow 0) = (True, sampleHeap)"
    by (simp add: sampleHeap_def prod_eq_iff)
qed

lemma sample_ok: "heap_ok sampleHeap" "ownedSize sampleHeap = (\<lambda>_. None)"
  using initialize_ok [OF sample_start] by simp_all

lemma sample_fields: "hpClasses sampleHeap = length (buildClasses 31)" "hpRegions sampleHeap = length (buildClasses 31)"
  "hpShift sampleHeap = 31" "pageBytes sampleHeap = 4096"
  by (simp_all add: sampleHeap_def weavecRtInitialize_def Let_def reserve_def sampleStart_def staticHeap_def)

lemma sample_room: "roomFor sampleHeap c" "hpRegions sampleHeap < WeavecRtRegionCount"
  using buildClasses_length [of 31] by (simp_all add: roomFor_def sample_fields)

lemma sample_maps: "mapsApart sampleSystem h sz al"
  by (simp add: mapsApart_def sampleSystem_def)

lemma sample_grants: "grants sampleSystem"
  by (simp add: grants_def sampleSystem_def)

lemma sample_class: "allocClass 100 0 = Some 6" "6 < hpClasses sampleHeap"
proof -
  show "6 < hpClasses sampleHeap" unfolding sample_fields by (rule buildClasses_has) (simp_all add: classSize_def)
  have "classFor 100 = 6" by (simp add: classFor_def)
  then show "allocClass 100 0 = Some 6" by (simp add: allocClass_def)
qed

text \<open>The heap after one allocation of 100 bytes.\<close>

definition sampleBlock :: u64 where
  "sampleBlock = (case weavec_rt_alloc sampleSystem 0 100 0 sampleHeap of Some (Inr (b, _)) \<Rightarrow> b | _ \<Rightarrow> 0)"

definition sampleUsed :: heap where
  "sampleUsed = (case weavec_rt_alloc sampleSystem 0 100 0 sampleHeap of Some (Inr (_, h)) \<Rightarrow> h | _ \<Rightarrow> sampleHeap)"

lemma sample_alloc:
  "weavec_rt_alloc sampleSystem 0 100 0 sampleHeap = Some (Inr (sampleBlock, sampleUsed))" "sampleBlock \<noteq> 0" "heap_ok sampleUsed"
  "ownedSize sampleUsed = [sampleBlock \<mapsto> 100]"
proof -
  have al: "alignOk 0" by (simp add: alignOk_def)
  obtain b h where x: "weavec_rt_alloc sampleSystem 0 100 0 sampleHeap = Some (Inr (b, h))" "b \<noteq> 0" "heap_ok h" "newBlock sampleHeap 100 0 h b"
    using alloc_gets [OF sample_ok(1) al sample_maps sample_class sample_grants sample_room(1), of 0] by blast
  have e: "sampleBlock = b" "sampleUsed = h" using x(1) by (simp_all add: sampleBlock_def sampleUsed_def)
  show "weavec_rt_alloc sampleSystem 0 100 0 sampleHeap = Some (Inr (sampleBlock, sampleUsed))" "sampleBlock \<noteq> 0" "heap_ok sampleUsed"
    "ownedSize sampleUsed = [sampleBlock \<mapsto> 100]"
    using x sample_ok(2) by (simp_all add: e newBlock_def)
qed

text \<open>The heap after its release.\<close>

definition sampleFreed :: heap where
  "sampleFreed = (case weavec_rt_free sampleSystem 0 sampleBlock sampleUsed of Inr h \<Rightarrow> h | Inl _ \<Rightarrow> sampleUsed)"

lemma sample_free:
  "weavec_rt_free sampleSystem 0 sampleBlock sampleUsed = Inr sampleFreed" "heap_ok sampleFreed" "ownedSize sampleFreed = (\<lambda>_. None)"
proof -
  obtain h where x: "weavec_rt_free sampleSystem 0 sampleBlock sampleUsed = Inr h" "heap_ok h"
      "ownedSize h = (ownedSize sampleUsed)(sampleBlock := None)"
    using free_owned [OF sample_alloc(3), of sampleBlock 100 sampleSystem 0] by (auto simp: sample_alloc(4))
  have e: "sampleFreed = h" using x(1) by (simp add: sampleFreed_def)
  show "weavec_rt_free sampleSystem 0 sampleBlock sampleUsed = Inr sampleFreed" "heap_ok sampleFreed" "ownedSize sampleFreed = (\<lambda>_. None)"
    using x by (simp_all add: e sample_alloc(4) fun_eq_iff)
qed

subsection \<open>What the search leaves and what a sweep frees\<close>

text \<open>The search gives up only when no spare region is left.\<close>

lemma popClass_exhausted: "popClass os t c want swept h = Some ([], h') \<Longrightarrow> WeavecRtRegionCount \<le> hpRegions h'"
proof -
  have "popClass os t c want swept h = Some r \<Longrightarrow> fst r = [] \<longrightarrow> WeavecRtRegionCount \<le> hpRegions (snd r)" for r
  proof (rule popClass.raw_induct [of "\<lambda>os t c want swept h r. fst r = [] \<longrightarrow> WeavecRtRegionCount \<le> hpRegions (snd r)"])
    fix f :: "system \<Rightarrow> nat \<Rightarrow> nat \<Rightarrow> nat \<Rightarrow> bool \<Rightarrow> heap \<Rightarrow> (u64 list \<times> heap) option" and os t c want swept h r
    assume ih: "\<And>os t c want swept h r. f os t c want swept h = Some r \<Longrightarrow> fst r = [] \<longrightarrow> WeavecRtRegionCount \<le> hpRegions (snd r)"
    assume e: "(case popRegion os (classActive h c) want h of (es, h) \<Rightarrow>
        if es \<noteq> [] then Some (es, h)
        else case popRegions os WeavecRtRegionCount c c want h of (es, h) \<Rightarrow>
          if es \<noteq> [] then Some (es, h)
          else if \<not> swept \<and> classGained h c \<ge> word_of_nat (clCapacity (hpTable h c)) * word_of_nat (clSize (hpTable h c)) div 4
          then f os t c want True (weavecRtSweep os t h)
          else case takeSpare c h of (spare, h) \<Rightarrow>
            if spare then f os t c want swept h
            else if swept then Some ([], h)
            else f os t c want True (weavecRtSweep os t h)) = Some r"
    obtain es h1 where p: "popRegion os (classActive h c) want h = (es, h1)" by (cases "popRegion os (classActive h c) want h")
    obtain es2 h2 where q: "popRegions os WeavecRtRegionCount c c want h1 = (es2, h2)" by (cases "popRegions os WeavecRtRegionCount c c want h1")
    obtain b h3 where s: "takeSpare c h2 = (b, h3)" by (cases "takeSpare c h2")
    have full: "\<not> b \<longrightarrow> WeavecRtRegionCount \<le> hpRegions h3" using s by (auto simp: takeSpare_def Let_def split: if_splits)
    show "fst r = [] \<longrightarrow> WeavecRtRegionCount \<le> hpRegions (snd r)"
      using e ih full by (auto simp: p q s split: if_splits)
  qed
  then show "popClass os t c want swept h = Some ([], h') \<Longrightarrow> WeavecRtRegionCount \<le> hpRegions h'" by fastforce
qed

lemma sweep_slots:
  assumes inv: "at_rest own h" and s: "side_ok h" and sc: "osScanned os" and sw: "sweepStopped os h = (True, h')"
  shows "r < hpRegions h \<Longrightarrow> queued h r q \<Longrightarrow>
      wordState (hpWords h' r q) = (if \<exists>v \<in> set (scanned os h). pointsTo h v r q then WeavecRtDead else WeavecRtFree)"
    "ownedSize h' = ownedSize h"
proof -
  have b: "marks_clear h" "blocks_ok h" using s by (simp_all add: side_blocks)
  note x = sweepStopped_exact [OF inv [unfolded at_rest_def] b(2,1) sw]
  have i: "heap_inv (sweptOwner os h own) (allocs h) (releases h) h'" using x(1) by simp
  have a: "at_rest (sweptOwner os h own) h'" using i entries_same [OF x(6)] by (simp add: at_rest_def)
  have k: "kept h h'" using sweepStopped_inv [OF inv s sw] by blast
  show "ownedSize h' = ownedSize h" by (rule ownedSize_settled [OF inv s a kept_settled [OF k]])
  assume r: "r < hpRegions h" and q: "queued h r q"
  note so = heap_inv_slots [OF at_rest_inv [OF inv] r]
  have d: "own r q = Some DeadList" using q slot_states(3) [OF so, of q] by (simp add: queued_def)
  have r': "r < hpRegions h'" using r geomD(5) [OF x(2)] by simp
  note so' = heap_inv_slots [OF i r']
  show "wordState (hpWords h' r q) = (if \<exists>v \<in> set (scanned os h). pointsTo h v r q then WeavecRtDead else WeavecRtFree)"
  proof (cases "\<exists>v \<in> set (scanned os h). pointsTo h v r q")
    case True
    then have "sweptOwner os h own r q = Some DeadList" using d by (simp add: sweptOwner_def)
    then show ?thesis using True slot_states(2) [OF so', of q] by simp
  next
    case False
    then have f: "sweptOwner os h own r q = Some FreeList" using d sc by (simp add: sweptOwner_def)
    then have "q < rsBump (hpRegion h' r)" using placed_bump [OF so'] by simp
    then have "word_ok (hpWords h' r q) (Some FreeList)" using so' f by (metis slots_ok_def)
    then show ?thesis using False by (simp add: word_ok_def)
  qed
qed

subsection \<open>Allocation and release\<close>

text \<open>
  C2: Every run of a program over the allocator from its start keeps the promise of \<open>malloc\<close>: the blocks
  the program owns are exactly what its calls returned and has not been released, each call's answer is
  legal (a new block is none of the program's and shares no byte with one, a release is of a block it
  owns), and the blocks the program owns never overlap. A run is any sequence of allocations, releases
  and reallocations by any threads, writes of the program and exits of threads; sweeps run inside.
\<close>

theorem heap_run_legal:
  assumes "startOk su" "weavecRtInitialize su (staticHeap sh budget) = (True, h)" "run heap_step h es h'"
  shows "legalRun es (\<lambda>_. None) \<and> ownedSize h' = fold effect es (\<lambda>_. None) \<and> apart (ownedSize h')"
  using alloc.run_ok [OF assms(3) initialize_ok(1) [OF assms(1,2)]] initialize_ok(2) [OF assms(1,2)] by metis

lemma sample_run: "run heap_step sampleHeap [Allocated sampleBlock 100] sampleUsed"
  "run heap_step sampleHeap [Allocated sampleBlock 100, Released sampleBlock] sampleFreed"
proof -
  have al: "alignOk 0" by (simp add: alignOk_def)
  have "heap_step sampleHeap (Allocated sampleBlock 100) sampleUsed"
    using heap_alloc [OF al sample_maps sample_alloc(1)] sample_alloc(2) by simp
  then show r: "run heap_step sampleHeap [Allocated sampleBlock 100] sampleUsed"
    using run_step [OF run_start] by fastforce
  have "heap_step sampleUsed (Released sampleBlock) sampleFreed"
    using heap_free [OF sample_free(1)] by (simp add: sample_alloc(4))
  then show "run heap_step sampleHeap [Allocated sampleBlock 100, Released sampleBlock] sampleFreed"
    using run_step [OF r] by fastforce
qed

theorem heap_run_legal_witness:
  "legalRun [Allocated sampleBlock 100, Released sampleBlock] (\<lambda>_. None) \<and> ownedSize sampleUsed = [sampleBlock \<mapsto> 100] \<and>
   ownedSize sampleFreed = (\<lambda>_. None)"
  using heap_run_legal [OF sample_start sample_run(1)] heap_run_legal [OF sample_start sample_run(2)] by (simp add: fun_eq_iff)

text \<open>
  C7: An allocation returns, and leaves the heap sound. It gives nothing and changes no block and no byte, or a
  block that is none of the program's, of the size asked for, aligned to 16 and to the alignment asked for,
  that overlaps no block; no byte outside it changes.
\<close>

theorem weavec_rt_alloc_exact:
  assumes "heap_ok h" "alignOk al" "mapsApart os h sz (hugeAlign h al)"
  shows "\<exists>b h'. weavec_rt_alloc os t sz al h = Some (Inr (b, h')) \<and> heap_ok h' \<and>
    (if b = 0 then ownedSize h' = ownedSize h \<and> hpMem h' = hpMem h else newBlock h sz al h' b)"
  by (rule alloc_call [OF assms])

theorem weavec_rt_alloc_exact_witness:
  "\<exists>b h'. weavec_rt_alloc sampleSystem 3 5000 64 sampleUsed = Some (Inr (b, h')) \<and> heap_ok h' \<and> hpMem h' sampleBlock = hpMem sampleUsed sampleBlock"
proof -
  have al: "alignOk 64" by (simp add: alignOk_def)
  obtain b h' where x: "weavec_rt_alloc sampleSystem 3 5000 64 sampleUsed = Some (Inr (b, h'))" "heap_ok h'"
      "if b = 0 then ownedSize h' = ownedSize sampleUsed \<and> hpMem h' = hpMem sampleUsed else newBlock sampleUsed 5000 64 h' b"
    using weavec_rt_alloc_exact [OF sample_alloc(3) al sample_maps, of 3] by blast
  have "hpMem h' sampleBlock = hpMem sampleUsed sampleBlock"
  proof (cases "b = 0")
    case False
    then have n: "within (hpMem sampleUsed) (hpMem h') b 5000"
        "\<forall>q k. ownedSize sampleUsed q = Some k \<longrightarrow> unat q + unat k \<le> unat b \<or> unat b + 5000 \<le> unat q"
      using x(3) by (simp_all add: newBlock_def)
    have "unat sampleBlock + 100 \<le> unat b \<or> unat b + 5000 \<le> unat sampleBlock" using n(2) sample_alloc(4) by force
    then show ?thesis using n(1) unfolding within_def by auto
  qed (use x(3) in simp)
  then show ?thesis using x by blast
qed

text \<open>
  C11: Where the system grants the pages it is asked for, a request of a class is answered with a block as
  long as a spare region is left or the region the class tries first has a free slot, whatever the sweeps in
  between recycle.
\<close>

theorem weavec_rt_alloc_progress:
  assumes "heap_ok h" "alignOk al" "mapsApart os h sz (hugeAlign h al)" "allocClass sz al = Some c" "c < hpClasses h"
    "grants os" "roomFor h c"
  shows "\<exists>b h'. weavec_rt_alloc os t sz al h = Some (Inr (b, h')) \<and> b \<noteq> 0 \<and> ownedSize h' = (ownedSize h)(b \<mapsto> sz)"
  using alloc_gets [OF assms] unfolding newBlock_def by blast

theorem weavec_rt_alloc_progress_witness:
  "\<exists>b h'. weavec_rt_alloc sampleSystem 7 100 0 sampleHeap = Some (Inr (b, h')) \<and> b \<noteq> 0 \<and> ownedSize h' = [b \<mapsto> 100]"
proof -
  have al: "alignOk 0" by (simp add: alignOk_def)
  show ?thesis
    using weavec_rt_alloc_progress [OF sample_ok(1) al sample_maps sample_class sample_grants sample_room(1), of 7]
    by (simp add: sample_ok(2))
qed

text \<open>
  C12: The search for slots of a class returns at most as many as it was asked for, and none only when every
  region of the arena is in use: each round sweeps for the first time, takes a spare region, or ends.
\<close>

theorem popClass_returns:
  assumes "at_rest own h" "side_ok h" "c < hpClasses h" "held own HandFree = {}"
  shows "\<exists>es h'. popClass os t c want swept h = Some (es, h') \<and> length es \<le> want \<and>
    (es = [] \<longrightarrow> WeavecRtRegionCount \<le> hpRegions h') \<and> liveMap h' = liveMap h"
  using popClass_inv [OF assms, of os t want swept] popClass_want popClass_exhausted unfolding kept_def by metis

theorem popClass_returns_witness:
  "\<exists>es h'. popClass sampleSystem 0 6 4 False sampleHeap = Some (es, h') \<and> length es \<le> 4"
proof -
  obtain own where "heap_rest own sampleHeap" using sample_ok(1) by (rule heap_okE)
  note d = heap_restD [OF this]
  show ?thesis using popClass_returns [OF d(1,2) sample_class(2) d(7), of sampleSystem 0 4 False] by blast
qed

text \<open>
  C8: A release of a block the program owns succeeds, ends its ownership of that block and of no other, and
  changes no byte of another block.
\<close>

theorem weavec_rt_free_exact:
  assumes "heap_ok h" "ownedSize h p = Some n"
  shows "\<exists>h'. weavec_rt_free os t p h = Inr h' \<and> heap_ok h' \<and> ownedSize h' = (ownedSize h)(p := None) \<and> contents_kept h h' p"
  by (rule free_owned [OF assms])

theorem weavec_rt_free_exact_witness:
  "\<exists>h'. weavec_rt_free sampleSystem 5 sampleBlock sampleUsed = Inr h' \<and> ownedSize h' sampleBlock = None"
  using weavec_rt_free_exact [OF sample_alloc(3), of sampleBlock 100 sampleSystem 5] by (auto simp: sample_alloc(4))

text \<open>
  C10: A release of anything else is reported with its reason, or handed to the next allocator when
  the address lies in no block of this one and that allocator takes it; then nothing changes.
\<close>

theorem weavec_rt_free_refused:
  assumes "heap_ok h" "p \<noteq> 0" "ownedSize h p = None"
  shows "if inArena h p then weavec_rt_free os t p h = Inl (InvalidRelease p (whyNotReleasable h p))
    else case hugeFind h p of
           Some b \<Rightarrow> weavec_rt_free os t p h =
             Inl (InvalidRelease p (if hbDead b \<noteq> 0 then ''the block was already released'' else ''not the start of its block''))
         | None \<Rightarrow>
             if osNextFree os p then \<exists>h'. weavec_rt_free os t p h = Inr h' \<and> heap_ok h' \<and> ownedSize h' = ownedSize h \<and> hpMem h' = hpMem h
             else weavec_rt_free os t p h = Inl (InvalidRelease p ''not a heap block'')"
  by (rule free_refused [OF assms])

theorem weavec_rt_free_refused_witness:
  "\<exists>why. weavec_rt_free sampleSystem 9 sampleBlock sampleFreed = Inl (InvalidRelease sampleBlock why)"
proof -
  have "ownedSize sampleFreed sampleBlock = None" by (simp add: sample_free(3))
  then show ?thesis
    using weavec_rt_free_refused [OF sample_free(2) sample_alloc(2), of sampleSystem 9]
    by (auto simp: sampleSystem_def split: if_splits option.splits)
qed

text \<open>
  C9: A reallocation of a block the program owns returns; it fails and changes nothing the program
  sees, or the new block has the new size and the first bytes of the old one, up to the smaller of the
  sizes, the old block is gone unless the block stayed in place, and every other block keeps its bytes.
\<close>

theorem weavec_rt_realloc_exact:
  assumes "heap_ok h" "ownedSize h p = Some old" "mapsApart os h sz (hugeAlign h 0)"
  shows "\<exists>q h'. weavec_rt_realloc os t p sz h = Some (Inr (q, h')) \<and> heap_ok h' \<and> reallocated h p old sz h' q"
  by (rule realloc_owned [OF assms])

theorem weavec_rt_realloc_exact_witness:
  "\<exists>q h'. weavec_rt_realloc sampleSystem 0 sampleBlock 5000 sampleUsed = Some (Inr (q, h')) \<and> (q = 0 \<or> ownedSize h' = [q \<mapsto> 5000])"
proof -
  have o: "ownedSize sampleUsed sampleBlock = Some 100" by (simp add: sample_alloc(4))
  obtain q h' where "weavec_rt_realloc sampleSystem 0 sampleBlock 5000 sampleUsed = Some (Inr (q, h'))"
      "reallocated sampleUsed sampleBlock 100 5000 h' q"
    using weavec_rt_realloc_exact [OF sample_alloc(3) o sample_maps, of 0] by blast
  then show ?thesis by (intro exI [of _ q] exI [of _ h']) (auto simp: reallocated_def sample_alloc(4))
qed

subsection \<open>The sweep\<close>

text \<open>
  C6: A sweep makes a released slot of the quarantine free exactly when none of the words it scanned, the roots
  and the contents of the blocks, holds an address inside the slot; the others stay in quarantine, and
  the blocks the program owns are the same.
\<close>

theorem sweepStopped_frees_unreachable:
  assumes "at_rest own h" "side_ok h" "osScanned os" "sweepStopped os h = (True, h')"
  shows "(\<forall>r < hpRegions h. \<forall>s. queued h r s \<longrightarrow>
      wordState (hpWords h' r s) = (if \<exists>v \<in> set (scanned os h). pointsTo h v r s then WeavecRtDead else WeavecRtFree)) \<and>
    ownedSize h' = ownedSize h"
  using sweep_slots [OF assms] by blast

text \<open>A heap with one slot in quarantine, and a root that points into it.\<close>

definition sampleDead :: heap where
  "sampleDead = sampleHeap\<lparr>hpRegion := (hpRegion sampleHeap)(0 := \<lparr>rsBump = 1, rsFreeHead = 0, rsDeadHead = 1, rsDeadTail = 1, rsMarks = None,
       rsCommitted = 2 ^ 20, rsMetaCommitted = 2 ^ 16\<rparr>),
     hpWords := (hpWords sampleHeap)(0 := (\<lambda>_. WeavecRtNever)(0 := WeavecRtDead))\<rparr>"

lemma sample_states: "hpRegion sampleHeap = (\<lambda>_. \<lparr>rsBump = 0, rsFreeHead = 0, rsDeadHead = 0, rsDeadTail = 0, rsMarks = None, rsCommitted = 0, rsMetaCommitted = 0\<rparr>)"
  "hpWords sampleHeap = (\<lambda>_ _. WeavecRtNever)" "cacheOf sampleHeap = (\<lambda>_. NoCache)" "hugeBlocks sampleHeap = []"
  by (simp_all add: sampleHeap_def weavecRtInitialize_def Let_def reserve_def sampleStart_def staticHeap_def)

lemma sample_rest: "at_rest (\<lambda>_ _. None) sampleHeap" "side_ok sampleHeap"
proof -
  obtain own where "heap_rest own sampleHeap" using sample_ok(1) by (rule heap_okE)
  note d = heap_restD [OF this]
  have "own r s = None" for r s
  proof (cases "r < hpRegions sampleHeap")
    case True
    show ?thesis
    proof (rule ccontr)
      assume "own r s \<noteq> None"
      then have "s < rsBump (hpRegion sampleHeap r)" using placed_bump [OF heap_inv_slots [OF at_rest_inv [OF d(1)] True]] by simp
      then show False by (simp add: sample_states)
    qed
  next
    case False
    then show ?thesis using placed_region [OF at_rest_inv [OF d(1)], of r s] by (cases "own r s") auto
  qed
  then have "own = (\<lambda>_ _. None)" by (simp add: fun_eq_iff)
  then show "at_rest (\<lambda>_ _. None) sampleHeap" "side_ok sampleHeap" using d(1,2) by simp_all
qed

lemma sample_capacity:
  assumes "r < hpRegions sampleHeap"
  shows "1 \<le> clCapacity (hpTable sampleHeap r)"
proof -
  note f = entry_ok_facts [OF arena_facts(5) [OF at_rest_inv [OF sample_rest(1)] assms]]
  have "16 \<le> clSize (hpTable sampleHeap r)" "clSize (hpTable sampleHeap r) \<le> 2 ^ 29"
    "clCapacity (hpTable sampleHeap r) = 2 ^ 31 div clSize (hpTable sampleHeap r)" using f by (simp_all add: sample_fields)
  then show ?thesis by (simp add: Suc_le_eq div_greater_zero_iff)
qed

lemma sample_dead: "at_rest (give (\<lambda>_ _. None) 0 0 (Some DeadList)) sampleDead" "side_ok sampleDead" "queued sampleDead 0 0"
proof -
  note inv = at_rest_inv [OF sample_rest(1)]
  have r: "0 < hpRegions sampleHeap" using sample_class(2) sample_fields(1,2) by linarith
  have "clCapacity (hpTable sampleHeap 0) \<le> 2 ^ 27" using heap_inv_slots [OF inv r] by (simp add: slots_ok_def)
  moreover have "1 \<le> clCapacity (hpTable sampleHeap 0)" by (rule sample_capacity [OF r])
  ultimately have so: "slots_ok (hpTable sampleHeap 0) (hpRegion sampleDead 0) (hpWords sampleDead 0) ((\<lambda>_. None)(0 := Some DeadList))"
    by (auto simp: slots_ok_def sampleDead_def word_ok_def wordState_def weavecRtWordValue_def)
  have "lists_ok (hpRegion sampleDead 0) (hpWords sampleDead 0) ((\<lambda>_. None)(0 := Some DeadList)) [] [0]"
    by (auto simp: lists_ok_def sampleDead_def wordState_def weavecRtWordValue_def)
  then have ok: "region_ok (hpTable sampleHeap 0) (hpRegion sampleDead 0) (hpWords sampleDead 0) ((\<lambda>_. None)(0 := Some DeadList))"
    using so unfolding region_ok_def by blast
  have l: "allocs sampleDead = allocs sampleHeap" "releases sampleDead = releases sampleHeap" using entries_same [of sampleDead sampleHeap] by (simp_all add: sampleDead_def)
  have "heap_inv (give (\<lambda>_ _. None) 0 0 (Some DeadList)) (allocs sampleHeap) (releases sampleHeap) sampleDead"
    by (rule heap_inv_give_plain [OF inv r _ _ _ ok]) (simp_all add: sampleDead_def geom_def cached_def)
  then show "at_rest (give (\<lambda>_ _. None) 0 0 (Some DeadList)) sampleDead" by (simp add: at_rest_def l)
  show "side_ok sampleDead" using sample_rest(2)
    by (auto simp: side_ok_def marks_clear_def huge_wf_def outside_arena_def threads_ok_def sampleDead_def)
  show "queued sampleDead 0 0" by (simp add: queued_def sampleDead_def wordState_def weavecRtWordValue_def)
qed

lemma prepare_granted: "osMarks os = (\<lambda>_. True) \<Longrightarrow> fst (prepareMarks os rs h)"
  by (induction rs arbitrary: h) (simp_all add: Let_def)

lemma sweep_granted:
  assumes "osMarks os = (\<lambda>_. True)" "osStopped os"
  shows "\<exists>h'. sweepStopped os h = (True, h')"
proof -
  obtain h1 where "weavecRtPrepareMarks os h = (True, h1)"
    using prepare_granted [OF assms(1), of "[0..<hpRegions h]" h] by (cases "weavecRtPrepareMarks os h") (simp add: weavecRtPrepareMarks_def)
  then show ?thesis using assms(2) by (simp add: sweepStopped_def)
qed

theorem sweepStopped_frees_unreachable_witness:
  "\<exists>h'. sweepStopped (sampleSystem\<lparr>osRoots := [slotBase sampleDead 0 0 + 3]\<rparr>) sampleDead = (True, h') \<and>
     wordState (hpWords h' 0 0) = WeavecRtDead"
proof -
  let ?os = "sampleSystem\<lparr>osRoots := [slotBase sampleDead 0 0 + 3]\<rparr>"
  obtain h' where h': "sweepStopped ?os sampleDead = (True, h')" using sweep_granted [of ?os sampleDead] by (auto simp: sampleSystem_def)
  note inv = at_rest_inv [OF sample_dead(1)]
  have "hpRegions sampleDead = hpRegions sampleHeap" by (simp add: sampleDead_def)
  then have r: "0 < hpRegions sampleDead" using sample_class(2) sample_fields(1,2) by linarith
  have b: "0 < rsBump (hpRegion sampleDead 0)" by (simp add: sampleDead_def)
  have "3 < clSize (hpTable sampleDead 0)" using slot_inside(2) [OF inv r b] by simp
  then have p: "pointsTo sampleDead (slotBase sampleDead 0 0 + 3) 0 0"
    using slotOf_slot [OF inv r b, of 3] by (simp add: pointsTo_def)
  have "osScanned ?os" by (simp add: sampleSystem_def)
  note t = sweepStopped_frees_unreachable [OF sample_dead(1,2) this h']
  have "slotBase sampleDead 0 0 + 3 \<in> set (scanned ?os sampleDead)" by (simp add: scanned_def)
  then have "wordState (hpWords h' 0 0) = WeavecRtDead" using t r sample_dead(3) p by metis
  then show ?thesis using h' by blast
qed

subsection \<open>The granule before a region\<close>

lemma shadowSet_keeps [simp]: "shadow_wf (weavecRtShadowSet s b n v) = shadow_wf s" "shBits (weavecRtShadowSet s b n v) = shBits s"
  by (simp_all add: weavecRtShadowSet_def)

lemma popFresh_shadow:
  assumes "popFresh os r h = (Some x, h')" "rsCommitted (hpRegion h r) = 0"
  shows "\<exists>s. hpShadow h' = weavecRtShadowSet s (regionStart h r - 16) 16 WeavecRtShadowHeapTail \<and> (shadow_wf (hpShadow h) \<longrightarrow> shadow_wf s) \<and>
    shBits s = shBits (hpShadow h)"
  using assms by (auto simp: popFresh_def Let_def shadowSet_def regionStart_def split: prod.splits bool.splits if_splits)

lemma regionStart_nat:
  assumes inv: "heap_inv own as rs h" and r: "r < hpRegions h"
  shows "unat (regionStart h r) = unat (hpBase h) + r * 2 ^ hpShift h"
proof -
  note a = arena_facts [OF inv r]
  have m: "r * 2 ^ hpShift h < 160 * (2 :: nat) ^ hpShift h" using a(2) by simp
  then have lt: "r * 2 ^ hpShift h < 2 ^ 63" using a(4) by linarith
  then have "unat (push_bit (hpShift h) (word_of_nat r) :: u64) = r * 2 ^ hpShift h"
    using a(1,2) unat_pow2 [of "hpShift h"] by (simp add: push_bit_eq_mult unat_word_ariths unsigned_of_nat take_bit_eq_mod)
  moreover have "unat (hpBase h) + r * 2 ^ hpShift h < 2 ^ 63" using a(4) m by linarith
  ultimately show ?thesis by (simp add: regionStart_def unat_word_ariths)
qed

text \<open>
  C37: With the first slot of a region, the 16 bytes before the region become inaccessible, whatever they belong
  to: also when they are the end of a live block in the last slot of the region before.
\<close>

theorem popFresh_guard_before:
  assumes "at_rest own h" "r < hpRegions h" "shadow_wf (hpShadow h)" "unat (hpBase h) + 160 * 2 ^ hpShift h \<le> 2 ^ shBits (hpShadow h)"
    and "rsCommitted (hpRegion h r) = 0" "popFresh os r h = (Some x, h')" "1 \<le> k" "k \<le> 16"
  shows "\<not> addressable (hpShadow h') (regionStart h r - word_of_nat k)"
proof -
  note inv = at_rest_inv [OF assms(1)]
  note a = arena_facts [OF inv assms(2)]
  let ?x = "regionStart h r"
  obtain s where s: "hpShadow h' = weavecRtShadowSet s (?x - 16) 16 WeavecRtShadowHeapTail" "shadow_wf s" "shBits s = shBits (hpShadow h)"
    using popFresh_shadow [OF assms(6,5)] assms(3) by blast
  have x: "unat ?x = unat (hpBase h) + r * 2 ^ hpShift h" by (rule regionStart_nat [OF inv assms(2)])
  have "4 \<le> hpShift h" using inv by (auto simp: heap_inv_def arena_ok_def)
  then have "(16 :: nat) dvd 2 ^ hpShift h" using le_imp_power_dvd [of 4 "hpShift h" "2 :: nat"] by simp
  then have d: "16 dvd unat ?x" using a(3) unfolding x by (meson dvd_add dvd_trans dvd_mult)
  have m: "r * 2 ^ hpShift h \<le> 160 * (2 :: nat) ^ hpShift h" using a(2) by simp
  have "0 < unat ?x" using a(7) unfolding x by simp
  then have "16 \<le> unat ?x" using d by (auto dest: dvd_imp_le)
  moreover have "unat ?x \<le> 2 ^ shBits s" using m assms(4) unfolding s(3) x by linarith
  ultimately have b: "16 \<le> unat ?x" "unat ?x \<le> 2 ^ shBits s" .
  have n: "unat (?x - 16) = unat ?x - 16" "unat (?x - word_of_nat k) = unat ?x - k"
    using b assms(7,8) by (simp_all add: unat_sub_if' unsigned_of_nat take_bit_nat_eq_self word_le_nat_alt)
  obtain g where g: "unat ?x = 16 * g" using d by (elim dvdE)
  have "shadowByte (hpShadow h') (?x - word_of_nat k) = WeavecRtShadowHeapTail"
  proof -
    have "shadowByte (hpShadow h') (?x - word_of_nat k) =
      (if unat (?x - 16) div 16 \<le> unat (?x - word_of_nat k) div 16 \<and>
          unat (?x - word_of_nat k) div 16 < unat (?x - 16) div 16 + (unat (16 :: u64) + 15) div 16
       then WeavecRtShadowHeapTail else shadowByte s (?x - word_of_nat k))"
      unfolding s(1) by (rule shadowSet_byte [OF s(2)]) (use n b assms(7) in auto)
    moreover have "(16 * g - k) div 16 = g - 1" using assms(7,8) b(1) g by (cases g) auto
    ultimately show ?thesis using n g b(1) by auto
  qed
  then show ?thesis by (simp add: addressable_def not_byte_ok_poison weavecRtShadowPoison_def)
qed

lemma sample_window: "shadow_wf (hpShadow sampleHeap)" "unat (hpBase sampleHeap) + 160 * 2 ^ hpShift sampleHeap \<le> 2 ^ shBits (hpShadow sampleHeap)"
proof -
  have b: "shBits (hpShadow sampleHeap) = windowBits False (2 ^ 47 - 4096)" "shMask (hpShadow sampleHeap) = push_bit (windowBits False (2 ^ 47 - 4096) - 4) 1 - 1"
    "hpBase sampleHeap = (2 ^ 40 + 16 + push_bit 31 1 - 1) AND NOT (push_bit 31 1 - 1)"
    by (simp_all add: sampleHeap_def weavecRtInitialize_def Let_def reserve_def sampleStart_def staticHeap_def reserveShadow_def emptyShadow_def)
  have w: "windowBits False (2 ^ 47 - 4096) = 47" by (simp add: windowBits_def)
  show "shadow_wf (hpShadow sampleHeap)" unfolding shadow_wf_def b w by (simp add: push_bit_eq_mult)
  have s: "hpBase sampleHeap = 1101659111424" unfolding b(3) by simp
  show "unat (hpBase sampleHeap) + 160 * 2 ^ hpShift sampleHeap \<le> 2 ^ shBits (hpShadow sampleHeap)"
    unfolding b(1) w s sample_fields by simp
qed

theorem popFresh_guard_before_witness:
  "\<exists>x h'. popFresh sampleSystem 1 sampleHeap = (Some x, h') \<and> \<not> addressable (hpShadow h') (regionStart sampleHeap 1 - 1)"
proof -
  have r: "1 < hpRegions sampleHeap" using sample_class(2) sample_fields(1,2) by linarith
  have z: "rsFreeHead (hpRegion sampleHeap 1) = 0" "rsCommitted (hpRegion sampleHeap 1) = 0" by (simp_all add: sample_states)
  have "room sampleHeap 1" using sample_capacity [OF r] by (simp add: room_def sample_states)
  then have "fst (popFresh sampleSystem 1 sampleHeap) \<noteq> None"
    using popSlot_room [OF sample_grants, of sampleHeap 1] z(1) by (simp add: popSlot_def)
  then obtain x h' where p: "popFresh sampleSystem 1 sampleHeap = (Some x, h')" by (cases "popFresh sampleSystem 1 sampleHeap") auto
  then show ?thesis
    using popFresh_guard_before [OF sample_rest(1) r sample_window z(2) p, of 1] by simp
qed

end
