(* ===== verification/Spec2Isabelle.thy ===== *)
theory Spec2Isabelle
  imports Shadow_Write Guard_Runtime Inline_Guard Shadow_Runs Frame_Layout Dominated Merged Escapes Scopes Strings
    Lib_Eval Lib_Parse Lib_Table Library_Calls Ledger Driver Allocator
begin

text \<open>
  WeaveC is a C compiler driver on top of Clang and LLVM that makes memory errors of C programs fail
  at the access. A pass over LLVM's IR puts a guard before every access it cannot prove in bounds; a
  runtime library keeps one shadow byte for every 16 bytes of the program's memory and decides the
  guards that the inline code cannot. This development models the decisions of both and proves that
  they agree on one byte-level meaning of the shadow.

  \<^bold>\<open>The parts and how they meet.\<close> The driver (\<open>lib/Frontend/Driver.cpp\<close>) turns a command line
  into Clang jobs and gives each compile job the options of the invocation. In a compile job the guard
  pass runs: \<open>GuardFrames.cpp\<close> lays out the locals of a function in one frame with redzones and
  writes its shadow, \<open>GuardLibrary.cpp\<close> guards the calls of C library functions from the rows of
  the table that \<open>lib/Core/LibrarySpec.cpp\<close> parses, \<open>GuardExpand.cpp\<close> drops and merges guards
  by its rules and \<open>GuardPass.cpp\<close> emits the checks that are left. The emitted code reads the shadow and
  calls the entry points of \<open>runtime/weavec_guard.c\<close>; the shadow is written by
  \<open>runtime/weavec_alloc.c\<close>, by the frames and by the registration of globals. \<open>weavec_alloc.c\<close> is
  also the program's heap: released slots wait in a quarantine until a sweep (\<open>weavec_sweep.c\<close>) finds no
  pointer to them. The ledger
  (\<open>EnforcementLedger.cpp\<close>) records what became of each access, and ranges that the program annotates
  (\<open>UnsafeRegions.cpp\<close>) are left unguarded.

  \<^bold>\<open>Theories.\<close>

    \<^item> \<open>Prelude\<close>: machine integers, little-endian loads, alignment; the interface \<open>string_scan\<close>.

    \<^item> \<open>Shadow\<close> (\<open>weavec_rt.h\<close>): the encoding of a shadow byte, the descriptor, the chunk check
      \<open>weavecRtQuickOk\<close>. \<open>addressable s a\<close> is the meaning of the shadow for one byte of the
      program, \<open>shadow_wf\<close> the invariant of the descriptor. The interface \<open>range_check\<close> is what a
      decision of a range promises; it is interpreted on the chunk check (\<open>quick\<close>), on the runtime's
      \<open>allAddressable\<close> (\<open>whole\<close>) and on the emitted range check (\<open>inline\<close>).

    \<^item> \<open>Shadow_Write\<close> (\<open>weavec_alloc.c\<close>): \<open>fill\<close>, \<open>weavecRtShadowSet\<close>, \<open>weavecRtShadowObject\<close>,
      \<open>weavecRtShadowClear\<close>, \<open>reserveShadow\<close>, and which bytes are addressable after each.

    \<^item> \<open>Guard_Runtime\<close>, \<open>Strings\<close> (\<open>weavec_guard.c\<close>): the slow path (\<open>settle\<close>,
      \<open>firstUnaddressable\<close>, \<open>failAt\<close>, \<open>jumpKind\<close>), the entry points and the string guard. A report is
      a value; \<open>firstUnaddressable\<close> gives the least byte that is not accessible. \<open>Strings\<close> interprets
      \<open>string_scan\<close> on \<open>__weavec_rt_strlen\<close>.

    \<^item> \<open>Inline_Guard\<close> (\<open>GuardPass.cpp\<close>): the emitted checks by what they do when they run.
      \<open>runCalls\<close> composes them with the runtime: a guard reports exactly when a byte of the access must not
      be touched.

    \<^item> \<open>Shadow_Runs\<close> (\<open>GuardPassImpl.h\<close>, \<open>GuardPass.cpp\<close>, \<open>weavec_guard.c\<close>): runs of shadow, the
      packed stores that write them, the registration of globals, colors.

    \<^item> \<open>Frame_Layout\<close> (\<open>GuardFrames.cpp\<close>): the layout of a frame, its shadow at entry, at the
      starts and ends of scopes and at exit; a frame's run is a sequence of such steps, and the shadow is
      right at every moment.

    \<^item> \<open>Access_Rules\<close>, \<open>Dominated\<close>, \<open>Merged\<close>, \<open>Escapes\<close> (\<open>GuardExpand.cpp\<close>): the accesses, the
      rules 6.1 to 6.3 and the escape analysis. Executions are paths of an inductive relation; a guard is
      dropped or merged only where a guard that stays covers its bytes on every path.

    \<^item> \<open>Scopes\<close> (\<open>GuardPass.cpp\<close>): the exact size of an object, the scope analysis, field limits.

    \<^item> \<open>Lib_Term\<close>, \<open>Lib_Eval\<close>, \<open>Lib_Parse\<close>, \<open>Lib_Spec\<close>, \<open>Lib_Table\<close>
      (\<open>LibrarySpec.h\<close>, \<open>LibrarySpec.cpp\<close>): the terms of the table with their printing, evaluation and
      parsing, the parser of the table with its messages, the checks of a row and the lookup.

    \<^item> \<open>Library_Calls\<close> (\<open>GuardLibrary.cpp\<close>): what a library call becomes: the guards of its
      arguments, scans, operands and formats, a redirected call or a value, in the early and the late pass.
      The value the emitted code computes for a term is related to \<open>math_value\<close> of \<open>Lib_Eval\<close> in
      \<open>context string_scan\<close>.

    \<^item> \<open>Ledger\<close> (\<open>EnforcementLedger.cpp\<close>, \<open>UnsafeRegions.cpp\<close>), \<open>Driver\<close> (\<open>Driver.cpp\<close>).

    \<^item> The allocator (\<open>weavec_alloc.c\<close>). \<open>Alloc_Classes\<close>: the size classes and the slot of an
      offset. \<open>Alloc_State\<close>: the state \<open>heap\<close> (regions, slot words, thread caches, the table of huge
      blocks, the counters, the shadow and the memory) and its steps on slots and caches. \<open>Alloc_Huge\<close>:
      blocks mapped on their own. \<open>Alloc_Sweep\<close> (also \<open>weavec_sweep.c\<close>): marking, recycling, when a sweep
      runs. \<open>Alloc\<close>: the entry points \<open>__weavec_rt_alloc\<close>, \<open>__weavec_rt_free\<close>,
      \<open>__weavec_rt_realloc\<close>, nested calls, the child of a fork. \<open>Alloc_Start\<close>: \<open>weavecRtInitialize\<close>.

    \<^item> The allocator's lemmas. \<open>Alloc_Lists\<close>: the lists threaded through the slot words.
      \<open>Alloc_Inv\<close>, \<open>Alloc_Steps\<close>: the invariant \<open>heap_inv own as rs h\<close>, in which an owner function
      \<open>own\<close> says where each slot is that is not live (a list, a cache, in a hand), and its preservation by
      every step. \<open>Alloc_Recycle\<close>: a sweep against the words it scans. \<open>Alloc_Calls\<close>, \<open>Alloc_Entry\<close>,
      \<open>Alloc_Blocks\<close>, \<open>Alloc_Ops\<close>: the search for slots, caches, huge blocks and \<open>allocate\<close>.
      \<open>Alloc_Release\<close>, \<open>Alloc_Owned\<close>, \<open>Alloc_Free\<close>: release, and the abstraction \<open>ownedSize\<close> of a
      heap to the blocks the program owns. \<open>Alloc_Heap\<close>, \<open>Alloc_Api\<close>, \<open>Alloc_Realloc\<close>: the state
      between calls (\<open>heap_ok\<close>) and what each entry point does to the owned blocks and to memory.
      \<open>Alloc_Progress\<close>: when an allocation must succeed. \<open>Alloc_Run\<close>: the interface \<open>block_store\<close>, the
      contract of an allocator and what follows for every run, interpreted on \<open>heap_ok\<close>,
      \<open>ownedSize\<close> and \<open>heap_step\<close>. \<open>Allocator\<close>: the properties, on a concrete start.

  \<^bold>\<open>Conventions.\<close> Words keep their width (\<open>u64\<close>, \<open>byte\<close>) where the code wraps; \<open>std::int64_t\<close>
  values are integers with their range, and signed overflow is a result of its own. An exception or a
  message is a value of a sum. Loops whose end depends on data are \<open>partial_function (option)\<close>
  (\<open>skipEight\<close>, \<open>scanGranules\<close>, \<open>sweeps\<close>, \<open>escapesLoop\<close>, \<open>deadLoop\<close>, \<open>untilZero\<close>,
  \<open>popClass\<close>), and that they return is proved. What the operating system answers to the allocator in one
  call is a record \<open>system\<close>: whether pages are granted, where a mapping lies, the clock, the words a
  sweep finds outside the heap. A call of the allocator is one step: a lock and the code it guards
  are not interleaved with another thread's. The recursive-descent reader of terms counts down \<open>term_fuel\<close>, four for each
  character of the text and some more, which \<open>Lib_Parse\<close> shows to be enough for every text. What
  LLVM's analyses answer, the host and Clang's own driver are arguments.

  \<^bold>\<open>Not modelled.\<close> How a sweep stops the threads and reads the memory maps (the rest of
  \<open>weavec_sweep.c\<close>): this rests on the operating system, and the words it finds are an argument. The
  interleaving of threads inside the allocator's calls; the child of a fork is defined, and no property is
  stated of it. The wrappers of the C library (\<open>weavec_libc.c\<close>), the entry points of \<open>malloc\<close> and of
  the ASan interface over the allocator, the text of reports, which instructions get a marker
  (\<open>GuardInsert.cpp\<close>), the loop guards, which rest on scalar evolution (\<open>GuardLoops.cpp\<close>), the padding
  of globals (\<open>GuardGlobals.cpp\<close>), the choice of a root for the color check, the walk over Clang's syntax
  tree for annotated ranges, and the JSON text of the ledger. The thunks of \<open>GuardLibrary.cpp\<close> only
  rewrite uses.
\<close>

subsection \<open>The emitted code and the runtime's string guard\<close>

text \<open>
  C22: The code the pass emits for a term of the table computes the term's value, or the
  largest 64-bit number when the value is not less: products and sums saturate instead of
  wrapping, and the runtime's string guard, asked with the bound of the \<open>min\<close> around it, changes
  nothing. So no guard of a library call covers fewer bytes than its row says because of an
  overflow. Assumed of the call: its leaves are its integer arguments and the zero-terminated
  strings in the window; of the term: nothing is negative, numbers are taken from and divided only
  where the operand fits in 64 bits, and not between a bounded scan and its \<open>min\<close>.
\<close>

theorem libEvaluate_saturates:
  assumes "lcStrlen lc = rtLength e s m" "\<not> eWide (lcEntry lc)" "integer_leaves lc vs"
    "string_leaves (stringAt s m) lc vs" "values_fit vs t" "scans_ok False t" "math_value vs t = Some x"
  shows "\<exists>gs n c. libEvaluate lc t None = (gs, Some (n, c)) \<and> uint n = min u64_max x"
  by (rule rt.libEvaluate_scan [OF assms])

definition sample_memory :: "u64 \<Rightarrow> byte" where
  "sample_memory a = (if a = 66 then 0 else 65)"

definition sample_shadow :: shadow_t where
  "sample_shadow = \<lparr>shMask = 15, shBits = 8, shMem = (\<lambda>_. 9)\<rparr>"

definition sample_env :: rt_env where
  "sample_env = \<lparr>stackTop = 0, stackBottom = 0, here = 0, aarch64 = False, stackLostColors = False,
     heapObjectAt = (\<lambda>_. \<lparr>hoFound = False, hoLive = False, hoBase = 0, hoSize = 0\<rparr>)\<rparr>"

definition sample_call :: lib_call where
  "sample_call = \<lparr>lcMatch = \<lparr>mEntry = Some emptyEntry, mAlias = None\<rparr>, lcEntry = emptyEntry,
     lcArgs = [IntArg 64 (2 ^ 33) False, IntArg 64 (2 ^ 33) False, PtrArg 64 None True False],
     lcWchar = 4, lcFieldLimit = (\<lambda>_. None),
     lcStrlen = rtLength sample_env sample_shadow sample_memory, lcWcslen = (\<lambda>p b. 0)\<rparr>"

theorem libEvaluate_saturates_witness:
  "\<exists>gs n c. libEvaluate sample_call
     (Sum (Product (Argument 0) (Argument 1)) (Min (Argument 0) (Sum (StringLength 2) (Constant 1)))) None =
       (gs, Some (n, c)) \<and> uint n = u64_max"
proof -
  let ?vs = "\<lparr>vArgument = Some (\<lambda>i. if i < 2 then Some (2 ^ 33) else None),
    vStringLength = Some (\<lambda>i. if i = 2 then Some 2 else None)\<rparr>"
  have a: "Library_Calls.argument sample_call i = Some (IntArg 64 (2 ^ 33) False)" if "i < 2" for i
    using that by (auto simp: sample_call_def Library_Calls.argument_def callArgument_def less_2_cases_iff)
  have p: "Library_Calls.argument sample_call 2 = Some (PtrArg 64 None True False)"
    by (simp add: sample_call_def Library_Calls.argument_def callArgument_def)
  have "stringAt sample_shadow sample_memory 64 2"
    by (auto simp: stringAt_def sample_shadow_def sample_memory_def shadow_wf_def less_2_cases_iff)
  then have leaves: "integer_leaves sample_call ?vs" "string_leaves (stringAt sample_shadow sample_memory) sample_call ?vs"
    using a p by (auto simp: integer_leaves_def string_leaves_def sextOrTrunc_def split: if_splits)
  have "lcStrlen sample_call = rtLength sample_env sample_shadow sample_memory" "\<not> eWide (lcEntry sample_call)"
    by (simp_all add: sample_call_def emptyEntry_def)
  then show ?thesis
    using libEvaluate_saturates [OF _ _ leaves,
      of sample_env "Sum (Product (Argument 0) (Argument 1)) (Min (Argument 0) (Sum (StringLength 2) (Constant 1)))" "2 ^ 66 + 3"]
    by (simp del: libEvaluate.simps)
qed

end
